(* ===== verification/Prelude.thy ===== *)
theory Prelude
  imports Main "HOL-Library.Word" "HOL-Library.Signed_Division"
begin

text \<open>
  The prelude of the development: the machine types, the outcome of code that can panic or
  loop for ever, the circular-buffer abstraction that the thread pool (threadpool.c) and the
  kernel pipe (pipe.c) share together with the bounded-queue contract both are proved to meet,
  and linked lists threaded through an array or a memory, used by the page allocator (kalloc.c)
  and by the per-process list of mappings (wmap.c).
\<close>

unbundle bit_operations_syntax

subsection \<open>Machine types\<close>

type_synonym byte = "8 word"
type_synonym u32 = "32 word"
type_synonym u64 = "64 word"

text \<open>The truncating division of C on operands that are not negative.\<close>

lemma smod_pos: "0 \<le> a \<Longrightarrow> 0 < b \<Longrightarrow> a smod b = a mod (b :: int)"
  by (simp add: signed_modulo_int_def sgn_if)

lemma sdiv_pos: "0 \<le> a \<Longrightarrow> 0 < b \<Longrightarrow> a sdiv b = a div (b :: int)"
  by (simp add: signed_divide_int_def sgn_if)

subsection \<open>Outcomes\<close>

text \<open>
  Kernel code returns, panics, or never returns. \<open>Panic\<close> carries the message the source
  passes to \<^verbatim>\<open>panic()\<close>; \<open>Diverge\<close> is a loop that does not end.
\<close>

datatype 'a outcome = Ret 'a | Panic string | Diverge

primrec obind :: "'a outcome \<Rightarrow> ('a \<Rightarrow> 'b outcome) \<Rightarrow> 'b outcome" where
  "obind (Ret x) f = f x"
| "obind (Panic msg) f = Panic msg"
| "obind Diverge f = Diverge"

lemma obind_eq_Ret_iff: "obind m f = Ret y \<longleftrightarrow> (\<exists>x. m = Ret x \<and> f x = Ret y)"
  by (cases m) auto

lemma obind_RetE [elim!]:
  assumes "obind m f = Ret y"
  obtains x where "m = Ret x" and "f x = Ret y"
  using assms by (auto simp: obind_eq_Ret_iff)

lemma obind_assoc: "obind (obind m f) g = obind m (\<lambda>x. obind (f x) g)"
  by (cases m) auto

lemma obind_Ret_right [simp]: "obind m Ret = m"
  by (cases m) auto

lemma obind_cong [fundef_cong]:
  "m = m' \<Longrightarrow> (\<And>x. m' = Ret x \<Longrightarrow> f x = g x) \<Longrightarrow> obind m f = obind m' g"
  by (cases m') auto

subsection \<open>Circular buffers\<close>

text \<open>
  \<open>ring q h n\<close> lists the \<open>n\<close> elements stored in the array \<open>q\<close> from index \<open>h\<close>
  on, indices taken modulo the length of the array.
\<close>

definition ring :: "'a list \<Rightarrow> nat \<Rightarrow> nat \<Rightarrow> 'a list" where
  "ring q h n = map (\<lambda>i. q ! ((h + i) mod length q)) [0..<n]"

lemma length_ring [simp]: "length (ring q h n) = n"
  by (simp add: ring_def)

lemma ring_0 [simp]: "ring q h 0 = []"
  by (simp add: ring_def)

lemma ring_mod [simp]: "ring q (h mod length q) n = ring q h n"
  by (simp add: ring_def mod_add_left_eq)

lemma upt_0_Suc: "[0..<Suc n] = 0 # map Suc [0..<n]"
  by (simp add: map_Suc_upt upt_conv_Cons)

lemma ring_pop: "0 < n \<Longrightarrow> ring q h n = q ! (h mod length q) # ring q (Suc h) (n - 1)"
proof -
  assume "0 < n"
  then obtain m where n: "n = Suc m" by (cases n) auto
  then show ?thesis by (simp add: ring_def upt_0_Suc del: upt_Suc)
qed

lemma ring_slots_differ:
  fixes h i n k :: nat
  assumes "i < n" and "n < k"
  shows "(h + i) mod k \<noteq> (h + n) mod k"
proof
  assume eq: "(h + i) mod k = (h + n) mod k"
  then have "k dvd (h + n) - (h + i)"
    using assms mod_eq_dvd_iff_nat[of "h + i" "h + n" k] by simp
  moreover have "(h + n) - (h + i) = n - i" using assms by simp
  ultimately have "k \<le> n - i" using assms by (simp add: dvd_imp_le)
  then show False using assms by simp
qed

lemma ring_push:
  assumes "n < length q"
  shows "ring (q[(h + n) mod length q := x]) h (Suc n) = ring q h n @ [x]"
proof -
  have k: "0 < length q" using assms by linarith
  have "map (\<lambda>i. q[(h + n) mod length q := x] ! ((h + i) mod length q)) [0..<n]
      = map (\<lambda>i. q ! ((h + i) mod length q)) [0..<n]"
    using assms by (auto simp: ring_slots_differ[symmetric])
  then show ?thesis using k by (simp add: ring_def)
qed

subsection \<open>Sums over an array with one cell changed\<close>

lemma sum_list_map_update:
  fixes f :: "'a \<Rightarrow> 'b :: comm_monoid_add"
  assumes "i < length xs"
  shows "sum_list (map f (xs[i := y])) + f (xs ! i) = sum_list (map f xs) + f y"
proof -
  have "xs = take i xs @ xs ! i # drop (Suc i) xs"
    using assms by (rule id_take_nth_drop)
  then have "sum_list (map f xs) = sum_list (map f (take i xs)) + f (xs ! i) + sum_list (map f (drop (Suc i) xs))"
    by (metis add.assoc list.simps(9) map_append sum_list.Cons sum_list_append)
  then show ?thesis
    using assms by (simp add: upd_conv_take_nth_drop ac_simps)
qed

text \<open>The number of cells that satisfy a predicate.\<close>

definition count_if :: "('a \<Rightarrow> bool) \<Rightarrow> 'a list \<Rightarrow> nat" where
  "count_if P xs = sum_list (map (\<lambda>x. if P x then 1 else 0) xs)"

lemma count_if_update:
  assumes "i < length xs"
  shows "count_if P (xs[i := y]) + (if P (xs ! i) then 1 else 0) = count_if P xs + (if P y then 1 else 0)"
  unfolding count_if_def using assms by (rule sum_list_map_update)

lemma count_if_0_iff: "count_if P xs = 0 \<longleftrightarrow> (\<forall>x\<in>set xs. \<not> P x)"
  by (auto simp: count_if_def)

lemma count_if_pos_iff: "0 < count_if P xs \<longleftrightarrow> (\<exists>x\<in>set xs. P x)"
  using count_if_0_iff[of P xs] by auto

subsection \<open>The contract of a bounded first-in first-out queue\<close>

text \<open>
  What a circular buffer promises to its clients: \<open>put\<close> appends to the contents while there
  is room, \<open>get\<close> takes the oldest element, and both keep the invariant and the capacity.
\<close>

locale bounded_fifo =
  fixes cap :: "'q \<Rightarrow> nat"
    and put :: "'a \<Rightarrow> 'q \<Rightarrow> 'q"
    and get :: "'q \<Rightarrow> 'a \<times> 'q"
    and contents :: "'q \<Rightarrow> 'a list"
    and inv :: "'q \<Rightarrow> bool"
  assumes inv_bound: "inv q \<Longrightarrow> length (contents q) \<le> cap q"
    and put_contents: "inv q \<Longrightarrow> length (contents q) < cap q \<Longrightarrow> contents (put x q) = contents q @ [x]"
    and put_inv: "inv q \<Longrightarrow> length (contents q) < cap q \<Longrightarrow> inv (put x q)"
    and put_cap: "cap (put x q) = cap q"
    and get_contents: "inv q \<Longrightarrow> contents q \<noteq> [] \<Longrightarrow> contents q = fst (get q) # contents (snd (get q))"
    and get_inv: "inv q \<Longrightarrow> contents q \<noteq> [] \<Longrightarrow> inv (snd (get q))"
    and get_cap: "cap (snd (get q)) = cap q"
begin

primrec put_all :: "'a list \<Rightarrow> 'q \<Rightarrow> 'q" where
  "put_all [] q = q"
| "put_all (x # xs) q = put_all xs (put x q)"

primrec get_n :: "nat \<Rightarrow> 'q \<Rightarrow> 'a list \<times> 'q" where
  "get_n 0 q = ([], q)"
| "get_n (Suc n) q = (let (x, q1) = get q; (xs, q2) = get_n n q1 in (x # xs, q2))"

lemma put_all_ok:
  assumes "inv q" and "length (contents q) + length xs \<le> cap q"
  shows "inv (put_all xs q) \<and> contents (put_all xs q) = contents q @ xs \<and> cap (put_all xs q) = cap q"
  using assms
proof (induction xs arbitrary: q)
  case Nil
  then show ?case by simp
next
  case (Cons x xs)
  then have room: "length (contents q) < cap q" by simp
  with Cons.prems have "inv (put x q)" and "contents (put x q) = contents q @ [x]"
    by (auto intro: put_inv simp: put_contents)
  with Cons.IH[of "put x q"] Cons.prems show ?case by (simp add: put_cap)
qed

lemma get_n_ok:
  assumes "inv q" and "n \<le> length (contents q)"
  shows "inv (snd (get_n n q)) \<and> fst (get_n n q) = take n (contents q)
    \<and> contents (snd (get_n n q)) = drop n (contents q) \<and> cap (snd (get_n n q)) = cap q"
  using assms
proof (induction n arbitrary: q)
  case 0
  then show ?case by simp
next
  case (Suc n)
  then have ne: "contents q \<noteq> []" by auto
  from get_contents[OF Suc.prems(1) ne]
  have c: "contents q = fst (get q) # contents (snd (get q))" .
  have "inv (snd (get q))" using Suc.prems(1) ne by (rule get_inv)
  moreover have "n \<le> length (contents (snd (get q)))" using Suc.prems(2) c
    by (metis Suc_le_mono length_Cons)
  ultimately have ih: "inv (snd (get_n n (snd (get q))))
    \<and> fst (get_n n (snd (get q))) = take n (contents (snd (get q)))
    \<and> contents (snd (get_n n (snd (get q)))) = drop n (contents (snd (get q)))
    \<and> cap (snd (get_n n (snd (get q)))) = cap (snd (get q))"
    by (rule Suc.IH)
  obtain x q1 where g: "get q = (x, q1)" by (cases "get q")
  obtain xs q2 where gn: "get_n n q1 = (xs, q2)" by (cases "get_n n q1")
  have "cap q1 = cap q" using get_cap[of q] g by simp
  then show ?case using ih c g gn by simp
qed

text \<open>Elements leave in the order in which they came in.\<close>

lemma fifo_order:
  assumes "inv q" and "contents q = []" and "length xs \<le> cap q"
  shows "fst (get_n (length xs) (put_all xs q)) = xs"
  using put_all_ok[OF assms(1), of xs] get_n_ok[of "put_all xs q" "length xs"] assms by simp

end

end
