(* ===== verification/Thread_Pool.thy ===== *)
theory Thread_Pool
  imports Prelude "HOL-Library.Multiset"
begin

text \<open>
  The thread pool of threadpool.c: the pool record with its circular task queue, creation with
  every failure path and the resources it holds, the critical sections of
  \<open>worker_thread\<close>, \<open>threadpool_submit\<close> and \<open>threadpool_destroy\<close>, and the
  interleaving of any number of workers and submitters as a step relation. Each critical section
  runs between a lock and the next unlock or condition wait of the one mutex, so it is one step;
  the two condition variables are the \<open>blocked\<close> states of the threads that wait on them.
\<close>

subsection \<open>The pool\<close>

record task_t =
  func :: nat
  arg :: nat

record threadpool_t =
  queue :: "task_t list"
  num_threads :: nat
  queue_capacity :: nat
  queue_size :: nat
  queue_head :: nat
  queue_tail :: nat
  shutdown :: bool

text \<open>The tail of the critical section of \<open>worker_thread\<close>: take one task from the ring.\<close>

definition pool_dequeue :: "threadpool_t \<Rightarrow> task_t \<times> threadpool_t" where
  "pool_dequeue p =
     (queue p ! queue_head p,
      p\<lparr>queue_head := (queue_head p + 1) mod queue_capacity p,
        queue_size := queue_size p - 1\<rparr>)"

text \<open>The tail of the critical section of \<open>threadpool_submit\<close>: store one task in the ring.\<close>

definition pool_enqueue :: "task_t \<Rightarrow> threadpool_t \<Rightarrow> threadpool_t" where
  "pool_enqueue t p =
     p\<lparr>queue := (queue p)[queue_tail p := t],
       queue_tail := (queue_tail p + 1) mod queue_capacity p,
       queue_size := queue_size p + 1\<rparr>"

datatype worker_result = W_wait | W_exit | W_run task_t

definition worker_thread :: "threadpool_t \<Rightarrow> worker_result \<times> threadpool_t" where
  "worker_thread p =
     (if queue_size p = 0 \<and> \<not> shutdown p then (W_wait, p)
      else if queue_size p = 0 \<and> shutdown p then (W_exit, p)
      else (let (task, p') = pool_dequeue p in (W_run task, p')))"

datatype submit_result = S_wait | S_ret int

definition threadpool_submit :: "task_t \<Rightarrow> threadpool_t \<Rightarrow> submit_result \<times> threadpool_t" where
  "threadpool_submit t p =
     (if queue_size p = queue_capacity p \<and> \<not> shutdown p then (S_wait, p)
      else if shutdown p then (S_ret (- 1), p)
      else (S_ret 0, pool_enqueue t p))"

subsection \<open>Creation and its failure paths\<close>

text \<open>
  \<open>malloc\<close> and the pthread calls are parameters: \<open>libc\<close> says which of them succeed. The
  resources that are live are tracked, so that what a failing call gives back is visible.
\<close>

datatype resource = Mem_pool | Mem_queue | Mem_threads | Mutex | Cond_not_empty | Cond_not_full | Worker nat

record libc =
  malloc_ok :: "resource \<Rightarrow> bool"
  mutex_init_ok :: bool
  cond_init_ok :: "resource \<Rightarrow> bool"
  pthread_create_ok :: "nat \<Rightarrow> bool"

text \<open>
  The spawn loop: \<open>Inl i\<close> when the \<open>i\<close>-th \<open>pthread_create\<close> fails, after which the
  first \<open>i\<close> workers are told to shut down and joined.
\<close>

fun spawn_workers :: "libc \<Rightarrow> nat \<Rightarrow> nat \<Rightarrow> nat + unit" where
  "spawn_workers c i 0 = Inr ()"
| "spawn_workers c i (Suc k) = (if pthread_create_ok c i then spawn_workers c (Suc i) k else Inl i)"

definition threadpool_create ::
  "libc \<Rightarrow> task_t list \<Rightarrow> int \<Rightarrow> int \<Rightarrow> threadpool_t option \<times> resource set" where
  "threadpool_create c garbage n cap =
     (if n \<le> 0 \<or> cap \<le> 0 then (None, {})
      else if \<not> malloc_ok c Mem_pool then (None, {})
      else let live1 = {Mem_pool} in
      if \<not> malloc_ok c Mem_queue then (None, live1 - {Mem_pool})
      else let live2 = live1 \<union> {Mem_queue} in
      if \<not> malloc_ok c Mem_threads then (None, live2 - {Mem_queue} - {Mem_pool})
      else let live3 = live2 \<union> {Mem_threads} in
      let pool = \<lparr>queue = garbage, num_threads = nat n, queue_capacity = nat cap, queue_size = 0,
                  queue_head = 0, queue_tail = 0, shutdown = False\<rparr> in
      if \<not> mutex_init_ok c then (None, live3 - {Mem_threads} - {Mem_queue} - {Mem_pool})
      else let live4 = live3 \<union> {Mutex} in
      if \<not> cond_init_ok c Cond_not_empty
      then (None, live4 - {Mutex} - {Mem_threads} - {Mem_queue} - {Mem_pool})
      else let live5 = live4 \<union> {Cond_not_empty} in
      if \<not> cond_init_ok c Cond_not_full
      then (None, live5 - {Cond_not_empty} - {Mutex} - {Mem_threads} - {Mem_queue} - {Mem_pool})
      else let live6 = live5 \<union> {Cond_not_full} in
      case spawn_workers c 0 (nat n) of
        Inl i \<Rightarrow> (None, (live6 \<union> Worker ` {..<i}) - Worker ` {..<i}
                     - {Cond_not_full} - {Cond_not_empty} - {Mutex}
                     - {Mem_threads} - {Mem_queue} - {Mem_pool})
      | Inr _ \<Rightarrow> (Some pool, live6 \<union> Worker ` {..<nat n}))"

definition destroy_release :: "threadpool_t \<Rightarrow> resource set \<Rightarrow> resource set" where
  "destroy_release p live =
     live - Worker ` {..<num_threads p} - {Cond_not_full} - {Cond_not_empty} - {Mutex}
          - {Mem_threads} - {Mem_queue} - {Mem_pool}"

subsection \<open>The interleaving of workers, submitters and the destroyer\<close>

datatype wpc = W_ready | W_blocked | W_running task_t | W_exited
datatype spc = C_idle | C_ready task_t | C_blocked task_t | C_done int
datatype dpc = D_none | D_joining | D_freed

text \<open>
  The last three fields are ghosts: the accepted tasks in the order of their enqueuing, the tasks
  workers have taken, in that order, and the tasks whose function has returned.
\<close>

record sys =
  pool :: threadpool_t
  workers :: "wpc list"
  callers :: "spc list"
  destroyer :: dpc
  accepted :: "task_t list"
  started :: "task_t list"
  finished :: "task_t list"

definition w_wake :: "wpc \<Rightarrow> wpc" where
  "w_wake w = (case w of W_blocked \<Rightarrow> W_ready | _ \<Rightarrow> w)"

definition c_wake :: "spc \<Rightarrow> spc" where
  "c_wake c = (case c of C_blocked t \<Rightarrow> C_ready t | _ \<Rightarrow> c)"

definition w_is_blocked :: "wpc \<Rightarrow> bool" where
  "w_is_blocked w \<longleftrightarrow> w = W_blocked"

fun c_is_blocked :: "spc \<Rightarrow> bool" where
  "c_is_blocked (C_blocked t) = True"
| "c_is_blocked _ = False"

text \<open>\<open>pthread_cond_signal\<close>: one of the blocked threads, if there is one.\<close>

inductive signal :: "('t \<Rightarrow> bool) \<Rightarrow> ('t \<Rightarrow> 't) \<Rightarrow> 't list \<Rightarrow> 't list \<Rightarrow> bool" where
  nobody: "\<forall>t\<in>set ts. \<not> blocked t \<Longrightarrow> signal blocked wake ts ts"
| somebody: "i < length ts \<Longrightarrow> blocked (ts ! i) \<Longrightarrow> signal blocked wake ts (ts[i := wake (ts ! i)])"

text \<open>The first half of \<open>threadpool_destroy\<close>: set the flag, wake everybody.\<close>

definition threadpool_destroy :: "sys \<Rightarrow> sys" where
  "threadpool_destroy s =
     s\<lparr>pool := (pool s)\<lparr>shutdown := True\<rparr>,
       workers := map w_wake (workers s),
       callers := map c_wake (callers s),
       destroyer := D_joining\<rparr>"

text \<open>
  One step of the system. \<open>Spurious\<close> steps are the wake-ups that pthreads allows at any time;
  every other label is a step of the program. A client calls \<open>threadpool_submit\<close> only while the
  destroyer has not started, but a submitter may already be blocked when it starts.
\<close>

datatype label = Prog | Spurious | Client

inductive pool_step :: "label \<Rightarrow> sys \<Rightarrow> sys \<Rightarrow> bool" where
  worker_wait: "i < length (workers s) \<Longrightarrow> workers s ! i = W_ready \<Longrightarrow>
    worker_thread (pool s) = (W_wait, p) \<Longrightarrow>
    pool_step Prog s (s\<lparr>pool := p, workers := (workers s)[i := W_blocked]\<rparr>)"
| worker_exit: "i < length (workers s) \<Longrightarrow> workers s ! i = W_ready \<Longrightarrow>
    worker_thread (pool s) = (W_exit, p) \<Longrightarrow>
    pool_step Prog s (s\<lparr>pool := p, workers := (workers s)[i := W_exited]\<rparr>)"
| worker_take: "i < length (workers s) \<Longrightarrow> workers s ! i = W_ready \<Longrightarrow>
    worker_thread (pool s) = (W_run t, p) \<Longrightarrow> signal c_is_blocked c_wake (callers s) cs \<Longrightarrow>
    pool_step Prog s (s\<lparr>pool := p, workers := (workers s)[i := W_running t], callers := cs,
                        started := started s @ [t]\<rparr>)"
| worker_done: "i < length (workers s) \<Longrightarrow> workers s ! i = W_running t \<Longrightarrow>
    pool_step Prog s (s\<lparr>workers := (workers s)[i := W_ready], finished := finished s @ [t]\<rparr>)"
| client_call: "i < length (callers s) \<Longrightarrow> callers s ! i = C_idle \<or> (\<exists>r. callers s ! i = C_done r) \<Longrightarrow>
    destroyer s = D_none \<Longrightarrow>
    pool_step Client s (s\<lparr>callers := (callers s)[i := C_ready t]\<rparr>)"
| submit_wait: "i < length (callers s) \<Longrightarrow> callers s ! i = C_ready t \<Longrightarrow> destroyer s \<noteq> D_freed \<Longrightarrow>
    threadpool_submit t (pool s) = (S_wait, p) \<Longrightarrow>
    pool_step Prog s (s\<lparr>pool := p, callers := (callers s)[i := C_blocked t]\<rparr>)"
| submit_refused: "i < length (callers s) \<Longrightarrow> callers s ! i = C_ready t \<Longrightarrow> destroyer s \<noteq> D_freed \<Longrightarrow>
    threadpool_submit t (pool s) = (S_ret (- 1), p) \<Longrightarrow>
    pool_step Prog s (s\<lparr>pool := p, callers := (callers s)[i := C_done (- 1)]\<rparr>)"
| submit_ok: "i < length (callers s) \<Longrightarrow> callers s ! i = C_ready t \<Longrightarrow> destroyer s \<noteq> D_freed \<Longrightarrow>
    threadpool_submit t (pool s) = (S_ret 0, p) \<Longrightarrow>
    signal w_is_blocked w_wake (workers s) ws \<Longrightarrow>
    pool_step Prog s (s\<lparr>pool := p, workers := ws, callers := (callers s)[i := C_done 0],
                        accepted := accepted s @ [t]\<rparr>)"
| destroy_begin: "destroyer s = D_none \<Longrightarrow> pool_step Client s (threadpool_destroy s)"
| destroy_join: "destroyer s = D_joining \<Longrightarrow> \<forall>w\<in>set (workers s). w = W_exited \<Longrightarrow>
    pool_step Prog s (s\<lparr>destroyer := D_freed\<rparr>)"
| spurious_worker: "i < length (workers s) \<Longrightarrow>
    pool_step Spurious s (s\<lparr>workers := (workers s)[i := w_wake (workers s ! i)]\<rparr>)"
| spurious_caller: "i < length (callers s) \<Longrightarrow>
    pool_step Spurious s (s\<lparr>callers := (callers s)[i := c_wake (callers s ! i)]\<rparr>)"

definition pool_start :: "threadpool_t \<Rightarrow> nat \<Rightarrow> sys" where
  "pool_start p k =
     \<lparr>pool = p, workers = replicate (num_threads p) W_ready, callers = replicate k C_idle,
      destroyer = D_none, accepted = [], started = [], finished = []\<rparr>"

inductive pool_reachable :: "threadpool_t \<Rightarrow> nat \<Rightarrow> sys \<Rightarrow> bool" for p k where
  start: "pool_reachable p k (pool_start p k)"
| step: "pool_reachable p k s \<Longrightarrow> pool_step l s s' \<Longrightarrow> pool_reachable p k s'"

subsection \<open>The circular queue refines a list\<close>

definition pool_contents :: "threadpool_t \<Rightarrow> task_t list" where
  "pool_contents p = ring (queue p) (queue_head p) (queue_size p)"

definition pool_inv :: "threadpool_t \<Rightarrow> bool" where
  "pool_inv p \<longleftrightarrow> 0 < queue_capacity p \<and> length (queue p) = queue_capacity p
     \<and> queue_size p \<le> queue_capacity p \<and> queue_head p < queue_capacity p
     \<and> queue_tail p = (queue_head p + queue_size p) mod queue_capacity p"

lemma length_pool_contents [simp]: "length (pool_contents p) = queue_size p"
  by (simp add: pool_contents_def)

lemma pool_enqueue_contents:
  "pool_inv p \<Longrightarrow> queue_size p < queue_capacity p \<Longrightarrow>
   pool_contents (pool_enqueue t p) = pool_contents p @ [t]"
  using ring_push[of "queue_size p" "queue p" "queue_head p" t]
  by (simp add: pool_contents_def pool_enqueue_def pool_inv_def)

lemma pool_enqueue_inv:
  "pool_inv p \<Longrightarrow> queue_size p < queue_capacity p \<Longrightarrow> pool_inv (pool_enqueue t p)"
  by (auto simp: pool_inv_def pool_enqueue_def mod_Suc_eq)

lemma pool_dequeue_contents:
  assumes "pool_inv p" and "pool_contents p \<noteq> []"
  shows "pool_contents p = fst (pool_dequeue p) # pool_contents (snd (pool_dequeue p))"
proof -
  have "0 < queue_size p" using assms(2) by (metis length_greater_0_conv length_pool_contents)
  moreover have "queue_head p mod length (queue p) = queue_head p"
    using assms(1) by (simp add: pool_inv_def)
  moreover have "ring (queue p) (Suc (queue_head p) mod queue_capacity p) n = ring (queue p) (Suc (queue_head p)) n" for n
    using assms(1) ring_mod[of "queue p"] by (simp add: pool_inv_def)
  ultimately show ?thesis
    using ring_pop[of "queue_size p" "queue p" "queue_head p"]
    by (simp add: pool_contents_def pool_dequeue_def)
qed

lemma pool_dequeue_inv:
  assumes "pool_inv p" and "pool_contents p \<noteq> []"
  shows "pool_inv (snd (pool_dequeue p))"
proof -
  have "0 < queue_size p" using assms(2) by (metis length_greater_0_conv length_pool_contents)
  then have "queue_head p + queue_size p = Suc (queue_head p) + (queue_size p - 1)" by simp
  then have "(Suc (queue_head p) mod queue_capacity p + (queue_size p - 1)) mod queue_capacity p
    = (queue_head p + queue_size p) mod queue_capacity p"
    by (simp only: mod_add_left_eq)
  with assms(1) show ?thesis by (auto simp: pool_inv_def pool_dequeue_def)
qed

interpretation pq: bounded_fifo queue_capacity pool_enqueue pool_dequeue pool_contents pool_inv
proof unfold_locales
  fix q x
  show "queue_capacity (pool_enqueue x q) = queue_capacity q" by (simp add: pool_enqueue_def)
  show "queue_capacity (snd (pool_dequeue q)) = queue_capacity q" by (simp add: pool_dequeue_def)
  assume q: "pool_inv q"
  then show "length (pool_contents q) \<le> queue_capacity q" by (simp add: pool_inv_def)
  { assume "length (pool_contents q) < queue_capacity q"
    with q show "pool_contents (pool_enqueue x q) = pool_contents q @ [x]"
      and "pool_inv (pool_enqueue x q)"
      by (simp_all add: pool_enqueue_contents pool_enqueue_inv) }
  { assume "pool_contents q \<noteq> []"
    with q show "pool_contents q = fst (pool_dequeue q) # pool_contents (snd (pool_dequeue q))"
      and "pool_inv (snd (pool_dequeue q))"
      by (rule pool_dequeue_contents, rule pool_dequeue_inv) }
qed

subsection \<open>The invariant of the running system\<close>

fun running :: "wpc \<Rightarrow> task_t multiset" where
  "running (W_running t) = {#t#}"
| "running _ = {#}"

definition w_awake :: "wpc \<Rightarrow> bool" where
  "w_awake w \<longleftrightarrow> w \<noteq> W_blocked \<and> w \<noteq> W_exited"

fun c_awake :: "spc \<Rightarrow> bool" where
  "c_awake (C_ready t) = True"
| "c_awake _ = False"

text \<open>
  The wake-up bookkeeping: while a worker is blocked the pool is alive and there are at least as
  many awake workers as queued tasks; while a submitter is blocked there are at least as many
  awake submitters as free slots. A lost signal would break one of the two.
\<close>

definition wakeups_ok :: "sys \<Rightarrow> bool" where
  "wakeups_ok s \<longleftrightarrow>
     (0 < count_if w_is_blocked (workers s) \<longrightarrow>
        \<not> shutdown (pool s) \<and> queue_size (pool s) \<le> count_if w_awake (workers s))
   \<and> (0 < count_if c_is_blocked (callers s) \<longrightarrow>
        \<not> shutdown (pool s) \<and> queue_capacity (pool s) \<le> queue_size (pool s) + count_if c_awake (callers s))"

definition tasks_ok :: "sys \<Rightarrow> bool" where
  "tasks_ok s \<longleftrightarrow> accepted s = started s @ pool_contents (pool s)
     \<and> mset (started s) = mset (finished s) + sum_list (map running (workers s))"

definition shutdown_ok :: "sys \<Rightarrow> bool" where
  "shutdown_ok s \<longleftrightarrow> (shutdown (pool s) \<longleftrightarrow> destroyer s \<noteq> D_none)
     \<and> (W_exited \<in> set (workers s) \<longrightarrow> shutdown (pool s) \<and> queue_size (pool s) = 0)
     \<and> (destroyer s = D_freed \<longrightarrow> set (workers s) \<subseteq> {W_exited})"

definition sys_inv :: "sys \<Rightarrow> bool" where
  "sys_inv s \<longleftrightarrow> pool_inv (pool s) \<and> workers s \<noteq> [] \<and> wakeups_ok s \<and> tasks_ok s \<and> shutdown_ok s"

lemmas sys_inv_defs = sys_inv_def wakeups_ok_def tasks_ok_def shutdown_ok_def

lemma w_wake_simps [simp]:
  "w_wake W_blocked = W_ready" "w_wake W_ready = W_ready" "w_wake (W_running t) = W_running t"
  "w_wake W_exited = W_exited" "w_is_blocked (w_wake w) = False" "running (w_wake w) = running w"
  "w_wake w = W_exited \<longleftrightarrow> w = W_exited" "W_exited = w_wake w \<longleftrightarrow> w = W_exited"
  by (simp_all add: w_wake_def w_is_blocked_def split: wpc.splits)

lemma c_wake_simps [simp]:
  "c_wake (C_blocked t) = C_ready t" "c_wake C_idle = C_idle" "c_wake (C_ready t) = C_ready t"
  "c_wake (C_done r) = C_done r" "c_is_blocked (c_wake c) = False"
  by (simp_all add: c_wake_def split: spc.splits)

lemma w_pred_simps [simp]:
  "w_awake W_ready" "w_awake (W_running t)" "\<not> w_awake W_blocked" "\<not> w_awake W_exited"
  "w_is_blocked W_blocked" "\<not> w_is_blocked W_ready" "\<not> w_is_blocked (W_running t)" "\<not> w_is_blocked W_exited"
  by (simp_all add: w_awake_def w_is_blocked_def)

lemma count_if_map: "count_if P (map f xs) = count_if (P \<circ> f) xs"
  by (simp add: count_if_def comp_def)

lemma count_if_False [simp]: "count_if (\<lambda>_. False) xs = 0"
  by (simp add: count_if_0_iff)

text \<open>A signal to the workers: nobody was blocked, or one blocked worker is awake again.\<close>

lemma signal_workersE:
  assumes "signal w_is_blocked w_wake ws ws'"
  obtains "count_if w_is_blocked ws = 0" and "ws' = ws"
  | i where "i < length ws" and "ws ! i = W_blocked" and "ws' = ws[i := W_ready]"
  using assms by cases (auto simp: count_if_0_iff w_is_blocked_def)

lemma signal_callersE:
  assumes "signal c_is_blocked c_wake cs cs'"
  obtains "count_if c_is_blocked cs = 0" and "cs' = cs"
  | i t where "i < length cs" and "cs ! i = C_blocked t" and "cs' = cs[i := C_ready t]"
  using assms
proof cases
  case nobody
  then show ?thesis using that(1) by (simp add: count_if_0_iff)
next
  case (somebody i)
  then show ?thesis using that(2)[of i] by (cases "cs ! i") auto
qed

lemma worker_thread_wait: "worker_thread p = (W_wait, p') \<Longrightarrow> p' = p \<and> queue_size p = 0 \<and> \<not> shutdown p"
  by (auto simp: worker_thread_def split: if_splits prod.splits)

lemma worker_thread_exit: "worker_thread p = (W_exit, p') \<Longrightarrow> p' = p \<and> queue_size p = 0 \<and> shutdown p"
  by (auto simp: worker_thread_def split: if_splits prod.splits)

lemma worker_thread_run:
  assumes "worker_thread p = (W_run t, p')" and "pool_inv p"
  shows "pool_contents p = t # pool_contents p'" and "pool_inv p'" and "queue_size p = Suc (queue_size p')"
    and "queue_capacity p' = queue_capacity p" and "shutdown p' = shutdown p"
proof -
  have d: "pool_dequeue p = (t, p')" and "queue_size p \<noteq> 0"
    using assms(1) by (auto simp: worker_thread_def split: if_splits prod.splits)
  then have ne: "pool_contents p \<noteq> []" by (metis length_pool_contents list.size(3))
  from pq.get_contents[OF assms(2) ne] pq.get_inv[OF assms(2) ne] d
  show c: "pool_contents p = t # pool_contents p'" and "pool_inv p'" by simp_all
  from arg_cong[OF c, of length] show "queue_size p = Suc (queue_size p')" by simp
  from d show "queue_capacity p' = queue_capacity p" and "shutdown p' = shutdown p"
    by (auto simp: pool_dequeue_def)
qed

lemma threadpool_submit_wait:
  "threadpool_submit t p = (S_wait, p') \<Longrightarrow> p' = p \<and> queue_size p = queue_capacity p \<and> \<not> shutdown p"
  by (auto simp: threadpool_submit_def split: if_splits)

lemma threadpool_submit_refused: "threadpool_submit t p = (S_ret (- 1), p') \<Longrightarrow> p' = p \<and> shutdown p"
  by (auto simp: threadpool_submit_def split: if_splits)

lemma threadpool_submit_ok:
  assumes "threadpool_submit t p = (S_ret 0, p')" and "pool_inv p"
  shows "pool_contents p' = pool_contents p @ [t]" and "pool_inv p'" and "queue_size p' = Suc (queue_size p)"
    and "queue_capacity p' = queue_capacity p" and "\<not> shutdown p" and "\<not> shutdown p'"
    and "queue_size p < queue_capacity p"
proof -
  have p': "p' = pool_enqueue t p" and ns: "\<not> shutdown p" and "queue_size p \<noteq> queue_capacity p"
    using assms(1) by (auto simp: threadpool_submit_def split: if_splits)
  then show room: "queue_size p < queue_capacity p" using assms(2) by (simp add: pool_inv_def)
  with assms(2) p' show c: "pool_contents p' = pool_contents p @ [t]" and "pool_inv p'"
    by (simp_all add: pool_enqueue_contents pool_enqueue_inv)
  from arg_cong[OF c, of length] show "queue_size p' = Suc (queue_size p)" by simp
  from p' ns show "queue_capacity p' = queue_capacity p" and "\<not> shutdown p" and "\<not> shutdown p'"
    by (simp_all add: pool_enqueue_def)
qed

text \<open>How the sums over the threads change when one thread moves.\<close>

lemma worker_update:
  assumes "i < length ws"
  shows "count_if w_is_blocked (ws[i := w]) + (if w_is_blocked (ws ! i) then 1 else 0)
       = count_if w_is_blocked ws + (if w_is_blocked w then 1 else 0)"
    and "count_if w_awake (ws[i := w]) + (if w_awake (ws ! i) then 1 else 0)
       = count_if w_awake ws + (if w_awake w then 1 else 0)"
    and "sum_list (map running (ws[i := w])) + running (ws ! i) = sum_list (map running ws) + running w"
    and "W_exited \<in> set (ws[i := w]) \<Longrightarrow> w = W_exited \<or> W_exited \<in> set ws"
proof -
  show "W_exited \<in> set (ws[i := w]) \<Longrightarrow> w = W_exited \<or> W_exited \<in> set ws"
    using set_update_subset_insert[of ws i w] by auto
qed (rule count_if_update[OF assms] sum_list_map_update[OF assms])+

lemma caller_update:
  assumes "i < length cs"
  shows "count_if c_is_blocked (cs[i := c]) + (if c_is_blocked (cs ! i) then 1 else 0)
       = count_if c_is_blocked cs + (if c_is_blocked c then 1 else 0)"
    and "count_if c_awake (cs[i := c]) + (if c_awake (cs ! i) then 1 else 0)
       = count_if c_awake cs + (if c_awake c then 1 else 0)"
  by (rule count_if_update[OF assms])+

lemma live_worker_not_freed:
  assumes "sys_inv s" and "i < length (workers s)" and "workers s ! i \<noteq> W_exited"
  shows "destroyer s \<noteq> D_freed"
proof
  assume "destroyer s = D_freed"
  with assms(1) have "set (workers s) \<subseteq> {W_exited}" by (simp add: sys_inv_defs)
  with nth_mem[OF assms(2)] assms(3) show False by blast
qed

lemma inv_worker_wait:
  assumes "sys_inv s" and "i < length (workers s)" and "workers s ! i = W_ready"
    and "worker_thread (pool s) = (W_wait, p)"
  shows "sys_inv (s\<lparr>pool := p, workers := (workers s)[i := W_blocked]\<rparr>)"
  using assms live_worker_not_freed[OF assms(1,2)] worker_thread_wait[OF assms(4)] worker_update[OF assms(2), of W_blocked]
  by (auto simp: sys_inv_defs)

lemma inv_worker_exit:
  assumes "sys_inv s" and "i < length (workers s)" and "workers s ! i = W_ready"
    and "worker_thread (pool s) = (W_exit, p)"
  shows "sys_inv (s\<lparr>pool := p, workers := (workers s)[i := W_exited]\<rparr>)"
  using assms live_worker_not_freed[OF assms(1,2)] worker_thread_exit[OF assms(4)] worker_update[OF assms(2), of W_exited]
  by (auto simp: sys_inv_defs set_update_memI)

lemma inv_worker_take:
  assumes "sys_inv s" and "i < length (workers s)" and "workers s ! i = W_ready"
    and "worker_thread (pool s) = (W_run t, p)" and "signal c_is_blocked c_wake (callers s) cs"
  shows "sys_inv (s\<lparr>pool := p, workers := (workers s)[i := W_running t], callers := cs,
                     started := started s @ [t]\<rparr>)"
proof -
  have pi: "pool_inv (pool s)" using assms(1) by (simp add: sys_inv_def)
  note run = worker_thread_run[OF assms(4) pi]
  note w = worker_update[OF assms(2), of "W_running t", simplified assms(3), simplified]
  have ne: "(workers s)[i := W_running t] \<noteq> []" using assms(2) by auto
  have tasks: "tasks_ok (s\<lparr>pool := p, workers := (workers s)[i := W_running t], callers := cs,
                     started := started s @ [t]\<rparr>)"
    using assms(1) run(1) w(3) by (simp add: sys_inv_defs)
  have shut: "shutdown_ok (s\<lparr>pool := p, workers := (workers s)[i := W_running t], callers := cs,
                     started := started s @ [t]\<rparr>)"
    using assms(1,3) live_worker_not_freed[OF assms(1,2)] run(3,5) w(4) by (auto simp: sys_inv_defs)
  have "wakeups_ok (s\<lparr>pool := p, workers := (workers s)[i := W_running t], callers := cs,
                     started := started s @ [t]\<rparr>)"
    using assms(5)
  proof (cases rule: signal_callersE)
    case 1
    then show ?thesis using assms(1) run(3-5) w(1,2) by (auto simp: sys_inv_defs)
  next
    case (2 j u)
    note c = caller_update[OF 2(1), of "C_ready u", simplified 2(2), simplified]
    from 2 c have "0 < count_if c_is_blocked (callers s)" by simp
    then show ?thesis using assms(1) run(3-5) w(1,2) c 2(3) by (auto simp: sys_inv_defs)
  qed
  with tasks shut run(2) ne show ?thesis by (simp add: sys_inv_def)
qed

lemma inv_worker_done:
  assumes "sys_inv s" and "i < length (workers s)" and "workers s ! i = W_running t"
  shows "sys_inv (s\<lparr>workers := (workers s)[i := W_ready], finished := finished s @ [t]\<rparr>)"
  using assms live_worker_not_freed[OF assms(1,2)] worker_update[OF assms(2), of W_ready] by (auto simp: sys_inv_defs)

lemma inv_submit_ok:
  assumes "sys_inv s" and "i < length (callers s)" and "callers s ! i = C_ready t"
    and "threadpool_submit t (pool s) = (S_ret 0, p)" and "signal w_is_blocked w_wake (workers s) ws"
  shows "sys_inv (s\<lparr>pool := p, workers := ws, callers := (callers s)[i := C_done 0],
                     accepted := accepted s @ [t]\<rparr>)"
proof -
  have pi: "pool_inv (pool s)" using assms(1) by (simp add: sys_inv_def)
  note sub = threadpool_submit_ok[OF assms(4) pi]
  note c = caller_update[OF assms(2), of "C_done 0", simplified assms(3), simplified]
  have alive: "W_exited \<notin> set (workers s)" and none: "destroyer s = D_none"
    using assms(1) sub(5) by (auto simp: sys_inv_defs)
  from assms(5) show ?thesis
  proof (cases rule: signal_workersE)
    case 1
    then show ?thesis using assms(1) sub c alive none by (auto simp: sys_inv_defs)
  next
    case (2 j)
    note w = worker_update[OF 2(1), of W_ready, simplified 2(2), simplified]
    from w(1) have "0 < count_if w_is_blocked (workers s)" by simp
    then show ?thesis using assms(1) sub c w 2 alive none by (auto simp: sys_inv_defs)
  qed
qed

lemma inv_submit_blocked_or_refused:
  assumes "sys_inv s" and "i < length (callers s)" and "callers s ! i = C_ready t"
    and "threadpool_submit t (pool s) = (S_wait, p) \<and> c = C_blocked t
       \<or> threadpool_submit t (pool s) = (S_ret (- 1), p) \<and> c = C_done (- 1)"
  shows "sys_inv (s\<lparr>pool := p, callers := (callers s)[i := c]\<rparr>)"
  using assms(4)
proof
  assume "threadpool_submit t (pool s) = (S_wait, p) \<and> c = C_blocked t"
  then have "p = pool s" and "queue_size p = queue_capacity p" and "\<not> shutdown p" and "c = C_blocked t"
    using threadpool_submit_wait by blast+
  with caller_update[OF assms(2), of c] assms(1-3) show ?thesis by (auto simp: sys_inv_defs)
next
  assume "threadpool_submit t (pool s) = (S_ret (- 1), p) \<and> c = C_done (- 1)"
  then have "p = pool s" and "shutdown p" and "c = C_done (- 1)"
    using threadpool_submit_refused by blast+
  with caller_update[OF assms(2), of c] assms(1-3) show ?thesis by (auto simp: sys_inv_defs)
qed

lemma inv_client_call:
  assumes "sys_inv s" and "i < length (callers s)"
    and "callers s ! i = C_idle \<or> (\<exists>r. callers s ! i = C_done r)"
  shows "sys_inv (s\<lparr>callers := (callers s)[i := C_ready t]\<rparr>)"
  using assms caller_update[OF assms(2), of "C_ready t"] by (auto simp: sys_inv_defs)

lemma inv_destroy: "sys_inv s \<Longrightarrow> destroyer s = D_none \<Longrightarrow> sys_inv (threadpool_destroy s)"
  by (auto simp: sys_inv_defs threadpool_destroy_def count_if_map comp_def pool_inv_def pool_contents_def)

lemma inv_spurious_worker:
  assumes "sys_inv s" and "i < length (workers s)"
  shows "sys_inv (s\<lparr>workers := (workers s)[i := w_wake (workers s ! i)]\<rparr>)"
proof (cases "workers s ! i = W_blocked")
  case True
  with assms live_worker_not_freed[OF assms] worker_update[OF assms(2), of W_ready]
  show ?thesis by (auto simp: sys_inv_defs)
next
  case False
  then have "(workers s)[i := w_wake (workers s ! i)] = workers s"
    by (simp add: w_wake_def list_update_id split: wpc.splits)
       (metis list_update_id)
  with assms show ?thesis by simp
qed

lemma inv_spurious_caller:
  assumes "sys_inv s" and "i < length (callers s)"
  shows "sys_inv (s\<lparr>callers := (callers s)[i := c_wake (callers s ! i)]\<rparr>)"
proof (cases "callers s ! i")
  case (C_blocked t)
  with assms caller_update[OF assms(2), of "C_ready t"] show ?thesis by (auto simp: sys_inv_defs)
qed (use assms list_update_id[of "callers s" i] in auto)

lemma pool_step_inv: "pool_step l s s' \<Longrightarrow> sys_inv s \<Longrightarrow> sys_inv s'"
proof (induction rule: pool_step.induct)
  case (destroy_join s)
  then show ?case by (auto simp: sys_inv_defs)
qed (blast intro: inv_worker_wait inv_worker_exit inv_worker_take inv_worker_done inv_client_call
       inv_submit_blocked_or_refused inv_submit_ok inv_destroy inv_spurious_worker inv_spurious_caller)+

definition fresh_pool :: "threadpool_t \<Rightarrow> bool" where
  "fresh_pool p \<longleftrightarrow> pool_inv p \<and> 0 < num_threads p \<and> queue_size p = 0 \<and> \<not> shutdown p"

lemma sum_list_replicate_empty [simp]: "sum_list (replicate n {#}) = {#}"
  by (induction n) auto

lemma pool_start_inv: "fresh_pool p \<Longrightarrow> sys_inv (pool_start p k)"
  by (auto simp: fresh_pool_def sys_inv_defs pool_start_def pool_contents_def count_if_pos_iff
      w_is_blocked_def)

lemma pool_reachable_inv: "pool_reachable p k s \<Longrightarrow> fresh_pool p \<Longrightarrow> sys_inv s"
  by (induction rule: pool_reachable.induct) (auto intro: pool_start_inv pool_step_inv)

subsection \<open>Progress\<close>

lemma signal_exists: "\<exists>ts'. signal blocked wake ts ts'"
proof (cases "\<exists>i < length ts. blocked (ts ! i)")
  case True
  then show ?thesis by (blast intro: signal.somebody)
next
  case False
  then have "\<forall>t\<in>set ts. \<not> blocked t" by (metis in_set_conv_nth)
  then show ?thesis by (blast intro: signal.nobody)
qed

lemma ready_worker_steps:
  assumes "i < length (workers s)" and "workers s ! i = W_ready"
  shows "\<exists>s'. pool_step Prog s s'"
proof -
  obtain r p where "worker_thread (pool s) = (r, p)" by (cases "worker_thread (pool s)")
  moreover obtain cs where "signal c_is_blocked c_wake (callers s) cs" using signal_exists by blast
  ultimately show ?thesis using assms by (cases r) (blast intro: pool_step.intros)+
qed

lemma ready_caller_steps:
  assumes "i < length (callers s)" and "callers s ! i = C_ready t" and "destroyer s \<noteq> D_freed"
  shows "\<exists>s'. pool_step Prog s s'"
proof -
  obtain ws where ws: "signal w_is_blocked w_wake (workers s) ws" using signal_exists by blast
  have "\<exists>p. threadpool_submit t (pool s) = (S_wait, p) \<or> threadpool_submit t (pool s) = (S_ret (- 1), p)
      \<or> threadpool_submit t (pool s) = (S_ret 0, p)"
    by (simp add: threadpool_submit_def)
  then consider p where "threadpool_submit t (pool s) = (S_wait, p)"
    | p where "threadpool_submit t (pool s) = (S_ret (- 1), p)"
    | p where "threadpool_submit t (pool s) = (S_ret 0, p)"
    by blast
  then show ?thesis
    by cases (use assms ws in \<open>blast intro: submit_wait submit_refused submit_ok\<close>)+
qed

text \<open>Nothing to do: every worker sleeps on an empty queue and no submitter is inside the pool.\<close>

definition pool_idle :: "sys \<Rightarrow> bool" where
  "pool_idle s \<longleftrightarrow> destroyer s = D_none \<and> queue_size (pool s) = 0 \<and> set (workers s) \<subseteq> {W_blocked}
     \<and> (\<forall>c\<in>set (callers s). \<not> c_is_blocked c \<and> \<not> c_awake c)"

lemma quiet_pool_is_idle_or_joins:
  assumes inv: "sys_inv s" and nf: "destroyer s \<noteq> D_freed"
    and w: "\<forall>w\<in>set (workers s). \<not> w_awake w" and c: "\<forall>c\<in>set (callers s). \<not> c_awake c"
  shows "pool_idle s \<or> (\<exists>s'. pool_step Prog s s')"
proof (cases "destroyer s = D_none")
  case True
  with inv have live: "\<not> shutdown (pool s)" and "W_exited \<notin> set (workers s)" by (auto simp: sys_inv_defs)
  with w have blocked: "set (workers s) \<subseteq> {W_blocked}" by (auto simp: w_awake_def)
  have "workers s \<noteq> []" using inv by (simp add: sys_inv_def)
  then have "0 < count_if w_is_blocked (workers s)"
    using blocked by (cases "workers s") (auto simp: count_if_pos_iff w_is_blocked_def)
  moreover have "count_if w_awake (workers s) = 0" "count_if c_awake (callers s) = 0"
    using w c by (simp_all add: count_if_0_iff)
  ultimately have "queue_size (pool s) = 0" and "\<not> 0 < count_if c_is_blocked (callers s)"
    using inv by (auto simp: sys_inv_defs pool_inv_def)
  then show ?thesis using True blocked c by (simp add: pool_idle_def count_if_pos_iff)
next
  case False
  with inv have "shutdown (pool s)" by (simp add: sys_inv_defs)
  with inv have "count_if w_is_blocked (workers s) = 0" by (auto simp: sys_inv_defs)
  with w have "\<forall>w\<in>set (workers s). w = W_exited" by (auto simp: count_if_0_iff w_awake_def w_is_blocked_def)
  moreover have "destroyer s = D_joining" using False nf by (cases "destroyer s") auto
  ultimately show ?thesis by (blast intro: destroy_join)
qed

text \<open>
  (C24) Deadlock freedom: in every reachable interleaving of workers, submitters and the destroyer
  the program can take a step (no signal is ever lost), unless the pool is idle with nothing
  queued and nobody waiting to submit, or has been destroyed.
\<close>

theorem pool_deadlock_free:
  assumes "fresh_pool p" and "pool_reachable p k s"
  shows "(\<exists>s'. pool_step Prog s s') \<or> pool_idle s \<or> destroyer s = D_freed"
proof (cases "(\<exists>w\<in>set (workers s). w_awake w) \<or> (\<exists>c\<in>set (callers s). c_awake c)")
  case True
  then show ?thesis
  proof
    assume "\<exists>w\<in>set (workers s). w_awake w"
    then obtain i where i: "i < length (workers s)" and "w_awake (workers s ! i)" by (auto simp: in_set_conv_nth)
    then consider "workers s ! i = W_ready" | t where "workers s ! i = W_running t"
      by (cases "workers s ! i") auto
    then show ?thesis by cases (use i ready_worker_steps worker_done in blast)+
  next
    assume "\<exists>c\<in>set (callers s). c_awake c"
    then obtain i where i: "i < length (callers s)" and "c_awake (callers s ! i)" by (auto simp: in_set_conv_nth)
    then obtain t where "callers s ! i = C_ready t" by (cases "callers s ! i") auto
    with i ready_caller_steps show ?thesis by blast
  qed
next
  case False
  then show ?thesis using quiet_pool_is_idle_or_joins[of s] pool_reachable_inv[OF assms(2,1)] by auto
qed

text \<open>
  (C25) Exactly once, in order: at every moment the tasks whose submission returned 0 are the tasks
  workers have taken, in the order of submission, followed by the queue; and every task taken
  has finished or is running in exactly one worker.
\<close>

theorem pool_tasks_exactly_once:
  assumes "fresh_pool p" and "pool_reachable p k s"
  shows "accepted s = started s @ pool_contents (pool s)
    \<and> mset (started s) = mset (finished s) + sum_list (map running (workers s))"
  using pool_reachable_inv[OF assms(2,1)] by (simp add: sys_inv_defs)

text \<open>
  A destroyed pool has drained its queue: once \<open>threadpool_destroy\<close> has joined the
  workers, every accepted task has run to completion exactly once and none is left.
\<close>

theorem destroyed_pool_drained:
  assumes "fresh_pool p" and "pool_reachable p k s" and "destroyer s = D_freed"
  shows "mset (finished s) = mset (accepted s) \<and> pool_contents (pool s) = []"
proof -
  have inv: "sys_inv s" using pool_reachable_inv[OF assms(2,1)] .
  then have ex: "set (workers s) \<subseteq> {W_exited}" and "workers s \<noteq> []"
    using assms(3) by (auto simp: sys_inv_defs)
  then have "W_exited \<in> set (workers s)" by (cases "workers s") auto
  then have "queue_size (pool s) = 0" using inv by (simp add: sys_inv_defs)
  then have e: "pool_contents (pool s) = []" by (metis length_0_conv length_pool_contents)
  have "map running (workers s) = replicate (length (workers s)) {#}"
    using ex by (intro replicate_eqI) auto
  with inv e show ?thesis by (simp add: sys_inv_defs)
qed

subsection \<open>A run that destroys a pool while a submitter is blocked\<close>

text \<open>One worker, one queue slot, two clients; the second client finds the queue full.\<close>

definition task_a :: task_t where "task_a = \<lparr>func = 1, arg = 10\<rparr>"
definition task_b :: task_t where "task_b = \<lparr>func = 2, arg = 20\<rparr>"

definition small_pool :: threadpool_t where
  "small_pool = \<lparr>queue = [task_a], num_threads = 1, queue_capacity = 1, queue_size = 0,
                 queue_head = 0, queue_tail = 0, shutdown = False\<rparr>"

definition full_pool :: threadpool_t where
  "full_pool = small_pool\<lparr>queue_size := 1\<rparr>"

definition drained_pool :: threadpool_t where
  "drained_pool = small_pool\<lparr>shutdown := True\<rparr>"

lemmas demo_defs = small_pool_def full_pool_def drained_pool_def pool_start_def
  threadpool_submit_def pool_enqueue_def worker_thread_def pool_dequeue_def threadpool_destroy_def

lemma fresh_small_pool: "fresh_pool small_pool"
  by (simp add: fresh_pool_def small_pool_def pool_inv_def)

lemma demo_run_full:
  "pool_reachable small_pool 2
     \<lparr>pool = full_pool, workers = [W_ready], callers = [C_done 0, C_ready task_b], destroyer = D_none,
      accepted = [task_a], started = [], finished = []\<rparr>"
proof -
  have s0: "pool_reachable small_pool 2
     \<lparr>pool = small_pool, workers = [W_ready], callers = [C_idle, C_idle], destroyer = D_none,
      accepted = [], started = [], finished = []\<rparr>"
    using pool_reachable.start[of small_pool 2] by (simp add: demo_defs numeral_2_eq_2)
  have s1: "pool_reachable small_pool 2
     \<lparr>pool = small_pool, workers = [W_ready], callers = [C_ready task_a, C_idle], destroyer = D_none,
      accepted = [], started = [], finished = []\<rparr>"
    using pool_reachable.step[OF s0 client_call[of 0 _ task_a]] by simp
  have sub: "threadpool_submit task_a small_pool = (S_ret 0, full_pool)" by (simp add: demo_defs)
  have sig: "signal w_is_blocked w_wake [W_ready] [W_ready]" by (rule signal.nobody) simp
  have s2: "pool_reachable small_pool 2
     \<lparr>pool = full_pool, workers = [W_ready], callers = [C_done 0, C_idle], destroyer = D_none,
      accepted = [task_a], started = [], finished = []\<rparr>"
    using pool_reachable.step[OF s1 submit_ok[of 0 _ task_a full_pool "[W_ready]"]] sub sig by simp
  show ?thesis
    using pool_reachable.step[OF s2 client_call[of 1 _ task_b]] by simp
qed

lemma demo_run_freed:
  "pool_reachable small_pool 2
     \<lparr>pool = drained_pool, workers = [W_exited], callers = [C_done 0, C_ready task_b], destroyer = D_freed,
      accepted = [task_a], started = [task_a], finished = [task_a]\<rparr>"
proof -
  note s3 = demo_run_full
  have "threadpool_submit task_b full_pool = (S_wait, full_pool)" by (simp add: demo_defs)
  then have s4: "pool_reachable small_pool 2
     \<lparr>pool = full_pool, workers = [W_ready], callers = [C_done 0, C_blocked task_b], destroyer = D_none,
      accepted = [task_a], started = [], finished = []\<rparr>"
    using pool_reachable.step[OF s3 submit_wait[of 1 _ task_b full_pool]] by simp
  have s5: "pool_reachable small_pool 2
     \<lparr>pool = full_pool\<lparr>shutdown := True\<rparr>, workers = [W_ready], callers = [C_done 0, C_ready task_b],
      destroyer = D_joining, accepted = [task_a], started = [], finished = []\<rparr>"
    using pool_reachable.step[OF s4 destroy_begin] by (simp add: threadpool_destroy_def)
  have take: "worker_thread (full_pool\<lparr>shutdown := True\<rparr>) = (W_run task_a, drained_pool)"
    by (simp add: demo_defs)
  have sig: "signal c_is_blocked c_wake [C_done 0, C_ready task_b] [C_done 0, C_ready task_b]"
    by (rule signal.nobody) simp
  have s6: "pool_reachable small_pool 2
     \<lparr>pool = drained_pool, workers = [W_running task_a], callers = [C_done 0, C_ready task_b],
      destroyer = D_joining, accepted = [task_a], started = [task_a], finished = []\<rparr>"
    using pool_reachable.step[OF s5 worker_take[of 0 _ task_a drained_pool "[C_done 0, C_ready task_b]"]] take sig
    by simp
  have s7: "pool_reachable small_pool 2
     \<lparr>pool = drained_pool, workers = [W_ready], callers = [C_done 0, C_ready task_b],
      destroyer = D_joining, accepted = [task_a], started = [task_a], finished = [task_a]\<rparr>"
    using pool_reachable.step[OF s6 worker_done[of 0 _ task_a]] by simp
  have "worker_thread drained_pool = (W_exit, drained_pool)" by (simp add: demo_defs)
  then have s8: "pool_reachable small_pool 2
     \<lparr>pool = drained_pool, workers = [W_exited], callers = [C_done 0, C_ready task_b],
      destroyer = D_joining, accepted = [task_a], started = [task_a], finished = [task_a]\<rparr>"
    using pool_reachable.step[OF s7 worker_exit[of 0 _ drained_pool]] by simp
  show ?thesis using pool_reachable.step[OF s8 destroy_join] by simp
qed

theorem pool_deadlock_free_witness:
  "fresh_pool small_pool \<and> (\<exists>s. pool_reachable small_pool 2 s \<and> queue_size (pool s) = 1
     \<and> ((\<exists>s'. pool_step Prog s s') \<or> pool_idle s \<or> destroyer s = D_freed))"
  using fresh_small_pool demo_run_full pool_deadlock_free[OF fresh_small_pool demo_run_full]
  by (intro conjI exI) (assumption | simp add: full_pool_def)+

theorem pool_tasks_exactly_once_witness:
  "fresh_pool small_pool \<and> (\<exists>s. pool_reachable small_pool 2 s \<and> accepted s = [task_a] \<and> started s = []
     \<and> accepted s = started s @ pool_contents (pool s)
     \<and> mset (started s) = mset (finished s) + sum_list (map running (workers s)))"
  using fresh_small_pool demo_run_full pool_tasks_exactly_once[OF fresh_small_pool demo_run_full]
  by (intro conjI exI) (assumption | simp)+

theorem destroyed_pool_drained_witness:
  "fresh_pool small_pool \<and> (\<exists>s. pool_reachable small_pool 2 s \<and> destroyer s = D_freed
     \<and> mset (finished s) = mset (accepted s) \<and> pool_contents (pool s) = [])"
  using fresh_small_pool demo_run_freed destroyed_pool_drained[OF fresh_small_pool demo_run_freed]
  by (intro conjI exI) (assumption | simp)+


subsection \<open>Resources\<close>

lemma spawn_workers_Inr: "spawn_workers c i k = Inr u \<longleftrightarrow> (\<forall>j. i \<le> j \<and> j < i + k \<longrightarrow> pthread_create_ok c j)"
proof (induction c i k rule: spawn_workers.induct)
  case (2 c i k)
  have "(\<forall>j. i \<le> j \<and> j < i + Suc k \<longrightarrow> pthread_create_ok c j) \<longleftrightarrow>
    pthread_create_ok c i \<and> (\<forall>j. Suc i \<le> j \<and> j < Suc i + k \<longrightarrow> pthread_create_ok c j)"
    by (metis Suc_leI Suc_le_lessD add_Suc add_Suc_right le_neq_implies_less less_add_Suc1 order.refl less_imp_le)
  with 2 show ?case by simp
qed auto

definition libc_all_ok :: "libc \<Rightarrow> int \<Rightarrow> bool" where
  "libc_all_ok c n \<longleftrightarrow> malloc_ok c Mem_pool \<and> malloc_ok c Mem_queue \<and> malloc_ok c Mem_threads
     \<and> mutex_init_ok c \<and> cond_init_ok c Cond_not_empty \<and> cond_init_ok c Cond_not_full
     \<and> (\<forall>i. int i < n \<longrightarrow> pthread_create_ok c i)"

lemma threadpool_create_None_iff:
  "fst (threadpool_create c g n cap) = None \<longleftrightarrow> n \<le> 0 \<or> cap \<le> 0 \<or> \<not> libc_all_ok c n"
proof -
  have "spawn_workers c 0 (nat n) = Inr u \<longleftrightarrow> (\<forall>i. int i < n \<longrightarrow> pthread_create_ok c i)" for u
    by (auto simp: spawn_workers_Inr zless_nat_eq_int_zless)
  then show ?thesis
    by (auto simp: threadpool_create_def libc_all_ok_def Let_def split: sum.splits)
qed

text \<open>
  (C26) Creation is all or nothing: it returns NULL exactly when an argument is not positive or an
  allocation, an initialisation or a thread start fails, and then gives every resource back;
  otherwise it returns an empty running pool with the requested sizes that owns its worker
  threads, and destroying that pool releases everything.
\<close>

theorem threadpool_create_all_or_nothing:
  assumes "length garbage = nat cap"
  shows "case threadpool_create c garbage n cap of
      (None, live) \<Rightarrow> (n \<le> 0 \<or> cap \<le> 0 \<or> \<not> libc_all_ok c n) \<and> live = {}
    | (Some p, live) \<Rightarrow> libc_all_ok c n \<and> fresh_pool p \<and> int (num_threads p) = n \<and> int (queue_capacity p) = cap
        \<and> pool_contents p = [] \<and> Worker ` {..<num_threads p} \<subseteq> live \<and> destroy_release p live = {}"
proof -
  have "Worker ` A - Worker ` A = {}" for A by blast
  then have "case threadpool_create c garbage n cap of
      (None, live) \<Rightarrow> live = {}
    | (Some p, live) \<Rightarrow> fresh_pool p \<and> int (num_threads p) = n \<and> int (queue_capacity p) = cap
        \<and> pool_contents p = [] \<and> Worker ` {..<num_threads p} \<subseteq> live \<and> destroy_release p live = {}"
    using assms
    by (auto simp: threadpool_create_def Let_def fresh_pool_def pool_inv_def pool_contents_def
        destroy_release_def split: sum.splits)
  then show ?thesis using threadpool_create_None_iff[of c garbage n cap]
    by (auto split: prod.splits option.splits)
qed

theorem threadpool_create_all_or_nothing_witness:
  "length [task_a, task_b] = nat 2 \<and> (case threadpool_create
       \<lparr>malloc_ok = (\<lambda>_. True), mutex_init_ok = True, cond_init_ok = (\<lambda>_. True), pthread_create_ok = (\<lambda>i. i < 1)\<rparr>
       [task_a, task_b] 2 2 of (None, live) \<Rightarrow> live = {} | (Some p, live) \<Rightarrow> destroy_release p live = {})"
proof -
  have len: "length [task_a, task_b] = nat 2" by simp
  from len threadpool_create_all_or_nothing[OF len, where c =
      "\<lparr>malloc_ok = (\<lambda>_. True), mutex_init_ok = True, cond_init_ok = (\<lambda>_. True), pthread_create_ok = (\<lambda>i. i < 1)\<rparr>" and n = 2]
  show ?thesis by (auto split: prod.splits option.splits)
qed

end
