(* ===== verification/Bst.thy ===== *)
theory Bst
  imports Prelude "HOL-Library.Tree"
begin

text \<open>
  The concurrent binary search tree (bst.c): nodes in a heap with a lock each, a lock for the root
  pointer, and the operations as a thread executes them. Every state of a thread between two calls
  is a point where it waits for a lock; a step takes that lock and runs the code up to the next
  request for a lock or the return. The code in between touches only nodes whose lock the thread
  holds, the root pointer under the tree lock, and nodes it has just allocated. The choice of the
  next thread and the answers of \<open>malloc\<close> (with \<open>pthread_mutex_init\<close>) are parameters of a step. Using a
  node that is not allocated is the result \<open>Crash\<close>.
\<close>

subsection \<open>State\<close>

type_synonym nid = nat
type_synonym tid = nat

record bst_node =
  key :: int
  val :: int
  lock_count :: u32
  lft :: "nid option"
  rgt :: "nid option"

datatype bst_op = Insert int int | Lookup int | Delete int

text \<open>
  Where a thread waits: for the tree lock; with the tree lock, for the root; in \<open>bst_insert\<close> and
  \<open>bst_lookup\<close> with \<open>cur\<close> for \<open>next\<close>; in \<open>bst_delete\<close> with the new parent for \<open>next\<close>, with
  \<open>is_left\<close>; in \<open>delete_two_children\<close> with \<open>cur\<close> for its right child, and with \<open>cur\<close>,
  \<open>succ_parent\<close> and \<open>succ\<close> for \<open>succ->left\<close>.
\<close>

datatype pc =
    Idle
  | Start bst_op
  | AtRoot bst_op
  | Walk bst_op nid nid
  | DelWait int nid nid bool
  | SuccFirst int nid
  | SuccNext int nid nid nid

record bst =
  hp :: "nid \<Rightarrow> bst_node option"
  rootp :: "nid option"
  tlock :: "tid option"
  nlock :: "nid \<Rightarrow> tid option"
  pcs :: "tid \<Rightarrow> pc"

datatype 'a attempt = Blocked | Crash | Ok 'a

text \<open>A return: the code and, for a lookup, the value.\<close>

type_synonym ret = "int \<times> int option"

fun op_of :: "pc \<Rightarrow> bst_op" where
  "op_of Idle = Lookup 0"
| "op_of (Start p) = p"
| "op_of (AtRoot p) = p"
| "op_of (Walk p _ _) = p"
| "op_of (DelWait k _ _ _) = Delete k"
| "op_of (SuccFirst k _) = Delete k"
| "op_of (SuccNext k _ _ _) = Delete k"

fun okey :: "bst_op \<Rightarrow> int" where
  "okey (Insert k _) = k"
| "okey (Lookup k) = k"
| "okey (Delete k) = k"

subsection \<open>Nodes and locks\<close>

definition empty_bst :: bst where
  "empty_bst = \<lparr>hp = (\<lambda>_. None), rootp = None, tlock = None, nlock = (\<lambda>_. None), pcs = (\<lambda>_. Idle)\<rparr>"

text \<open>\<open>bst_init\<close>: \<open>mem\<close> and \<open>mtx\<close> say whether \<open>malloc\<close> and \<open>pthread_mutex_init\<close> succeed.\<close>

definition bst_init :: "bool \<Rightarrow> bool \<Rightarrow> bst option" where
  "bst_init mem mtx = (if \<not> mem then None else if \<not> mtx then None else Some empty_bst)"

definition bst_node_create :: "int \<Rightarrow> int \<Rightarrow> nid option \<Rightarrow> bst \<Rightarrow> (nid \<times> bst) option" where
  "bst_node_create k v new s =
     (case new of
        None \<Rightarrow> None
      | Some m \<Rightarrow> Some (m, s\<lparr>hp := (hp s)(m \<mapsto> \<lparr>key = k, val = v, lock_count = 0, lft = None, rgt = None\<rparr>)\<rparr>))"

definition bst_node_free :: "nid \<Rightarrow> bst \<Rightarrow> bst" where
  "bst_node_free n s = s\<lparr>hp := (hp s)(n := None)\<rparr>"

definition NODE_UNLOCK :: "nid \<Rightarrow> bst \<Rightarrow> bst" where
  "NODE_UNLOCK n s = s\<lparr>nlock := (nlock s)(n := None)\<rparr>"

text \<open>\<open>NODE_LOCK(n)\<close> by thread \<open>t\<close>, then the rest of the step.\<close>

definition NODE_LOCK :: "tid \<Rightarrow> nid \<Rightarrow> bst \<Rightarrow> (bst \<Rightarrow> 'a attempt) \<Rightarrow> 'a attempt" where
  "NODE_LOCK t n s f =
     (case hp s n of
        None \<Rightarrow> Crash
      | Some nd \<Rightarrow>
          (if nlock s n \<noteq> None then Blocked
           else f (s\<lparr>nlock := (nlock s)(n \<mapsto> t), hp := (hp s)(n \<mapsto> nd\<lparr>lock_count := lock_count nd + 1\<rparr>)\<rparr>)))"

definition deref :: "nid \<Rightarrow> bst \<Rightarrow> (bst_node \<Rightarrow> 'a attempt) \<Rightarrow> 'a attempt" where
  "deref n s f = (case hp s n of None \<Rightarrow> Crash | Some nd \<Rightarrow> f nd)"

definition set_pc :: "tid \<Rightarrow> pc \<Rightarrow> bst \<Rightarrow> bst" where
  "set_pc t p s = s\<lparr>pcs := (pcs s)(t := p)\<rparr>"

definition put :: "nid \<Rightarrow> bst_node \<Rightarrow> bst \<Rightarrow> bst" where
  "put n nd s = s\<lparr>hp := (hp s)(n \<mapsto> nd)\<rparr>"

definition child :: "bool \<Rightarrow> bst_node \<Rightarrow> nid option" where
  "child b nd = (if b then lft nd else rgt nd)"

definition set_child :: "bool \<Rightarrow> nid option \<Rightarrow> bst_node \<Rightarrow> bst_node" where
  "set_child b c nd = (if b then nd\<lparr>lft := c\<rparr> else nd\<lparr>rgt := c\<rparr>)"

definition returns :: "tid \<Rightarrow> ret \<Rightarrow> bst \<Rightarrow> (ret option \<times> bst) attempt" where
  "returns t r s = Ok (Some r, set_pc t Idle s)"

definition waits :: "tid \<Rightarrow> pc \<Rightarrow> bst \<Rightarrow> (ret option \<times> bst) attempt" where
  "waits t p s = Ok (None, set_pc t p s)"

subsection \<open>The operations\<close>

text \<open>The body of the loop of \<open>bst_insert\<close>, with \<open>cur\<close> locked.\<close>

definition insert_body :: "nid option \<Rightarrow> tid \<Rightarrow> int \<Rightarrow> int \<Rightarrow> nid \<Rightarrow> bst \<Rightarrow> (ret option \<times> bst) attempt" where
  "insert_body new t k v cur s = deref cur s (\<lambda>nd.
     if k = key nd then returns t (- 1, None) (NODE_UNLOCK cur s)
     else case child (k < key nd) nd of
            Some nx \<Rightarrow> waits t (Walk (Insert k v) cur nx) s
          | None \<Rightarrow>
              (case bst_node_create k v new s of
                 None \<Rightarrow> returns t (- 1, None) (NODE_UNLOCK cur s)
               | Some (m, s1) \<Rightarrow> returns t (0, None) (NODE_UNLOCK cur (put cur (set_child (k < key nd) (Some m) nd) s1))))"

text \<open>The body of the loop of \<open>bst_lookup\<close>.\<close>

definition lookup_body :: "tid \<Rightarrow> int \<Rightarrow> nid \<Rightarrow> bst \<Rightarrow> (ret option \<times> bst) attempt" where
  "lookup_body t k cur s = deref cur s (\<lambda>nd.
     if k = key nd then returns t (0, Some (val nd)) (NODE_UNLOCK cur s)
     else case child (k < key nd) nd of
            None \<Rightarrow> returns t (- 1, None) (NODE_UNLOCK cur s)
          | Some nx \<Rightarrow> waits t (Walk (Lookup k) cur nx) s)"

text \<open>
  \<open>delete_two_children\<close> with \<open>cur\<close>, \<open>succ_parent\<close> and \<open>succ\<close> locked, up to the next lock, and the
  unlock of \<open>cur\<close> and the return in \<open>bst_delete\<close>.
\<close>

definition succ_body :: "tid \<Rightarrow> int \<Rightarrow> nid \<Rightarrow> nid \<Rightarrow> nid \<Rightarrow> bst \<Rightarrow> (ret option \<times> bst) attempt" where
  "succ_body t k cur sp sc s = deref sc s (\<lambda>snd.
     if lft snd \<noteq> None then waits t (SuccNext k cur sp sc) s
     else deref cur s (\<lambda>cnd.
       let s1 = put cur (cnd\<lparr>key := key snd, val := val snd\<rparr>) s
       in deref sp s1 (\<lambda>pnd.
         let s2 = (if sp = cur then put sp (pnd\<lparr>rgt := rgt snd\<rparr>) s1
                   else NODE_UNLOCK sp (put sp (pnd\<lparr>lft := rgt snd\<rparr>) s1));
             s3 = bst_node_free sc (NODE_UNLOCK sc s2)
         in returns t (0, None) (NODE_UNLOCK cur s3))))"

text \<open>\<open>delete_two_children(cur)\<close> up to its first lock.\<close>

definition two_children :: "tid \<Rightarrow> int \<Rightarrow> nid \<Rightarrow> bst \<Rightarrow> (ret option \<times> bst) attempt" where
  "two_children t k cur s = waits t (SuccFirst k cur) s"

text \<open>The root case of \<open>bst_delete\<close> and the choice of the first child, with the tree and the root locked.\<close>

definition delete_root :: "tid \<Rightarrow> int \<Rightarrow> nid \<Rightarrow> bst \<Rightarrow> (ret option \<times> bst) attempt" where
  "delete_root t k cur s = deref cur s (\<lambda>nd.
     if key nd = k
     then (if lft nd = None \<or> rgt nd = None
           then returns t (0, None) (bst_node_free cur (NODE_UNLOCK cur
                  (s\<lparr>rootp := (if lft nd \<noteq> None then lft nd else rgt nd), tlock := None\<rparr>)))
           else two_children t k cur (s\<lparr>tlock := None\<rparr>))
     else case child (k < key nd) nd of
            None \<Rightarrow> returns t (- 1, None) (NODE_UNLOCK cur (s\<lparr>tlock := None\<rparr>))
          | Some nx \<Rightarrow> waits t (DelWait k cur nx (k < key nd)) (s\<lparr>tlock := None\<rparr>))"

text \<open>The loop of \<open>bst_delete\<close> and the code after it, with \<open>parent\<close> and \<open>cur\<close> locked.\<close>

definition delete_body :: "tid \<Rightarrow> int \<Rightarrow> nid \<Rightarrow> nid \<Rightarrow> bool \<Rightarrow> bst \<Rightarrow> (ret option \<times> bst) attempt" where
  "delete_body t k parent cur is_left s = deref cur s (\<lambda>nd.
     if key nd \<noteq> k
     then (case child (k < key nd) nd of
             None \<Rightarrow> returns t (- 1, None) (NODE_UNLOCK cur (NODE_UNLOCK parent s))
           | Some nx \<Rightarrow> waits t (DelWait k cur nx (k < key nd)) (NODE_UNLOCK parent s))
     else if lft nd = None \<or> rgt nd = None
     then deref parent s (\<lambda>pnd.
            returns t (0, None) (bst_node_free cur (NODE_UNLOCK cur (NODE_UNLOCK parent
              (put parent (set_child is_left (if lft nd \<noteq> None then lft nd else rgt nd) pnd) s)))))
     else two_children t k cur (NODE_UNLOCK parent s))"

text \<open>The start of each operation, with the tree lock, up to the lock of the root.\<close>

definition start_body :: "nid option \<Rightarrow> tid \<Rightarrow> bst_op \<Rightarrow> bst \<Rightarrow> (ret option \<times> bst) attempt" where
  "start_body new t p s =
     (case rootp s of
        Some _ \<Rightarrow> waits t (AtRoot p) s
      | None \<Rightarrow>
          (case p of
             Insert k v \<Rightarrow>
               (case bst_node_create k v new s of
                  None \<Rightarrow> returns t (- 1, None) (s\<lparr>tlock := None\<rparr>)
                | Some (m, s1) \<Rightarrow> returns t (0, None) (s1\<lparr>rootp := Some m, tlock := None\<rparr>))
           | Lookup k \<Rightarrow> returns t (- 1, None) (s\<lparr>tlock := None\<rparr>)
           | Delete k \<Rightarrow> returns t (- 1, None) (s\<lparr>tlock := None\<rparr>)))"

definition root_body :: "nid option \<Rightarrow> tid \<Rightarrow> bst_op \<Rightarrow> nid \<Rightarrow> bst \<Rightarrow> (ret option \<times> bst) attempt" where
  "root_body new t p r s =
     (case p of
        Insert k v \<Rightarrow> insert_body new t k v r (s\<lparr>tlock := None\<rparr>)
      | Lookup k \<Rightarrow> lookup_body t k r (s\<lparr>tlock := None\<rparr>)
      | Delete k \<Rightarrow> delete_root t k r s)"

definition walk_body :: "nid option \<Rightarrow> tid \<Rightarrow> bst_op \<Rightarrow> nid \<Rightarrow> bst \<Rightarrow> (ret option \<times> bst) attempt" where
  "walk_body new t p n s =
     (case p of
        Insert k v \<Rightarrow> insert_body new t k v n s
      | Lookup k \<Rightarrow> lookup_body t k n s
      | Delete k \<Rightarrow> Crash)"

text \<open>One step of thread \<open>t\<close>: take the lock it waits for and go on.\<close>

definition tstep :: "nid option \<Rightarrow> tid \<Rightarrow> bst \<Rightarrow> (ret option \<times> bst) attempt" where
  "tstep new t s =
     (case pcs s t of
        Idle \<Rightarrow> Blocked
      | Start p \<Rightarrow> (if tlock s \<noteq> None then Blocked else start_body new t p (s\<lparr>tlock := Some t\<rparr>))
      | AtRoot p \<Rightarrow>
          (case rootp s of
             None \<Rightarrow> Crash
           | Some r \<Rightarrow> NODE_LOCK t r s (root_body new t p r))
      | Walk p cur nx \<Rightarrow> NODE_LOCK t nx s (\<lambda>s1. walk_body new t p nx (NODE_UNLOCK cur s1))
      | DelWait k parent nx is_left \<Rightarrow> NODE_LOCK t nx s (delete_body t k parent nx is_left)
      | SuccFirst k cur \<Rightarrow> deref cur s (\<lambda>nd.
          case rgt nd of
            None \<Rightarrow> Crash
          | Some sc \<Rightarrow> NODE_LOCK t sc s (succ_body t k cur cur sc))
      | SuccNext k cur sp sc \<Rightarrow> deref sc s (\<lambda>nd.
          case lft nd of
            None \<Rightarrow> Crash
          | Some nx \<Rightarrow> NODE_LOCK t nx s (\<lambda>s1. succ_body t k cur sc nx (if sp \<noteq> cur then NODE_UNLOCK sp s1 else s1))))"

text \<open>
  The executions: threads call operations and take steps in any order; a node comes from \<open>malloc\<close>
  only if it is not allocated. The list records the operations that have returned, in that order,
  with whether \<open>malloc\<close> had memory for them.
\<close>

inductive reach :: "(tid \<times> bst_op \<times> bool \<times> ret) list \<Rightarrow> bst \<Rightarrow> bool" where
  init: "bst_init mem mtx = Some s \<Longrightarrow> reach [] s"
| call: "reach H s \<Longrightarrow> pcs s t = Idle \<Longrightarrow> reach H (set_pc t (Start p) s)"
| step: "reach H s \<Longrightarrow> \<forall>m. new = Some m \<longrightarrow> hp s m = None \<Longrightarrow> tstep new t s = Ok (None, s') \<Longrightarrow> reach H s'"
| ret: "reach H s \<Longrightarrow> \<forall>m. new = Some m \<longrightarrow> hp s m = None \<Longrightarrow> tstep new t s = Ok (Some r, s') \<Longrightarrow>
    reach (H @ [(t, op_of (pcs s t), new \<noteq> None, r)]) s'"

text \<open>\<open>bst_destroy\<close>: every node once, children first; the fuel bounds the depth.\<close>

fun bst_destroy_node :: "nat \<Rightarrow> nid option \<Rightarrow> (nid \<Rightarrow> bst_node option) \<Rightarrow> (nid \<Rightarrow> bst_node option) attempt" where
  "bst_destroy_node fuel None h = Ok h"
| "bst_destroy_node 0 (Some n) h = Blocked"
| "bst_destroy_node (Suc fuel) (Some n) h =
     (case h n of
        None \<Rightarrow> Crash
      | Some nd \<Rightarrow>
          (case bst_destroy_node fuel (lft nd) h of
             Ok h1 \<Rightarrow>
               (case h1 n of
                  None \<Rightarrow> Crash
                | Some nd1 \<Rightarrow>
                    (case bst_destroy_node fuel (rgt nd1) h1 of
                       Ok h2 \<Rightarrow> (if h2 n = None then Crash else Ok (h2(n := None)))
                     | e \<Rightarrow> e))
           | e \<Rightarrow> e))"

definition bst_destroy :: "nat \<Rightarrow> bst \<Rightarrow> (nid \<Rightarrow> bst_node option) attempt" where
  "bst_destroy fuel s = bst_destroy_node fuel (rootp s) (hp s)"

end
