(* ===== verification/Bst_Tree.thy ===== *)
theory Bst_Tree
  imports Bst
begin

text \<open>
  The heap of the search tree as a tree of nodes: search paths, search order, and what adding a
  leaf, taking out a node with at most one child, and moving the successor do to them.
\<close>

type_synonym bheap = "nid \<Rightarrow> bst_node option"

abbreviation K :: "bheap \<Rightarrow> nid \<Rightarrow> int" where "K h n \<equiv> key (the (h n))"

subsection \<open>The tree in the heap\<close>

fun rep :: "bheap \<Rightarrow> nid option \<Rightarrow> nid tree \<Rightarrow> bool" where
  "rep h p Leaf \<longleftrightarrow> p = None"
| "rep h p (Node l n r) \<longleftrightarrow> p = Some n \<and> (\<exists>nd. h n = Some nd \<and> rep h (lft nd) l \<and> rep h (rgt nd) r)"

lemma rep_cong:
  "(\<And>n. n \<in> set_tree T \<Longrightarrow> \<exists>nd nd'. h n = Some nd \<and> h' n = Some nd' \<and> lft nd' = lft nd \<and> rgt nd' = rgt nd) \<Longrightarrow> rep h' p T = rep h p T"
proof (induction T arbitrary: p)
  case (Node l n r)
  obtain nd nd' where "h n = Some nd" "h' n = Some nd'" "lft nd' = lft nd" "rgt nd' = rgt nd" using Node.prems by force
  then show ?case using Node by simp
qed simp

lemma rep_same: "(\<And>n. n \<in> set_tree T \<Longrightarrow> h' n = h n) \<Longrightarrow> rep h' p T = rep h p T"
  by (induction T arbitrary: p) auto

lemma rep_dom: "rep h p T \<Longrightarrow> n \<in> set_tree T \<Longrightarrow> \<exists>nd. h n = Some nd"
  by (induction T arbitrary: p) auto

lemma rep_None [simp]: "rep h None T \<longleftrightarrow> T = Leaf"
  by (cases T) auto

lemma rep_Some: "rep h (Some n) T \<longleftrightarrow> (\<exists>l r nd. T = Node l n r \<and> h n = Some nd \<and> rep h (lft nd) l \<and> rep h (rgt nd) r)"
  by (cases T) auto

text \<open>Children lie in the tree, every node has one parent, and the root has none.\<close>

lemma rep_child:
  "rep h p T \<Longrightarrow> n \<in> set_tree T \<Longrightarrow> h n = Some nd \<Longrightarrow> child b nd = Some m \<Longrightarrow> m \<in> set_tree T"
proof (induction T arbitrary: p)
  case (Node l x r)
  then show ?case by (cases b) (auto simp: child_def rep_Some)
qed simp

lemma distinct_node:
  "distinct (inorder (Node l x r)) \<longleftrightarrow> distinct (inorder l) \<and> distinct (inorder r) \<and> x \<notin> set_tree l \<and> x \<notin> set_tree r \<and> set_tree l \<inter> set_tree r = {}"
  by (auto simp: set_inorder)

lemma rep_root_no_parent:
  assumes "rep h p T" and "distinct (inorder T)" and "n \<in> set_tree T" and "h n = Some nd" and "child b nd = Some m"
  shows "p \<noteq> Some m"
proof (cases T)
  case (Node l x r)
  obtain xd where xd: "p = Some x" "h x = Some xd" "rep h (lft xd) l" "rep h (rgt xd) r" using assms(1) Node by auto
  note d = assms(2)[unfolded Node distinct_node]
  have "m \<in> set_tree l \<or> m \<in> set_tree r"
  proof (cases "n = x")
    case True
    then show ?thesis using xd assms(4,5) by (cases b) (auto simp: child_def rep_Some)
  next
    case False
    then show ?thesis using rep_child[OF xd(3) _ assms(4,5)] rep_child[OF xd(4) _ assms(4,5)] assms(3) Node by auto
  qed
  then show ?thesis using d xd(1) by auto
qed (use assms in simp)

lemma rep_one_parent:
  assumes "rep h p T" and "distinct (inorder T)" and "n \<in> set_tree T" and "h n = Some nd" and "child b nd = Some m"
    and "n' \<in> set_tree T" and "h n' = Some nd'" and "child b' nd' = Some m"
  shows "n' = n \<and> b' = b"
  using assms
proof (induction T arbitrary: p)
  case (Node l x r)
  obtain xd where xd: "p = Some x" "h x = Some xd" "rep h (lft xd) l" "rep h (rgt xd) r" using Node.prems(1) by auto
  note d = Node.prems(2)[unfolded distinct_node]
  have side: "m \<in> set_tree (if c then l else r) \<and> (y = x \<longrightarrow> (if c then lft xd else rgt xd) = Some m)"
    if "y = x \<and> c = e \<or> y \<in> set_tree (if c then l else r)" "h y = Some yd" "child e yd = Some m" for y yd c e
  proof (cases "y = x")
    case True
    then have "c = e" using that(1) d by (auto split: if_splits)
    then show ?thesis using True that xd by (auto simp: child_def rep_Some split: if_splits)
  next
    case False
    then have "y \<in> set_tree (if c then l else r)" using that(1) by blast
    then show ?thesis using rep_child[of h "if c then lft xd else rgt xd" "if c then l else r" y yd e m] that(2,3) xd(3,4) False
      by (auto split: if_splits)
  qed
  have ex: "\<exists>c. y = x \<and> c = e \<or> y \<in> set_tree (if c then l else r)" if "y \<in> set_tree (Node l x r)" for y e
    using that by (auto simp: ex_bool_eq)
  obtain c where c: "n = x \<and> c = b \<or> n \<in> set_tree (if c then l else r)" using ex[OF Node.prems(3)] by blast
  obtain c' where c': "n' = x \<and> c' = b' \<or> n' \<in> set_tree (if c' then l else r)" using ex[OF Node.prems(6)] by blast
  have m: "m \<in> set_tree (if c then l else r)" "m \<in> set_tree (if c' then l else r)"
    using side[OF c Node.prems(4,5)] side[OF c' Node.prems(7,8)] by simp_all
  then have cc: "c' = c" using d by (auto split: if_splits)
  let ?S = "if c then l else r" and ?q = "if c then lft xd else rgt xd"
  have S: "rep h ?q ?S" "distinct (inorder ?S)" using xd d by simp_all
  consider "n = x" "n' = x" | "n = x" "n' \<in> set_tree ?S" | "n' = x" "n \<in> set_tree ?S" | "n \<in> set_tree ?S" "n' \<in> set_tree ?S"
    using c c' cc by auto
  then show ?case
  proof cases
    case 1
    then show ?thesis using c c' cc d by (auto split: if_splits)
  next
    case 2
    then have "?q = Some m" using side[OF c Node.prems(4,5)] by simp
    then show ?thesis using rep_root_no_parent[OF S 2(2) Node.prems(7,8)] by simp
  next
    case 3
    then have "?q = Some m" using side[OF c' Node.prems(7,8)] cc by simp
    then show ?thesis using rep_root_no_parent[OF S 3(2) Node.prems(4,5)] by simp
  next
    case 4
    show ?thesis
    proof (cases c)
      case True
      then show ?thesis using Node.IH(1)[OF xd(3)] d 4 Node.prems(4,5,7,8) by simp
    next
      case False
      then show ?thesis using Node.IH(2)[OF xd(4)] d 4 Node.prems(4,5,7,8) by simp
    qed
  qed
qed simp

subsection \<open>Search paths and order\<close>

fun spath :: "bheap \<Rightarrow> nid tree \<Rightarrow> int \<Rightarrow> nid list" where
  "spath h Leaf k = []"
| "spath h (Node l n r) k = n # (if k = K h n then [] else if k < K h n then spath h l k else spath h r k)"

fun ordered :: "bheap \<Rightarrow> nid tree \<Rightarrow> bool" where
  "ordered h Leaf \<longleftrightarrow> True"
| "ordered h (Node l n r) \<longleftrightarrow> (\<forall>x\<in>set_tree l. K h x < K h n) \<and> (\<forall>x\<in>set_tree r. K h n < K h x) \<and> ordered h l \<and> ordered h r"

lemma spath_subset: "set (spath h T k) \<subseteq> set_tree T"
  by (induction T) auto

lemma spath_cong: "(\<And>n. n \<in> set_tree T \<Longrightarrow> K h' n = K h n) \<Longrightarrow> spath h' T k = spath h T k"
  by (induction T) auto

lemma ordered_cong: "(\<And>n. n \<in> set_tree T \<Longrightarrow> K h' n = K h n) \<Longrightarrow> ordered h' T = ordered h T"
  by (induction T) auto

lemma spath_root: "rep h (Some n) T \<Longrightarrow> n \<in> set (spath h T k)"
  by (auto simp: rep_Some)

lemma ordered_inj: "ordered h T \<Longrightarrow> x \<in> set_tree T \<Longrightarrow> y \<in> set_tree T \<Longrightarrow> K h x = K h y \<Longrightarrow> x = y"
  by (induction T) fastforce+

text \<open>One step of a search from a node on the path: the key is not in the tree, or the child is on the path.\<close>

lemma spath_end:
  assumes "rep h p T" and "ordered h T" and "n \<in> set (spath h T k)" and "h n = Some nd" and "k \<noteq> key nd"
    and "child (k < key nd) nd = None" and "x \<in> set_tree T"
  shows "K h x \<noteq> k"
  using assms(1-3,7)
proof (induction T arbitrary: p)
  case (Node l y r)
  obtain yd where yd: "p = Some y" "h y = Some yd" "rep h (lft yd) l" "rep h (rgt yd) r" using Node.prems by auto
  show ?case
  proof (cases "n = y")
    case True
    then show ?thesis using Node.prems yd assms(4-6) by (force simp: child_def split: if_splits)
  next
    case False
    then show ?thesis using Node.prems yd Node.IH(1)[OF yd(3)] Node.IH(2)[OF yd(4)] by (force split: if_splits)
  qed
qed simp

lemma spath_next:
  assumes "rep h p T" and "n \<in> set (spath h T k)" and "h n = Some nd" and "k \<noteq> key nd" and "child (k < key nd) nd = Some m"
  shows "m \<in> set (spath h T k)"
  using assms(1,2)
proof (induction T arbitrary: p)
  case (Node l y r)
  obtain yd where yd: "p = Some y" "h y = Some yd" "rep h (lft yd) l" "rep h (rgt yd) r" using Node.prems by auto
  show ?case
  proof (cases "n = y")
    case True
    then show ?thesis using Node.prems yd assms(3-5) by (auto simp: child_def rep_Some split: if_splits)
  next
    case False
    then show ?thesis using Node.prems yd Node.IH(1)[OF yd(3)] Node.IH(2)[OF yd(4)] by (auto split: if_splits)
  qed
qed simp

subsection \<open>Adding a leaf\<close>

fun add :: "bool \<Rightarrow> nid \<Rightarrow> nid \<Rightarrow> nid tree \<Rightarrow> nid tree" where
  "add b p m Leaf = Leaf"
| "add b p m (Node l x r) =
     (if x = p then (if b then Node (Node Leaf m Leaf) x r else Node l x (Node Leaf m Leaf))
      else Node (add b p m l) x (add b p m r))"

lemma add_id: "p \<notin> set_tree T \<Longrightarrow> add b p m T = T"
  by (induction T) auto

lemma set_add:
  assumes "rep h q T" and "h p = Some pd" and "child b pd = None"
  shows "set_tree (add b p m T) = (if p \<in> set_tree T then insert m (set_tree T) else set_tree T)"
  using assms(1)
proof (induction T arbitrary: q)
  case (Node l x r)
  then show ?case using assms(2,3) by (auto simp: child_def split: if_splits)
qed simp

lemma distinct_add:
  assumes "rep h q T" and "h p = Some pd" and "child b pd = None" and "distinct (inorder T)" and "m \<notin> set_tree T"
  shows "distinct (inorder (add b p m T))"
  using assms(1,4,5)
proof (induction T arbitrary: q)
  case (Node l x r)
  obtain xd where xd: "q = Some x" "h x = Some xd" "rep h (lft xd) l" "rep h (rgt xd) r" using Node.prems by auto
  show ?case
  proof (cases "x = p")
    case True
    then show ?thesis using Node.prems xd assms(2,3) unfolding add.simps distinct_node by (auto simp: child_def)
  next
    case False
    note d = Node.prems(2)[unfolded distinct_node]
    have "distinct (inorder (add b p m l))" "distinct (inorder (add b p m r))" using Node.IH(1)[OF xd(3)] Node.IH(2)[OF xd(4)] d Node.prems(3) by auto
    then show ?thesis unfolding add.simps if_not_P[OF False] distinct_node set_add[OF xd(3) assms(2,3)] set_add[OF xd(4) assms(2,3)]
      using d Node.prems(3) by (auto split: if_splits)
  qed
qed simp

lemma rep_add:
  assumes "rep h q T" and "h p = Some pd" and "child b pd = None" and "distinct (inorder T)" and "m \<notin> set_tree T" and "p \<noteq> m"
    and "h' p = Some pd'" and "child b pd' = Some m" and "child (\<not> b) pd' = child (\<not> b) pd"
    and "h' m = Some md" and "lft md = None" and "rgt md = None" and "\<And>n. n \<noteq> p \<Longrightarrow> n \<noteq> m \<Longrightarrow> h' n = h n"
  shows "rep h' q (add b p m T)"
  using assms(1,4,5)
proof (induction T arbitrary: q)
  case (Node l x r)
  obtain xd where xd: "q = Some x" "h x = Some xd" "rep h (lft xd) l" "rep h (rgt xd) r" using Node.prems by auto
  note d = Node.prems(2)[unfolded distinct_node]
  show ?case
  proof (cases "x = p")
    case True
    have same: "h' n = h n" if "n \<in> set_tree l \<union> set_tree r" for n
    proof (rule assms(13))
      show "n \<noteq> p" "n \<noteq> m" using that d Node.prems(3) True by auto
    qed
    have "rep h' (lft xd) l" "rep h' (rgt xd) r" using xd rep_same[of l h' h] rep_same[of r h' h] same by auto
    then show ?thesis using True xd assms(2,3,7-12) by (cases b) (auto simp: child_def)
  next
    case False
    moreover have "x \<noteq> m" using Node.prems(3) by auto
    ultimately have "h' x = Some xd" using assms(13) xd(2) by simp
    then show ?thesis using False xd(1) Node.IH(1)[OF xd(3)] Node.IH(2)[OF xd(4)] d Node.prems(3) by auto
  qed
qed simp

lemma ordered_add:
  assumes "rep h q T" and "ordered h T" and "h p = Some pd" and "p \<in> set (spath h T k)" and "k \<noteq> key pd" and "child (k < key pd) pd = None"
    and "distinct (inorder T)" and "m \<notin> set_tree T" and "K h' m = k" and "\<And>n. n \<in> set_tree T \<Longrightarrow> K h' n = K h n"
  shows "ordered h' (add (k < key pd) p m T)"
  using assms(1,2,4,7,8,10)
proof (induction T arbitrary: q)
  case (Node l x r)
  obtain xd where xd: "q = Some x" "h x = Some xd" "rep h (lft xd) l" "rep h (rgt xd) r" using Node.prems by auto
  note d = Node.prems(4)[unfolded distinct_node]
  have kx: "K h' x = K h x" and kl: "\<And>n. n \<in> set_tree l \<Longrightarrow> K h' n = K h n" and kr: "\<And>n. n \<in> set_tree r \<Longrightarrow> K h' n = K h n"
    using Node.prems(6) by auto
  have ol: "ordered h' l" "ordered h' r" using Node.prems(2) ordered_cong[of l h' h] ordered_cong[of r h' h] kl kr by auto
  show ?case
  proof (cases "x = p")
    case True
    then show ?thesis using Node.prems(2) ol kx kl kr assms(3,5,9) by auto
  next
    case False
    then have ps: "k \<noteq> K h x" "p \<in> set (spath h (if k < K h x then l else r) k)" using Node.prems(3) by (auto split: if_splits)
    then have pin: "p \<in> set_tree (if k < K h x then l else r)" using spath_subset by blast
    have "add (k < key pd) p m (if k < K h x then r else l) = (if k < K h x then r else l)" using pin d by (intro add_id) (auto split: if_splits)
    moreover have "ordered h' (add (k < key pd) p m (if k < K h x then l else r))"
      using ps(2) Node.IH(1)[OF xd(3)] Node.IH(2)[OF xd(4)] Node.prems(2,5) d kl kr by (auto split: if_splits)
    moreover have "set_tree (add (k < key pd) p m (if k < K h x then l else r)) = insert m (set_tree (if k < K h x then l else r))"
      using set_add[OF xd(3) assms(3,6)] set_add[OF xd(4) assms(3,6)] pin by auto
    ultimately show ?thesis using False Node.prems(2) kx kl kr assms(9) ps(1) ol by (auto split: if_splits)
  qed
qed simp

lemma spath_add:
  assumes "rep h q T" and "h p = Some pd" and "child b pd = None" and "\<And>n. n \<in> set_tree T \<Longrightarrow> K h' n = K h n" and "x \<in> set (spath h T k)"
  shows "x \<in> set (spath h' (add b p m T) k)"
  using assms(1,4,5)
proof (induction T arbitrary: q)
  case (Node l y r)
  obtain yd where yd: "q = Some y" "h y = Some yd" "rep h (lft yd) l" "rep h (rgt yd) r" using Node.prems by auto
  have "spath h' l k = spath h l k" "spath h' r k = spath h r k" using Node.prems(2) spath_cong[of l h' h] spath_cong[of r h' h] by auto
  then show ?case using Node.prems yd Node.IH(1)[OF yd(3)] Node.IH(2)[OF yd(4)] assms(2,3) by (auto simp: child_def split: if_splits)
qed simp

subsection \<open>Taking out a node with at most one child\<close>

fun rm :: "nid \<Rightarrow> nid tree \<Rightarrow> nid tree" where
  "rm y Leaf = Leaf"
| "rm y (Node l x r) = (if x = y then (if l = Leaf then r else l) else Node (rm y l) x (rm y r))"

definition only_child :: "bst_node \<Rightarrow> nid option" where
  "only_child nd = (if lft nd \<noteq> None then lft nd else rgt nd)"

lemma rm_id: "y \<notin> set_tree T \<Longrightarrow> rm y T = T"
  by (induction T) auto

lemma set_rm:
  assumes "rep h q T" and "distinct (inorder T)" and "h y = Some yd" and "lft yd = None \<or> rgt yd = None"
  shows "set_tree (rm y T) = set_tree T - {y}"
  using assms(1,2)
proof (induction T arbitrary: q)
  case (Node l x r)
  obtain xd where xd: "q = Some x" "h x = Some xd" "rep h (lft xd) l" "rep h (rgt xd) r" using Node.prems by auto
  note d = Node.prems(2)[unfolded distinct_node]
  show ?case using xd d Node.IH(1)[OF xd(3)] Node.IH(2)[OF xd(4)] assms(3,4) by (cases "x = y") auto
qed simp

lemma distinct_rm:
  assumes "rep h q T" and "distinct (inorder T)" and "h y = Some yd" and "lft yd = None \<or> rgt yd = None"
  shows "distinct (inorder (rm y T))"
  using assms(1,2)
proof (induction T arbitrary: q)
  case (Node l x r)
  obtain xd where xd: "q = Some x" "h x = Some xd" "rep h (lft xd) l" "rep h (rgt xd) r" using Node.prems by auto
  note d = Node.prems(2)[unfolded distinct_node]
  show ?case
  proof (cases "x = y")
    case False
    then show ?thesis unfolding rm.simps if_not_P[OF False] distinct_node
      using d Node.IH(1)[OF xd(3)] Node.IH(2)[OF xd(4)] set_rm[OF xd(3) _ assms(3,4)] set_rm[OF xd(4) _ assms(3,4)] by auto
  qed (use d in auto)
qed simp

lemma set_rm_subset: "set_tree (rm y T) \<subseteq> set_tree T"
  by (induction T) auto

lemma ordered_rm: "ordered h T \<Longrightarrow> ordered h (rm y T)"
  by (induction T) (auto dest: set_rm_subset[THEN subsetD])

lemma spath_rm:
  assumes "rep h q T" and "distinct (inorder T)" and "h y = Some yd" and "lft yd = None \<or> rgt yd = None" and "x \<in> set (spath h T k)" and "x \<noteq> y"
  shows "x \<in> set (spath h (rm y T) k)"
  using assms(1,2,5)
proof (induction T arbitrary: q)
  case (Node l z r)
  obtain zd where zd: "q = Some z" "h z = Some zd" "rep h (lft zd) l" "rep h (rgt zd) r" using Node.prems by auto
  note d = Node.prems(2)[unfolded distinct_node]
  show ?case
  proof (cases "z = y")
    case True
    then show ?thesis using Node.prems(3) zd assms(3,4,6) by (auto split: if_splits)
  next
    case False
    then show ?thesis using Node.prems(3) d Node.IH(1)[OF zd(3)] Node.IH(2)[OF zd(4)] by (auto split: if_splits)
  qed
qed simp

definition same_links :: "bheap \<Rightarrow> bheap \<Rightarrow> nid \<Rightarrow> bool" where
  "same_links h h' n \<longleftrightarrow> (\<exists>nd nd'. h n = Some nd \<and> h' n = Some nd' \<and> lft nd' = lft nd \<and> rgt nd' = rgt nd)"

lemma rep_links: "(\<And>n. n \<in> set_tree T \<Longrightarrow> same_links h h' n) \<Longrightarrow> rep h p T \<Longrightarrow> rep h' p T"
  using rep_cong[of T h h' p] unfolding same_links_def by blast

lemma rep_rm_root:
  assumes "rep h (Some y) T" and "distinct (inorder T)" and "h y = Some yd" and "lft yd = None \<or> rgt yd = None"
    and "\<And>n. n \<in> set_tree T \<Longrightarrow> n \<noteq> y \<Longrightarrow> same_links h h' n"
  shows "rep h' (only_child yd) (rm y T)"
proof -
  obtain l r where T: "T = Node l y r" "rep h (lft yd) l" "rep h (rgt yd) r" using assms(1,3) by (auto simp: rep_Some)
  note d = assms(2)[unfolded T(1) distinct_node]
  have sl: "same_links h h' n" if "n \<in> set_tree l \<union> set_tree r" for n
  proof (rule assms(5))
    show "n \<in> set_tree T" "n \<noteq> y" using that T(1) d by auto
  qed
  have "rep h' (lft yd) l" "rep h' (rgt yd) r" using rep_links[OF sl] T by blast+
  then show ?thesis using T(1) assms(4) by (cases "l = Leaf") (auto simp: only_child_def)
qed

lemma rep_rm:
  assumes "rep h q T" and "distinct (inorder T)" and "p \<in> set_tree T" and "h p = Some pd" and "child b pd = Some y"
    and "h y = Some yd" and "lft yd = None \<or> rgt yd = None"
    and "h' p = Some pd'" and "child b pd' = only_child yd" and "child (\<not> b) pd' = child (\<not> b) pd"
    and "\<And>n. n \<in> set_tree T \<Longrightarrow> n \<noteq> y \<Longrightarrow> n \<noteq> p \<Longrightarrow> same_links h h' n"
  shows "rep h' q (rm y T)"
  using assms(1,2,3,11)
proof (induction T arbitrary: q)
  case (Node l x r)
  obtain xd where xd: "q = Some x" "h x = Some xd" "rep h (lft xd) l" "rep h (rgt xd) r" using Node.prems by auto
  note d = Node.prems(2)[unfolded distinct_node]
  have yx: "x \<noteq> y" using rep_root_no_parent[OF Node.prems(1-3) assms(4,5)] xd(1) by auto
  have sl: "same_links h h' n" if "n \<in> set_tree l \<union> set_tree r" "n \<noteq> y" "n \<noteq> p" for n using Node.prems(4) that by auto
  show ?case
  proof (cases "x = p")
    case True
    have yr: "rep h (Some y) (if b then l else r)" using xd True assms(4,5) by (auto simp: child_def split: if_splits)
    have dd: "distinct (inorder (if b then l else r))" using d by simp
    have yin: "y \<in> set_tree (if b then l else r)" using yr by (auto simp: rep_Some split: if_splits)
    have side: "rep h' (only_child yd) (rm y (if b then l else r))"
      using sl d True by (intro rep_rm_root[OF yr dd assms(6,7)]) (auto split: if_splits)
    have other: "rep h' (child (\<not> b) pd) (if b then r else l)" "rm y (if b then r else l) = (if b then r else l)"
    proof -
      have "rep h (child (\<not> b) pd) (if b then r else l)" using xd True assms(4) by (auto simp: child_def)
      moreover have "same_links h h' n" if "n \<in> set_tree (if b then r else l)" for n
      proof (rule sl)
        show "n \<in> set_tree l \<union> set_tree r" "n \<noteq> y" "n \<noteq> p" using that yin d True by (auto split: if_splits)
      qed
      ultimately show "rep h' (child (\<not> b) pd) (if b then r else l)" using rep_links by blast
      show "rm y (if b then r else l) = (if b then r else l)" using yin d by (intro rm_id) (auto split: if_splits)
    qed
    show ?thesis using side other True yx xd(1) assms(8-10) by (cases b) (auto simp: child_def)
  next
    case False
    have xs: "same_links h h' x" using Node.prems(4) yx False by simp
    then obtain xd' where xd': "h' x = Some xd'" "lft xd' = lft xd" "rgt xd' = rgt xd" using xd(2) by (auto simp: same_links_def)
    have "p \<in> set_tree l \<or> p \<in> set_tree r" using Node.prems(3) False by auto
    then show ?thesis
    proof
      assume pl: "p \<in> set_tree l"
      have yl: "y \<in> set_tree l" using rep_child[OF xd(3) pl assms(4,5)] .
      have "rep h' (lft xd) (rm y l)" using Node.IH(1)[OF xd(3) _ pl] d sl by simp
      moreover have "rep h' (rgt xd) r"
      proof (rule rep_links[OF _ xd(4)])
        fix n assume "n \<in> set_tree r"
        then show "same_links h h' n" using pl yl d by (intro sl) auto
      qed
      moreover have "rm y r = r" using yl d by (intro rm_id) auto
      ultimately show ?thesis using xd(1) xd' yx by simp
    next
      assume pr: "p \<in> set_tree r"
      have yr: "y \<in> set_tree r" using rep_child[OF xd(4) pr assms(4,5)] .
      have "rep h' (rgt xd) (rm y r)" using Node.IH(2)[OF xd(4) _ pr] d sl by simp
      moreover have "rep h' (lft xd) l"
      proof (rule rep_links[OF _ xd(3)])
        fix n assume "n \<in> set_tree l"
        then show "same_links h h' n" using pr yr d by (intro sl) auto
      qed
      moreover have "rm y l = l" using yr d by (intro rm_id) auto
      ultimately show ?thesis using xd(1) xd' yx by simp
    qed
  qed
qed simp

subsection \<open>The in-order successor\<close>

text \<open>The path of left links from \<open>p\<close> through the nodes \<open>ns\<close> to \<open>q\<close>, and the left spine of a tree.\<close>

fun lpath :: "bheap \<Rightarrow> nid option \<Rightarrow> nid list \<Rightarrow> nid option \<Rightarrow> bool" where
  "lpath h p [] q \<longleftrightarrow> p = q"
| "lpath h p (n # ns) q \<longleftrightarrow> p = Some n \<and> (\<exists>nd. h n = Some nd \<and> lpath h (lft nd) ns q)"

fun spine :: "nid tree \<Rightarrow> nid list" where
  "spine Leaf = []"
| "spine (Node l n r) = n # spine l"

lemma lpath_append: "lpath h p (ms @ ns) q \<longleftrightarrow> (\<exists>o'. lpath h p ms o' \<and> lpath h o' ns q)"
  by (induction ms arbitrary: p) auto

lemma lpath_cong: "(\<And>n. n \<in> set ns \<Longrightarrow> h' n = h n) \<Longrightarrow> lpath h' p ns q = lpath h p ns q"
  by (induction ns arbitrary: p) auto

lemma lpath_dom: "lpath h p ns q \<Longrightarrow> m \<in> set ns \<Longrightarrow> h m \<noteq> None"
  by (induction ns arbitrary: p) auto

text \<open>Every node of the path but the first is the left child of an earlier one.\<close>

lemma lpath_parent:
  "lpath h p ns q \<Longrightarrow> m \<in> set ns \<Longrightarrow> p = Some m \<or> (\<exists>x xd. x \<in> set (butlast ns) \<and> h x = Some xd \<and> lft xd = Some m)"
proof (induction ns arbitrary: p)
  case (Cons n ns)
  then obtain nd where nd: "p = Some n" "h n = Some nd" "lpath h (lft nd) ns q" by auto
  show ?case
  proof (cases "m = n")
    case False
    then have "m \<in> set ns" using Cons.prems(2) by simp
    moreover from this have "ns \<noteq> []" by auto
    ultimately show ?thesis using Cons.IH[OF nd(3)] nd(2) by auto
  qed (use nd in simp)
qed simp

lemma lpath_spine: "rep h p R \<Longrightarrow> lpath h p ns None \<Longrightarrow> ns = spine R"
proof (induction R arbitrary: p ns)
  case Leaf
  then show ?case by (cases ns) auto
next
  case (Node l n r)
  then show ?case by (cases ns) auto
qed

lemma spine_subset: "set (spine R) \<subseteq> set_tree R"
  by (induction R) auto

lemma lpath_prefix_subset: "rep h p R \<Longrightarrow> lpath h p ns q \<Longrightarrow> set ns \<subseteq> set_tree R"
proof (induction ns arbitrary: p R)
  case (Cons n ns)
  then obtain nd where nd: "p = Some n" "h n = Some nd" "lpath h (lft nd) ns q" by auto
  then obtain l r where "R = Node l n r" "rep h (lft nd) l" using Cons.prems(1) by (auto simp: rep_Some)
  then show ?case using Cons.IH nd(3) by fastforce
qed simp

lemma spine_last_min:
  "ordered h R \<Longrightarrow> R \<noteq> Leaf \<Longrightarrow> x \<in> set_tree R \<Longrightarrow> x \<noteq> last (spine R) \<Longrightarrow> K h (last (spine R)) < K h x"
proof (induction R)
  case (Node l n r)
  show ?case
  proof (cases "l = Leaf")
    case True
    then show ?thesis using Node.prems by auto
  next
    case False
    then have ne: "spine l \<noteq> []" by (cases l) auto
    then have li: "last (spine l) \<in> set_tree l" using spine_subset last_in_set by blast
    have "K h (last (spine l)) < K h x" if "x \<in> set_tree l" using Node.IH(1) that Node.prems False ne by simp
    moreover have "K h (last (spine l)) < K h n" using Node.prems(1) li by simp
    ultimately show ?thesis using Node.prems ne by (auto intro: less_trans)
  qed
qed simp

text \<open>A search for a key up to the smallest stays on the left spine.\<close>

lemma spath_low:
  assumes "ordered h R" and "R \<noteq> Leaf" and "k \<le> K h (last (spine R))"
  shows "set (spath h R k) \<subseteq> set (spine R)"
  using assms
proof (induction R)
  case (Node l n r)
  show ?case
  proof (cases "l = Leaf")
    case True
    then show ?thesis using Node.prems by auto
  next
    case False
    then have ne: "spine l \<noteq> []" by (cases l) auto
    then have "last (spine l) \<in> set_tree l" using spine_subset last_in_set by blast
    then have "k < K h n" "k \<le> K h (last (spine l))" using Node.prems ne by (auto intro: le_less_trans)
    then show ?thesis using Node.IH(1) Node.prems False by auto
  qed
qed simp

text \<open>
  The node \<open>c\<close> with right child starting the left path \<open>ns\<close> to the successor \<open>s\<close>; \<open>h'\<close> is the heap
  in which \<open>c\<close> has the successor's key.
\<close>

definition successor :: "bheap \<Rightarrow> nid tree \<Rightarrow> nid \<Rightarrow> nid list \<Rightarrow> nid \<Rightarrow> bool" where
  "successor h T c ns s \<longleftrightarrow> (\<exists>cd sd. c \<in> set_tree T \<and> h c = Some cd \<and> lpath h (rgt cd) (ns @ [s]) None \<and> h s = Some sd \<and> lft sd = None)"

lemma successor_root:
  assumes "rep h q (Node l c r)" and "successor h (Node l c r) c ns s"
  shows "spine r = ns @ [s]" and "r \<noteq> Leaf" and "s \<in> set_tree r" and "set ns \<subseteq> set_tree r" and "last (spine r) = s"
proof -
  obtain cd where cd: "h c = Some cd" "rep h (rgt cd) r" "lpath h (rgt cd) (ns @ [s]) None"
    using assms by (auto simp: successor_def)
  show sp: "spine r = ns @ [s]" using lpath_spine[OF cd(2,3)] by simp
  then show "r \<noteq> Leaf" "last (spine r) = s" by auto
  show "s \<in> set_tree r" "set ns \<subseteq> set_tree r" using spine_subset[of r] sp by auto
qed

lemma successor_side:
  assumes "rep h q (Node l x r)" and "distinct (inorder (Node l x r))" and "successor h (Node l x r) c ns s" and "x \<noteq> c"
  obtains (l) "successor h l c ns s" "c \<in> set_tree l" | (r) "successor h r c ns s" "c \<in> set_tree r"
proof -
  have "c \<in> set_tree l \<or> c \<in> set_tree r" using assms(3,4) by (auto simp: successor_def)
  then show thesis using assms(3) l r by (auto simp: successor_def)
qed

lemma successor_in:
  assumes "rep h q T" and "distinct (inorder T)" and "successor h T c ns s"
  shows "s \<in> set_tree T" and "set ns \<subseteq> set_tree T" and "s \<noteq> c" and "c \<notin> set ns"
proof -
  have "s \<in> set_tree T \<and> set ns \<subseteq> set_tree T \<and> s \<noteq> c \<and> c \<notin> set ns"
    using assms
  proof (induction T arbitrary: q)
    case (Node l x r)
    obtain xd where xd: "q = Some x" "h x = Some xd" "rep h (lft xd) l" "rep h (rgt xd) r" using Node.prems by auto
    note d = Node.prems(2)[unfolded distinct_node]
    show ?case
    proof (cases "x = c")
      case True
      then show ?thesis using successor_root[OF Node.prems(1)[unfolded True] Node.prems(3)[unfolded True]] d by auto
    next
      case False
      from Node.prems(1-3) False show ?thesis
      proof (cases rule: successor_side[case_names l r])
        case l
        then show ?thesis using Node.IH(1)[OF xd(3)] d by auto
      next
        case r
        then show ?thesis using Node.IH(2)[OF xd(4)] d by auto
      qed
    qed
  qed (simp add: successor_def)
  then show "s \<in> set_tree T" "set ns \<subseteq> set_tree T" "s \<noteq> c" "c \<notin> set ns" by auto
qed

lemma ordered_succ:
  assumes "rep h q T" and "ordered h T" and "distinct (inorder T)" and "successor h T c ns s" and "h s = Some sd" and "lft sd = None"
    and "K h' c = K h s" and "\<And>n. n \<in> set_tree T \<Longrightarrow> n \<noteq> c \<Longrightarrow> n \<noteq> s \<Longrightarrow> K h' n = K h n"
  shows "ordered h' (rm s T)"
  using assms(1-4,8)
proof (induction T arbitrary: q)
  case (Node l x r)
  obtain xd where xd: "q = Some x" "h x = Some xd" "rep h (lft xd) l" "rep h (rgt xd) r" using Node.prems by auto
  note d = Node.prems(3)[unfolded distinct_node] and o = Node.prems(2)
  have one: "lft sd = None \<or> rgt sd = None" using assms(6) by simp
  show ?case
  proof (cases "x = c")
    case True
    note sr = successor_root[OF Node.prems(1)[unfolded True] Node.prems(4)[unfolded True]]
    have ns: "x \<noteq> s" "s \<notin> set_tree l" using sr(3) d by auto
    have kl: "K h' n = K h n" if "n \<in> set_tree l \<union> set_tree (rm s r)" for n
    proof (rule Node.prems(5))
      show "n \<in> set_tree (Node l x r)" "n \<noteq> c" "n \<noteq> s" using that set_rm[OF xd(4) _ assms(5) one] d ns True by auto
    qed
    have "K h s < K h n" if "n \<in> set_tree (rm s r)" for n
      using spine_last_min[OF _ sr(2), of h n] sr(5) o that set_rm[OF xd(4) _ assms(5) one] d by auto
    moreover have "K h n < K h s" if "n \<in> set_tree l" for n using o that sr(3) by fastforce
    moreover have "ordered h' l" "ordered h' (rm s r)"
      using ordered_cong[of l h' h] ordered_cong[of "rm s r" h' h] ordered_rm[of h r s] kl o by auto
    ultimately show ?thesis using ns rm_id[OF ns(2)] True assms(7) kl by simp
  next
    case False
    from Node.prems(1,3,4) False show ?thesis
    proof (cases rule: successor_side[case_names l r])
      case l
      have sl: "s \<in> set_tree l" "s \<noteq> c" using successor_in[OF xd(3) _ l(1)] d by auto
      have nx: "x \<noteq> s" "s \<notin> set_tree r" "c \<notin> set_tree r" using sl l(2) d by auto
      have "ordered h' (rm s l)" using Node.IH(1)[OF xd(3) _ _ l(1)] o d Node.prems(5) by auto
      moreover have "ordered h' r" using ordered_cong[of r h' h] o Node.prems(5) nx by auto
      moreover have "K h' x = K h x" using Node.prems(5) False nx by auto
      moreover have "K h' n < K h x" if "n \<in> set_tree (rm s l)" for n
        using that set_rm[OF xd(3) _ assms(5) one] d o sl(1) assms(7) Node.prems(5)[of n] by (cases "n = c") auto
      moreover have "K h x < K h' n" if "n \<in> set_tree r" for n
      proof -
        have "n \<noteq> c" "n \<noteq> s" using that nx by auto
        then show ?thesis using that o Node.prems(5)[of n] by simp
      qed
      ultimately show ?thesis using nx rm_id[OF nx(2)] by simp
    next
      case r
      have sr: "s \<in> set_tree r" "s \<noteq> c" using successor_in[OF xd(4) _ r(1)] d by auto
      have nx: "x \<noteq> s" "s \<notin> set_tree l" "c \<notin> set_tree l" using sr r(2) d by auto
      have "ordered h' (rm s r)" using Node.IH(2)[OF xd(4) _ _ r(1)] o d Node.prems(5) by auto
      moreover have "ordered h' l" using ordered_cong[of l h' h] o Node.prems(5) nx by auto
      moreover have "K h' x = K h x" using Node.prems(5) False nx by auto
      moreover have "K h x < K h' n" if "n \<in> set_tree (rm s r)" for n
        using that set_rm[OF xd(4) _ assms(5) one] d o sr(1) assms(7) Node.prems(5)[of n] by (cases "n = c") auto
      moreover have "K h' n < K h x" if "n \<in> set_tree l" for n
      proof -
        have "n \<noteq> c" "n \<noteq> s" using that nx by auto
        then show ?thesis using that o Node.prems(5)[of n] by simp
      qed
      ultimately show ?thesis using nx rm_id[OF nx(2)] by simp
    qed
  qed
qed simp

lemma spath_succ:
  assumes "rep h q T" and "ordered h T" and "distinct (inorder T)" and "successor h T c ns s" and "h s = Some sd" and "lft sd = None"
    and "K h' c = K h s" and "\<And>n. n \<in> set_tree T \<Longrightarrow> n \<noteq> c \<Longrightarrow> n \<noteq> s \<Longrightarrow> K h' n = K h n"
    and "x \<in> set (spath h T k)" and "x \<noteq> c" and "x \<noteq> s" and "x \<notin> set ns"
  shows "x \<in> set (spath h' (rm s T) k)"
  using assms(1-4,8,9)
proof (induction T arbitrary: q)
  case (Node l z r)
  obtain zd where zd: "q = Some z" "h z = Some zd" "rep h (lft zd) l" "rep h (rgt zd) r" using Node.prems by auto
  note d = Node.prems(3)[unfolded distinct_node] and o = Node.prems(2)
  have one: "lft sd = None \<or> rgt sd = None" using assms(6) by simp
  show ?case
  proof (cases "z = c")
    case True
    note sr = successor_root[OF Node.prems(1)[unfolded True] Node.prems(4)[unfolded True]]
    have ns: "z \<noteq> s" "s \<notin> set_tree l" using sr(3) d by auto
    have kl: "K h' n = K h n" if "n \<in> set_tree l \<union> set_tree (rm s r)" for n
    proof (rule Node.prems(5))
      show "n \<in> set_tree (Node l z r)" "n \<noteq> c" "n \<noteq> s" using that set_rm[OF zd(4) _ assms(5) one] d ns True by auto
    qed
    have cs: "K h c < K h s" using o True sr(3) by auto
    have same: "spath h' l k = spath h l k" "spath h' (rm s r) k = spath h (rm s r) k"
      using spath_cong[of l h' h] spath_cong[of "rm s r" h' h] kl by auto
    consider "k < K h c" "x \<in> set (spath h l k)" | "K h c < k" "x \<in> set (spath h r k)"
      using Node.prems(6) True assms(10) by (auto split: if_splits)
    then show ?thesis
    proof cases
      case 1
      then show ?thesis using ns rm_id[OF ns(2)] True cs assms(7) same(1) by simp
    next
      case 2
      have "\<not> k \<le> K h s"
      proof
        assume "k \<le> K h s"
        then have "x \<in> set ns \<union> {s}" using spath_low[of h r k] sr o 2(2) by auto
        then show False using assms(11,12) by simp
      qed
      moreover have "x \<in> set (spath h (rm s r) k)" using spath_rm[OF zd(4) _ assms(5) one 2(2) assms(11)] d by simp
      ultimately show ?thesis using ns True assms(7) same(2) by simp
    qed
  next
    case False
    have kz: "K h' z = K h z" if "z \<noteq> s" using Node.prems(5) False that by auto
    from Node.prems(1,3,4) False show ?thesis
    proof (cases rule: successor_side[case_names l r])
      case l
      have sl: "s \<in> set_tree l" using successor_in[OF zd(3) _ l(1)] d by auto
      have nz: "z \<noteq> s" "s \<notin> set_tree r" "c \<notin> set_tree r" using sl l(2) d by auto
      have "x \<in> set (spath h' (rm s l) k)" if "x \<in> set (spath h l k)" using Node.IH(1)[OF zd(3) _ _ l(1) _ that] o d Node.prems(5) by auto
      moreover have "spath h' r k = spath h r k"
      proof (rule spath_cong)
        fix n assume "n \<in> set_tree r"
        then have "n \<in> set_tree (Node l z r)" "n \<noteq> c" "n \<noteq> s" using nz by auto
        then show "K h' n = K h n" by (rule Node.prems(5))
      qed
      ultimately show ?thesis using Node.prems(6) nz kz rm_id[OF nz(2)] by (auto split: if_splits)
    next
      case r
      have sr: "s \<in> set_tree r" using successor_in[OF zd(4) _ r(1)] d by auto
      have nz: "z \<noteq> s" "s \<notin> set_tree l" "c \<notin> set_tree l" using sr r(2) d by auto
      have "x \<in> set (spath h' (rm s r) k)" if "x \<in> set (spath h r k)" using Node.IH(2)[OF zd(4) _ _ r(1) _ that] o d Node.prems(5) by auto
      moreover have "spath h' l k = spath h l k"
      proof (rule spath_cong)
        fix n assume "n \<in> set_tree l"
        then have "n \<in> set_tree (Node l z r)" "n \<noteq> c" "n \<noteq> s" using nz by auto
        then show "K h' n = K h n" by (rule Node.prems(5))
      qed
      ultimately show ?thesis using Node.prems(6) nz kz rm_id[OF nz(2)] by (auto split: if_splits)
    qed
  qed
qed simp

subsection \<open>Depth\<close>

fun depth :: "nid tree \<Rightarrow> nid \<Rightarrow> nat" where
  "depth Leaf n = 0"
| "depth (Node l x r) n = (if n = x then 0 else Suc (if n \<in> set_tree l then depth l n else depth r n))"

lemma depth_height: "n \<in> set_tree T \<Longrightarrow> depth T n < height T"
  by (induction T) auto

lemma depth_child:
  assumes "rep h q T" and "distinct (inorder T)" and "n \<in> set_tree T" and "h n = Some nd" and "child b nd = Some m"
  shows "depth T m = Suc (depth T n)"
  using assms(1-3)
proof (induction T arbitrary: q)
  case (Node l x r)
  obtain xd where xd: "q = Some x" "h x = Some xd" "rep h (lft xd) l" "rep h (rgt xd) r" using Node.prems by auto
  note d = Node.prems(2)[unfolded distinct_node]
  have mx: "m \<noteq> x" using rep_root_no_parent[OF Node.prems(1-3) assms(4,5)] xd(1) by auto
  consider "n = x" | "n \<in> set_tree l" | "n \<in> set_tree r" using Node.prems(3) by auto
  then show ?case
  proof cases
    case 1
    then show ?thesis using xd d mx assms(4,5) by (cases b) (auto simp: child_def rep_Some)
  next
    case 2
    then have "m \<in> set_tree l" using rep_child[OF xd(3) _ assms(4,5)] by blast
    then show ?thesis using 2 d mx Node.IH(1)[OF xd(3)] by auto
  next
    case 3
    then have "m \<in> set_tree r" using rep_child[OF xd(4) _ assms(4,5)] by blast
    then show ?thesis using 3 d mx Node.IH(2)[OF xd(4)] by auto
  qed
qed simp

text \<open>Left paths lead down.\<close>

lemma lpath_depth:
  assumes "rep h q T" and "distinct (inorder T)" and "c \<in> set_tree T" and "h c = Some cd" and "lpath h (child b cd) ns (Some s)"
  shows "s \<in> set_tree T \<and> depth T c < depth T s \<and> (\<forall>x\<in>set ns. depth T c < depth T x \<and> depth T x < depth T s)"
  using assms(3-5)
proof (induction ns arbitrary: c cd b)
  case Nil
  then show ?case using rep_child[OF assms(1)] depth_child[OF assms(1,2)] by simp
next
  case (Cons n ns)
  obtain nd where nd: "child b cd = Some n" "h n = Some nd" "lpath h (child True nd) ns (Some s)" using Cons.prems(3) by (auto simp: child_def)
  have n: "n \<in> set_tree T" "depth T n = Suc (depth T c)"
    using rep_child[OF assms(1) Cons.prems(1,2) nd(1)] depth_child[OF assms(1,2) Cons.prems(1,2) nd(1)] by auto
  show ?case using Cons.IH[OF n(1) nd(2,3)] n(2) by auto
qed

end
