(* ===== verification/Bst_Locks.thy ===== *)
theory Bst_Locks
  imports Bst_Tree
begin

text \<open>
  The invariant of the concurrent search tree: the heap holds exactly the nodes of an ordered tree,
  the locks are those of the nodes each thread has in hand, every searching thread is on the search
  path of its key, and the nodes between the node being deleted and the pair of nodes in hand are
  locked by nobody. Every step keeps it.
\<close>

subsection \<open>The invariant\<close>

fun held :: "pc \<Rightarrow> nid set" where
  "held (Walk p c n) = {c}"
| "held (DelWait k p n b) = {p}"
| "held (SuccFirst k c) = {c}"
| "held (SuccNext k c sp sc) = {c, sp, sc}"
| "held _ = {}"

fun atroot :: "pc \<Rightarrow> bool" where
  "atroot (AtRoot p) = True"
| "atroot _ = False"

fun is_delete :: "bst_op \<Rightarrow> bool" where
  "is_delete (Delete k) = True"
| "is_delete _ = False"

fun thread_ok :: "bst \<Rightarrow> nid tree \<Rightarrow> pc \<Rightarrow> bool" where
  "thread_ok s T (AtRoot p) \<longleftrightarrow> rootp s \<noteq> None"
| "thread_ok s T (Walk p c n) \<longleftrightarrow> \<not> is_delete p \<and> c \<in> set (spath (hp s) T (okey p))
     \<and> (\<exists>nd. hp s c = Some nd \<and> okey p \<noteq> key nd \<and> child (okey p < key nd) nd = Some n)"
| "thread_ok s T (DelWait k p n b) \<longleftrightarrow> p \<in> set (spath (hp s) T k)
     \<and> (\<exists>nd. hp s p = Some nd \<and> k \<noteq> key nd \<and> b = (k < key nd) \<and> child b nd = Some n)"
| "thread_ok s T (SuccFirst k c) \<longleftrightarrow> (\<exists>nd. hp s c = Some nd \<and> key nd = k \<and> rgt nd \<noteq> None)"
| "thread_ok s T (SuccNext k c sp sc) \<longleftrightarrow>
     (\<exists>nd sd ns. hp s c = Some nd \<and> key nd = k \<and> hp s sc = Some sd \<and> lft sd \<noteq> None \<and> lpath (hp s) (rgt nd) ns (Some sc)
        \<and> sp = (if ns = [] then c else last ns) \<and> (\<forall>m\<in>set (butlast ns). nlock s m = None))"
| "thread_ok s T _ \<longleftrightarrow> True"

lemma SuccNext_ok:
  assumes "hp s c = Some nd" and "key nd = k" and "hp s sc = Some sd" and "lft sd \<noteq> None" and "lpath (hp s) (rgt nd) ns (Some sc)"
    and "sp = (if ns = [] then c else last ns)" and "\<forall>m\<in>set (butlast ns). nlock s m = None"
  shows "thread_ok s T (SuccNext k c sp sc)"
  using assms by (simp only: thread_ok.simps) blast

definition core :: "bst \<Rightarrow> nid tree \<Rightarrow> bool" where
  "core s T \<longleftrightarrow> rep (hp s) (rootp s) T \<and> distinct (inorder T) \<and> set_tree T = dom (hp s) \<and> ordered (hp s) T"

text \<open>The invariant with thread \<open>t\<close> in the middle of a step, with the tree lock if \<open>b\<close> and the locks of \<open>H\<close>.\<close>

definition inv_but :: "tid \<Rightarrow> bool \<Rightarrow> nid set \<Rightarrow> bst \<Rightarrow> nid tree \<Rightarrow> bool" where
  "inv_but t b H s T \<longleftrightarrow> core s T \<and> (\<forall>n. nlock s n = Some t \<longleftrightarrow> n \<in> H) \<and> (\<forall>t'. t' \<noteq> t \<longrightarrow> (\<forall>n. nlock s n = Some t' \<longleftrightarrow> n \<in> held (pcs s t')))
     \<and> (tlock s = Some t \<longleftrightarrow> b) \<and> (\<forall>t'. t' \<noteq> t \<longrightarrow> (tlock s = Some t' \<longleftrightarrow> atroot (pcs s t')))
     \<and> (\<forall>t'. t' \<noteq> t \<longrightarrow> thread_ok s T (pcs s t'))"

definition Inv :: "bst \<Rightarrow> nid tree \<Rightarrow> bool" where
  "Inv s T \<longleftrightarrow> core s T \<and> (\<forall>t n. nlock s n = Some t \<longleftrightarrow> n \<in> held (pcs s t)) \<and> (\<forall>t. tlock s = Some t \<longleftrightarrow> atroot (pcs s t))
     \<and> (\<forall>t. thread_ok s T (pcs s t))"

lemma Inv_split: "Inv s T \<longleftrightarrow> inv_but t (atroot (pcs s t)) (held (pcs s t)) s T \<and> thread_ok s T (pcs s t)"
  unfolding Inv_def inv_but_def by (intro iffI; elim conjE; intro conjI; metis)

lemma thread_ok_cong:
  "hp s' = hp s \<Longrightarrow> rootp s' = rootp s \<Longrightarrow> nlock s' = nlock s \<Longrightarrow> thread_ok s' T p = thread_ok s T p"
  by (cases p) auto

lemma set_pc_simps [simp]:
  "hp (set_pc t p s) = hp s" "rootp (set_pc t p s) = rootp s" "nlock (set_pc t p s) = nlock s" "tlock (set_pc t p s) = tlock s"
  "pcs (set_pc t p s) = (pcs s)(t := p)"
  by (simp_all add: set_pc_def)

lemma inv_set_pc:
  assumes "inv_but t (atroot p) (held p) s T" and "thread_ok s T p"
  shows "Inv (set_pc t p s) T"
proof -
  have ok: "thread_ok (set_pc t p s) T q = thread_ok s T q" for q by (rule thread_ok_cong) simp_all
  have "core (set_pc t p s) T" using assms(1) by (simp add: inv_but_def core_def)
  then show ?thesis unfolding Inv_split[of _ _ t] inv_but_def using assms by (simp add: ok inv_but_def)
qed

lemma inv_butD:
  assumes "inv_but t b H s T"
  shows "rep (hp s) (rootp s) T" and "distinct (inorder T)" and "set_tree T = dom (hp s)" and "ordered (hp s) T"
    and "nlock s n = Some t \<longleftrightarrow> n \<in> H" and "t' \<noteq> t \<Longrightarrow> nlock s n = Some t' \<longleftrightarrow> n \<in> held (pcs s t')"
    and "tlock s = Some t \<longleftrightarrow> b" and "t' \<noteq> t \<Longrightarrow> tlock s = Some t' \<longleftrightarrow> atroot (pcs s t')" and "t' \<noteq> t \<Longrightarrow> thread_ok s T (pcs s t')"
  using assms unfolding inv_but_def core_def by simp_all

lemma in_dom: "inv_but t b H s T \<Longrightarrow> hp s n = Some nd \<Longrightarrow> n \<in> set_tree T"
  using inv_butD(3) by blast

lemma not_last_butlast: "m \<in> set ns \<Longrightarrow> m \<noteq> last ns \<Longrightarrow> m \<in> set (butlast ns)"
  by (induction ns) auto

subsection \<open>Changes by one thread\<close>

text \<open>
  A thread that changes only nodes it has locked (or allocates), releases locks, changes the root
  only under the tree lock, and leaves the nodes of other threads on the search paths they were on.
\<close>

lemma inv_change:
  assumes inv: "inv_but t b H s T" and core': "core s' T'" and pc: "\<And>t'. t' \<noteq> t \<Longrightarrow> pcs s' t' = pcs s t'"
    and heap: "\<And>n. n \<notin> H \<Longrightarrow> hp s n \<noteq> None \<Longrightarrow> hp s' n = hp s n"
    and nl: "\<And>n. nlock s' n = (if n \<in> H' then Some t else if n \<in> H then None else nlock s n)" "H' \<subseteq> H"
    and tl: "tlock s' = (if b' then Some t else if b then None else tlock s)" "b' \<longrightarrow> b" and rt: "rootp s' = rootp s \<or> b"
    and path: "\<And>x k. nlock s x \<noteq> Some t \<Longrightarrow> nlock s x \<noteq> None \<Longrightarrow> x \<in> set (spath (hp s) T k) \<Longrightarrow> x \<in> set (spath (hp s') T' k)"
  shows "inv_but t b' H' s' T'"
proof -
  note I = inv_butD[OF inv]
  have ok: "thread_ok s' T' (pcs s t')" if t': "t' \<noteq> t" for t'
  proof -
    have old: "thread_ok s T (pcs s t')" using I(9)[OF t'] .
    have mine: "n \<notin> H \<and> nlock s n = Some t'" if "n \<in> held (pcs s t')" for n using that I(5)[of n] I(6)[OF t', of n] t' by auto
    have keep: "hp s' n = Some nd" if "n \<in> held (pcs s t')" "hp s n = Some nd" for n nd using heap[of n] mine[OF that(1)] that(2) by simp
    have pth: "n \<in> set (spath (hp s') T' k)" if "n \<in> held (pcs s t')" "n \<in> set (spath (hp s) T k)" for n k
      using path[of n k] mine[OF that(1)] that(2) t' by simp
    show ?thesis
    proof (cases "pcs s t'")
      case (AtRoot p)
      then have "tlock s = Some t'" using I(8)[OF t'] by simp
      then have "\<not> b" using I(7) t' by auto
      then show ?thesis using AtRoot old rt by auto
    next
      case (Walk p c n)
      then show ?thesis using old keep pth by auto
    next
      case (DelWait k p n bb)
      then show ?thesis using old keep pth by auto
    next
      case (SuccFirst k c)
      then show ?thesis using old keep by auto
    next
      case (SuccNext k c sp sc)
      then obtain nd sd ns where x: "hp s c = Some nd" "key nd = k" "hp s sc = Some sd" "lft sd \<noteq> None" "lpath (hp s) (rgt nd) ns (Some sc)"
        "sp = (if ns = [] then c else last ns)" "\<forall>m\<in>set (butlast ns). nlock s m = None" using old by auto
      have free: "m \<notin> H" if "m \<in> set ns" for m
      proof (cases "m = last ns")
        case True
        then have "m \<in> held (pcs s t')" using that x(6) SuccNext by (auto split: if_splits)
        then show ?thesis using mine by blast
      next
        case False
        then have "m \<in> set (butlast ns)" using not_last_butlast that by fast
        then have "nlock s m = None" using x(7) by blast
        then show ?thesis using I(5)[of m] by auto
      qed
      have dom: "hp s m \<noteq> None" if "m \<in> set ns" for m using lpath_dom[OF x(5) that] .
      have "hp s' m = hp s m" if "m \<in> set ns" for m by (rule heap[OF free[OF that] dom[OF that]])
      then have "lpath (hp s') (rgt nd) ns (Some sc)" using x(5) lpath_cong[of ns "hp s'" "hp s"] by simp
      moreover have "\<forall>m\<in>set (butlast ns). nlock s' m = None" using x(7) nl free in_set_butlastD by (metis subsetD)
      ultimately show ?thesis using x keep[of c] keep[of sc] unfolding SuccNext by (intro SuccNext_ok) simp_all
    qed simp_all
  qed
  have "nlock s' n = Some t' \<longleftrightarrow> n \<in> held (pcs s t')" if "t' \<noteq> t" for t' n
    using nl I(5)[of n] I(6)[OF that, of n] that by auto
  moreover have "tlock s' = Some t' \<longleftrightarrow> atroot (pcs s t')" if "t' \<noteq> t" for t'
    using tl I(7) I(8)[OF that] that by auto
  moreover have "nlock s' n = Some t \<longleftrightarrow> n \<in> H'" for n using nl I(5)[of n] by auto
  moreover have "tlock s' = Some t \<longleftrightarrow> b'" using tl I(7) by auto
  ultimately show ?thesis unfolding inv_but_def using core' ok pc by simp
qed

subsection \<open>Taking a lock\<close>

definition locked :: "tid \<Rightarrow> nid \<Rightarrow> bst_node \<Rightarrow> bst \<Rightarrow> bst" where
  "locked t n nd s = s\<lparr>nlock := (nlock s)(n \<mapsto> t), hp := (hp s)(n \<mapsto> nd\<lparr>lock_count := lock_count nd + 1\<rparr>)\<rparr>"

lemma NODE_LOCK_locked: "hp s n = Some nd \<Longrightarrow> nlock s n = None \<Longrightarrow> NODE_LOCK t n s f = f (locked t n nd s)"
  by (simp add: NODE_LOCK_def locked_def)

lemma locked_simps [simp]:
  "rootp (locked t n nd s) = rootp s" "tlock (locked t n nd s) = tlock s" "pcs (locked t n nd s) = pcs s"
  "nlock (locked t n nd s) = (nlock s)(n \<mapsto> t)" "hp (locked t n nd s) = (hp s)(n \<mapsto> nd\<lparr>lock_count := lock_count nd + 1\<rparr>)"
  by (simp_all add: locked_def)

lemma locked_core:
  assumes "core s T" and "hp s n = Some nd"
  shows "core (locked t n nd s) T" and "spath (hp (locked t n nd s)) T k = spath (hp s) T k"
proof -
  have K: "K (hp (locked t n nd s)) m = K (hp s) m" for m using assms(2) by simp
  show "spath (hp (locked t n nd s)) T k = spath (hp s) T k" by (rule spath_cong) (rule K)
  have "rep (hp s) (rootp s) T" using assms(1) by (simp add: core_def)
  then have "rep (hp (locked t n nd s)) (rootp s) T"
  proof (rule rep_links[rotated])
    fix m assume "m \<in> set_tree T"
    then show "same_links (hp s) (hp (locked t n nd s)) m" using assms unfolding core_def same_links_def by (auto simp: dom_def)
  qed
  moreover have "ordered (hp (locked t n nd s)) T = ordered (hp s) T" by (rule ordered_cong) (rule K)
  ultimately show "core (locked t n nd s) T" using assms by (auto simp: core_def)
qed

lemma inv_lock:
  assumes inv: "inv_but t b H s T" and n: "hp s n = Some nd" "nlock s n = None"
    and from_mine: "rootp s = Some n \<or> (\<exists>x xd bb. x \<in> H \<and> hp s x = Some xd \<and> child bb xd = Some n)"
  shows "inv_but t b (insert n H) (locked t n nd s) T"
proof -
  note I = inv_butD[OF inv]
  let ?s = "locked t n nd s"
  note lc = locked_core[OF _ n(1), of T t]
  have core: "core s T" using inv by (simp add: inv_but_def)
  have ok: "thread_ok ?s T (pcs s t')" if t': "t' \<noteq> t" for t'
  proof -
    have old: "thread_ok s T (pcs s t')" using I(9)[OF t'] .
    have keep: "hp ?s m = hp s m" if "m \<in> held (pcs s t')" for m using that I(6)[OF t', of m] n(2) by auto
    show ?thesis
    proof (cases "pcs s t'")
      case (SuccNext k c sp sc)
      then obtain cd sd ns where x: "hp s c = Some cd" "key cd = k" "hp s sc = Some sd" "lft sd \<noteq> None" "lpath (hp s) (rgt cd) ns (Some sc)"
        "sp = (if ns = [] then c else last ns)" "\<forall>m\<in>set (butlast ns). nlock s m = None" using old by auto
      have nb: "n \<notin> set (butlast ns)"
      proof
        assume nb: "n \<in> set (butlast ns)"
        have "ns \<noteq> []" using nb by auto
        then have "lpath (hp s) (rgt cd) (butlast ns @ [last ns]) (Some sc)" using x(5) by simp
        then obtain q' where "lpath (hp s) (rgt cd) (butlast ns) q'" unfolding lpath_append by blast
        from lpath_parent[OF this nb] obtain y yd bb where y: "y = c \<or> y \<in> set (butlast ns)" "hp s y = Some yd" "child bb yd = Some n"
        proof (elim disjE exE conjE)
          assume "rgt cd = Some n"
          then show thesis using that[of c cd False] x(1) by (simp add: child_def)
        next
          fix z zd assume "z \<in> set (butlast (butlast ns))" "hp s z = Some zd" "lft zd = Some n"
          then show thesis using that[of z zd True] in_set_butlastD by (fastforce simp: child_def)
        qed
        have yT: "y \<in> set_tree T" using in_dom[OF inv y(2)] .
        have yn: "nlock s y \<noteq> Some t" using y(1) x(7) I(6)[OF t', of c] SuccNext t' by auto
        from from_mine show False
        proof (elim disjE exE conjE)
          assume "rootp s = Some n"
          then show False using rep_root_no_parent[OF I(1,2) yT y(2,3)] by simp
        next
          fix z zd bz assume z: "z \<in> H" "hp s z = Some zd" "child bz zd = Some n"
          have "z = y" using rep_one_parent[OF I(1,2) yT y(2,3) in_dom[OF inv z(2)] z(2,3)] by simp
          then show False using yn z(1) I(5) by simp
        qed
      qed
      have nl: "n \<notin> set ns"
      proof
        assume "n \<in> set ns"
        then have "n = last ns \<and> ns \<noteq> []" using nb not_last_butlast by fastforce
        then show False using x(6) SuccNext I(6)[OF t', of n] n(2) by auto
      qed
      have "lpath (hp ?s) (rgt cd) ns (Some sc)" using x(5) lpath_cong[of ns "hp ?s" "hp s"] nl by (metis fun_upd_other locked_simps(5))
      moreover have "\<forall>m\<in>set (butlast ns). nlock ?s m = None" using x(7) nb by auto
      ultimately show ?thesis using x(1-4,6) keep[of c] keep[of sc] unfolding SuccNext by (intro SuccNext_ok) simp_all
    qed (use old keep lc(2)[OF core] in auto)
  qed
  have "nlock ?s m = Some t' \<longleftrightarrow> m \<in> held (pcs s t')" if "t' \<noteq> t" for t' m
    using I(6)[OF that, of m] n(2) that by auto
  then show ?thesis unfolding inv_but_def using lc(1)[OF core] ok I(5,7,8) by auto
qed

lemma inv_tlock:
  assumes "inv_but t False H s T" and "tlock s = None"
  shows "inv_but t True H (s\<lparr>tlock := Some t\<rparr>) T"
proof -
  have ok: "thread_ok (s\<lparr>tlock := Some t\<rparr>) T q = thread_ok s T q" for q by (rule thread_ok_cong) simp_all
  show ?thesis using assms unfolding inv_but_def ok by (simp add: core_def)
qed

end
