(* ===== verification/Bst_Correct.thy ===== *)
theory Bst_Correct
  imports Bst_Locks
begin

text \<open>
  Correctness of the concurrent search tree: every operation takes effect at the step in which it
  returns, on the set of key/value pairs in the tree; no thread uses a node that is not allocated,
  and as long as an operation is running some thread can go on.
\<close>

subsection \<open>The abstract operations\<close>

definition entries :: "bst \<Rightarrow> (int \<times> int) set" where
  "entries s = {(key nd, val nd) | n nd. hp s n = Some nd}"

fun spec_op :: "bst_op \<Rightarrow> bool \<Rightarrow> (int \<times> int) set \<Rightarrow> ret \<Rightarrow> (int \<times> int) set \<Rightarrow> bool" where
  "spec_op (Insert k v) mem E r E' \<longleftrightarrow>
     (if k \<in> fst ` E \<or> \<not> mem then r = (- 1, None) \<and> E' = E else r = (0, None) \<and> E' = insert (k, v) E)"
| "spec_op (Lookup k) mem E r E' \<longleftrightarrow> E' = E \<and> (if k \<in> fst ` E then \<exists>v. (k, v) \<in> E \<and> r = (0, Some v) else r = (- 1, None))"
| "spec_op (Delete k) mem E r E' \<longleftrightarrow> (if k \<in> fst ` E then r = (0, None) \<and> E' = {e \<in> E. fst e \<noteq> k} else r = (- 1, None) \<and> E' = E)"

text \<open>The operations that have returned, one after the other from the empty tree.\<close>

inductive legal :: "(tid \<times> bst_op \<times> bool \<times> ret) list \<Rightarrow> (int \<times> int) set \<Rightarrow> bool" where
  legal_Nil: "legal [] {}"
| legal_snoc: "legal H E \<Longrightarrow> spec_op p mem E r E' \<Longrightarrow> legal (H @ [(t, p, mem, r)]) E'"

definition stepped :: "tid \<Rightarrow> bst_op \<Rightarrow> bool \<Rightarrow> bst \<Rightarrow> (ret option \<times> bst) attempt \<Rightarrow> bool" where
  "stepped t p mem s R \<longleftrightarrow> (\<exists>ro s' T'. R = Ok (ro, s') \<and> Inv s' T'
     \<and> (case ro of None \<Rightarrow> entries s' = entries s \<and> op_of (pcs s' t) = p | Some r \<Rightarrow> spec_op p mem (entries s) r (entries s')))"

lemma waits_ok:
  assumes "inv_but t (atroot q) (held q) s T" and "thread_ok s T q" and "op_of q = p" and "entries s = entries s0"
  shows "stepped t p mem s0 (waits t q s)"
  using inv_set_pc[OF assms(1,2)] assms(3,4) by (auto simp: stepped_def waits_def entries_def)

lemma returns_ok:
  assumes "inv_but t False {} s T" and "spec_op p mem (entries s0) r (entries s)"
  shows "stepped t p mem s0 (returns t r s)"
proof -
  have "Inv (set_pc t Idle s) T" using assms(1) by (intro inv_set_pc) simp_all
  moreover have "entries (set_pc t Idle s) = entries s" by (simp add: entries_def)
  ultimately show ?thesis using assms(2) unfolding stepped_def returns_def by auto
qed

lemma in_entries: "k \<in> fst ` entries s \<longleftrightarrow> (\<exists>n nd. hp s n = Some nd \<and> key nd = k)"
  by (force simp: entries_def)

lemma entries_NODE_UNLOCK [simp]: "entries (NODE_UNLOCK n s) = entries s"
  by (simp add: entries_def NODE_UNLOCK_def)

lemma NODE_UNLOCK_simps [simp]:
  "hp (NODE_UNLOCK n s) = hp s" "rootp (NODE_UNLOCK n s) = rootp s" "tlock (NODE_UNLOCK n s) = tlock s" "pcs (NODE_UNLOCK n s) = pcs s"
  "nlock (NODE_UNLOCK n s) = (nlock s)(n := None)"
  by (simp_all add: NODE_UNLOCK_def)

lemma entries_locked: "hp s n = Some nd \<Longrightarrow> entries (locked t n nd s) = entries s"
  unfolding entries_def by (auto split: if_splits) (metis option.inject)

lemma inv_unlock:
  assumes "inv_but t b H s T" and "n \<in> H"
  shows "inv_but t b (H - {n}) (NODE_UNLOCK n s) T"
proof (rule inv_change[OF assms(1)])
  show "core (NODE_UNLOCK n s) T" using assms(1) by (simp add: inv_but_def core_def)
  show "nlock (NODE_UNLOCK n s) m = (if m \<in> H - {n} then Some t else if m \<in> H then None else nlock s m)" for m
    using assms(2) inv_butD(5)[OF assms(1), of m] by auto
qed (use inv_butD(7)[OF assms(1)] in auto)

lemma inv_tunlock:
  assumes "inv_but t True H s T"
  shows "inv_but t False H (s\<lparr>tlock := None\<rparr>) T"
proof (rule inv_change[OF assms])
  show "core (s\<lparr>tlock := None\<rparr>) T" using assms by (simp add: inv_but_def core_def)
  show "nlock (s\<lparr>tlock := None\<rparr>) m = (if m \<in> H then Some t else if m \<in> H then None else nlock s m)" for m
    using inv_butD(5)[OF assms, of m] by auto
qed auto

subsection \<open>Insertion and lookup\<close>

lemma insert_leaf:
  assumes inv: "inv_but t False {cur} s T" and nd: "hp s cur = Some nd" and sp: "cur \<in> set (spath (hp s) T k)"
    and kk: "k \<noteq> key nd" "child (k < key nd) nd = None" and m: "hp s m = None"
    and s': "s' = NODE_UNLOCK cur (put cur (set_child (k < key nd) (Some m) nd) (s\<lparr>hp := (hp s)(m \<mapsto> \<lparr>key = k, val = v, lock_count = 0, lft = None, rgt = None\<rparr>)\<rparr>))"
  shows "inv_but t False {} s' (add (k < key nd) cur m T)" and "entries s' = insert (k, v) (entries s)"
proof -
  note I = inv_butD[OF inv]
  let ?md = "\<lparr>key = k, val = v, lock_count = 0, lft = None, rgt = None\<rparr>" and ?nd = "set_child (k < key nd) (Some m) nd"
  have cm: "cur \<noteq> m" using nd m by auto
  have h': "hp s' = (hp s)(m \<mapsto> ?md, cur \<mapsto> ?nd)" by (simp add: s' put_def)
  have mT: "m \<notin> set_tree T" using I(3) m by (auto simp: dom_def)
  have cT: "cur \<in> set_tree T" using in_dom[OF inv nd] .
  have kn: "key ?nd = key nd" "val ?nd = val nd" "child (k < key nd) ?nd = Some m" "child (\<not> (k < key nd)) ?nd = child (\<not> (k < key nd)) nd"
    by (simp_all add: set_child_def child_def)
  have K: "K (hp s') n = K (hp s) n" if "n \<in> set_tree T" for n using that mT nd kn by (auto simp: h')
  have "rep (hp s') (rootp s) (add (k < key nd) cur m T)"
    using kn cm by (intro rep_add[OF I(1) nd kk(2) I(2) mT cm, where pd' = ?nd and md = ?md]) (simp_all add: h')
  moreover have "distinct (inorder (add (k < key nd) cur m T))" using distinct_add[OF I(1) nd kk(2) I(2) mT] .
  moreover have "set_tree (add (k < key nd) cur m T) = dom (hp s')" using set_add[OF I(1) nd kk(2)] cT I(3) by (auto simp: h')
  moreover have "ordered (hp s') (add (k < key nd) cur m T)"
    using K cm by (intro ordered_add[OF I(1,4) nd sp kk I(2) mT]) (simp_all add: h')
  ultimately have core: "core s' (add (k < key nd) cur m T)" by (simp add: core_def s' put_def)
  show "inv_but t False {} s' (add (k < key nd) cur m T)"
  proof (rule inv_change[OF inv core])
    show "nlock s' n = (if n \<in> {} then Some t else if n \<in> {cur} then None else nlock s n)" for n by (simp add: s' put_def)
    show "hp s' n = hp s n" if "n \<notin> {cur}" "hp s n \<noteq> None" for n using that m by (auto simp: h')
    show "x \<in> set (spath (hp s') (add (k < key nd) cur m T) k')" if "x \<in> set (spath (hp s) T k')" for x k'
      using spath_add[OF I(1) nd kk(2) K that] .
  qed (use I(7) in \<open>auto simp: s' put_def\<close>)
  show "entries s' = insert (k, v) (entries s)"
  proof (intro set_eqI iffI)
    fix e assume "e \<in> entries s'"
    then obtain n nd' where "hp s' n = Some nd'" "e = (key nd', val nd')" by (auto simp: entries_def)
    then show "e \<in> insert (k, v) (entries s)" using nd kn by (auto simp: h' entries_def split: if_splits)
  next
    fix e assume "e \<in> insert (k, v) (entries s)"
    then consider "e = (k, v)" | n nd' where "hp s n = Some nd'" "e = (key nd', val nd')" by (auto simp: entries_def)
    then show "e \<in> entries s'"
    proof cases
      case 1
      then show ?thesis using cm unfolding entries_def h' by (auto intro!: exI[of _ m] exI[of _ ?md])
    next
      case 2
      then show ?thesis using nd kn m unfolding entries_def h' by (cases "n = cur") (force intro!: exI[of _ n])+
    qed
  qed
qed

lemma absent:
  assumes "inv_but t b H s T" and "hp s cur = Some nd" and "cur \<in> set (spath (hp s) T k)" and "k \<noteq> key nd" and "child (k < key nd) nd = None"
  shows "k \<notin> fst ` entries s"
proof
  note I = inv_butD[OF assms(1)]
  assume "k \<in> fst ` entries s"
  then obtain n nd' where n: "hp s n = Some nd'" "key nd' = k" by (auto simp: in_entries)
  then show False using spath_end[OF I(1,4) assms(3,2,4,5), of n] in_dom[OF assms(1) n(1)] by simp
qed

lemma present: "hp s n = Some nd \<Longrightarrow> key nd \<in> fst ` entries s"
  by (auto simp: in_entries)

lemma insert_body_ok:
  assumes inv: "inv_but t False {cur} s T" and sp: "cur \<in> set (spath (hp s) T k)" and new: "\<forall>m. new = Some m \<longrightarrow> hp s m = None"
    and e: "entries s = entries s0"
  shows "stepped t (Insert k v) (new \<noteq> None) s0 (insert_body new t k v cur s)"
proof -
  note I = inv_butD[OF inv]
  have "cur \<in> set_tree T" using sp spath_subset by blast
  then obtain nd where nd: "hp s cur = Some nd" using I(3) by blast
  have un: "inv_but t False {} (NODE_UNLOCK cur s) T" using inv_unlock[OF inv] by simp
  consider (eq) "k = key nd" | (down) nx where "k \<noteq> key nd" "child (k < key nd) nd = Some nx"
    | (leaf) "k \<noteq> key nd" "child (k < key nd) nd = None" by (cases "child (k < key nd) nd") auto
  then show ?thesis
  proof cases
    case eq
    then have "insert_body new t k v cur s = returns t (- 1, None) (NODE_UNLOCK cur s)" using nd by (simp add: insert_body_def deref_def)
    then show ?thesis using returns_ok[OF un, of "Insert k v" _ s0 "(- 1, None)"] present[OF nd] eq e by simp
  next
    case down
    then have "insert_body new t k v cur s = waits t (Walk (Insert k v) cur nx) s" using nd by (simp add: insert_body_def deref_def)
    then show ?thesis using down nd sp e inv by (auto intro!: waits_ok[of _ _ _ T])
  next
    case leaf
    note ab = absent[OF inv nd sp leaf]
    show ?thesis
    proof (cases new)
      case None
      then have "insert_body new t k v cur s = returns t (- 1, None) (NODE_UNLOCK cur s)" using nd leaf by (simp add: insert_body_def deref_def bst_node_create_def)
      then show ?thesis using None e by (auto intro!: returns_ok[OF un])
    next
      case (Some m)
      have m: "hp s m = None" using new Some by simp
      note il = insert_leaf[OF inv nd sp leaf m refl, of v]
      have "insert_body new t k v cur s = returns t (0, None) (NODE_UNLOCK cur (put cur (set_child (k < key nd) (Some m) nd)
          (s\<lparr>hp := (hp s)(m \<mapsto> \<lparr>key = k, val = v, lock_count = 0, lft = None, rgt = None\<rparr>)\<rparr>)))"
        using nd leaf Some by (simp add: insert_body_def deref_def bst_node_create_def)
      then show ?thesis using returns_ok[OF il(1), of "Insert k v" True s0 "(0, None)"] il(2) ab e Some by simp
    qed
  qed
qed

lemma lookup_body_ok:
  assumes inv: "inv_but t False {cur} s T" and sp: "cur \<in> set (spath (hp s) T k)" and e: "entries s = entries s0"
  shows "stepped t (Lookup k) mem s0 (lookup_body t k cur s)"
proof -
  note I = inv_butD[OF inv]
  have "cur \<in> set_tree T" using sp spath_subset by blast
  then obtain nd where nd: "hp s cur = Some nd" using I(3) by blast
  have un: "inv_but t False {} (NODE_UNLOCK cur s) T" using inv_unlock[OF inv] by simp
  consider (eq) "k = key nd" | (down) nx where "k \<noteq> key nd" "child (k < key nd) nd = Some nx"
    | (leaf) "k \<noteq> key nd" "child (k < key nd) nd = None" by (cases "child (k < key nd) nd") auto
  then show ?thesis
  proof cases
    case eq
    then have "lookup_body t k cur s = returns t (0, Some (val nd)) (NODE_UNLOCK cur s)" using nd by (simp add: lookup_body_def deref_def)
    moreover have "(k, val nd) \<in> entries s" using nd eq by (auto simp: entries_def)
    ultimately show ?thesis using returns_ok[OF un, of "Lookup k" mem s0 "(0, Some (val nd))"] present[OF nd] eq e by auto
  next
    case down
    then have "lookup_body t k cur s = waits t (Walk (Lookup k) cur nx) s" using nd by (simp add: lookup_body_def deref_def)
    then show ?thesis using down nd sp e inv by (auto intro!: waits_ok[of _ _ _ T])
  next
    case leaf
    then have "lookup_body t k cur s = returns t (- 1, None) (NODE_UNLOCK cur s)" using nd by (simp add: lookup_body_def deref_def)
    then show ?thesis using absent[OF inv nd sp leaf] e by (auto intro!: returns_ok[OF un])
  qed
qed

subsection \<open>Deletion\<close>

lemma key_unique:
  assumes "inv_but t b H s T" and "hp s n = Some nd" and "hp s n' = Some nd'" and "key nd = key nd'"
  shows "n = n'"
  using ordered_inj[OF inv_butD(4)[OF assms(1)]] in_dom[OF assms(1)] assms(2-4) by (metis option.sel)

lemma entries_remove:
  assumes "inv_but t b H s T" and "hp s y = Some yd" and "hp s' y = None"
    and "\<And>n. n \<noteq> y \<Longrightarrow> map_option (\<lambda>nd. (key nd, val nd)) (hp s' n) = map_option (\<lambda>nd. (key nd, val nd)) (hp s n)"
  shows "entries s' = {e \<in> entries s. fst e \<noteq> key yd}"
proof -
  let ?f = "\<lambda>u n. map_option (\<lambda>nd. (key nd, val nd)) (hp u n)"
  have E: "e \<in> entries u \<longleftrightarrow> (\<exists>n. ?f u n = Some e)" for u e by (force simp: entries_def)
  have ne: "fst e \<noteq> key yd" if "n \<noteq> y" "?f s n = Some e" for n e using key_unique[OF assms(1) _ assms(2), of n] that by auto
  show ?thesis
  proof (intro set_eqI iffI)
    fix e assume "e \<in> entries s'"
    then obtain n where n: "?f s' n = Some e" unfolding E by blast
    then have "n \<noteq> y" using assms(3) by auto
    then show "e \<in> {e \<in> entries s. fst e \<noteq> key yd}" using n assms(4)[of n] ne[of n e] E[of e s] by auto
  next
    fix e assume "e \<in> {e \<in> entries s. fst e \<noteq> key yd}"
    then obtain n where n: "?f s n = Some e" "fst e \<noteq> key yd" using E[of e s] by auto
    then have "n \<noteq> y" using assms(2) by auto
    then have "?f s' n = Some e" using n(1) assms(4) by simp
    then show "e \<in> entries s'" unfolding E by blast
  qed
qed

lemma entries_replace:
  assumes "inv_but t b H s T" and "hp s c = Some cd" and "hp s y = Some yd" and "y \<noteq> c" and "hp s' y = None"
    and "map_option (\<lambda>nd. (key nd, val nd)) (hp s' c) = Some (key yd, val yd)"
    and "\<And>n. n \<noteq> y \<Longrightarrow> n \<noteq> c \<Longrightarrow> map_option (\<lambda>nd. (key nd, val nd)) (hp s' n) = map_option (\<lambda>nd. (key nd, val nd)) (hp s n)"
  shows "entries s' = {e \<in> entries s. fst e \<noteq> key cd}"
proof -
  let ?f = "\<lambda>u n. map_option (\<lambda>nd. (key nd, val nd)) (hp u n)"
  have E: "e \<in> entries u \<longleftrightarrow> (\<exists>n. ?f u n = Some e)" for u e by (force simp: entries_def)
  have ne: "fst e \<noteq> key cd" if "n \<noteq> c" "?f s n = Some e" for n e using key_unique[OF assms(1) _ assms(2), of n] that by auto
  have fy: "?f s y = Some (key yd, val yd)" using assms(3) by simp
  show ?thesis
  proof (intro set_eqI iffI)
    fix e assume "e \<in> entries s'"
    then obtain n where n: "?f s' n = Some e" unfolding E by blast
    have "?f s (if n = c then y else n) = Some e \<and> (if n = c then y else n) \<noteq> c"
      using n fy assms(4-6) assms(7)[of n] by (cases "n = y"; cases "n = c") (simp_all del: map_option_eq_Some)
    then show "e \<in> {e \<in> entries s. fst e \<noteq> key cd}" using ne E[of e s] by blast
  next
    fix e assume "e \<in> {e \<in> entries s. fst e \<noteq> key cd}"
    then obtain n where n: "?f s n = Some e" "fst e \<noteq> key cd" using E[of e s] by auto
    then have "n \<noteq> c" using assms(2) by auto
    then have "?f s' (if n = y then c else n) = Some e" using n(1) fy assms(6) assms(7)[of n] by auto
    then show "e \<in> entries s'" unfolding E by blast
  qed
qed

lemma delete_single:
  assumes inv: "inv_but t False {p, cur} s T" and pc: "p \<noteq> cur" and pd: "hp s p = Some pd" "child b pd = Some cur"
    and nd: "hp s cur = Some nd" "lft nd = None \<or> rgt nd = None"
    and s': "s' = bst_node_free cur (NODE_UNLOCK cur (NODE_UNLOCK p (put p (set_child b (only_child nd) pd) s)))"
  shows "inv_but t False {} s' (rm cur T)" and "entries s' = {e \<in> entries s. fst e \<noteq> key nd}"
proof -
  note I = inv_butD[OF inv]
  let ?pd = "set_child b (only_child nd) pd"
  have h': "hp s' = (hp s)(p \<mapsto> ?pd, cur := None)" by (simp add: s' put_def bst_node_free_def)
  have kn: "key ?pd = key pd" "val ?pd = val pd" "child b ?pd = only_child nd" "child (\<not> b) ?pd = child (\<not> b) pd" by (simp_all add: set_child_def child_def)
  have pT: "p \<in> set_tree T" using in_dom[OF inv pd(1)] .
  have K: "K (hp s') n = K (hp s) n" if "n \<noteq> cur" for n using that pd kn by (auto simp: h')
  have "same_links (hp s) (hp s') n" if "n \<in> set_tree T" "n \<noteq> cur" "n \<noteq> p" for n
    using that I(3) by (auto simp: same_links_def h')
  then have "rep (hp s') (rootp s) (rm cur T)" using kn pc by (intro rep_rm[OF I(1,2) pT pd nd, where pd' = ?pd]) (simp_all add: h')
  moreover have st: "set_tree (rm cur T) = set_tree T - {cur}" using set_rm[OF I(1,2) nd] .
  moreover have "ordered (hp s') (rm cur T) = ordered (hp s) (rm cur T)" by (rule ordered_cong) (use K st in auto)
  ultimately have core: "core s' (rm cur T)"
    using distinct_rm[OF I(1,2) nd] ordered_rm[OF I(4)] I(3) pT unfolding core_def by (auto simp: s' put_def bst_node_free_def)
  show "inv_but t False {} s' (rm cur T)"
  proof (rule inv_change[OF inv core])
    show "nlock s' n = (if n \<in> {} then Some t else if n \<in> {p, cur} then None else nlock s n)" for n by (auto simp: s' put_def bst_node_free_def)
    show "hp s' n = hp s n" if "n \<notin> {p, cur}" for n using that by (simp add: h')
    show "x \<in> set (spath (hp s') (rm cur T) k)" if "nlock s x \<noteq> Some t" "x \<in> set (spath (hp s) T k)" for x k
    proof -
      have "x \<noteq> cur" using that(1) I(5)[of x] by auto
      then have "x \<in> set (spath (hp s) (rm cur T) k)" using spath_rm[OF I(1,2) nd that(2)] by simp
      moreover have "spath (hp s') (rm cur T) k = spath (hp s) (rm cur T) k" by (rule spath_cong) (use K st in auto)
      ultimately show ?thesis by simp
    qed
  qed (use I(7) in \<open>auto simp: s' put_def bst_node_free_def\<close>)
  show "entries s' = {e \<in> entries s. fst e \<noteq> key nd}"
    by (rule entries_remove[OF inv nd(1)]) (use pd(1) kn in \<open>auto simp: h'\<close>)
qed

lemma delete_root_single:
  assumes inv: "inv_but t True {cur} s T" and rt: "rootp s = Some cur" and nd: "hp s cur = Some nd" "lft nd = None \<or> rgt nd = None"
    and s': "s' = bst_node_free cur (NODE_UNLOCK cur (s\<lparr>rootp := only_child nd, tlock := None\<rparr>))"
  shows "inv_but t False {} s' (rm cur T)" and "entries s' = {e \<in> entries s. fst e \<noteq> key nd}"
proof -
  note I = inv_butD[OF inv]
  have h': "hp s' = (hp s)(cur := None)" by (simp add: s' bst_node_free_def)
  have "same_links (hp s) (hp s') n" if "n \<in> set_tree T" "n \<noteq> cur" for n using that I(3) by (auto simp: same_links_def h')
  then have "rep (hp s') (only_child nd) (rm cur T)" by (intro rep_rm_root[OF I(1)[unfolded rt] I(2) nd])
  moreover have st: "set_tree (rm cur T) = set_tree T - {cur}" using set_rm[OF I(1,2) nd] .
  moreover have "ordered (hp s') (rm cur T) = ordered (hp s) (rm cur T)" by (rule ordered_cong) (use st in \<open>auto simp: h'\<close>)
  ultimately have core: "core s' (rm cur T)"
    using distinct_rm[OF I(1,2) nd] ordered_rm[OF I(4)] I(3) unfolding core_def by (auto simp: s' bst_node_free_def)
  show "inv_but t False {} s' (rm cur T)"
  proof (rule inv_change[OF inv core])
    show "nlock s' n = (if n \<in> {} then Some t else if n \<in> {cur} then None else nlock s n)" for n by (auto simp: s' bst_node_free_def)
    show "hp s' n = hp s n" if "n \<notin> {cur}" for n using that by (simp add: h')
    show "x \<in> set (spath (hp s') (rm cur T) k)" if "nlock s x \<noteq> Some t" "x \<in> set (spath (hp s) T k)" for x k
    proof -
      have "x \<noteq> cur" using that(1) I(5)[of x] by auto
      then have "x \<in> set (spath (hp s) (rm cur T) k)" using spath_rm[OF I(1,2) nd that(2)] by simp
      moreover have "spath (hp s') (rm cur T) k = spath (hp s) (rm cur T) k" by (rule spath_cong) (use st in \<open>auto simp: h'\<close>)
      ultimately show ?thesis by simp
    qed
  qed (auto simp: s' bst_node_free_def)
  show "entries s' = {e \<in> entries s. fst e \<noteq> key nd}" by (rule entries_remove[OF inv nd(1)]) (auto simp: h')
qed

lemma delete_successor:
  assumes inv: "inv_but t False {c, sp, sc} s T" and cd: "hp s c = Some cd" and sd: "hp s sc = Some sd" "lft sd = None"
    and ch: "lpath (hp s) (rgt cd) ns (Some sc)" "sp = (if ns = [] then c else last ns)" "\<forall>m\<in>set (butlast ns). nlock s m = None"
  shows "\<exists>s'. succ_body t k c sp sc s = returns t (0, None) s' \<and> inv_but t False {} s' (rm sc T) \<and> entries s' = {e \<in> entries s. fst e \<noteq> key cd}"
proof -
  note I = inv_butD[OF inv]
  have cT: "c \<in> set_tree T" using in_dom[OF inv cd] .
  have su: "successor (hp s) T c ns sc" using cT cd sd ch(1) unfolding successor_def lpath_append by auto
  note si = successor_in[OF I(1,2) su]
  have spc: "sp = c \<longleftrightarrow> ns = []" using ch(2) si(4) last_in_set by (metis (full_types))
  obtain pd where pd: "hp s sp = Some pd" "child (sp \<noteq> c) pd = Some sc"
  proof (cases "ns = []")
    case True
    then show thesis using that[of cd] cd ch(1,2) by (simp add: child_def)
  next
    case False
    then have "lpath (hp s) (rgt cd) (butlast ns @ [sp]) (Some sc)" using ch(1,2) by simp
    then obtain pd where "hp s sp = Some pd" "lft pd = Some sc" unfolding lpath_append by auto
    then show thesis using that spc False by (simp add: child_def)
  qed
  have ss: "sp \<noteq> sc"
  proof
    assume "sp = sc"
    then have "pd = sd" "sp \<noteq> c" using pd(1) sd(1) si(3) by simp_all
    then show False using pd(2) sd(2) by (simp add: child_def)
  qed
  let ?cd = "cd\<lparr>key := key sd, val := val sd\<rparr>"
  let ?pd = "if sp = c then ?cd\<lparr>rgt := rgt sd\<rparr> else pd\<lparr>lft := rgt sd\<rparr>"
  let ?s' = "NODE_UNLOCK c (bst_node_free sc (NODE_UNLOCK sc (if sp = c then put sp ?pd (put c ?cd s) else NODE_UNLOCK sp (put sp ?pd (put c ?cd s)))))"
  have body: "succ_body t k c sp sc s = returns t (0, None) ?s'"
    using sd cd pd(1) by (simp add: succ_body_def deref_def Let_def put_def)
  have h': "hp ?s' = (hp s)(c \<mapsto> ?cd, sp \<mapsto> ?pd, sc := None)" by (simp add: put_def bst_node_free_def)
  have K: "K (hp ?s') n = K (hp s) n" if "n \<noteq> c" "n \<noteq> sc" for n using that pd unfolding h' by simp
  have Kc: "K (hp ?s') c = K (hp s) sc" using si(3) sd unfolding h' by simp
  have one: "lft sd = None \<or> rgt sd = None" using sd by simp
  have "rep (hp ?s') (rootp s) (rm sc T)"
  proof (rule rep_rm[OF I(1,2) in_dom[OF inv pd(1)] pd sd(1) one])
    show "hp ?s' sp = Some ?pd" using ss unfolding h' by simp
    show "child (sp \<noteq> c) ?pd = only_child sd" "child (\<not> sp \<noteq> c) ?pd = child (\<not> sp \<noteq> c) pd"
      using sd pd(1) cd by (auto simp: child_def only_child_def)
    show "same_links (hp s) (hp ?s') n" if "n \<in> set_tree T" "n \<noteq> sc" "n \<noteq> sp" for n
      using that I(3) cd unfolding h' by (cases "n = c") (auto simp: same_links_def)
  qed
  moreover have st: "set_tree (rm sc T) = set_tree T - {sc}" using set_rm[OF I(1,2) sd(1) one] .
  moreover have "ordered (hp ?s') (rm sc T)" using Kc K by (intro ordered_succ[OF I(1,4,2) su sd])
  ultimately have core: "core ?s' (rm sc T)"
    using distinct_rm[OF I(1,2) sd(1) one] I(3) cT in_dom[OF inv pd(1)] unfolding core_def h' by (auto simp: put_def bst_node_free_def)
  have "inv_but t False {} ?s' (rm sc T)"
  proof (rule inv_change[OF inv core])
    show "nlock ?s' n = (if n \<in> {} then Some t else if n \<in> {c, sp, sc} then None else nlock s n)" for n by (auto simp: put_def bst_node_free_def)
    show "hp ?s' n = hp s n" if "n \<notin> {c, sp, sc}" for n using that unfolding h' by simp
    show "x \<in> set (spath (hp ?s') (rm sc T) k')" if x: "nlock s x \<noteq> Some t" "nlock s x \<noteq> None" "x \<in> set (spath (hp s) T k')" for x k'
    proof -
      have "x \<notin> {c, sp, sc}" using x(1) I(5)[of x] by simp
      moreover have "x \<notin> set ns"
      proof
        assume n: "x \<in> set ns"
        have "x \<noteq> last ns" using calculation ch(2) n by (auto split: if_splits)
        then show False using not_last_butlast[OF n] ch(3) x(2) by simp
      qed
      ultimately show ?thesis using K Kc by (intro spath_succ[OF I(1,4,2) su sd _ _ x(3)]) auto
    qed
  qed (use I(7) in \<open>auto simp: put_def bst_node_free_def\<close>)
  moreover have "entries ?s' = {e \<in> entries s. fst e \<noteq> key cd}"
    by (rule entries_replace[OF inv cd sd(1) si(3)]; unfold h') (use cd sd pd(1) ss si(3) in auto)
  ultimately show ?thesis using body by blast
qed

end
