(* ===== verification/Bst_Steps.thy ===== *)
theory Bst_Steps
  imports Bst_Correct
begin

text \<open>
  Every step of a thread keeps the invariant of the search tree and, when it returns, has the effect
  and the result of the abstract operation.
\<close>

subsection \<open>Deletion\<close>

lemma delete_root_ok:
  assumes inv: "inv_but t True {cur} s T" and rt: "rootp s = Some cur" and e: "entries s = entries s0"
  shows "stepped t (Delete k) mem s0 (delete_root t k cur s)"
proof -
  note I = inv_butD[OF inv]
  have sp: "cur \<in> set (spath (hp s) T k)" using I(1) rt spath_root by simp
  then obtain nd where nd: "hp s cur = Some nd" using spath_subset I(3) by blast
  note tu = inv_tunlock[OF inv]
  have un: "inv_but t False {} (NODE_UNLOCK cur (s\<lparr>tlock := None\<rparr>)) T" using inv_unlock[OF tu] by simp
  have et: "entries (s\<lparr>tlock := None\<rparr>) = entries s" by (simp add: entries_def)
  consider (one) "key nd = k" "lft nd = None \<or> rgt nd = None" | (two) "key nd = k" "lft nd \<noteq> None" "rgt nd \<noteq> None"
    | (down) nx where "k \<noteq> key nd" "child (k < key nd) nd = Some nx" | (leaf) "k \<noteq> key nd" "child (k < key nd) nd = None"
    by (cases "child (k < key nd) nd") metis+
  then show ?thesis
  proof cases
    case one
    note ds = delete_root_single[OF inv rt nd one(2) refl]
    have "delete_root t k cur s = returns t (0, None) (bst_node_free cur (NODE_UNLOCK cur (s\<lparr>rootp := only_child nd, tlock := None\<rparr>)))"
      using nd one by (simp add: delete_root_def deref_def only_child_def)
    then show ?thesis using returns_ok[OF ds(1), of "Delete k" mem s0 "(0, None)"] ds(2) present[OF nd] one(1) e by simp
  next
    case two
    then have "delete_root t k cur s = waits t (SuccFirst k cur) (s\<lparr>tlock := None\<rparr>)"
      using nd by (auto simp: delete_root_def deref_def two_children_def)
    then show ?thesis using two nd tu et e waits_ok[of t "SuccFirst k cur" "s\<lparr>tlock := None\<rparr>" T] by simp
  next
    case down
    then have "delete_root t k cur s = waits t (DelWait k cur nx (k < key nd)) (s\<lparr>tlock := None\<rparr>)" using nd by (simp add: delete_root_def deref_def)
    then show ?thesis using down nd tu et e sp waits_ok[of t "DelWait k cur nx (k < key nd)" "s\<lparr>tlock := None\<rparr>" T] by simp
  next
    case leaf
    then have "delete_root t k cur s = returns t (- 1, None) (NODE_UNLOCK cur (s\<lparr>tlock := None\<rparr>))" using nd by (simp add: delete_root_def deref_def)
    then show ?thesis using absent[OF inv nd sp leaf] e et by (auto intro!: returns_ok[OF un])
  qed
qed

lemma delete_body_ok:
  assumes inv: "inv_but t False {p, cur} s T" and pc: "p \<noteq> cur" and pd: "hp s p = Some pd" "child b pd = Some cur"
    and sp: "cur \<in> set (spath (hp s) T k)" and e: "entries s = entries s0"
  shows "stepped t (Delete k) mem s0 (delete_body t k p cur b s)"
proof -
  note I = inv_butD[OF inv]
  obtain nd where nd: "hp s cur = Some nd" using sp spath_subset I(3) by blast
  have up: "inv_but t False {cur} (NODE_UNLOCK p s) T" using inv_unlock[OF inv, of p] pc by (simp add: insert_Diff_if)
  have un: "inv_but t False {} (NODE_UNLOCK cur (NODE_UNLOCK p s)) T" using inv_unlock[OF up] by simp
  consider (one) "key nd = k" "lft nd = None \<or> rgt nd = None" | (two) "key nd = k" "lft nd \<noteq> None" "rgt nd \<noteq> None"
    | (down) nx where "k \<noteq> key nd" "child (k < key nd) nd = Some nx" | (leaf) "k \<noteq> key nd" "child (k < key nd) nd = None"
    by (cases "child (k < key nd) nd") metis+
  then show ?thesis
  proof cases
    case one
    note ds = delete_single[OF inv pc pd nd one(2) refl]
    have "delete_body t k p cur b s = returns t (0, None) (bst_node_free cur (NODE_UNLOCK cur (NODE_UNLOCK p (put p (set_child b (only_child nd) pd) s))))"
      using nd pd one by (simp add: delete_body_def deref_def only_child_def)
    then show ?thesis using returns_ok[OF ds(1), of "Delete k" mem s0 "(0, None)"] ds(2) present[OF nd] one(1) e by simp
  next
    case two
    then have "delete_body t k p cur b s = waits t (SuccFirst k cur) (NODE_UNLOCK p s)"
      using nd by (auto simp: delete_body_def deref_def two_children_def)
    then show ?thesis using two nd up e waits_ok[of t "SuccFirst k cur" "NODE_UNLOCK p s" T] by simp
  next
    case down
    then have "delete_body t k p cur b s = waits t (DelWait k cur nx (k < key nd)) (NODE_UNLOCK p s)" using nd by (simp add: delete_body_def deref_def)
    then show ?thesis using down nd up e sp waits_ok[of t "DelWait k cur nx (k < key nd)" "NODE_UNLOCK p s" T] by simp
  next
    case leaf
    then have "delete_body t k p cur b s = returns t (- 1, None) (NODE_UNLOCK cur (NODE_UNLOCK p s))" using nd by (simp add: delete_body_def deref_def)
    then show ?thesis using absent[OF inv nd sp leaf] e by (auto intro!: returns_ok[OF un])
  qed
qed

lemma succ_body_ok:
  assumes inv: "inv_but t False {c, sp, sc} s T" and cd: "hp s c = Some cd" "key cd = k"
    and ch: "lpath (hp s) (rgt cd) ns (Some sc)" "sp = (if ns = [] then c else last ns)" "\<forall>m\<in>set (butlast ns). nlock s m = None"
    and e: "entries s = entries s0"
  shows "stepped t (Delete k) mem s0 (succ_body t k c sp sc s)"
proof -
  note I = inv_butD[OF inv]
  have "sc \<in> set_tree T" using lpath_depth[OF I(1,2) in_dom[OF inv cd(1)] cd(1), of False ns sc] ch(1) by (simp add: child_def)
  then obtain sd where sd: "hp s sc = Some sd" using I(3) by blast
  show ?thesis
  proof (cases "lft sd")
    case None
    obtain s' where s': "succ_body t k c sp sc s = returns t (0, None) s'" "inv_but t False {} s' (rm sc T)"
      "entries s' = {e \<in> entries s. fst e \<noteq> key cd}" using delete_successor[OF inv cd(1) sd None ch] by blast
    then show ?thesis using returns_ok[OF s'(2), of "Delete k" mem s0 "(0, None)"] present[OF cd(1)] cd(2) e by simp
  next
    case (Some nx)
    then have "succ_body t k c sp sc s = waits t (SuccNext k c sp sc) s" using sd by (simp add: succ_body_def deref_def)
    moreover have "thread_ok s T (SuccNext k c sp sc)" using SuccNext_ok[OF cd sd _ ch] Some by simp
    ultimately show ?thesis using waits_ok[of t "SuccNext k c sp sc" s T] inv e by simp
  qed
qed

subsection \<open>The start of an operation\<close>

lemma start_insert:
  assumes inv: "inv_but t True {} s T" and rt: "rootp s = None" and m: "hp s m = None"
    and s': "s' = s\<lparr>hp := (hp s)(m \<mapsto> \<lparr>key = k, val = v, lock_count = 0, lft = None, rgt = None\<rparr>), rootp := Some m, tlock := None\<rparr>"
  shows "inv_but t False {} s' (Node Leaf m Leaf)" and "entries s' = {(k, v)}"
proof -
  note I = inv_butD[OF inv]
  have T: "T = Leaf" using I(1) rt by simp
  then have emp: "hp s n = None" for n using I(3) by (auto simp: dom_def)
  have core: "core s' (Node Leaf m Leaf)" using emp by (auto simp: core_def s' dom_def)
  show "inv_but t False {} s' (Node Leaf m Leaf)"
    by (rule inv_change[OF inv core]) (use emp T I(5,7) in \<open>auto simp: s'\<close>)
  show "entries s' = {(k, v)}" using emp by (auto simp: entries_def s' split: if_splits)
qed

lemma start_body_ok:
  assumes inv: "inv_but t True {} s T" and new: "\<forall>m. new = Some m \<longrightarrow> hp s m = None" and e: "entries s = entries s0"
  shows "stepped t p (new \<noteq> None) s0 (start_body new t p s)"
proof (cases "rootp s")
  case None
  have un: "inv_but t False {} (s\<lparr>tlock := None\<rparr>) T" using inv_tunlock[OF inv] .
  have et: "entries (s\<lparr>tlock := None\<rparr>) = entries s" by (simp add: entries_def)
  have emp: "entries s = {}" using inv_butD(1,3)[OF inv] None by (auto simp: entries_def dom_def)
  have fail: "stepped t p (new \<noteq> None) s0 (returns t (- 1, None) (s\<lparr>tlock := None\<rparr>))"
    if "\<forall>k v. p = Insert k v \<longrightarrow> new = None"
    by (rule returns_ok[OF un]) (use that emp e et in \<open>cases p; auto\<close>)
  show ?thesis
  proof (cases "\<exists>k v m. p = Insert k v \<and> new = Some m")
    case True
    then obtain k v m where p: "p = Insert k v" "new = Some m" by blast
    note si = start_insert[OF inv None _ refl, where m = m and k = k and v = v]
    have "start_body new t p s = returns t (0, None) (s\<lparr>hp := (hp s)(m \<mapsto> \<lparr>key = k, val = v, lock_count = 0, lft = None, rgt = None\<rparr>), rootp := Some m, tlock := None\<rparr>)"
      using p None by (simp add: start_body_def bst_node_create_def)
    then show ?thesis using returns_ok[OF si(1), of p True s0 "(0, None)"] si(2) new p emp e by simp
  next
    case False
    then have "start_body new t p s = returns t (- 1, None) (s\<lparr>tlock := None\<rparr>)"
      using None by (cases p; cases new) (auto simp: start_body_def bst_node_create_def)
    then show ?thesis using fail False by auto
  qed
next
  case (Some r)
  then have "start_body new t p s = waits t (AtRoot p) s" by (simp add: start_body_def)
  then show ?thesis using Some inv e waits_ok[of t "AtRoot p" s T] by simp
qed

subsection \<open>One step of a thread\<close>

lemma SuccNext_extend:
  assumes inv: "inv_but t False {c, sp, sc} s T" and cd: "hp s c = Some cd" and sd: "hp s sc = Some sd" "lft sd = Some nx"
    and ch: "lpath (hp s) (rgt cd) ns (Some sc)" "sp = (if ns = [] then c else last ns)" "\<forall>m\<in>set (butlast ns). nlock s m = None"
    and nx: "hp s nx = Some xd" "nlock s nx = None"
    and s1: "s1 = (if sp \<noteq> c then NODE_UNLOCK sp (locked t nx xd s) else locked t nx xd s)"
  shows "inv_but t False {c, sc, nx} s1 T" and "\<exists>cd'. hp s1 c = Some cd' \<and> key cd' = key cd \<and> lpath (hp s1) (rgt cd') (ns @ [sc]) (Some nx)"
    and "\<forall>m\<in>set ns. nlock s1 m = None"
proof -
  note I = inv_butD[OF inv]
  have lp: "lpath (hp s) (child False cd) (ns @ [sc]) (Some nx)" using ch(1) sd by (auto simp: lpath_append child_def)
  note dp = lpath_depth[OF I(1,2) in_dom[OF inv cd] cd lp]
  have nxn: "nx \<notin> set ns" "nx \<noteq> c" "nx \<noteq> sc" "c \<notin> set ns" "c \<noteq> sc" using dp by auto
  have scn: "sc \<notin> set ns" using lpath_depth[OF I(1,2) in_dom[OF inv cd] cd, of False ns sc] ch(1) by (auto simp: child_def)
  have spc: "sp = c \<longleftrightarrow> ns = []" using ch(2) nxn(4) last_in_set by (metis (full_types))
  have spd: "sp \<noteq> nx" "sp \<noteq> sc" using ch(2) nxn scn by (auto split: if_splits)
  have "child True sd = Some nx" using sd by (simp add: child_def)
  then have lk: "inv_but t False {nx, c, sp, sc} (locked t nx xd s) T" using inv_lock[OF inv nx] sd(1) by blast
  show "inv_but t False {c, sc, nx} s1 T"
  proof (cases "sp = c")
    case True
    then show ?thesis using lk s1 by (simp add: insert_commute)
  next
    case False
    have "{nx, c, sp, sc} - {sp} = {c, sc, nx}" using False spd by auto
    then show ?thesis using inv_unlock[OF lk, of sp] s1 False by simp
  qed
  have h1: "hp s1 = (hp s)(nx \<mapsto> xd\<lparr>lock_count := lock_count xd + 1\<rparr>)" by (simp add: s1)
  have "lpath (hp s1) (child False cd) (ns @ [sc]) (Some nx) = lpath (hp s) (child False cd) (ns @ [sc]) (Some nx)"
    by (rule lpath_cong) (use nxn in \<open>auto simp: h1\<close>)
  then have "lpath (hp s1) (rgt cd) (ns @ [sc]) (Some nx)" using lp by (simp add: child_def)
  then show "\<exists>cd'. hp s1 c = Some cd' \<and> key cd' = key cd \<and> lpath (hp s1) (rgt cd') (ns @ [sc]) (Some nx)" using cd nxn by (simp add: h1)
  show "\<forall>m\<in>set ns. nlock s1 m = None"
  proof
    fix m assume m: "m \<in> set ns"
    then have "m \<noteq> nx" "ns \<noteq> []" using nxn by auto
    then show "nlock s1 m = None" using ch(2,3) spc not_last_butlast[OF m] by (cases "m = sp") (auto simp: s1)
  qed
qed

lemma lock_step:
  assumes "inv_but t b H s T" and "n \<in> set_tree T"
    and "\<And>nd. hp s n = Some nd \<Longrightarrow> nlock s n = None \<Longrightarrow> stepped t p mem s (f (locked t n nd s))"
  shows "NODE_LOCK t n s f = Blocked \<and> nlock s n \<noteq> None \<or> stepped t p mem s (NODE_LOCK t n s f)"
proof -
  obtain nd where nd: "hp s n = Some nd" using assms(2) inv_butD(3)[OF assms(1)] by blast
  show ?thesis
  proof (cases "nlock s n")
    case None
    then show ?thesis using nd assms(3)[OF nd] by (simp add: NODE_LOCK_locked)
  qed (use nd in \<open>simp add: NODE_LOCK_def\<close>)
qed

lemma root_step:
  assumes inv: "inv_but t True {} s T" and rt: "rootp s = Some r" and new: "\<forall>m. new = Some m \<longrightarrow> hp s m = None"
  shows "NODE_LOCK t r s (root_body new t p r) = Blocked \<and> nlock s r \<noteq> None \<or> stepped t p (new \<noteq> None) s (NODE_LOCK t r s (root_body new t p r))"
proof (rule lock_step[OF inv])
  note I = inv_butD[OF inv]
  show rT: "r \<in> set_tree T" using I(1) rt by (auto simp: rep_Some)
  fix nd assume nd: "hp s r = Some nd" "nlock s r = None"
  let ?s = "locked t r nd s"
  have lk: "inv_but t True {r} ?s T" using inv_lock[OF inv nd] rt by simp
  have tu: "inv_but t False {r} (?s\<lparr>tlock := None\<rparr>) T" using inv_tunlock[OF lk] .
  have e: "entries ?s = entries s" "entries (?s\<lparr>tlock := None\<rparr>) = entries s" using entries_locked[OF nd(1)] by (auto simp: entries_def)
  have sp: "r \<in> set (spath (hp (?s\<lparr>tlock := None\<rparr>)) T k)" for k using inv_butD(1)[OF tu] rt spath_root by simp
  have nw: "\<forall>m. new = Some m \<longrightarrow> hp (?s\<lparr>tlock := None\<rparr>) m = None" using new nd by auto
  show "stepped t p (new \<noteq> None) s (root_body new t p r ?s)"
    using insert_body_ok[OF tu sp nw e(2)] lookup_body_ok[OF tu sp e(2)] delete_root_ok[OF lk _ e(1)] rt by (cases p) (simp_all add: root_body_def)
qed

lemma walk_step:
  assumes inv: "inv_but t False {c} s T" and ok: "thread_ok s T (Walk p c n)" and new: "\<forall>m. new = Some m \<longrightarrow> hp s m = None"
  defines "f \<equiv> \<lambda>s1. walk_body new t p n (NODE_UNLOCK c s1)"
  shows "NODE_LOCK t n s f = Blocked \<and> nlock s n \<noteq> None \<or> stepped t p (new \<noteq> None) s (NODE_LOCK t n s f)"
proof (rule lock_step[OF inv])
  note I = inv_butD[OF inv]
  obtain cd where cd: "\<not> is_delete p" "c \<in> set (spath (hp s) T (okey p))" "hp s c = Some cd" "okey p \<noteq> key cd" "child (okey p < key cd) cd = Some n"
    using ok by auto
  note cT = in_dom[OF inv cd(3)]
  have sp: "n \<in> set (spath (hp s) T (okey p))" using spath_next[OF I(1) cd(2-5)] .
  then show "n \<in> set_tree T" using spath_subset by blast
  fix nd assume nd: "hp s n = Some nd" "nlock s n = None"
  let ?s = "NODE_UNLOCK c (locked t n nd s)"
  have "n \<noteq> c" using depth_child[OF I(1,2) cT cd(3,5)] by auto
  then have "inv_but t False {n} ?s T" using inv_unlock[of t False "{n, c}" _ T c] inv_lock[OF inv nd] cd(3,5) by (auto simp: insert_Diff_if)
  note un = this
  have e: "entries ?s = entries s" using entries_locked[OF nd(1)] by simp
  have sp': "n \<in> set (spath (hp ?s) T (okey p))" using sp locked_core(2)[OF _ nd(1), of T t] inv by (simp add: inv_but_def)
  have nw: "\<forall>m. new = Some m \<longrightarrow> hp ?s m = None" using new nd by auto
  show "stepped t p (new \<noteq> None) s (f (locked t n nd s))"
    using insert_body_ok[OF un _ nw e] lookup_body_ok[OF un _ e] sp' cd(1) by (cases p) (simp_all add: walk_body_def f_def)
qed

lemma del_step:
  assumes inv: "inv_but t False {c} s T" and ok: "thread_ok s T (DelWait k c n b)"
  shows "NODE_LOCK t n s (delete_body t k c n b) = Blocked \<and> nlock s n \<noteq> None \<or> stepped t (Delete k) mem s (NODE_LOCK t n s (delete_body t k c n b))"
proof (rule lock_step[OF inv])
  note I = inv_butD[OF inv]
  obtain cd where cd: "c \<in> set (spath (hp s) T k)" "hp s c = Some cd" "k \<noteq> key cd" "child (k < key cd) cd = Some n" "b = (k < key cd)"
    using ok by auto
  note cT = in_dom[OF inv cd(2)]
  have sp: "n \<in> set (spath (hp s) T k)" using spath_next[OF I(1) cd(1-4)] .
  then show "n \<in> set_tree T" using spath_subset by blast
  fix nd assume nd: "hp s n = Some nd" "nlock s n = None"
  let ?s = "locked t n nd s"
  have ne: "c \<noteq> n" using depth_child[OF I(1,2) cT cd(2,4)] by auto
  have lk: "inv_but t False {c, n} ?s T" using inv_lock[OF inv nd] cd(2,4) by (auto simp: insert_commute)
  have sp': "n \<in> set (spath (hp ?s) T k)" using sp locked_core(2)[OF _ nd(1), of T t] inv by (simp add: inv_but_def)
  have "hp ?s c = Some cd" "child b cd = Some n" using cd ne by auto
  then show "stepped t (Delete k) mem s (delete_body t k c n b ?s)" using delete_body_ok[OF lk ne _ _ sp' entries_locked[OF nd(1)]] by blast
qed

lemma succ_first_step:
  assumes inv: "inv_but t False {c} s T" and cd: "hp s c = Some cd" "key cd = k" "rgt cd = Some n"
  shows "NODE_LOCK t n s (succ_body t k c c n) = Blocked \<and> nlock s n \<noteq> None \<or> stepped t (Delete k) mem s (NODE_LOCK t n s (succ_body t k c c n))"
proof (rule lock_step[OF inv])
  note I = inv_butD[OF inv] and cT = in_dom[OF inv cd(1)]
  have ch: "child False cd = Some n" using cd(3) by (simp add: child_def)
  show "n \<in> set_tree T" using rep_child[OF I(1) cT cd(1) ch] .
  fix nd assume nd: "hp s n = Some nd" "nlock s n = None"
  let ?s = "locked t n nd s"
  have ne: "c \<noteq> n" using depth_child[OF I(1,2) cT cd(1) ch] by auto
  have "inv_but t False (insert n {c}) ?s T" using inv_lock[OF inv nd] cd(1) ch by blast
  then have lk: "inv_but t False {c, c, n} ?s T" by (simp add: insert_commute)
  have "hp ?s c = Some cd" using cd ne by simp
  then show "stepped t (Delete k) mem s (succ_body t k c c n ?s)"
    using succ_body_ok[OF lk, of cd k "[]"] cd entries_locked[OF nd(1)] by simp
qed

lemma succ_next_step:
  assumes inv: "inv_but t False {c, sp, sc} s T" and ok: "thread_ok s T (SuccNext k c sp sc)" and sd: "hp s sc = Some sd" "lft sd = Some n"
  defines "f \<equiv> \<lambda>s1. succ_body t k c sc n (if sp \<noteq> c then NODE_UNLOCK sp s1 else s1)"
  shows "NODE_LOCK t n s f = Blocked \<and> nlock s n \<noteq> None \<or> stepped t (Delete k) mem s (NODE_LOCK t n s f)"
proof (rule lock_step[OF inv])
  note I = inv_butD[OF inv]
  obtain cd ns where cd: "hp s c = Some cd" "key cd = k" and ch: "lpath (hp s) (rgt cd) ns (Some sc)"
    "sp = (if ns = [] then c else last ns)" "\<forall>m\<in>set (butlast ns). nlock s m = None" using ok by auto
  have cn: "child True sd = Some n" using sd(2) by (simp add: child_def)
  show "n \<in> set_tree T" using rep_child[OF I(1) in_dom[OF inv sd(1)] sd(1) cn] .
  fix nd assume nd: "hp s n = Some nd" "nlock s n = None"
  let ?s = "if sp \<noteq> c then NODE_UNLOCK sp (locked t n nd s) else locked t n nd s"
  note ex = SuccNext_extend[OF inv cd(1) sd ch nd refl]
  obtain cd' where cd': "hp ?s c = Some cd'" "key cd' = k" "lpath (hp ?s) (rgt cd') (ns @ [sc]) (Some n)" using ex(2) cd(2) by blast
  have "entries ?s = entries s" using entries_locked[OF nd(1)] by simp
  then have "stepped t (Delete k) mem s (succ_body t k c sc n ?s)" using ex(3) by (intro succ_body_ok[OF ex(1) cd']) simp_all
  then show "stepped t (Delete k) mem s (f (locked t n nd s))" unfolding f_def .
qed

text \<open>The node whose lock a thread waits for, and whether the lock it waits for is taken.\<close>

definition waits_for :: "bst \<Rightarrow> tid \<Rightarrow> nid option" where
  "waits_for s t =
     (case pcs s t of
        AtRoot p \<Rightarrow> rootp s
      | Walk p c n \<Rightarrow> Some n
      | DelWait k c n b \<Rightarrow> Some n
      | SuccFirst k c \<Rightarrow> Option.bind (hp s c) rgt
      | SuccNext k c sp sc \<Rightarrow> Option.bind (hp s sc) lft
      | _ \<Rightarrow> None)"

definition blocked :: "bst \<Rightarrow> tid \<Rightarrow> bool" where
  "blocked s t = (case waits_for s t of Some n \<Rightarrow> nlock s n \<noteq> None | None \<Rightarrow> tlock s \<noteq> None)"

lemma tstep_ok:
  assumes "Inv s T" and "pcs s t \<noteq> Idle" and new: "\<forall>m. new = Some m \<longrightarrow> hp s m = None"
  shows "tstep new t s = Blocked \<and> blocked s t \<or> stepped t (op_of (pcs s t)) (new \<noteq> None) s (tstep new t s)"
proof -
  have inv: "inv_but t (atroot (pcs s t)) (held (pcs s t)) s T" and ok: "thread_ok s T (pcs s t)" using assms(1) Inv_split by blast+
  show ?thesis
  proof (cases "pcs s t")
    case (Start p)
    show ?thesis
    proof (cases "tlock s")
      case None
      have "inv_but t True {} (s\<lparr>tlock := Some t\<rparr>) T" using inv_tlock[OF _ None] inv Start by simp
      moreover have "entries (s\<lparr>tlock := Some t\<rparr>) = entries s" by (simp add: entries_def)
      ultimately have "stepped t p (new \<noteq> None) s (start_body new t p (s\<lparr>tlock := Some t\<rparr>))" using new by (intro start_body_ok) simp_all
      then show ?thesis using Start None by (simp add: tstep_def blocked_def waits_for_def)
    qed (use Start in \<open>simp add: tstep_def blocked_def waits_for_def\<close>)
  next
    case (AtRoot p)
    then obtain r where "rootp s = Some r" using ok by auto
    then show ?thesis using root_step[of t s T r new p] inv AtRoot new by (simp add: tstep_def blocked_def waits_for_def)
  next
    case (Walk p c n)
    then show ?thesis using walk_step[of t c s T p n new] inv ok new by (simp add: tstep_def blocked_def waits_for_def)
  next
    case (DelWait k c n b)
    then show ?thesis using del_step[of t c s T k n b] inv ok by (simp add: tstep_def blocked_def waits_for_def)
  next
    case (SuccFirst k c)
    then obtain cd n where "hp s c = Some cd" "key cd = k" "rgt cd = Some n" using ok by auto
    then show ?thesis using succ_first_step[of t c s T cd k n] inv SuccFirst by (simp add: tstep_def blocked_def waits_for_def deref_def)
  next
    case (SuccNext k c sp sc)
    then obtain sd n where "hp s sc = Some sd" "lft sd = Some n" using ok by auto
    then show ?thesis using succ_next_step[of t c sp sc s T k sd n] inv ok SuccNext by (simp add: tstep_def blocked_def waits_for_def deref_def)
  qed (use assms(2) in simp)
qed

end
