(* ===== verification/Bst_Threads.thy ===== *)
theory Bst_Threads
  imports Bst_Steps
begin

text \<open>
  The search tree under any interleaving: the operations take effect one at a time in the order in
  which they return, no thread touches freed memory, some thread can always go on, and
  \<open>bst_destroy\<close> frees every node of a tree that is not in use.
\<close>

subsection \<open>The executions keep the invariant\<close>

lemma Inv_init: "Inv empty_bst Leaf"
  by (auto simp: Inv_def core_def empty_bst_def)

lemma Inv_call:
  assumes "Inv s T" and "pcs s t = Idle"
  shows "Inv (set_pc t (Start p) s) T"
  using assms inv_set_pc[of t "Start p" s T] Inv_split[of s T t] by simp

lemma tstep_Idle: "pcs s t = Idle \<Longrightarrow> tstep new t s = Blocked"
  by (simp add: tstep_def)

lemma reach_inv: "reach H s \<Longrightarrow> \<exists>T. Inv s T \<and> legal H (entries s)"
proof (induction rule: reach.induct)
  case (init mem mtx s)
  then have "s = empty_bst" by (auto simp: bst_init_def split: if_splits)
  moreover have "entries empty_bst = {}" by (simp add: entries_def empty_bst_def)
  ultimately show ?case using Inv_init legal_Nil by metis
next
  case (call H s t p)
  then show ?case using Inv_call by (fastforce simp: entries_def)
next
  case (step H s new t s')
  then obtain T where T: "Inv s T" "legal H (entries s)" by blast
  have "pcs s t \<noteq> Idle" using step.hyps(3) tstep_Idle by force
  from tstep_ok[OF T(1) this step.hyps(2)] show ?case using step.hyps(3) T(2) by (auto simp: stepped_def)
next
  case (ret H s new t r s')
  then obtain T where T: "Inv s T" "legal H (entries s)" by blast
  have "pcs s t \<noteq> Idle" using ret.hyps(3) tstep_Idle by force
  from tstep_ok[OF T(1) this ret.hyps(2)] show ?case using ret.hyps(3) by (auto simp: stepped_def intro: legal_snoc[OF T(2)])
qed

subsection \<open>Progress\<close>

lemma waits_for_deeper:
  assumes "Inv s T" and "waits_for s t = Some n"
  shows "n \<in> set_tree T" and "x \<in> held (pcs s t) \<Longrightarrow> depth T x < depth T n"
proof -
  have inv: "inv_but t (atroot (pcs s t)) (held (pcs s t)) s T" and ok: "thread_ok s T (pcs s t)" using assms(1) Inv_split by blast+
  note I = inv_butD[OF inv]
  have below: "n \<in> set_tree T \<and> depth T c < depth T n" if "hp s c = Some cd" "child b cd = Some n" for c cd b
    using rep_child[OF I(1) in_dom[OF inv that(1)] that] depth_child[OF I(1,2) in_dom[OF inv that(1)] that] by simp
  have "n \<in> set_tree T \<and> (\<forall>x\<in>held (pcs s t). depth T x < depth T n)"
  proof (cases "pcs s t")
    case (AtRoot p)
    then show ?thesis using assms(2) I(1) by (auto simp: waits_for_def rep_Some)
  next
    case (Walk p c m)
    then show ?thesis using assms(2) ok below by (auto simp: waits_for_def)
  next
    case (DelWait k c m b)
    then show ?thesis using assms(2) ok below by (auto simp: waits_for_def)
  next
    case (SuccFirst k c)
    then show ?thesis using assms(2) below[of c _ False] by (auto simp: waits_for_def child_def bind_eq_Some_conv)
  next
    case (SuccNext k c sp sc)
    then obtain cd sd ns where x: "hp s c = Some cd" "hp s sc = Some sd" "lpath (hp s) (rgt cd) ns (Some sc)" "sp = (if ns = [] then c else last ns)"
      using ok by auto
    have "depth T c < depth T sc \<and> (\<forall>x\<in>set ns. depth T x < depth T sc)"
      using lpath_depth[OF I(1,2) in_dom[OF inv x(1)] x(1), of False ns sc] x(3) by (simp add: child_def)
    then have "depth T c < depth T sc \<and> depth T sp < depth T sc" using x(4) by simp
    moreover have "n \<in> set_tree T \<and> depth T sc < depth T n" using below[of sc sd True] x(2) SuccNext assms(2) by (simp add: waits_for_def child_def)
    ultimately show ?thesis using SuccNext by auto
  qed (use assms(2) in \<open>simp_all add: waits_for_def\<close>)
  then show "n \<in> set_tree T" "x \<in> held (pcs s t) \<Longrightarrow> depth T x < depth T n" by auto
qed

lemma held_waits:
  assumes "Inv s T" and "x \<in> held (pcs s t)"
  shows "\<exists>n. waits_for s t = Some n"
proof -
  have "thread_ok s T (pcs s t)" using assms(1) by (simp add: Inv_def)
  then show ?thesis using assms(2) by (cases "pcs s t") (auto simp: waits_for_def)
qed

lemma some_thread_free:
  assumes "Inv s T" and "pcs s t \<noteq> Idle"
  shows "\<exists>t'. pcs s t' \<noteq> Idle \<and> \<not> blocked s t'"
proof (cases "\<exists>u n. waits_for s u = Some n")
  case True
  let ?P = "\<lambda>u. \<exists>n. waits_for s u = Some n"
  let ?d = "\<lambda>u. depth T (the (waits_for s u))"
  have "?d u < height T" if "?P u" for u using that waits_for_deeper(1)[OF assms(1)] depth_height by auto
  then obtain u where u: "?P u" "\<forall>v. ?P v \<longrightarrow> ?d v \<le> ?d u" using True ex_has_greatest_nat[of ?P _ ?d "height T"] by blast
  then obtain n where n: "waits_for s u = Some n" by blast
  have "nlock s n = None"
  proof (rule ccontr)
    assume "nlock s n \<noteq> None"
    then obtain v where "nlock s n = Some v" by blast
    then have v: "n \<in> held (pcs s v)" using assms(1) by (simp add: Inv_def)
    then obtain m where m: "waits_for s v = Some m" using held_waits[OF assms(1)] by blast
    have "?d u < ?d v" using waits_for_deeper(2)[OF assms(1) m v] n m by simp
    then show False using u(2) m by (meson not_less option.exhaust)
  qed
  moreover have "pcs s u \<noteq> Idle" using n by (auto simp: waits_for_def)
  ultimately show ?thesis using n by (auto simp: blocked_def)
next
  case False
  then have none: "waits_for s u = None" for u by (cases "waits_for s u") auto
  have "\<not> atroot (pcs s u)" for u
  proof
    assume a: "atroot (pcs s u)"
    then have "rootp s \<noteq> None" using assms(1) unfolding Inv_def by (cases "pcs s u") (auto dest: spec[of _ u])
    then show False using a none[of u] by (cases "pcs s u") (auto simp: waits_for_def)
  qed
  then have "tlock s = None" using assms(1) unfolding Inv_def by (cases "tlock s") auto
  then show ?thesis using none assms(2) by (auto simp: blocked_def)
qed

subsection \<open>Destruction\<close>

lemma bst_destroy_node_ok:
  "rep h p T \<Longrightarrow> distinct (inorder T) \<Longrightarrow> height T \<le> fuel \<Longrightarrow>
   bst_destroy_node fuel p h = Ok (\<lambda>n. if n \<in> set_tree T then None else h n)"
proof (induction T arbitrary: p h fuel)
  case (Node l n r)
  obtain nd where nd: "p = Some n" "h n = Some nd" "rep h (lft nd) l" "rep h (rgt nd) r" using Node.prems(1) by auto
  obtain f where f: "fuel = Suc f" "height l \<le> f" "height r \<le> f" using Node.prems(3) by (cases fuel) auto
  note d = Node.prems(2)[unfolded distinct_node]
  let ?h1 = "\<lambda>m. if m \<in> set_tree l then None else h m"
  have l: "bst_destroy_node f (lft nd) h = Ok ?h1" using Node.IH(1)[OF nd(3) _ f(2)] d by simp
  have "rep ?h1 (rgt nd) r = rep h (rgt nd) r" by (rule rep_same) (use d in auto)
  then have r: "bst_destroy_node f (rgt nd) ?h1 = Ok (\<lambda>m. if m \<in> set_tree r then None else ?h1 m)" using Node.IH(2)[OF _ _ f(3)] nd(4) d by simp
  show ?case using nd(1,2) f(1) l r d by (auto simp: fun_eq_iff)
qed simp

lemma idle_unlocked:
  assumes "Inv s T" and "\<forall>t. pcs s t = Idle"
  shows "nlock s n = None" and "tlock s = None"
  using assms by (auto simp: Inv_def intro: option.exhaust[of "nlock s n"] option.exhaust[of "tlock s"])

lemma height_card: "distinct (inorder T) \<Longrightarrow> height T \<le> card (set_tree T)"
  by (metis distinct_card height_le_size_tree length_inorder set_inorder)

subsection \<open>A concrete run\<close>

text \<open>
  Thread 0 inserts 5; then thread 1, looking up 5, has the tree lock and waits for the root, while
  thread 0 waits for the tree lock to delete 5.
\<close>

definition demo_leaf :: bst where
  "demo_leaf = \<lparr>hp = [1 \<mapsto> \<lparr>key = 5, val = 50, lock_count = 0, lft = None, rgt = None\<rparr>], rootp = Some 1, tlock = None,
     nlock = (\<lambda>_. None), pcs = (\<lambda>_. Idle)\<rparr>"

definition demo_busy :: bst where
  "demo_busy = demo_leaf\<lparr>tlock := Some 1, pcs := (\<lambda>_. Idle)(1 := AtRoot (Lookup 5), 0 := Start (Delete 5))\<rparr>"

lemma empty_reach: "reach [] empty_bst"
  by (rule reach.init[of True True]) (simp add: bst_init_def)

lemma demo_leaf_reach: "reach [(0, Insert 5 50, True, (0, None))] demo_leaf"
proof -
  have "reach [] (set_pc 0 (Start (Insert 5 50)) empty_bst)" using reach.call[OF empty_reach, of 0] by (simp add: empty_bst_def)
  moreover have "tstep (Some 1) 0 (set_pc 0 (Start (Insert 5 50)) empty_bst) = Ok (Some (0, None), demo_leaf)"
    by (simp add: tstep_def start_body_def bst_node_create_def returns_def empty_bst_def demo_leaf_def set_pc_def fun_eq_iff)
  ultimately show ?thesis using reach.ret[of "[]" _ "Some 1" 0] by (fastforce simp: empty_bst_def)
qed

lemma demo_busy_reach: "reach [(0, Insert 5 50, True, (0, None))] demo_busy"
proof -
  have "reach [(0, Insert 5 50, True, (0, None))] (set_pc 1 (Start (Lookup 5)) demo_leaf)"
    using reach.call[OF demo_leaf_reach, of 1] by (simp add: demo_leaf_def)
  moreover have "tstep None 1 (set_pc 1 (Start (Lookup 5)) demo_leaf) = Ok (None, set_pc 1 (AtRoot (Lookup 5)) (demo_leaf\<lparr>tlock := Some 1\<rparr>))"
    by (simp add: tstep_def start_body_def waits_def demo_leaf_def set_pc_def)
  ultimately have "reach [(0, Insert 5 50, True, (0, None))] (set_pc 1 (AtRoot (Lookup 5)) (demo_leaf\<lparr>tlock := Some 1\<rparr>))"
    using reach.step by blast
  then have "reach [(0, Insert 5 50, True, (0, None))] (set_pc 0 (Start (Delete 5)) (set_pc 1 (AtRoot (Lookup 5)) (demo_leaf\<lparr>tlock := Some 1\<rparr>)))"
    by (rule reach.call) (simp add: demo_leaf_def)
  moreover have "set_pc 0 (Start (Delete 5)) (set_pc 1 (AtRoot (Lookup 5)) (demo_leaf\<lparr>tlock := Some 1\<rparr>)) = demo_busy"
    by (simp add: demo_busy_def demo_leaf_def set_pc_def)
  ultimately show ?thesis by simp
qed

subsection \<open>Properties\<close>

text \<open>
  (C20) Under any interleaving of threads, the operations that have returned, in the order in which
  they returned, are a legal sequence of operations on a set of pairs that starts empty and is now
  what the tree holds: an insertion adds its pair unless the key is there or there is no memory, a
  lookup finds the value of its key exactly when the key is there, a deletion removes its key.
\<close>

theorem bst_linearizable: "reach H s \<Longrightarrow> legal H (entries s)"
  using reach_inv by blast

theorem bst_linearizable_witness: "legal [(0, Insert 5 50, True, (0, None))] (entries demo_busy)"
  using bst_linearizable[OF demo_busy_reach] .

text \<open>
  In every reachable state, also in the middle of operations, the allocated nodes are exactly
  the nodes of one search tree under the root pointer: nothing is lost, shared or cyclic, and the
  keys are in search order.
\<close>

theorem bst_search_tree:
  "reach H s \<Longrightarrow> \<exists>T. rep (hp s) (rootp s) T \<and> distinct (inorder T) \<and> set_tree T = dom (hp s) \<and> ordered (hp s) T"
  using reach_inv by (fastforce simp: Inv_def core_def)

theorem bst_search_tree_witness:
  "\<exists>T. rep (hp demo_busy) (rootp demo_busy) T \<and> distinct (inorder T) \<and> set_tree T = dom (hp demo_busy) \<and> ordered (hp demo_busy) T"
  using bst_search_tree[OF demo_busy_reach] .

text \<open>
  (C22) No thread dereferences a null pointer or a freed node, whatever the others have done between
  its steps.
\<close>

theorem bst_no_use_after_free:
  assumes "reach H s" and "\<forall>m. new = Some m \<longrightarrow> hp s m = None"
  shows "tstep new t s \<noteq> Crash"
proof (cases "pcs s t = Idle")
  case False
  then show ?thesis using reach_inv[OF assms(1)] tstep_ok[OF _ False assms(2)] by (auto simp: stepped_def)
qed (simp add: tstep_Idle)

theorem bst_no_use_after_free_witness: "tstep (Some 2) 1 demo_busy \<noteq> Crash"
  by (rule bst_no_use_after_free[OF demo_busy_reach]) (simp add: demo_busy_def demo_leaf_def)

text \<open>
  (C21) The locks do not deadlock: as long as some operation has not returned, the step of some
  thread succeeds.
\<close>

theorem bst_deadlock_free:
  assumes "reach H s" and "pcs s t \<noteq> Idle" and "\<forall>m. new = Some m \<longrightarrow> hp s m = None"
  shows "\<exists>t' r s'. pcs s t' \<noteq> Idle \<and> tstep new t' s = Ok (r, s')"
proof -
  obtain T where T: "Inv s T" using reach_inv[OF assms(1)] by blast
  obtain t' where t': "pcs s t' \<noteq> Idle" "\<not> blocked s t'" using some_thread_free[OF T assms(2)] by blast
  then show ?thesis using tstep_ok[OF T t'(1) assms(3)] by (auto simp: stepped_def)
qed

theorem bst_deadlock_free_witness: "\<exists>t r s'. pcs demo_busy t \<noteq> Idle \<and> tstep (Some 2) t demo_busy = Ok (r, s')"
  by (rule bst_deadlock_free[OF demo_busy_reach, of 0]) (simp_all add: demo_busy_def demo_leaf_def)

text \<open>
  (C23) When no operation is running, no lock is held and \<open>bst_destroy\<close> ends having freed every
  node, each once; the recursion is never deeper than the number of nodes.
\<close>

theorem bst_destroy_frees_all:
  assumes "reach H s" and "\<forall>t. pcs s t = Idle" and "card (dom (hp s)) \<le> fuel"
  shows "bst_destroy fuel s = Ok (\<lambda>_. None) \<and> (\<forall>n. nlock s n = None) \<and> tlock s = None"
proof -
  obtain T where T: "Inv s T" using reach_inv[OF assms(1)] by blast
  then have c: "rep (hp s) (rootp s) T" "distinct (inorder T)" "set_tree T = dom (hp s)" by (simp_all add: Inv_def core_def)
  have "(if n \<in> set_tree T then None else hp s n) = None" for n using c(3) by (auto simp: dom_def)
  then have "bst_destroy fuel s = Ok (\<lambda>_. None)" using bst_destroy_node_ok[OF c(1,2)] height_card[OF c(2)] c(3) assms(3) by (simp add: bst_destroy_def)
  then show ?thesis using idle_unlocked[OF T assms(2)] by blast
qed

theorem bst_destroy_frees_all_witness:
  "bst_destroy 1 demo_leaf = Ok (\<lambda>_. None) \<and> (\<forall>n. nlock demo_leaf n = None) \<and> tlock demo_leaf = None"
  by (rule bst_destroy_frees_all[OF demo_leaf_reach]) (simp_all add: demo_leaf_def)

end
