(* ===== verification/Heap_Alloc.thy ===== *)
theory Heap_Alloc
  imports Prelude
begin

text \<open>
  The best-fit heap allocator of p3Heap.c (p3Heap-2.c is the same file): block headers and
  footers as 32-bit words in memory, \<open>init_heap\<close>, \<open>alloc\<close> with splitting,
  \<open>free_block\<close> with immediate coalescing, and the traversal \<open>disp_heap\<close>. The heap
  is abstracted to the list of its blocks; the operations refine best fit and coalescing on
  that list and keep its invariant.
\<close>

subsection \<open>The heap and its words\<close>

text \<open>
  \<open>hmem\<close> gives the 32-bit word at each byte address a block header can have. A C \<open>int\<close> is
  an integer in the range of 32-bit two's complement; \<open>int32\<close> is the conversion to it.
\<close>

record heap =
  hmem :: "int \<Rightarrow> int"
  heap_start :: int
  alloc_size :: int
  allocated_once :: bool

definition int32 :: "int \<Rightarrow> int" where
  "int32 x = signed_take_bit 31 x"

definition INT_MAX :: int where
  "INT_MAX = 2147483647"

abbreviation (input) A_BIT :: int where "A_BIT \<equiv> 1"
abbreviation (input) P_BIT :: int where "P_BIT \<equiv> 2"

definition GET_SIZE :: "int \<Rightarrow> int" where
  "GET_SIZE ss = ss AND NOT 3"

definition IS_ALLOCATED :: "int \<Rightarrow> bool" where
  "IS_ALLOCATED ss \<longleftrightarrow> ss AND A_BIT \<noteq> 0"

definition IS_PREV_ALLOCATED :: "int \<Rightarrow> bool" where
  "IS_PREV_ALLOCATED ss \<longleftrightarrow> ss AND P_BIT \<noteq> 0"

subsection \<open>Allocation\<close>

text \<open>
  The size computation of \<open>alloc\<close>: \<open>size + sizeof(blockHeader)\<close> is computed in
  \<open>size_t\<close> and converted to \<open>int\<close>; the rounding is \<open>int\<close> arithmetic with C's
  remainder.
\<close>

definition required_size :: "int \<Rightarrow> int" where
  "required_size n =
     (let r = int32 (n + 4)
      in if r smod 8 \<noteq> 0 then int32 (r + (8 - r smod 8)) else r)"

text \<open>
  The search loop of \<open>alloc\<close>. It follows the block sizes until the end mark, so it runs for
  ever on a block of size 0; \<open>fuel\<close> bounds the number of blocks visited.
\<close>

fun best_fit_loop :: "nat \<Rightarrow> heap \<Rightarrow> int \<Rightarrow> int \<Rightarrow> int option \<Rightarrow> int \<Rightarrow> (int option \<times> int) outcome" where
  "best_fit_loop 0 h required current best_fit best_fit_size = Diverge"
| "best_fit_loop (Suc fuel) h required current best_fit best_fit_size =
     (if hmem h current = 1 then Ret (best_fit, best_fit_size)
      else let current_size = GET_SIZE (hmem h current);
               is_allocated = IS_ALLOCATED (hmem h current)
           in if \<not> is_allocated \<and> current_size \<ge> required
                \<and> (best_fit = None \<or> current_size < best_fit_size)
              then best_fit_loop fuel h required (current + current_size) (Some current) current_size
              else best_fit_loop fuel h required (current + current_size) best_fit best_fit_size)"

text \<open>A block has at least 8 bytes, so a heap of \<open>alloc_size\<close> bytes has fewer blocks than this.\<close>

definition walk_fuel :: "heap \<Rightarrow> nat" where
  "walk_fuel h = Suc (nat (alloc_size h))"

text \<open>The split and the exact-fit branch of \<open>alloc\<close>.\<close>

definition split_block :: "heap \<Rightarrow> int \<Rightarrow> int \<Rightarrow> int \<Rightarrow> heap" where
  "split_block h best_fit required remaining =
     (let p_bit = (if IS_PREV_ALLOCATED (hmem h best_fit) then P_BIT else 0);
          m1 = (hmem h)(best_fit := required OR p_bit OR A_BIT);
          new_free = best_fit + required;
          m2 = m1(new_free := remaining OR P_BIT);
          m3 = m2(new_free + remaining - 4 := remaining);
          nxt = new_free + remaining;
          m4 = (if m3 nxt \<noteq> 1 then m3(nxt := m3 nxt AND NOT P_BIT) else m3)
      in h\<lparr>hmem := m4\<rparr>)"

definition take_block :: "heap \<Rightarrow> int \<Rightarrow> int \<Rightarrow> heap" where
  "take_block h best_fit best_fit_size =
     (let m1 = (hmem h)(best_fit := hmem h best_fit OR A_BIT);
          nxt = best_fit + best_fit_size;
          m2 = (if m1 nxt \<noteq> 1 then m1(nxt := m1 nxt OR P_BIT) else m1)
      in h\<lparr>hmem := m2\<rparr>)"

text \<open>\<open>alloc\<close> returns the payload address, or 0 (NULL).\<close>

definition alloc :: "heap \<Rightarrow> int \<Rightarrow> (int \<times> heap) outcome" where
  "alloc h n =
     (if n < 1 then Ret (0, h)
      else let required = required_size n
           in obind (best_fit_loop (walk_fuel h) h required (heap_start h) None 0) (\<lambda>(best, best_size).
                case best of
                  None \<Rightarrow> Ret (0, h)
                | Some best_fit \<Rightarrow>
                    let remaining = int32 (best_size - required)
                    in if remaining \<ge> 8 then Ret (best_fit + 4, split_block h best_fit required remaining)
                       else Ret (best_fit + 4, take_block h best_fit best_size)))"

subsection \<open>Freeing\<close>

text \<open>
  The coalescing part of \<open>free_block\<close>, on the memory in which the block is already marked
  free with its footer.
\<close>

definition coalesce_words :: "(int \<Rightarrow> int) \<Rightarrow> int \<Rightarrow> int \<Rightarrow> int \<Rightarrow> (int \<Rightarrow> int)" where
  "coalesce_words m block block_size p_bit =
     (let (cb, cs1) = (if p_bit AND P_BIT = 0
                       then (let prev_size = GET_SIZE (m (block - 4))
                             in (block - prev_size, block_size + prev_size))
                       else (block, block_size));
          next_block = block + block_size;
          cs = (if m next_block \<noteq> 1 \<and> \<not> IS_ALLOCATED (m next_block)
                then cs1 + GET_SIZE (m next_block) else cs1);
          cp_bit = (if IS_PREV_ALLOCATED (m cb) then P_BIT else 0);
          m3 = m(cb := cs OR cp_bit);
          m4 = m3(cb + cs - 4 := cs);
          nxt = cb + cs
      in if m4 nxt \<noteq> 1 then m4(nxt := m4 nxt AND NOT P_BIT) else m4)"

definition free_block :: "heap \<Rightarrow> int \<Rightarrow> int \<times> heap" where
  "free_block h ptr =
     (if ptr = 0 then (- 1, h)
      else if ptr mod 8 \<noteq> 0 then (- 1, h)
      else let block = ptr - 4
      in if block < heap_start h then (- 1, h)
      else if block \<ge> heap_start h + alloc_size h then (- 1, h)
      else if \<not> IS_ALLOCATED (hmem h block) then (- 1, h)
      else let block_size = GET_SIZE (hmem h block);
               p_bit = (if IS_PREV_ALLOCATED (hmem h block) then P_BIT else 0);
               m1 = (hmem h)(block := block_size OR p_bit);
               m2 = m1(block + block_size - 4 := block_size)
           in (0, h\<lparr>hmem := coalesce_words m2 block block_size p_bit\<rparr>))"

subsection \<open>Initialisation\<close>

text \<open>
  The operating system is a parameter: the page size, whether \<open>/dev/zero\<close> opens, and the
  address \<open>mmap\<close> returns (\<open>None\<close> for \<open>MAP_FAILED\<close>).
\<close>

definition init_heap :: "int \<Rightarrow> bool \<Rightarrow> int option \<Rightarrow> heap \<Rightarrow> int \<Rightarrow> int \<times> heap" where
  "init_heap pagesize open_ok mmap_ptr h sizeOfRegion =
     (if allocated_once h then (- 1, h)
      else if sizeOfRegion \<le> 0 then (- 1, h)
      else let padsize = (pagesize - sizeOfRegion smod pagesize) smod pagesize;
               h1 = h\<lparr>alloc_size := int32 (sizeOfRegion + padsize)\<rparr>
           in if \<not> open_ok then (- 1, h1)
              else case mmap_ptr of
                     None \<Rightarrow> (- 1, h1\<lparr>allocated_once := False\<rparr>)
                   | Some p \<Rightarrow>
                       let asz = alloc_size h1 - 8;
                           start = p + 4;
                           m1 = (hmem h1)(start + asz := 1);
                           m2 = m1(start := asz);
                           m3 = m2(start := m2 start + 2);
                           m4 = m3(start + asz - 4 := asz)
                       in (0, \<lparr>hmem = m4, heap_start = start, alloc_size = asz, allocated_once = True\<rparr>))"

subsection \<open>Traversal\<close>

text \<open>
  One printed row of \<open>disp_heap\<close> and its loop; the result is the rows with the two totals.
\<close>

record heap_row =
  row_no :: int
  row_used :: bool
  row_prev_used :: bool
  t_begin :: int
  t_end :: int
  t_size :: int

fun disp_loop :: "nat \<Rightarrow> heap \<Rightarrow> int \<Rightarrow> int \<Rightarrow> int \<Rightarrow> int \<Rightarrow> (heap_row list \<times> int \<times> int) outcome" where
  "disp_loop 0 h current counter used_size free_size = Diverge"
| "disp_loop (Suc fuel) h current counter used_size free_size =
     (if hmem h current = 1 then Ret ([], used_size, free_size)
      else let ss = hmem h current;
               is_used = (ss AND 1 \<noteq> 0);
               s1 = (if is_used then ss - 1 else ss);
               p_used = (s1 AND 2 \<noteq> 0);
               sz = (if p_used then s1 - 2 else s1);
               row = \<lparr>row_no = counter, row_used = is_used, row_prev_used = p_used,
                      t_begin = current, t_end = current + sz - 1, t_size = sz\<rparr>
           in obind (disp_loop fuel h (current + sz) (counter + 1)
                       (if is_used then used_size + sz else used_size)
                       (if is_used then free_size else free_size + sz))
                (\<lambda>(rows, u, f). Ret (row # rows, u, f)))"

definition disp_heap :: "heap \<Rightarrow> (heap_row list \<times> int \<times> int) outcome" where
  "disp_heap h = disp_loop (walk_fuel h) h (heap_start h) 1 0 0"

subsection \<open>Header words\<close>

definition header :: "int \<Rightarrow> bool \<Rightarrow> bool \<Rightarrow> int" where
  "header sz al p = sz + (if al then 1 else 0) + (if p then 2 else 0)"

lemma and_not3: "(x::int) AND - 4 = 4 * (x div 4)"
  by (simp add: and_int_rec[of x "-4"] and_int_rec[of "x div 2" "-2"])

lemma or2: "(x::int) OR 2 = (if x div 2 mod 2 = 1 then x else x + 2)"
  by (simp add: or_int_rec[of x 2] or_one_eq) presburger

lemma and2: "(x::int) AND 2 = (if x div 2 mod 2 = 1 then 2 else 0)"
  by (simp add: and_int_rec[of x 2] and_one_eq)

lemma and_not2: "(x::int) AND - 3 = (if x div 2 mod 2 = 1 then x - 2 else x)"
  by (simp add: and_int_rec[of x "-3"] and_int_rec[of "x div 2" "-2"]) presburger

lemma header_bits [simp]:
  assumes "8 dvd sz"
  shows "GET_SIZE (header sz al p) = sz"
    and "IS_ALLOCATED (header sz al p) = al"
    and "IS_PREV_ALLOCATED (header sz al p) = p"
    and "header sz al p AND - 3 = header sz al False"
    and "header sz al p OR 2 = header sz al True"
    and "header sz al p OR 1 = header sz True p"
    and "sz OR 2 = header sz False True"
    and "sz OR 3 = header sz True True"
    and "sz OR 1 = header sz True False"
    and "GET_SIZE sz = sz" and "IS_ALLOCATED sz = False" and "IS_PREV_ALLOCATED sz = False"
proof -
  from assms obtain j where sz: "sz = 8 * j" by (rule dvdE)
  show "GET_SIZE (header sz al p) = sz" "GET_SIZE sz = sz"
    by (auto simp: header_def sz GET_SIZE_def and_not3)
  show "IS_ALLOCATED (header sz al p) = al" "IS_ALLOCATED sz = False"
    by (auto simp: header_def sz IS_ALLOCATED_def and_one_eq) presburger+
  show "IS_PREV_ALLOCATED (header sz al p) = p" "IS_PREV_ALLOCATED sz = False"
    by (auto simp: header_def sz IS_PREV_ALLOCATED_def and2) presburger+
  show "header sz al p AND - 3 = header sz al False"
    by (auto simp: header_def sz and_not2) presburger+
  show "header sz al p OR 2 = header sz al True"
    by (auto simp: header_def sz or2) presburger+
  show "header sz al p OR 1 = header sz True p"
    by (auto simp: header_def sz or_one_eq)
  show "sz OR 2 = header sz False True" "sz OR 1 = header sz True False"
    by (auto simp: header_def sz or_one_eq or2)
  show "sz OR 3 = header sz True True"
    by (simp add: header_def sz or_int_rec[of "8 * j" 3] or_one_eq)
qed

lemma header_neq_1: "8 \<le> sz \<Longrightarrow> header sz al p \<noteq> 1"
  by (simp add: header_def)

lemma header_free [simp]: "header sz False False = sz"
  by (simp add: header_def)

subsection \<open>The heap as a list of blocks\<close>

text \<open>A block is its size and whether it is allocated.\<close>

type_synonym block = "int \<times> bool"

definition total_size :: "block list \<Rightarrow> int" where
  "total_size bs = sum_list (map fst bs)"

lemma total_simps [simp]:
  "total_size [] = 0" "total_size ((sz, al) # bs) = sz + total_size bs" "total_size (xs @ ys) = total_size xs + total_size ys"
  by (simp_all add: total_size_def)

text \<open>
  The memory from address \<open>a\<close> on holds the blocks: each header has the size and the two status
  bits, each free block has its size in its last word too.
\<close>

fun seg :: "(int \<Rightarrow> int) \<Rightarrow> int \<Rightarrow> bool \<Rightarrow> block list \<Rightarrow> bool" where
  "seg m a p [] = True"
| "seg m a p ((sz, al) # bs) =
     (m a = header sz al p \<and> 8 \<le> sz \<and> 8 dvd sz \<and> (\<not> al \<longrightarrow> m (a + sz - 4) = sz) \<and> seg m (a + sz) al bs)"

fun last_al :: "bool \<Rightarrow> block list \<Rightarrow> bool" where
  "last_al p [] = p"
| "last_al p (b # bs) = last_al (snd b) bs"

definition blocks :: "(int \<Rightarrow> int) \<Rightarrow> int \<Rightarrow> bool \<Rightarrow> block list \<Rightarrow> bool" where
  "blocks m a p bs \<longleftrightarrow> seg m a p bs \<and> m (a + total_size bs) = 1"

fun coalesced :: "block list \<Rightarrow> bool" where
  "coalesced ((s1, a1) # (s2, a2) # bs) = ((a1 \<or> a2) \<and> coalesced ((s2, a2) # bs))"
| "coalesced _ = True"

definition heap_inv :: "heap \<Rightarrow> block list \<Rightarrow> bool" where
  "heap_inv h bs \<longleftrightarrow> blocks (hmem h) (heap_start h) True bs \<and> coalesced bs
     \<and> alloc_size h = total_size bs \<and> heap_start h mod 8 = 4 \<and> 0 < heap_start h \<and> total_size bs \<le> INT_MAX"

lemma seg_sizes: "seg m a p bs \<Longrightarrow> (sz, al) \<in> set bs \<Longrightarrow> 8 \<le> sz \<and> 8 dvd sz"
  by (induction m a p bs rule: seg.induct) auto

lemma seg_total_nonneg: "seg m a p bs \<Longrightarrow> 8 * int (length bs) \<le> total_size bs"
  by (induction m a p bs rule: seg.induct) auto

lemma seg_total_dvd: "seg m a p bs \<Longrightarrow> 8 dvd total_size bs"
  by (induction m a p bs rule: seg.induct) auto

lemma seg_append: "seg m a p (xs @ ys) \<longleftrightarrow> seg m a p xs \<and> seg m (a + total_size xs) (last_al p xs) ys"
  by (induction m a p xs rule: seg.induct) (auto simp: add.assoc)

lemma last_al_append [simp]: "last_al p (xs @ ys) = last_al (last_al p xs) ys"
  by (induction p xs rule: last_al.induct) auto

lemma seg_cong:
  "(\<And>x. a \<le> x \<Longrightarrow> x < a + total_size bs \<Longrightarrow> m x = m' x) \<Longrightarrow> seg m a p bs \<Longrightarrow> seg m' a p bs"
proof (induction m a p bs rule: seg.induct)
  case (2 m a p sz al bs)
  have t: "0 \<le> total_size bs" using 2(3) seg_total_nonneg[of m "a + sz" al bs] by auto
  have "seg m' (a + sz) al bs" using 2 t by (intro 2(1)) auto
  moreover have "m' a = m a" "m' (a + sz - 4) = m (a + sz - 4)" using 2(2,3) t by (auto intro!: 2(2)[symmetric])
  ultimately show ?case using 2(3) by simp
qed simp

lemma seg_frame:
  assumes "x < a \<or> a + total_size bs \<le> x"
  shows "seg (m(x := v)) a p bs \<longleftrightarrow> seg m a p bs"
  using seg_cong[of a bs m "m(x := v)" p] seg_cong[of a bs "m(x := v)" m p] assms by auto

lemma blocks_append:
  "blocks m a p (xs @ ys) \<longleftrightarrow> seg m a p xs \<and> blocks m (a + total_size xs) (last_al p xs) ys"
  by (auto simp: blocks_def seg_append add.assoc)

lemma blocks_frame:
  assumes "x < a \<or> a + total_size bs < x"
  shows "blocks (m(x := v)) a p bs \<longleftrightarrow> blocks m a p bs"
  using assms seg_frame[of x a bs m v p] seg_total_nonneg[of m a p bs] by (auto simp: blocks_def)

lemma blocks_nonneg: "blocks m a p bs \<Longrightarrow> 0 \<le> total_size bs"
  using seg_total_nonneg[of m a p bs] by (simp add: blocks_def)

lemma blocks_Cons:
  "blocks m a p ((sz, al) # bs) \<longleftrightarrow> m a = header sz al p \<and> 8 \<le> sz \<and> 8 dvd sz
     \<and> (\<not> al \<longrightarrow> m (a + sz - 4) = sz) \<and> blocks m (a + sz) al bs"
  by (auto simp: blocks_def add.assoc)

text \<open>
  The update of the p-bit of the block after the one that changed, which all three operations do:
  nothing happens at the end mark.
\<close>

definition set_next :: "(int \<Rightarrow> int) \<Rightarrow> int \<Rightarrow> bool \<Rightarrow> (int \<Rightarrow> int)" where
  "set_next m nxt q = (if m nxt \<noteq> 1 then m(nxt := if q then m nxt OR 2 else m nxt AND - 3) else m)"

lemma blocks_set_next:
  assumes "blocks m a p bs"
  shows "blocks (set_next m a q) a q bs"
proof (cases bs)
  case Nil
  then show ?thesis using assms by (simp add: blocks_def set_next_def)
next
  case (Cons b bs')
  obtain sz al where b: "b = (sz, al)" by (cases b)
  have h: "m a = header sz al p" "8 \<le> sz" "8 dvd sz" and r: "blocks m (a + sz) al bs'"
    and f: "\<not> al \<longrightarrow> m (a + sz - 4) = sz"
    using assms Cons b by (simp_all add: blocks_Cons)
  have "set_next m a q = m(a := header sz al q)"
    using h by (auto simp: set_next_def header_neq_1)
  with h r f show ?thesis using blocks_nonneg[OF r] by (simp add: Cons b blocks_Cons blocks_frame)
qed

lemma set_next_other [simp]: "x \<noteq> a \<Longrightarrow> set_next m a q x = m x"
  by (simp add: set_next_def)

lemma seg_set_next: "x < a \<or> a + total_size bs \<le> x \<Longrightarrow> seg (set_next m x q) a p bs \<longleftrightarrow> seg m a p bs"
  by (simp add: set_next_def seg_frame)

subsection \<open>The search finds the best fit\<close>

text \<open>The search as a fold over the block list, and its result.\<close>

fun scan :: "int \<Rightarrow> int \<Rightarrow> int option \<times> int \<Rightarrow> block list \<Rightarrow> int option \<times> int" where
  "scan req a acc [] = acc"
| "scan req a (best, bsz) ((sz, al) # bs) =
     scan req (a + sz) (if \<not> al \<and> sz \<ge> req \<and> (best = None \<or> sz < bsz) then (Some a, sz) else (best, bsz)) bs"

lemma scan_snoc:
  "scan req a acc (bs @ [(sz, al)]) = (case scan req a acc bs of (best, bsz) \<Rightarrow>
     if \<not> al \<and> sz \<ge> req \<and> (best = None \<or> sz < bsz) then (Some (a + total_size bs), sz) else (best, bsz))"
  by (induction req a acc bs rule: scan.induct) (auto simp: add.assoc split: prod.splits)

lemma best_fit_loop_scan:
  "seg (hmem h) a p bs \<Longrightarrow> hmem h (a + total_size bs) = 1 \<Longrightarrow> length bs < fuel \<Longrightarrow>
   best_fit_loop fuel h req a best bsz = Ret (scan req a (best, bsz) bs)"
proof (induction bs arbitrary: fuel a p best bsz)
  case Nil
  then show ?case by (cases fuel) auto
next
  case (Cons b bs)
  obtain sz al where b: "b = (sz, al)" by (cases b)
  obtain f where f: "fuel = Suc f" using Cons.prems(3) by (cases fuel) auto
  have h: "hmem h a = header sz al p" "8 \<le> sz" "8 dvd sz" and s: "seg (hmem h) (a + sz) al bs"
    using Cons.prems(1) by (auto simp: b)
  have e: "hmem h (a + sz + total_size bs) = 1" using Cons.prems(2) by (simp add: b add.assoc)
  have l: "length bs < f" using Cons.prems(3) f by simp
  show ?case using h header_neq_1[of sz al p] Cons.IH[OF s e l] by (auto simp: b f Let_def)
qed

definition is_best_fit :: "block list \<Rightarrow> int \<Rightarrow> block list \<Rightarrow> int \<Rightarrow> block list \<Rightarrow> bool" where
  "is_best_fit bs req xs sz ys \<longleftrightarrow> bs = xs @ (sz, False) # ys \<and> req \<le> sz
     \<and> (\<forall>s. (s, False) \<in> set bs \<longrightarrow> req \<le> s \<longrightarrow> sz \<le> s)
     \<and> (\<forall>s. (s, False) \<in> set xs \<longrightarrow> req \<le> s \<longrightarrow> sz < s)"

lemma scan_None: "scan req a (None, 0) bs = (None, z) \<Longrightarrow> (s, False) \<in> set bs \<Longrightarrow> s < req"
proof (induction bs arbitrary: z rule: rev_induct)
  case (snoc b bs)
  then show ?case by (cases b) (auto simp: scan_snoc split: prod.splits if_splits)
qed simp

lemma scan_Some:
  "scan req a (None, 0) bs = (Some b, sz) \<Longrightarrow>
   \<exists>xs ys. is_best_fit bs req xs sz ys \<and> b = a + total_size xs"
proof (induction bs arbitrary: b sz rule: rev_induct)
  case (snoc x bs)
  obtain s al where x: "x = (s, al)" by (cases x)
  obtain best bsz where sc: "scan req a (None, 0) bs = (best, bsz)" by (cases "scan req a (None, 0) bs")
  show ?case
  proof (cases "\<not> al \<and> s \<ge> req \<and> (best = None \<or> s < bsz)")
    case True
    then have r: "b = a + total_size bs" "sz = s" using snoc.prems by (simp_all add: x scan_snoc sc)
    have "s < t" if t: "(t, False) \<in> set bs" "req \<le> t" for t
    proof (cases best)
      case None
      then show ?thesis using scan_None[of req a bs bsz t] sc t by simp
    next
      case (Some c)
      with snoc.IH[of c bsz] sc t have "bsz \<le> t" by (auto simp: is_best_fit_def)
      then show ?thesis using True Some by simp
    qed
    then have "is_best_fit (bs @ [x]) req bs sz []"
      using True r x by (auto simp: is_best_fit_def intro: less_imp_le)
    with r show ?thesis by auto
  next
    case False
    then have "best = Some b" "bsz = sz" using snoc.prems by (auto simp: x scan_snoc sc split: if_splits)
    with snoc.IH sc obtain xs ys where f: "is_best_fit bs req xs sz ys" "b = a + total_size xs" by blast
    with False x \<open>best = Some b\<close> \<open>bsz = sz\<close> have "is_best_fit (bs @ [x]) req xs sz (ys @ [x])"
      by (auto simp: is_best_fit_def)
    with f show ?thesis by blast
  qed
qed simp

subsection \<open>Allocation refines best fit with splitting\<close>

lemma int32_id: "- 2147483648 \<le> x \<Longrightarrow> x \<le> INT_MAX \<Longrightarrow> int32 x = x"
  by (simp add: int32_def INT_MAX_def signed_take_bit_int_eq_self_iff)

lemma round_up_8:
  "(if (x::int) mod 8 \<noteq> 0 then x + (8 - x mod 8) else x) = 8 * ((x + 7) div 8)"
proof -
  define q r where "q = x div 8" and "r = x mod 8"
  then have x: "x = 8 * q + r" and r: "0 \<le> r" "r < 8" by simp_all
  have "(x + 7) div 8 = q + (r + 7) div 8" unfolding x by simp
  moreover have "(r + 7) div 8 = (if r \<noteq> 0 then 1 else 0)" using r by auto
  ultimately show ?thesis unfolding r_def[symmetric] using x by simp
qed

lemma required_size_ok:
  assumes "1 \<le> n" and "n \<le> INT_MAX - 11"
  shows "required_size n = 8 * ((n + 11) div 8)" and "n + 4 \<le> required_size n"
    and "8 \<le> required_size n" and "8 dvd required_size n" and "required_size n < n + 12"
proof -
  have r: "int32 (n + 4) = n + 4" using assms by (intro int32_id) (simp_all add: INT_MAX_def)
  have s: "(n + 4) smod 8 = (n + 4) mod 8"
    using assms by (simp add: signed_modulo_int_def)
  have "int32 (n + 4 + (8 - (n + 4) mod 8)) = n + 4 + (8 - (n + 4) mod 8)" if "(n + 4) mod 8 \<noteq> 0"
  proof (rule int32_id)
    have "0 < (n + 4) mod 8" using that by (simp add: order_neq_le_trans)
    then show "n + 4 + (8 - (n + 4) mod 8) \<le> INT_MAX" using assms(2) by linarith
    have "(n + 4) mod 8 < 8" by simp
    then show "- 2147483648 \<le> n + 4 + (8 - (n + 4) mod 8)" using assms(1) by linarith
  qed
  then have "required_size n = (if (n + 4) mod 8 \<noteq> 0 then n + 4 + (8 - (n + 4) mod 8) else n + 4)"
    by (simp add: required_size_def r s)
  also have "\<dots> = 8 * ((n + 11) div 8)" using round_up_8[of "n + 4"] by (simp add: add.assoc)
  finally show e: "required_size n = 8 * ((n + 11) div 8)" .
  have q: "n + 11 = 8 * ((n + 11) div 8) + (n + 11) mod 8" and "0 \<le> (n + 11) mod 8" and "(n + 11) mod 8 < 8"
    by simp_all
  moreover have "1 \<le> (n + 11) div 8" using assms(1) zdiv_mono1[of 12 "n + 11" 8] by simp
  ultimately show "n + 4 \<le> required_size n" "8 \<le> required_size n" "required_size n < n + 12"
    unfolding e by linarith+
  show "8 dvd required_size n" unfolding e by simp
qed

lemma split_block_mem:
  assumes "hmem h b = header sz False q" and "8 dvd sz" and "8 dvd req"
  shows "hmem (split_block h b req (sz - req)) =
    set_next ((hmem h)(b := header req True q, b + req := header (sz - req) False True, b + sz - 4 := sz - req))
      (b + sz) False"
proof -
  have e: "b + req + (sz - req) = b + sz" by simp
  have d: "8 dvd sz - req" using assms by simp
  have r: "req OR (if q then 2 else 0) OR 1 = header req True q" using assms by simp
  show ?thesis using assms d r unfolding split_block_def Let_def e set_next_def by simp
qed

lemma take_block_mem:
  assumes "hmem h b = header sz False q" and "8 dvd sz"
  shows "hmem (take_block h b sz) = set_next ((hmem h)(b := header sz True q)) (b + sz) True"
  using assms unfolding take_block_def Let_def set_next_def by simp

lemma split_block_blocks:
  assumes bl: "blocks (hmem h) a p (xs @ (sz, False) # ys)" and r: "8 \<le> req" "8 dvd req" "8 \<le> sz - req"
  shows "blocks (hmem (split_block h (a + total_size xs) req (sz - req))) a p
           (xs @ (req, True) # (sz - req, False) # ys)"
proof -
  define b where "b = a + total_size xs"
  have sx: "seg (hmem h) a p xs" and hd: "hmem h b = header sz False (last_al p xs)" and d: "8 dvd sz"
    and tl: "blocks (hmem h) (b + sz) False ys"
    using bl by (auto simp: blocks_append blocks_Cons b_def)
  have d2: "8 dvd sz - req" using d r by simp
  define m3 where "m3 = (hmem h)(b := header req True (last_al p xs), b + req := header (sz - req) False True,
    b + sz - 4 := sz - req)"
  have m: "hmem (split_block h b req (sz - req)) = set_next m3 (b + sz) False"
    unfolding m3_def using hd d r(2) by (rule split_block_mem)
  have "0 \<le> total_size ys" using blocks_nonneg[OF tl] .
  then have t3: "blocks m3 (b + sz) False ys" using tl r by (simp add: m3_def blocks_frame)
  have x3: "seg m3 a p xs" using sx r by (simp add: m3_def seg_frame b_def)
  have "blocks (set_next m3 (b + sz) False) (b + sz) False ys" using t3 by (rule blocks_set_next)
  then show ?thesis using x3 r d2 unfolding m b_def[symmetric]
    by (auto simp: blocks_append blocks_Cons seg_set_next m3_def b_def[symmetric])
qed

lemma take_block_blocks:
  assumes bl: "blocks (hmem h) a p (xs @ (sz, False) # ys)"
  shows "blocks (hmem (take_block h (a + total_size xs) sz)) a p (xs @ (sz, True) # ys)"
proof -
  define b where "b = a + total_size xs"
  have sx: "seg (hmem h) a p xs" and hd: "hmem h b = header sz False (last_al p xs)" and d: "8 dvd sz" "8 \<le> sz"
    and tl: "blocks (hmem h) (b + sz) False ys"
    using bl by (auto simp: blocks_append blocks_Cons b_def)
  define m1 where "m1 = (hmem h)(b := header sz True (last_al p xs))"
  have m: "hmem (take_block h b sz) = set_next m1 (b + sz) True"
    unfolding m1_def using hd d(1) by (rule take_block_mem)
  have "0 \<le> total_size ys" using blocks_nonneg[OF tl] .
  then have "blocks m1 (b + sz) False ys" using tl d by (simp add: m1_def blocks_frame)
  then have "blocks (set_next m1 (b + sz) True) (b + sz) True ys" by (rule blocks_set_next)
  moreover have "seg m1 a p xs" using sx by (simp add: m1_def seg_frame b_def)
  ultimately show ?thesis using d unfolding m b_def[symmetric] by (auto simp: blocks_append blocks_Cons seg_set_next m1_def b_def[symmetric])
qed

lemma coalesced_Cons: "coalesced (b # bs) \<longleftrightarrow> (snd b \<or> bs = [] \<or> snd (hd bs)) \<and> coalesced bs"
  by (cases b; cases bs) auto

lemma coalesced_append:
  "coalesced (xs @ ys) \<longleftrightarrow> coalesced xs \<and> coalesced ys \<and> (last_al True xs \<or> ys = [] \<or> snd (hd ys))"
proof (induction xs)
  case (Cons x xs)
  then show ?case by (cases xs) (auto simp: coalesced_Cons)
qed simp

lemma best_fit_bound:
  assumes "heap_inv h bs" and "bs = xs @ (sz, al) # ys"
  shows "sz \<le> INT_MAX" and "8 dvd sz" and "8 \<le> sz" and "0 \<le> total_size xs" and "8 dvd total_size xs"
    and "total_size xs + sz \<le> alloc_size h"
proof -
  have sg: "seg (hmem h) (heap_start h) True (xs @ (sz, al) # ys)" and t: "total_size bs \<le> INT_MAX" "alloc_size h = total_size bs"
    using assms by (auto simp: heap_inv_def blocks_def)
  show "8 dvd sz" "8 \<le> sz" using seg_sizes[OF sg, of sz al] by simp_all
  have sx: "seg (hmem h) (heap_start h) True xs" and sy: "seg (hmem h) (heap_start h + total_size xs + sz) al ys"
    using sg by (auto simp: seg_append)
  show x0: "0 \<le> total_size xs" and "8 dvd total_size xs"
    using seg_total_nonneg[OF sx] seg_total_dvd[OF sx] by simp_all
  have "0 \<le> total_size ys" using seg_total_nonneg[OF sy] by simp
  then show "sz \<le> INT_MAX" "total_size xs + sz \<le> alloc_size h" using t x0 assms(2) by simp_all
qed

lemma search_result:
  assumes "heap_inv h bs"
  shows "best_fit_loop (walk_fuel h) h req (heap_start h) None 0 = Ret (scan req (heap_start h) (None, 0) bs)"
proof (rule best_fit_loop_scan)
  have sg: "seg (hmem h) (heap_start h) True bs" and t: "alloc_size h = total_size bs"
    using assms by (simp_all add: heap_inv_def blocks_def)
  then show "seg (hmem h) (heap_start h) True bs" by simp
  show "hmem h (heap_start h + total_size bs) = 1" using assms by (simp add: heap_inv_def blocks_def)
  show "length bs < walk_fuel h" using seg_total_nonneg[OF sg] t by (simp add: walk_fuel_def)
qed

text \<open>The two ways a best-fitting block is used.\<close>

lemma split_block_inv:
  assumes inv: "heap_inv h (xs @ (sz, False) # ys)" and r: "8 \<le> req" "8 dvd req" "8 \<le> sz - req"
  shows "heap_inv (split_block h (heap_start h + total_size xs) req (sz - req))
           (xs @ (req, True) # (sz - req, False) # ys)"
proof -
  have "heap_start (split_block h b q r) = heap_start h" "alloc_size (split_block h b q r) = alloc_size h" for b q r
    by (simp_all add: split_block_def Let_def)
  moreover have "coalesced (xs @ (req, True) # (sz - req, False) # ys)"
    using inv by (auto simp: heap_inv_def coalesced_append coalesced_Cons)
  ultimately show ?thesis
    using inv split_block_blocks[of h "heap_start h" True xs sz ys req] r by (simp add: heap_inv_def)
qed

lemma take_block_inv:
  assumes inv: "heap_inv h (xs @ (sz, False) # ys)"
  shows "heap_inv (take_block h (heap_start h + total_size xs) sz) (xs @ (sz, True) # ys)"
proof -
  have "heap_start (take_block h b q) = heap_start h" "alloc_size (take_block h b q) = alloc_size h" for b q
    by (simp_all add: take_block_def Let_def)
  moreover have "coalesced (xs @ (sz, True) # ys)"
    using inv by (auto simp: heap_inv_def coalesced_append coalesced_Cons)
  ultimately show ?thesis
    using inv take_block_blocks[of h "heap_start h" True xs sz ys] by (simp add: heap_inv_def)
qed

text \<open>What a block of \<open>sz\<close> bytes becomes when \<open>req\<close> of them are allocated.\<close>

definition carve :: "int \<Rightarrow> int \<Rightarrow> block list" where
  "carve req sz = (if req = sz then [(sz, True)] else [(req, True), (sz - req, False)])"

lemma alloc_best_fit:
  assumes inv: "heap_inv h bs" and n: "1 \<le> n" "n \<le> INT_MAX - 11"
    and bf: "is_best_fit bs (required_size n) xs sz ys"
    and sc: "scan (required_size n) (heap_start h) (None, 0) bs = (Some (heap_start h + total_size xs), sz)"
  shows "\<exists>h'. alloc h n = Ret (heap_start h + total_size xs + 4, h') \<and> heap_inv h' (xs @ carve (required_size n) sz @ ys)"
proof -
  let ?r = "required_size n" and ?b = "heap_start h + total_size xs"
  note r = required_size_ok[OF n]
  have bs: "bs = xs @ (sz, False) # ys" and le: "?r \<le> sz" using bf by (simp_all add: is_best_fit_def)
  note b = best_fit_bound[OF inv bs]
  have i: "int32 (sz - ?r) = sz - ?r" using b(1) le r(3) by (intro int32_id) (simp_all add: INT_MAX_def)
  have inv': "heap_inv h (xs @ (sz, False) # ys)" using inv bs by simp
  show ?thesis
  proof (cases "?r = sz")
    case True
    then show ?thesis using n i sc search_result[OF inv] take_block_inv[OF inv']
      by (simp add: alloc_def Let_def carve_def)
  next
    case False
    have "8 dvd sz - ?r" using b(2) r(4) by simp
    then have ge: "8 \<le> sz - ?r" using False le by (intro zdvd_imp_le) simp_all
    then show ?thesis using False n i sc search_result[OF inv] split_block_inv[OF inv' r(3,4) ge]
      by (simp add: alloc_def Let_def carve_def)
  qed
qed

lemma alloc_refines:
  assumes "heap_inv h bs" and "1 \<le> n" and "n \<le> INT_MAX - 11"
  shows "(\<forall>s. (s, False) \<in> set bs \<longrightarrow> s < required_size n) \<and> alloc h n = Ret (0, h)
    \<or> (\<exists>xs sz ys h'. is_best_fit bs (required_size n) xs sz ys
         \<and> n + 4 \<le> required_size n \<and> required_size n < n + 12
         \<and> alloc h n = Ret (heap_start h + total_size xs + 4, h')
         \<and> (heap_start h + total_size xs + 4) mod 8 = 0
         \<and> heap_inv h' (xs @ carve (required_size n) sz @ ys))"
proof (cases "scan (required_size n) (heap_start h) (None, 0) bs")
  case (Pair best z)
  show ?thesis
  proof (cases best)
    case None
    then show ?thesis using Pair assms(2) search_result[OF assms(1)] scan_None[of _ _ bs z]
      by (auto simp: alloc_def Let_def)
  next
    case (Some b)
    then obtain xs ys where bf: "is_best_fit bs (required_size n) xs z ys" and b: "b = heap_start h + total_size xs"
      using scan_Some[of _ _ bs b z] Pair by blast
    have "bs = xs @ (z, False) # ys" using bf by (simp add: is_best_fit_def)
    then have "8 dvd total_size xs" by (rule best_fit_bound(5)[OF assms(1)])
    then have "(heap_start h + total_size xs + 4) mod 8 = 0"
      using assms(1) by (auto simp: heap_inv_def mod_add_eq[symmetric] elim!: dvdE)
    moreover obtain h' where "alloc h n = Ret (heap_start h + total_size xs + 4, h')"
        and "heap_inv h' (xs @ carve (required_size n) z @ ys)"
      using alloc_best_fit[OF assms bf] Pair Some b by auto
    ultimately show ?thesis using bf required_size_ok(2,5)[OF assms(2,3)]
      by (intro disjI2 exI conjI) assumption+
  qed
qed

subsection \<open>Freeing refines coalescing\<close>

fun merge_left :: "block list \<Rightarrow> block list \<times> int" where
  "merge_left xs = (if last_al True xs then (xs, 0) else (butlast xs, fst (last xs)))"

fun merge_right :: "block list \<Rightarrow> int \<times> block list" where
  "merge_right ((s, False) # ys) = (s, ys)"
| "merge_right ys = (0, ys)"

definition coalesce :: "block list \<Rightarrow> int \<Rightarrow> block list \<Rightarrow> block list" where
  "coalesce xs sz ys = (let (xs', l) = merge_left xs; (r, ys') = merge_right ys
                        in xs' @ (l + sz + r, False) # ys')"

lemma last_al_False:
  assumes "\<not> last_al True xs"
  obtains xs' s where "xs = xs' @ [(s, False)]"
proof (cases xs rule: rev_cases)
  case (snoc ys b)
  with assms that show ?thesis by (cases b) auto
qed (use assms in simp)

lemma write_free_block:
  assumes "seg m a p xs" and "blocks m (a + total_size xs + cs) q ys" and "8 \<le> cs" and "8 dvd cs"
  shows "blocks (set_next (m(a + total_size xs := header cs False (last_al p xs), a + total_size xs + cs - 4 := cs))
           (a + total_size xs + cs) False) a p (xs @ (cs, False) # ys)"
proof -
  define b where "b = a + total_size xs"
  let ?m = "m(b := header cs False (last_al p xs), b + cs - 4 := cs)"
  have "0 \<le> total_size ys" using blocks_nonneg[OF assms(2)] .
  then have "blocks ?m (b + cs) q ys" using assms by (simp add: blocks_frame b_def)
  then have "blocks (set_next ?m (b + cs) False) (b + cs) False ys" by (rule blocks_set_next)
  moreover have "seg ?m a p xs" using assms(1,3) by (simp add: seg_frame b_def)
  ultimately show ?thesis using assms(3,4) unfolding b_def[symmetric]
    by (auto simp: blocks_append blocks_Cons seg_set_next b_def[symmetric])
qed

text \<open>The block headers that \<open>free_block\<close> reads to find its neighbours.\<close>

lemma free_reads_left:
  assumes bl: "blocks m a True (xs @ (sz, True) # ys)"
    and b: "b = a + total_size xs" and m2: "m2 = m(b := header sz False (last_al True xs), b + sz - 4 := sz)"
    and ml: "merge_left xs = (xs', l)"
  shows "(if last_al True xs then (b, sz) else (b - GET_SIZE (m2 (b - 4)), sz + GET_SIZE (m2 (b - 4))))
      = (a + total_size xs', l + sz)
    \<and> IS_PREV_ALLOCATED (m2 (a + total_size xs')) = last_al True xs'
    \<and> seg m a True xs' \<and> (l = 0 \<or> 8 \<le> l) \<and> 8 dvd l \<and> a + total_size xs' \<le> b"
proof -
  have h: "seg m a True xs" "8 \<le> sz" "8 dvd sz" using bl by (auto simp: blocks_append blocks_Cons)
  consider "last_al True xs" "xs' = xs" "l = 0" | s where "\<not> last_al True xs" "xs = xs' @ [(s, False)]" "l = s"
    using ml by (auto split: if_splits elim: last_al_False)
  then show ?thesis
  proof cases
    case 1
    then show ?thesis using h b m2 by simp
  next
    case 2
    then have "seg m a True xs'" "m (a + total_size xs') = header s False (last_al True xs')" "8 \<le> s" "8 dvd s"
      "m (a + total_size xs' + s - 4) = s"
      using h by (simp_all add: seg_append)
    moreover have "b = a + total_size xs' + s" using 2 b by simp
    ultimately show ?thesis using 2 m2 h by simp
  qed
qed

lemma free_reads_right:
  assumes bl: "blocks m (b + sz) True ys" and sz: "8 \<le> sz"
    and m2: "m2 = m(b := v, b + sz - 4 := w)" and mr: "merge_right ys = (r, ys')"
  shows "(if m2 (b + sz) \<noteq> 1 \<and> \<not> IS_ALLOCATED (m2 (b + sz)) then c + GET_SIZE (m2 (b + sz)) else c) = c + r
    \<and> (\<exists>q. blocks m (b + sz + r) q ys') \<and> (r = 0 \<or> 8 \<le> r) \<and> 8 dvd r"
proof -
  have same: "m2 (b + sz) = m (b + sz)" using m2 sz by simp
  consider "ys = []" "r = 0" "ys' = []" | s where "ys = (s, False) # ys'" "r = s"
    | s t where "ys = (s, True) # t" "r = 0" "ys' = ys"
    using mr by (cases ys rule: merge_right.cases) auto
  then show ?thesis
  proof cases
    case 1
    then show ?thesis using bl same by (auto simp: blocks_def)
  next
    case 2
    then show ?thesis using bl same by (auto simp: blocks_Cons header_neq_1)
  next
    case 3
    then have "m (b + sz) = header s True True" "8 dvd s" using bl by (simp_all add: blocks_Cons)
    then show ?thesis using bl same 3 by auto
  qed
qed

lemma coalesce_words_eq:
  assumes "(if prev then (b, sz) else (b - GET_SIZE (m (b - 4)), sz + GET_SIZE (m (b - 4)))) = (c, cs1)"
    and "(if m (b + sz) \<noteq> 1 \<and> \<not> IS_ALLOCATED (m (b + sz)) then cs1 + GET_SIZE (m (b + sz)) else cs1) = cs"
    and "IS_PREV_ALLOCATED (m c) = q" and "8 dvd cs"
  shows "coalesce_words m b sz (if prev then 2 else 0) =
    set_next (m(c := header cs False q, c + cs - 4 := cs)) (c + cs) False"
proof -
  have l: "(if (if prev then 2 else 0) AND (2::int) = 0
     then (b - GET_SIZE (m (b - 4)), sz + GET_SIZE (m (b - 4))) else (b, sz)) = (c, cs1)"
    using assms(1) by (auto split: if_splits)
  have w: "cs OR (if q then 2 else 0) = header cs False q" using assms(4) by simp
  show ?thesis
    unfolding coalesce_words_def Let_def
    unfolding l prod.case
    unfolding assms(2) assms(3) w set_next_def by simp
qed

lemma free_block_result:
  assumes inv: "heap_inv h (xs @ (sz, True) # ys)"
    and ml: "merge_left xs = (xs', l)" and mr: "merge_right ys = (r, ys')"
    and b: "b = heap_start h + total_size xs" and c: "c = heap_start h + total_size xs'"
  shows "free_block h (b + 4) =
    (0, h\<lparr>hmem := set_next ((hmem h)(b := header sz False (last_al True xs), b + sz - 4 := sz,
            c := header (l + sz + r) False (last_al True xs'), c + (l + sz + r) - 4 := l + sz + r))
          (c + (l + sz + r)) False\<rparr>)"
proof -
  have bl: "blocks (hmem h) (heap_start h) True (xs @ (sz, True) # ys)" using inv by (simp add: heap_inv_def)
  then have hd: "hmem h b = header sz True (last_al True xs)" "8 \<le> sz" "8 dvd sz"
    and tl: "blocks (hmem h) (b + sz) True ys" using b by (simp_all add: blocks_append blocks_Cons)
  note bb = best_fit_bound[OF inv refl]
  define m2 where "m2 = (hmem h)(b := header sz False (last_al True xs), b + sz - 4 := sz)"
  note left = free_reads_left[OF bl b m2_def ml, folded c]
  note right = free_reads_right[OF tl hd(2) m2_def mr]
  have al: "(b + 4) mod 8 = 0" using inv bb(5) b by (auto simp: heap_inv_def mod_add_eq[symmetric] elim!: dvdE)
  have rng: "0 < heap_start h" "heap_start h \<le> b" "b < heap_start h + alloc_size h"
    using inv bb b by (auto simp: heap_inv_def)
  have w: "sz OR (if last_al True xs then 2 else 0) = header sz False (last_al True xs)" using hd(3) by simp
  have "8 dvd l + sz + r" using left right hd(3) by simp
  then have cw: "coalesce_words m2 b sz (if last_al True xs then 2 else 0) =
      set_next (m2(c := header (l + sz + r) False (last_al True xs'), c + (l + sz + r) - 4 := l + sz + r))
        (c + (l + sz + r)) False"
    using left right by (intro coalesce_words_eq) auto
  show ?thesis
    using rng al hd w cw by (simp add: free_block_def Let_def m2_def)
qed

lemma coalesce_inv:
  assumes co: "coalesced (xs @ (sz, True) # ys)" and ml: "merge_left xs = (xs', l)" and mr: "merge_right ys = (r, ys')"
  shows "coalesced (xs' @ (l + sz + r, False) # ys')" and "total_size xs' + l = total_size xs"
    and "r + total_size ys' = total_size ys"
proof -
  have x: "coalesced xs" and y: "coalesced ys" using co by (auto simp: coalesced_append coalesced_Cons)
  have left: "coalesced xs' \<and> last_al True xs' \<and> total_size xs' + l = total_size xs"
  proof (cases "last_al True xs")
    case False
    then obtain zs s where "xs = zs @ [(s, False)]" by (rule last_al_False)
    then show ?thesis using x ml by (auto simp: coalesced_append)
  qed (use x ml in auto)
  moreover have "coalesced ys' \<and> (ys' = [] \<or> snd (hd ys')) \<and> r + total_size ys' = total_size ys"
    using y mr by (cases ys rule: merge_right.cases) (auto simp: coalesced_Cons)
  ultimately show "coalesced (xs' @ (l + sz + r, False) # ys')" and "total_size xs' + l = total_size xs"
    and "r + total_size ys' = total_size ys"
    by (simp_all add: coalesced_append coalesced_Cons)
qed

lemma free_refines:
  assumes inv: "heap_inv h (xs @ (sz, True) # ys)"
  shows "\<exists>h'. free_block h (heap_start h + total_size xs + 4) = (0, h') \<and> heap_inv h' (coalesce xs sz ys)"
proof -
  obtain xs' l where ml: "merge_left xs = (xs', l)" by (cases "merge_left xs")
  obtain r ys' where mr: "merge_right ys = (r, ys')" by (cases "merge_right ys")
  define b c where "b = heap_start h + total_size xs" and "c = heap_start h + total_size xs'"
  let ?cs = "l + sz + r"
  have bl: "blocks (hmem h) (heap_start h) True (xs @ (sz, True) # ys)" and co: "coalesced (xs @ (sz, True) # ys)"
    using inv by (simp_all add: heap_inv_def)
  have hd: "8 \<le> sz" "8 dvd sz" and tl: "blocks (hmem h) (b + sz) True ys"
    using bl by (simp_all add: blocks_append blocks_Cons b_def)
  note left = free_reads_left[OF bl b_def refl ml] and right = free_reads_right[OF tl hd(1) refl mr, where v = 0 and w = 0 and c = 0]
  note tot = coalesce_inv[OF co ml mr]
  have end_eq: "c + ?cs = b + sz + r" using tot(2) by (simp add: b_def c_def)
  define m2 where "m2 = (hmem h)(b := header sz False (last_al True xs), b + sz - 4 := sz)"
  have sx: "seg m2 (heap_start h) True xs'" using left hd by (simp add: m2_def seg_frame b_def)
  obtain q where "blocks (hmem h) (b + sz + r) q ys'" using right by blast
  moreover have "0 \<le> r" using right by auto
  ultimately have "blocks m2 (c + ?cs) q ys'"
    unfolding end_eq m2_def using hd blocks_nonneg[of "hmem h" "b + sz + r" q ys'] by (auto simp: blocks_frame)
  moreover have "8 \<le> ?cs" "8 dvd ?cs" using left right hd by auto
  ultimately have "blocks (set_next (m2(c := header ?cs False (last_al True xs'), c + ?cs - 4 := ?cs)) (c + ?cs) False)
      (heap_start h) True (xs' @ (?cs, False) # ys')"
    using sx unfolding c_def by (intro write_free_block)
  then have "heap_inv (snd (free_block h (b + 4))) (xs' @ (?cs, False) # ys')"
    using inv tot free_block_result[OF inv ml mr b_def c_def] by (simp add: heap_inv_def m2_def)
  moreover have "coalesce xs sz ys = xs' @ (?cs, False) # ys'"
    by (simp add: coalesce_def ml mr del: merge_left.simps)
  ultimately show ?thesis
    using free_block_result[OF inv ml mr b_def c_def] by (simp add: b_def)
qed

subsection \<open>Round trip, errors, payload writes and initialisation\<close>

lemma alloc_nonnull:
  assumes "heap_inv h bs" and "1 \<le> n" and "n \<le> INT_MAX - 11" and "alloc h n = Ret (p, h')" and "p \<noteq> 0"
  obtains xs sz ys where "is_best_fit bs (required_size n) xs sz ys" and "p = heap_start h + total_size xs + 4"
    and "heap_inv h' (xs @ carve (required_size n) sz @ ys)"
  using alloc_refines[OF assms(1-3)] assms(4,5) by auto

text \<open>A second \<open>free_block\<close> of the same block finds its header marked free.\<close>

lemma freed_header:
  assumes inv: "heap_inv h (xs @ (sz, True) # ys)" and b: "b = heap_start h + total_size xs"
    and f: "free_block h (b + 4) = (0, h')"
  shows "\<not> IS_ALLOCATED (hmem h' b)" and "heap_start h' = heap_start h" and "alloc_size h' = alloc_size h"
proof -
  obtain xs' l where ml: "merge_left xs = (xs', l)" by (cases "merge_left xs")
  obtain r ys' where mr: "merge_right ys = (r, ys')" by (cases "merge_right ys")
  define c where "c = heap_start h + total_size xs'"
  have bl: "blocks (hmem h) (heap_start h) True (xs @ (sz, True) # ys)" and co: "coalesced (xs @ (sz, True) # ys)"
    using inv by (simp_all add: heap_inv_def)
  have hd: "8 \<le> sz" "8 dvd sz" and tl: "blocks (hmem h) (b + sz) True ys"
    using bl by (simp_all add: blocks_append blocks_Cons b)
  note left = free_reads_left[OF bl b refl ml]
    and right = free_reads_right[OF tl hd(1) refl mr, where v = 0 and w = 0 and c = 0]
  have "c + (l + sz + r) = b + sz + r" using coalesce_inv(2)[OF co ml mr] by (simp add: b c_def)
  moreover have "0 \<le> r" "8 dvd l + sz + r" using left right hd by auto
  moreover note res = free_block_result[OF inv ml mr b c_def]
  ultimately show "\<not> IS_ALLOCATED (hmem h' b)"
    using f hd by (auto simp: fun_upd_def)
  show "heap_start h' = heap_start h" "alloc_size h' = alloc_size h" using f res by auto
qed

text \<open>What the user writes into an allocated payload is outside every header and footer.\<close>

lemma seg_payload_write:
  assumes "seg m a p (xs @ (sz, True) # ys)" and "a + total_size xs + 4 \<le> x" and "x < a + total_size xs + sz"
  shows "seg (m(x := v)) a p (xs @ (sz, True) # ys)"
  using assms by (auto simp: seg_append seg_frame)

lemma disp_loop_rows:
  "seg (hmem h) a p bs \<Longrightarrow> hmem h (a + total_size bs) = 1 \<Longrightarrow> length bs < fuel \<Longrightarrow>
   \<exists>rows. disp_loop fuel h a k u f = Ret (rows, u + total_size (filter snd bs), f + total_size (filter (Not \<circ> snd) bs))
     \<and> map (\<lambda>r. (t_size r, row_used r)) rows = bs \<and> map row_no rows = map (\<lambda>i. k + int i) [0..<length bs]"
proof (induction bs arbitrary: fuel a p k u f)
  case Nil
  then show ?case by (cases fuel) auto
next
  case (Cons b bs)
  obtain sz al where b: "b = (sz, al)" by (cases b)
  obtain g where g: "fuel = Suc g" using Cons.prems(3) by (cases fuel) auto
  have h: "hmem h a = header sz al p" "8 \<le> sz" "8 dvd sz" and s: "seg (hmem h) (a + sz) al bs"
    using Cons.prems(1) by (auto simp: b)
  have e: "hmem h (a + sz + total_size bs) = 1" using Cons.prems(2) by (simp add: b add.assoc)
  have l: "length bs < g" using Cons.prems(3) g by simp
  have w: "(header sz al p AND 1 \<noteq> 0) = al" using header_bits(2)[OF h(3), of al p] by (simp add: IS_ALLOCATED_def)
  have w1: "(if al then header sz al p - 1 else header sz al p) = header sz False p" by (simp add: header_def)
  have w2: "(header sz False p AND 2 \<noteq> 0) = p" using header_bits(3)[OF h(3), of False p] by (simp add: IS_PREV_ALLOCATED_def)
  have w3: "(if p then header sz False p - 2 else header sz False p) = sz" by (simp add: header_def)
  obtain rows where rows: "disp_loop g h (a + sz) (k + 1) (if al then u + sz else u) (if al then f else f + sz)
      = Ret (rows, (if al then u + sz else u) + total_size (filter snd bs),
             (if al then f else f + sz) + total_size (filter (Not \<circ> snd) bs))"
    and m: "map (\<lambda>r. (t_size r, row_used r)) rows = bs" and no: "map row_no rows = map (\<lambda>i. k + 1 + int i) [0..<length bs]"
    using Cons.IH[OF s e l] by blast
  have "disp_loop fuel h a k u f = Ret (\<lparr>row_no = k, row_used = al, row_prev_used = p, t_begin = a,
      t_end = a + sz - 1, t_size = sz\<rparr> # rows, u + total_size (filter snd (b # bs)), f + total_size (filter (Not \<circ> snd) (b # bs)))"
    using rows h(1) header_neq_1[OF h(2), of al p]
    by (simp only: g disp_loop.simps h(1) Let_def w w1 w2 w3 if_False if_True simp_thms) (simp add: b)
  then show ?case using m no by (simp add: b comp_def upt_0_Suc del: upt_Suc)
qed

lemma disp_heap_rows:
  assumes "heap_inv h bs"
  shows "\<exists>rows. disp_heap h = Ret (rows, total_size (filter snd bs), total_size (filter (Not \<circ> snd) bs))
     \<and> map (\<lambda>r. (t_size r, row_used r)) rows = bs \<and> map row_no rows = map (\<lambda>i. 1 + int i) [0..<length bs]"
proof -
  have sg: "seg (hmem h) (heap_start h) True bs" and t: "alloc_size h = total_size bs"
    and e: "hmem h (heap_start h + total_size bs) = 1"
    using assms by (simp_all add: heap_inv_def blocks_def)
  have "length bs < walk_fuel h" using seg_total_nonneg[OF sg] t by (simp add: walk_fuel_def)
  from disp_loop_rows[OF sg e this, of 1 0 0] show ?thesis by (simp add: disp_heap_def)
qed

lemma total_size_filter: "total_size (filter snd bs) + total_size (filter (Not \<circ> snd) bs) = total_size bs"
  by (induction bs) auto

subsection \<open>Properties\<close>

text \<open>
  (C28) \<open>alloc\<close> refines best fit: for a request that fits a C \<open>int\<close> it always returns. It
  returns NULL and changes nothing exactly when no free block has the required size (the payload
  and a header, rounded up to a multiple of 8). Otherwise it takes the first of the smallest
  sufficient free blocks, splits off the rest, returns the 8-byte aligned payload address and
  leaves a well-formed heap.
\<close>

theorem alloc_refines_best_fit:
  assumes "heap_inv h bs" and "1 \<le> n" and "n \<le> INT_MAX - 11"
  shows "(\<forall>s. (s, False) \<in> set bs \<longrightarrow> s < required_size n) \<and> alloc h n = Ret (0, h)
    \<or> (\<exists>xs sz ys h'. is_best_fit bs (required_size n) xs sz ys
         \<and> n + 4 \<le> required_size n \<and> required_size n < n + 12
         \<and> alloc h n = Ret (heap_start h + total_size xs + 4, h')
         \<and> (heap_start h + total_size xs + 4) mod 8 = 0
         \<and> heap_inv h' (xs @ carve (required_size n) sz @ ys))"
  using assms by (rule alloc_refines)

text \<open>
  (C29) \<open>free_block\<close> refines immediate coalescing: given the payload address of an allocated
  block it returns 0 and leaves a well-formed heap in which that block and its free neighbours
  have become one free block; every other block is as before.
\<close>

theorem free_refines_coalesce:
  assumes "heap_inv h (xs @ (sz, True) # ys)"
  shows "\<exists>h'. free_block h (heap_start h + total_size xs + 4) = (0, h') \<and> heap_inv h' (coalesce xs sz ys)"
  using assms by (rule free_refines)

text \<open>
  Round trip: freeing what was just allocated succeeds and restores the block list, so the
  rest of a split block is merged back and no memory is lost to fragmentation.
\<close>

theorem alloc_free_roundtrip:
  assumes "heap_inv h bs" and "1 \<le> n" and "n \<le> INT_MAX - 11" and "alloc h n = Ret (p, h')" and "p \<noteq> 0"
  shows "\<exists>h''. free_block h' p = (0, h'') \<and> heap_inv h'' bs"
proof -
  obtain xs sz ys where bf: "is_best_fit bs (required_size n) xs sz ys" and p: "p = heap_start h + total_size xs + 4"
    and inv: "heap_inv h' (xs @ carve (required_size n) sz @ ys)"
    by (rule alloc_nonnull[OF assms])
  have bs: "bs = xs @ (sz, False) # ys" using bf by (simp add: is_best_fit_def)
  have st: "heap_start h' = heap_start h"
    using assms(4) by (auto simp: alloc_def Let_def split_block_def take_block_def split: if_splits option.splits prod.splits)
  have "coalesced bs" using assms(1) by (simp add: heap_inv_def)
  then have l: "last_al True xs" and r: "ys = [] \<or> snd (hd ys)" by (auto simp: bs coalesced_append coalesced_Cons)
  have mr: "merge_right ys = (0, ys)" using r by (cases ys rule: merge_right.cases) auto
  define s1 rest where "s1 = (if required_size n = sz then sz else required_size n)"
    and "rest = (if required_size n = sz then ys else (sz - required_size n, False) # ys)"
  have "heap_inv h' (xs @ (s1, True) # rest)" using inv by (simp add: carve_def s1_def rest_def split: if_splits)
  from free_refines[OF this] have "\<exists>h''. free_block h' p = (0, h'') \<and> heap_inv h'' (coalesce xs s1 rest)"
    by (simp add: p st)
  moreover have "coalesce xs s1 rest = bs" using l mr by (simp add: coalesce_def s1_def rest_def bs)
  ultimately show ?thesis by simp
qed

text \<open>
  Bad frees are refused: \<open>free_block\<close> returns -1 exactly for NULL, for an address that is
  not 8-byte aligned or outside the heap, and for a block that is not marked allocated, and then
  changes nothing. In particular a second free of the same block right after the first is refused.
\<close>

theorem free_block_errors:
  assumes "heap_inv h (xs @ (sz, True) # ys)" and "q = heap_start h + total_size xs + 4"
  shows "(fst (free_block h p) = - 1 \<longleftrightarrow> p = 0 \<or> p mod 8 \<noteq> 0 \<or> p - 4 < heap_start h
      \<or> heap_start h + alloc_size h \<le> p - 4 \<or> \<not> IS_ALLOCATED (hmem h (p - 4)))
    \<and> (fst (free_block h p) = - 1 \<longrightarrow> snd (free_block h p) = h)
    \<and> free_block (snd (free_block h q)) q = (- 1, snd (free_block h q))"
proof (intro conjI)
  show "fst (free_block h p) = - 1 \<longleftrightarrow> p = 0 \<or> p mod 8 \<noteq> 0 \<or> p - 4 < heap_start h
      \<or> heap_start h + alloc_size h \<le> p - 4 \<or> \<not> IS_ALLOCATED (hmem h (p - 4))"
    and "fst (free_block h p) = - 1 \<longrightarrow> snd (free_block h p) = h"
    by (auto simp: free_block_def Let_def)
  obtain h' where f: "free_block h q = (0, h')" using free_refines[OF assms(1)] assms(2) by auto
  have "\<not> IS_ALLOCATED (hmem h' (q - 4))"
    using freed_header(1)[OF assms(1) refl] f assms(2) by simp
  then have "free_block h' q = (- 1, h')" by (simp add: free_block_def Let_def)
  then show "free_block (snd (free_block h q)) q = (- 1, snd (free_block h q))" by (simp add: f)
qed

text \<open>
  Clients cannot break the heap by writing their own memory: a write anywhere in the payload
  of an allocated block keeps the heap well formed with the same blocks.
\<close>

theorem payload_write_safe:
  assumes "heap_inv h (xs @ (sz, True) # ys)"
    and "heap_start h + total_size xs + 4 \<le> x" and "x < heap_start h + total_size xs + sz"
  shows "heap_inv (h\<lparr>hmem := (hmem h)(x := v)\<rparr>) (xs @ (sz, True) # ys)"
proof -
  have sg: "seg (hmem h) (heap_start h) True (xs @ (sz, True) # ys)" using assms(1) by (simp add: heap_inv_def blocks_def)
  then have "seg (hmem h) (heap_start h + total_size xs + sz) True ys" by (simp add: seg_append)
  then have "0 \<le> total_size ys" using seg_total_nonneg[of "hmem h" "heap_start h + total_size xs + sz" True ys] by simp
  then have "x \<noteq> heap_start h + total_size (xs @ (sz, True) # ys)" using assms(3) by simp
  then show ?thesis using assms(1) seg_payload_write[OF sg assms(2,3)] by (auto simp: heap_inv_def blocks_def)
qed

text \<open>
  Initialisation builds a heap of one free block: with a page size that is a multiple of 8
  and a page-aligned mapping, a first call with a positive size succeeds, and the block has the
  requested size rounded up to whole pages, less the 8 bytes of alignment and end mark.
\<close>

theorem init_heap_one_block:
  assumes "8 dvd ps" and "16 \<le> ps" and "\<not> allocated_once h" and "0 < n" and "n + ps \<le> INT_MAX"
    and "0 < ptr" and "ps dvd ptr"
  shows "\<exists>h' asz. init_heap ps True (Some ptr) h n = (0, h') \<and> heap_inv h' [(asz, False)]
    \<and> ps dvd asz + 8 \<and> n \<le> asz + 8 \<and> asz + 8 < n + ps \<and> allocated_once h'"
proof -
  define pad where "pad = (ps - n smod ps) smod ps"
  have sm: "n smod ps = n mod ps" using assms by (simp add: signed_modulo_int_def)
  have "0 \<le> ps - n mod ps" using assms(2) by (simp add: order_less_imp_le)
  then have pad: "pad = (ps - n mod ps) mod ps"
    using assms(2) unfolding pad_def sm by (simp add: signed_modulo_int_def)
  have b: "0 \<le> pad" "pad < ps" using assms(2) by (simp_all add: pad)
  have d: "ps dvd n + pad" unfolding pad by (simp add: mod_eq_0_iff_dvd[symmetric] mod_add_eq mod_simps)
  have i: "int32 (n + pad) = n + pad" using b assms by (intro int32_id) simp_all
  have ge: "ps \<le> n + pad" using d assms(4) b by (intro zdvd_imp_le) simp_all
  have d8: "8 dvd n + pad" using d assms(1) dvd_trans by blast
  have p8: "8 dvd ptr" using assms(1,7) dvd_trans by blast
  define asz where "asz = n + pad - 8"
  have a: "8 dvd asz" "8 \<le> asz" using d8 ge assms(2) by (simp_all add: asz_def)
  let ?h = "snd (init_heap ps True (Some ptr) h n)"
  have r: "init_heap ps True (Some ptr) h n = (0, ?h)" "heap_start ?h = ptr + 4" "alloc_size ?h = asz" "allocated_once ?h"
    "hmem ?h = (hmem h)(ptr + 4 + asz := 1, ptr + 4 := asz + 2, ptr + 4 + asz - 4 := asz)"
    using assms(3,4) i a by (simp_all add: init_heap_def Let_def pad_def[symmetric] asz_def add_diff_eq)
  have "heap_inv ?h [(asz, False)]"
    using r a p8 b assms(5,6) by (auto simp: heap_inv_def blocks_def header_def asz_def mod_add_eq[symmetric] elim!: dvdE)
  with r d b show ?thesis by (intro exI[of _ ?h] exI[of _ asz]) (simp add: asz_def)
qed

text \<open>
  \<open>disp_heap\<close> ends and reports the heap as it is: one numbered row per block with its size
  and status, and totals that add up to the whole heap.
\<close>

theorem disp_heap_reports_blocks:
  assumes "heap_inv h bs"
  shows "\<exists>rows u f. disp_heap h = Ret (rows, u, f) \<and> map (\<lambda>r. (t_size r, row_used r)) rows = bs
    \<and> map row_no rows = map (\<lambda>i. 1 + int i) [0..<length bs]
    \<and> u = total_size (filter snd bs) \<and> u + f = alloc_size h"
  using disp_heap_rows[OF assms] assms total_size_filter[of bs] by (fastforce simp: heap_inv_def)

lemma required_size_INT_MAX: "required_size INT_MAX = - 2147483632"
  by (simp add: required_size_def int32_def INT_MAX_def)


subsection \<open>A concrete heap\<close>

definition demo_heap :: heap where
  "demo_heap = snd (init_heap 4096 True (Some 4096)
     \<lparr>hmem = (\<lambda>_. 0), heap_start = 0, alloc_size = 0, allocated_once = False\<rparr> 4000)"

lemma demo_heap_words: "heap_start demo_heap = 4100" "alloc_size demo_heap = 4088"
  "hmem demo_heap = (\<lambda>_. 0)(8188 := 1, 4100 := 4090, 8184 := 4088)"
  by (simp_all add: demo_heap_def init_heap_def int32_def Let_def)

lemma demo_heap_inv: "heap_inv demo_heap [(4088, False)]"
  by (simp add: heap_inv_def blocks_def header_def demo_heap_words INT_MAX_def)

theorem init_heap_one_block_witness:
  "\<exists>h' asz. init_heap 4096 True (Some 4096)
      \<lparr>hmem = (\<lambda>_. 0), heap_start = 0, alloc_size = 0, allocated_once = False\<rparr> 4000 = (0, h')
    \<and> heap_inv h' [(asz, False)] \<and> 4096 dvd asz + 8 \<and> 4000 \<le> asz + 8 \<and> asz + 8 < 4000 + 4096 \<and> allocated_once h'"
  by (rule init_heap_one_block) (simp_all add: INT_MAX_def)

definition demo_alloc :: heap where
  "demo_alloc = split_block demo_heap 4100 24 4064"

lemma demo_alloc_inv: "heap_inv demo_alloc [(24, True), (4064, False)]"
  using split_block_inv[of demo_heap "[]" 4088 "[]" 24] demo_heap_inv
  by (simp add: demo_alloc_def demo_heap_words)

lemma demo_alloc_start: "heap_start demo_alloc = 4100"
  by (simp add: demo_alloc_def split_block_def demo_heap_words Let_def)

lemma demo_scan: "alloc demo_heap 20 = Ret (4104, demo_alloc)"
proof -
  have "required_size 20 = 24" by (simp add: required_size_def int32_def)
  then show ?thesis using search_result[OF demo_heap_inv, of 24]
    by (simp add: alloc_def Let_def demo_heap_words int32_def demo_alloc_def)
qed

theorem alloc_refines_best_fit_witness:
  "heap_inv demo_heap [(4088, False)] \<and> (\<exists>xs sz ys h'. is_best_fit [(4088, False)] (required_size 20) xs sz ys
     \<and> alloc demo_heap 20 = Ret (heap_start demo_heap + total_size xs + 4, h')
     \<and> heap_inv h' (xs @ carve (required_size 20) sz @ ys))"
  using demo_heap_inv demo_scan alloc_refines_best_fit[OF demo_heap_inv, of 20] by (auto simp: INT_MAX_def)

theorem free_refines_coalesce_witness:
  "heap_inv demo_alloc ([] @ (24, True) # [(4064, False)])
   \<and> (\<exists>h'. free_block demo_alloc (heap_start demo_alloc + total_size [] + 4) = (0, h') \<and> heap_inv h' [(4088, False)])"
  using demo_alloc_inv free_refines_coalesce[of demo_alloc "[]" 24 "[(4064, False)]"] by (simp add: coalesce_def)

theorem alloc_free_roundtrip_witness:
  "alloc demo_heap 20 = Ret (4104, demo_alloc)
   \<and> (\<exists>h''. free_block demo_alloc 4104 = (0, h'') \<and> heap_inv h'' [(4088, False)])"
  using demo_scan alloc_free_roundtrip[OF demo_heap_inv _ _ demo_scan] by (simp add: INT_MAX_def)

theorem free_block_errors_witness:
  "heap_inv demo_alloc ([] @ (24, True) # [(4064, False)])
   \<and> free_block (snd (free_block demo_alloc 4104)) 4104 = (- 1, snd (free_block demo_alloc 4104))"
  using demo_alloc_inv free_block_errors[of demo_alloc "[]" 24 "[(4064, False)]" 4104 0] by (simp add: demo_alloc_start)

theorem payload_write_safe_witness:
  "heap_inv (demo_alloc\<lparr>hmem := (hmem demo_alloc)(4104 := 7)\<rparr>) [(24, True), (4064, False)]"
  using payload_write_safe[of demo_alloc "[]" 24 "[(4064, False)]" 4104 7] demo_alloc_inv by (simp add: demo_alloc_start)

theorem disp_heap_reports_blocks_witness:
  "heap_inv demo_alloc [(24, True), (4064, False)] \<and> (\<exists>rows u f. disp_heap demo_alloc = Ret (rows, u, f)
     \<and> map (\<lambda>r. (t_size r, row_used r)) rows = [(24, True), (4064, False)] \<and> u = 24)"
  using demo_alloc_inv disp_heap_reports_blocks[OF demo_alloc_inv] by auto


end
