(* ===== verification/Cache_Sim.thy ===== *)
theory Cache_Sim
  imports Prelude "HOL-Library.Multiset" "HOL-Library.Sublist"
begin

text \<open>
  The cache simulator (csim.c): the cache of \<open>S = 2^s\<close> sets of \<open>E\<close> lines with 64-bit
  recency counters, \<open>access_data\<close>, the replay of a trace file read with \<open>fgets\<close> and
  \<open>sscanf\<close>, and \<open>main\<close>. The counters of hits, misses and evictions are C \<open>int\<close>s; they
  are integers here, and their sum is bounded by the number of accesses, so they do not overflow
  on a trace of fewer than \<open>2^31\<close> accesses. The simulator is proved to count what a reference
  cache counts that keeps, per set, the tags in order of recency.
\<close>

subsection \<open>Numbers in the trace and on the command line\<close>

definition is_space :: "char \<Rightarrow> bool" where
  "is_space c \<longleftrightarrow> c = CHR '' '' \<or> c \<in> set [CHR 0x09, CHR 0x0A, CHR 0x0B, CHR 0x0C, CHR 0x0D]"

definition digit_val :: "nat \<Rightarrow> char \<Rightarrow> nat option" where
  "digit_val base c =
     (let n = (of_char c :: nat);
          d = (if 48 \<le> n \<and> n \<le> 57 then Some (n - 48)
               else if 97 \<le> n \<and> n \<le> 102 then Some (n - 87)
               else if 65 \<le> n \<and> n \<le> 70 then Some (n - 55)
               else None)
      in case d of Some v \<Rightarrow> (if v < base then Some v else None) | None \<Rightarrow> None)"

fun scan_digits :: "nat \<Rightarrow> nat \<Rightarrow> string \<Rightarrow> nat \<times> string" where
  "scan_digits base acc [] = (acc, [])"
| "scan_digits base acc (c # cs) =
     (case digit_val base c of Some d \<Rightarrow> scan_digits base (acc * base + d) cs | None \<Rightarrow> (acc, c # cs))"

text \<open>
  One numeric conversion of \<open>sscanf\<close> to an \<open>unsigned long long\<close>: blanks are skipped, then an
  optional sign and, in base 16, an optional \<open>0x\<close>; a number that is too large saturates. The
  result is the value and the rest of the input, or nothing when there is no digit.
\<close>

definition scan_unsigned :: "nat \<Rightarrow> string \<Rightarrow> (u64 \<times> string) option" where
  "scan_unsigned base str =
     (let s0 = dropWhile is_space str;
          neg = (take 1 s0 = ''-'');
          s1 = (if take 1 s0 = ''-'' \<or> take 1 s0 = ''+'' then drop 1 s0 else s0);
          s2 = (if base = 16 \<and> (take 2 s1 = ''0x'' \<or> take 2 s1 = ''0X'') then drop 2 s1 else s1)
      in case s2 of [] \<Rightarrow> None
         | c # cs \<Rightarrow>
             (if digit_val base c = None then None
              else let (n, rest) = scan_digits base 0 s2
                   in Some (if n \<ge> 2 ^ 64 then - 1 else if neg then - of_nat n else of_nat n, rest)))"

text \<open>\<open>sscanf(str, "%llx,%u", &addr, &len)\<close>: a conversion that fails leaves its variable.\<close>

definition sscanf_access :: "string \<Rightarrow> u64 \<Rightarrow> u32 \<Rightarrow> u64 \<times> u32" where
  "sscanf_access str addr len =
     (case scan_unsigned 16 str of
        None \<Rightarrow> (addr, len)
      | Some (a, rest) \<Rightarrow>
          (if take 1 rest \<noteq> '','' then (a, len)
           else case scan_unsigned 10 (drop 1 rest) of
                  None \<Rightarrow> (a, len)
                | Some (l, _) \<Rightarrow> (a, ucast l)))"

text \<open>\<open>atoi\<close>: \<open>strtol\<close> in base 10, which saturates, converted to \<open>int\<close>.\<close>

definition atoi :: "string \<Rightarrow> int" where
  "atoi str =
     (let s0 = dropWhile is_space str;
          neg = (take 1 s0 = ''-'');
          s1 = (if take 1 s0 = ''-'' \<or> take 1 s0 = ''+'' then drop 1 s0 else s0);
          n = int (fst (scan_digits 10 0 s1));
          v = (if neg then max (- (2 ^ 63)) (- n) else min (2 ^ 63 - 1) n)
      in signed_take_bit 31 v)"

text \<open>\<open>printf\<close> of \<open>%llx\<close> and of \<open>%u\<close>.\<close>

definition digit_char :: "nat \<Rightarrow> char" where
  "digit_char d = (if d < 10 then char_of (48 + d) else char_of (87 + d))"

fun print_nat :: "nat \<Rightarrow> nat \<Rightarrow> string" where
  "print_nat base n =
     (if base < 2 \<or> n < base then [digit_char n] else print_nat base (n div base) @ [digit_char (n mod base)])"

declare print_nat.simps [simp del]

subsection \<open>The cache\<close>

record cache_line =
  valid :: bool
  tag :: u64
  counter :: u64

record csim =
  b_bits :: nat
  s_bits :: nat
  lines_E :: int
  cache :: "cache_line list list"
  global_counter :: u64
  hit_cnt :: int
  miss_cnt :: int
  evict_cnt :: int
  verbosity :: bool
  printed :: string

text \<open>
  \<open>init_cache\<close>. \<open>malloc_ok n\<close> tells whether the \<open>n\<close>-th call of \<open>malloc\<close> succeeds; a
  failing call makes the program exit, and a negative \<open>E\<close> asks for more than \<open>malloc\<close> can give.
\<close>

definition empty_line :: cache_line where
  "empty_line = \<lparr>valid = False, tag = 0, counter = 0\<rparr>"

definition init_cache :: "(nat \<Rightarrow> bool) \<Rightarrow> csim \<Rightarrow> csim outcome" where
  "init_cache malloc_ok st =
     (let S = 2 ^ s_bits st
      in if \<not> malloc_ok 0 then Panic ''Error: malloc failed for cache''
         else if lines_E st < 0 \<or> \<not> list_all (\<lambda>i. malloc_ok (Suc i)) [0..<S] then Panic ''Error: malloc failed for set''
         else Ret (st\<lparr>cache := replicate S (replicate (nat (lines_E st)) empty_line)\<rparr>))"

text \<open>The two searches of \<open>access_data\<close> and the search for the least recently used line.\<close>

fun find_line :: "(cache_line \<Rightarrow> bool) \<Rightarrow> nat \<Rightarrow> cache_line list \<Rightarrow> nat option" where
  "find_line P i [] = None"
| "find_line P i (l # ls) = (if P l then Some i else find_line P (Suc i) ls)"

fun lru_loop :: "nat \<Rightarrow> nat \<Rightarrow> u64 \<Rightarrow> cache_line list \<Rightarrow> nat" where
  "lru_loop i lru_index min_counter [] = lru_index"
| "lru_loop i lru_index min_counter (l # ls) =
     (if counter l < min_counter then lru_loop (Suc i) i (counter l) ls
      else lru_loop (Suc i) lru_index min_counter ls)"

definition lru_index :: "cache_line list \<Rightarrow> nat" where
  "lru_index ls = lru_loop 1 0 (counter (ls ! 0)) (tl ls)"

definition say :: "string \<Rightarrow> csim \<Rightarrow> csim" where
  "say str st = (if verbosity st then st\<lparr>printed := printed st @ str\<rparr> else st)"

definition access_data :: "u64 \<Rightarrow> csim \<Rightarrow> csim" where
  "access_data addr st =
     (let set_index = unat (drop_bit (b_bits st) addr AND (2 ^ s_bits st - 1));
          t = drop_bit (s_bits st + b_bits st) addr;
          ls = cache st ! set_index;
          gc = global_counter st + 1
      in case find_line (\<lambda>l. valid l \<and> tag l = t) 0 ls of
           Some i \<Rightarrow>
             say ''hit'' (st\<lparr>hit_cnt := hit_cnt st + 1, global_counter := gc,
                            cache := (cache st)[set_index := ls[i := (ls ! i)\<lparr>counter := gc\<rparr>]]\<rparr>)
         | None \<Rightarrow>
             let st1 = say ''miss '' (st\<lparr>miss_cnt := miss_cnt st + 1\<rparr>)
             in case find_line (\<lambda>l. \<not> valid l) 0 ls of
                  Some i \<Rightarrow>
                    st1\<lparr>global_counter := gc,
                        cache := (cache st)[set_index := ls[i := \<lparr>valid = True, tag = t, counter = gc\<rparr>]]\<rparr>
                | None \<Rightarrow>
                    let st2 = say ''eviction '' (st1\<lparr>evict_cnt := evict_cnt st + 1\<rparr>);
                        j = lru_index ls
                    in st2\<lparr>global_counter := gc,
                           cache := (cache st)[set_index := ls[j := (ls ! j)\<lparr>tag := t, counter := gc\<rparr>]]\<rparr>)"

subsection \<open>Replaying a trace\<close>

text \<open>
  \<open>fgets(buf, 1000, f)\<close> takes at most 999 characters, up to and including a newline; what
  follows the terminating NUL in the buffer is what was there before.
\<close>

fun take_line :: "nat \<Rightarrow> string \<Rightarrow> string" where
  "take_line 0 cs = []"
| "take_line (Suc n) [] = []"
| "take_line (Suc n) (c # cs) = (if c = CHR 0x0A then [c] else c # take_line n cs)"

lemma take_line_nonempty: "0 < n \<Longrightarrow> 0 < length (take_line n (c # cs))"
  by (cases n) auto

function fgets_lines :: "string \<Rightarrow> string list" where
  "fgets_lines [] = []"
| "fgets_lines (c # cs) =
     (let l = take_line 999 (c # cs) in l # fgets_lines (drop (length l) (c # cs)))"
  by pat_completeness auto
termination fgets_lines
proof (relation "measure length")
  show "(drop (length l) (c # cs), c # cs) \<in> measure length" if "l = take_line 999 (c # cs)" for c cs l
    using take_line_nonempty[of 999 c cs] that by simp
qed simp

definition fgets_into :: "string \<Rightarrow> string \<Rightarrow> string" where
  "fgets_into l buf = l @ CHR 0x00 # drop (Suc (length l)) buf"

definition c_string :: "string \<Rightarrow> string" where
  "c_string buf = takeWhile (\<lambda>c. c \<noteq> CHR 0x00) buf"

text \<open>One line of \<open>replay_trace\<close>: the buffer, the variables \<open>addr\<close> and \<open>len\<close>, the state.\<close>

definition replay_line :: "string \<Rightarrow> string \<times> u64 \<times> u32 \<times> csim \<Rightarrow> string \<times> u64 \<times> u32 \<times> csim" where
  "replay_line l = (\<lambda>(buf0, addr0, len0, st0).
     (let buf = fgets_into l buf0; c = buf ! 1
      in if c = CHR ''S'' \<or> c = CHR ''L'' \<or> c = CHR ''M''
         then let (addr, len) = sscanf_access (c_string (drop 3 buf)) addr0 len0;
                  st1 = say (c # '' '' @ print_nat 16 (unat addr) @ '','' @ print_nat 10 (unat len) @ '' '') st0;
                  st2 = (if c = CHR ''L'' then access_data addr st1
                         else if c = CHR ''S'' then access_data addr st1
                         else access_data addr (access_data addr st1))
              in (buf, addr, len, say [CHR 0x0A] st2)
         else (buf, addr0, len0, st0)))"

text \<open>
  \<open>replay_trace\<close>, on the contents of the trace file (\<open>None\<close> when it cannot be opened) and the
  initial contents of the uninitialised buffer.
\<close>

definition replay_trace :: "string \<Rightarrow> string option \<Rightarrow> csim \<Rightarrow> csim outcome" where
  "replay_trace buf0 file st =
     (case file of
        None \<Rightarrow> Panic ''trace file''
      | Some text \<Rightarrow>
          (let (_, _, _, st') = fold replay_line (fgets_lines text) (buf0, 0, 0, st) in Ret st'))"

subsection \<open>The program\<close>

text \<open>
  \<open>main\<close>, on the options that \<open>getopt\<close> returns with their arguments. It ends with an exit
  status and, on the normal path, the three counts written to \<^verbatim>\<open>.csim_results\<close>. A shift by
  a number of bits outside \<open>0..30\<close> has no defined result and is its own outcome.
\<close>

datatype csim_exit = Summary int int int | Exit int | Undefined_Shift

record options =
  opt_b :: int
  opt_s :: int
  opt_E :: int
  opt_v :: bool
  opt_t :: "string option"

fun parse_options :: "(char \<times> string) list \<Rightarrow> options \<Rightarrow> int + options" where
  "parse_options [] o1 = Inr o1"
| "parse_options ((c, arg) # rest) o1 =
     (if c = CHR ''b'' then parse_options rest (o1\<lparr>opt_b := atoi arg\<rparr>)
      else if c = CHR ''E'' then parse_options rest (o1\<lparr>opt_E := atoi arg\<rparr>)
      else if c = CHR ''h'' then Inl 0
      else if c = CHR ''s'' then parse_options rest (o1\<lparr>opt_s := atoi arg\<rparr>)
      else if c = CHR ''t'' then parse_options rest (o1\<lparr>opt_t := Some arg\<rparr>)
      else if c = CHR ''v'' then parse_options rest (o1\<lparr>opt_v := True\<rparr>)
      else Inl 0)"

definition no_options :: options where
  "no_options = \<lparr>opt_b = 0, opt_s = 0, opt_E = 0, opt_v = False, opt_t = None\<rparr>"

definition fresh_csim :: "options \<Rightarrow> csim" where
  "fresh_csim o1 = \<lparr>b_bits = nat (opt_b o1), s_bits = nat (opt_s o1), lines_E = opt_E o1, cache = [],
     global_counter = 0, hit_cnt = 0, miss_cnt = 0, evict_cnt = 0, verbosity = opt_v o1, printed = []\<rparr>"

definition free_cache :: "csim \<Rightarrow> csim" where
  "free_cache st = st\<lparr>cache := []\<rparr>"

definition print_summary :: "csim \<Rightarrow> csim_exit" where
  "print_summary st = Summary (hit_cnt st) (miss_cnt st) (evict_cnt st)"

definition csim_main :: "(nat \<Rightarrow> bool) \<Rightarrow> string \<Rightarrow> (string \<Rightarrow> string option) \<Rightarrow> (char \<times> string) list \<Rightarrow> csim_exit" where
  "csim_main malloc_ok buf0 files args =
     (case parse_options args no_options of
        Inl status \<Rightarrow> Exit status
      | Inr o1 \<Rightarrow>
          (if opt_s o1 = 0 \<or> opt_E o1 = 0 \<or> opt_b o1 = 0 \<or> opt_t o1 = None then Exit 0
           else if opt_s o1 < 0 \<or> opt_s o1 > 30 \<or> opt_b o1 < 0 \<or> opt_b o1 > 30 then Undefined_Shift
           else case obind (init_cache malloc_ok (fresh_csim o1)) (replay_trace buf0 (files (the (opt_t o1)))) of
                  Ret st \<Rightarrow> print_summary (free_cache st)
                | _ \<Rightarrow> Exit 1))"

subsection \<open>The reference cache\<close>

text \<open>
  Per set, the tags it holds with the most recently used one first. An access moves its tag to
  the front, and when the set is full the last tag is dropped.
\<close>

datatype verdict = Hit | Miss | Evict

definition lru_step :: "nat \<Rightarrow> 'a \<Rightarrow> 'a list \<Rightarrow> verdict \<times> 'a list" where
  "lru_step E t ts =
     (if t \<in> set ts then (Hit, t # remove1 t ts)
      else if length ts < E then (Miss, t # ts)
      else (Evict, t # butlast ts))"

fun lru_run :: "nat \<Rightarrow> ('k \<times> 'a) list \<Rightarrow> ('k \<Rightarrow> 'a list) \<Rightarrow> verdict list" where
  "lru_run E [] f = []"
| "lru_run E ((k, t) # acc) f =
     (let (v, ts) = lru_step E t (f k) in v # lru_run E acc (f(k := ts)))"

text \<open>The set index and the tag of an address.\<close>

definition addr_key :: "nat \<Rightarrow> nat \<Rightarrow> u64 \<Rightarrow> nat \<times> u64" where
  "addr_key s b addr = (unat (drop_bit b addr AND (2 ^ s - 1)), drop_bit (s + b) addr)"

definition hits_of :: "verdict list \<Rightarrow> int" where
  "hits_of vs = int (length (filter (\<lambda>v. v = Hit) vs))"

definition misses_of :: "verdict list \<Rightarrow> int" where
  "misses_of vs = int (length (filter (\<lambda>v. v \<noteq> Hit) vs))"

definition evicts_of :: "verdict list \<Rightarrow> int" where
  "evicts_of vs = int (length (filter (\<lambda>v. v = Evict) vs))"

subsection \<open>One set\<close>

lemma find_line_None: "find_line P i ls = None \<longleftrightarrow> (\<forall>l\<in>set ls. \<not> P l)"
  by (induction ls arbitrary: i) auto

lemma find_line_Some:
  assumes "find_line P i ls = Some j"
  shows "i \<le> j \<and> j < i + length ls \<and> P (ls ! (j - i))"
  using assms
proof (induction ls arbitrary: i)
  case (Cons l ls)
  show ?case
  proof (cases "P l")
    case False
    then have "Suc i \<le> j \<and> j < Suc i + length ls \<and> P (ls ! (j - Suc i))"
      using Cons.IH[of "Suc i"] Cons.prems by simp
    then show ?thesis by (auto simp: nth_Cons')
  qed (use Cons.prems in simp)
qed simp

lemma find_line_0: "find_line P 0 ls = Some j \<Longrightarrow> j < length ls \<and> P (ls ! j)"
  using find_line_Some[of P 0 ls j] by simp

lemma lru_loop_min:
  assumes "li < i" and "i + length rest = length ls" and "rest = drop i ls" and "mc = counter (ls ! li)"
    and "\<forall>k<i. mc \<le> counter (ls ! k)"
  shows "lru_loop i li mc rest < length ls \<and> (\<forall>k<length ls. counter (ls ! lru_loop i li mc rest) \<le> counter (ls ! k))"
  using assms
proof (induction rest arbitrary: i li mc)
  case Nil
  then show ?case by simp
next
  case (Cons l rest)
  have l: "l = ls ! i" and r: "rest = drop (Suc i) ls" and i: "i < length ls"
  proof -
    show "i < length ls" using Cons.prems(2) by simp
    then have "l # rest = ls ! i # drop (Suc i) ls" using Cons.prems(3) by (simp add: Cons_nth_drop_Suc)
    then show "l = ls ! i" and "rest = drop (Suc i) ls" by simp_all
  qed
  show ?case
  proof (cases "counter l < mc")
    case True
    then have "\<forall>k<Suc i. counter l \<le> counter (ls ! k)" using Cons.prems(5) l by (auto simp: less_Suc_eq)
    then show ?thesis using True Cons.IH[of i "Suc i" "counter l"] Cons.prems(2) l r by simp
  next
    case False
    then have "\<forall>k<Suc i. mc \<le> counter (ls ! k)" using Cons.prems(5) l by (auto simp: less_Suc_eq)
    then show ?thesis using False Cons.IH[of li "Suc i" mc] Cons.prems(1,2,4) r by simp
  qed
qed

lemma lru_index_min:
  assumes "ls \<noteq> []"
  shows "lru_index ls < length ls" and "k < length ls \<Longrightarrow> counter (ls ! lru_index ls) \<le> counter (ls ! k)"
proof -
  have "tl ls = drop 1 ls" by (simp add: drop_Suc)
  then have "lru_index ls < length ls \<and> (\<forall>k<length ls. counter (ls ! lru_index ls) \<le> counter (ls ! k))"
    unfolding lru_index_def using assms by (intro lru_loop_min) auto
  then show "lru_index ls < length ls" and "k < length ls \<Longrightarrow> counter (ls ! lru_index ls) \<le> counter (ls ! k)" by auto
qed

text \<open>
  A set of lines represents a recency list when its valid lines, in decreasing order of their
  counters, carry the tags of the list.
\<close>

definition rep_set :: "u64 \<Rightarrow> nat \<Rightarrow> cache_line list \<Rightarrow> u64 list \<Rightarrow> bool" where
  "rep_set gc E ls ts \<longleftrightarrow> length ls = E \<and> distinct ts \<and> (\<forall>l\<in>set ls. counter l \<le> gc)
     \<and> (\<exists>ord. mset ord = filter_mset valid (mset ls) \<and> map tag ord = ts
          \<and> sorted_wrt (\<lambda>x y. counter y < counter x) ord)"

lemma rep_setI:
  "length ls = E \<Longrightarrow> distinct ts \<Longrightarrow> \<forall>l\<in>set ls. counter l \<le> gc \<Longrightarrow> mset ord = filter_mset valid (mset ls)
   \<Longrightarrow> map tag ord = ts \<Longrightarrow> sorted_wrt (\<lambda>x y. counter y < counter x) ord \<Longrightarrow> rep_set gc E ls ts"
  by (auto simp: rep_set_def)

lemma rep_set_mono: "rep_set gc E ls ts \<Longrightarrow> gc \<le> gc' \<Longrightarrow> rep_set gc' E ls ts"
  by (auto simp: rep_set_def intro: order_trans)

lemma rep_set_empty: "rep_set 0 E (replicate E empty_line) []"
  by (auto simp: rep_set_def empty_line_def filter_replicate intro!: exI[of _ "[]"])

lemma mset_filter_update:
  assumes "i < length ls" and "P y"
  shows "filter_mset P (mset (ls[i := y])) = add_mset y
    (if P (ls ! i) then filter_mset P (mset ls) - {#ls ! i#} else filter_mset P (mset ls))"
  using assms by (simp add: mset_update)

lemma counters_update:
  "\<forall>l\<in>set ls. counter l \<le> gc \<Longrightarrow> gc < gc' \<Longrightarrow> counter y = gc' \<Longrightarrow> l \<in> set (ls[i := y]) \<Longrightarrow> counter l \<le> (gc' :: u64)"
  using set_update_subset_insert[of ls i y] by fastforce

lemma valid_lines_set: "mset ord = filter_mset P (mset ls) \<Longrightarrow> set ord = {l \<in> set ls. P l}"
  by (metis set_mset_filter set_mset_mset)

lemma rep_set_tags: "rep_set gc E ls ts \<Longrightarrow> set ts = tag ` {l \<in> set ls. valid l}"
  by (auto simp: rep_set_def dest!: valid_lines_set)

lemma rep_set_room:
  assumes "rep_set gc E ls ts" and "i < length ls" and "\<not> valid (ls ! i)"
  shows "length ts < E"
proof -
  from assms(1) obtain ord where ord: "mset ord = filter_mset valid (mset ls)" "map tag ord = ts" and E: "length ls = E"
    by (auto simp: rep_set_def)
  have "ls ! i \<in># mset ls" and "ls ! i \<notin># filter_mset valid (mset ls)" using assms(2,3) by simp_all
  then have "filter_mset valid (mset ls) \<noteq> mset ls" by metis
  then have "size (filter_mset valid (mset ls)) < size (mset ls)"
    by (intro mset_subset_size subset_mset.le_neq_trans) (rule multiset_filter_subset)
  then show ?thesis using E ord by (metis length_map size_mset)
qed

lemma rep_set_hit:
  assumes rep: "rep_set gc E ls ts" and i: "i < length ls" "valid (ls ! i)" and gc: "gc < gc'"
  shows "rep_set gc' E (ls[i := (ls ! i)\<lparr>counter := gc'\<rparr>]) (tag (ls ! i) # remove1 (tag (ls ! i)) ts)"
proof -
  let ?l = "ls ! i" and ?l' = "(ls ! i)\<lparr>counter := gc'\<rparr>"
  from rep obtain ord where ord: "mset ord = filter_mset valid (mset ls)" "map tag ord = ts"
    "sorted_wrt (\<lambda>x y. counter y < counter x) ord" and le: "\<forall>l\<in>set ls. counter l \<le> gc" and d: "distinct ts"
    by (auto simp: rep_set_def)
  have "?l \<in> set ord" using valid_lines_set[OF ord(1)] i by simp
  then obtain xs ys where o: "ord = xs @ ?l # ys" by (auto simp: in_set_conv_decomp)
  have sub: "set ord \<subseteq> set ls" using valid_lines_set[OF ord(1)] by auto
  have "mset (?l' # xs @ ys) = filter_mset valid (mset (ls[i := ?l']))"
    using i by (simp add: mset_filter_update ord(1)[symmetric] o)
  moreover have "map tag (?l' # xs @ ys) = tag ?l # remove1 (tag ?l) ts"
    using d by (auto simp: ord(2)[symmetric] o remove1_append remove1_idem)
  moreover have "sorted_wrt (\<lambda>x y. counter y < counter x) (?l' # xs @ ys)"
    using ord(3) gc le sub by (auto simp: o sorted_wrt_append intro: le_less_trans)
  moreover have "\<forall>l\<in>set (ls[i := ?l']). counter l \<le> gc'"
    by (intro ballI counters_update[OF le gc]) simp_all
  moreover have "distinct (tag ?l # remove1 (tag ?l) ts)" using d by simp
  moreover have "length (ls[i := ?l']) = E" using rep by (simp add: rep_set_def)
  ultimately show ?thesis by (intro rep_setI)
qed

lemma rep_set_fill:
  assumes rep: "rep_set gc E ls ts" and i: "i < length ls" "\<not> valid (ls ! i)" and t: "t \<notin> set ts" and gc: "gc < gc'"
  shows "rep_set gc' E (ls[i := \<lparr>valid = True, tag = t, counter = gc'\<rparr>]) (t # ts)"
proof -
  let ?l' = "\<lparr>valid = True, tag = t, counter = gc'\<rparr>"
  from rep obtain ord where ord: "mset ord = filter_mset valid (mset ls)" "map tag ord = ts"
    "sorted_wrt (\<lambda>x y. counter y < counter x) ord" and le: "\<forall>l\<in>set ls. counter l \<le> gc" and d: "distinct ts"
    by (auto simp: rep_set_def)
  have sub: "set ord \<subseteq> set ls" using valid_lines_set[OF ord(1)] by auto
  have "mset (?l' # ord) = filter_mset valid (mset (ls[i := ?l']))"
    using i by (simp add: mset_filter_update ord(1)[symmetric])
  moreover have "sorted_wrt (\<lambda>x y. counter y < counter x) (?l' # ord)"
    using ord(3) gc le sub by (auto intro: le_less_trans)
  moreover have "\<forall>l\<in>set (ls[i := ?l']). counter l \<le> gc'"
    by (intro ballI counters_update[OF le gc]) simp_all
  ultimately show ?thesis using rep t d ord(2) unfolding rep_set_def by (auto intro!: exI[of _ "?l' # ord"])
qed

lemma rep_set_evict:
  assumes rep: "rep_set gc E ls ts" and full: "\<forall>l\<in>set ls. valid l" and E: "0 < E" and t: "t \<notin> set ts" and gc: "gc < gc'"
  shows "rep_set gc' E (ls[lru_index ls := (ls ! lru_index ls)\<lparr>tag := t, counter := gc'\<rparr>]) (t # butlast ts)"
    and "length ts = E"
proof -
  let ?j = "lru_index ls"
  let ?l' = "(ls ! ?j)\<lparr>tag := t, counter := gc'\<rparr>"
  have fv: "filter_mset valid (mset ls) = mset ls" using full by (simp add: filter_mset_eq_conv)
  from rep obtain ord where ord: "mset ord = mset ls" "map tag ord = ts"
    "sorted_wrt (\<lambda>x y. counter y < counter x) ord" and le: "\<forall>l\<in>set ls. counter l \<le> gc" and d: "distinct ts" and len: "length ls = E"
    unfolding rep_set_def fv by auto
  show lts: "length ts = E" using ord(1,2) len by (metis length_map size_mset)
  have ne: "ls \<noteq> []" using len E by auto
  then have "ord \<noteq> []" using ord(1) by auto
  then obtain os z where o: "ord = os @ [z]" by (cases ord rule: rev_cases) auto
  have sub: "set ord = set ls" using mset_eq_setD[OF ord(1)] .
  have j: "?j < length ls" using lru_index_min(1)[OF ne] .
  have "ls ! ?j = z"
  proof (rule ccontr)
    assume "ls ! ?j \<noteq> z"
    then have "ls ! ?j \<in> set os" using j sub o by (metis Un_iff empty_iff empty_set insert_iff list.simps(15) nth_mem set_append)
    then have "counter z < counter (ls ! ?j)" using ord(3) by (auto simp: o sorted_wrt_append)
    moreover obtain k where "k < length ls" "ls ! k = z" using sub o by (metis in_set_conv_nth last_in_set last_snoc snoc_eq_iff_butlast)
    ultimately show False using lru_index_min(2)[OF ne, of k] by simp
  qed
  note z = this
  have v: "valid ?l'" using full j by simp
  have "mset (?l' # os) = filter_mset valid (mset (ls[?j := ?l']))"
    using mset_filter_update[OF j, of valid ?l', OF v] bspec[OF full nth_mem[OF j]]
    by (simp add: fv z) (simp add: ord(1)[symmetric] o)
  moreover have "map tag (?l' # os) = t # butlast ts" by (simp add: ord(2)[symmetric] o)
  moreover have "sorted_wrt (\<lambda>x y. counter y < counter x) (?l' # os)"
    using ord(3) gc le sub by (auto simp: o sorted_wrt_append intro: le_less_trans)
  moreover have "\<forall>l\<in>set (ls[?j := ?l']). counter l \<le> gc'"
    by (intro ballI counters_update[OF le gc]) simp_all
  moreover have "distinct (t # butlast ts)" using d t by (auto simp: distinct_butlast dest: in_set_butlastD)
  ultimately show "rep_set gc' E (ls[?j := ?l']) (t # butlast ts)" using len unfolding rep_set_def by (metis length_list_update)
qed

subsection \<open>The whole cache\<close>

definition rep_cache :: "csim \<Rightarrow> (nat \<Rightarrow> u64 list) \<Rightarrow> bool" where
  "rep_cache st f \<longleftrightarrow> length (cache st) = 2 ^ s_bits st \<and> s_bits st < 64 \<and> 0 < lines_E st
     \<and> (\<forall>k<2 ^ s_bits st. rep_set (global_counter st) (nat (lines_E st)) (cache st ! k) (f k))"

lemma mask_index:
  assumes "s < 64"
  shows "unat (x AND (2 ^ s - 1) :: u64) < 2 ^ s"
proof -
  have "x AND (2 ^ s - 1) = take_bit s x" by (simp add: take_bit_eq_mask mask_eq_exp_minus_1)
  then show ?thesis by (simp add: unsigned_take_bit_eq)
qed

lemma say_fields [simp]: "b_bits (say str st) = b_bits st" "s_bits (say str st) = s_bits st" "lines_E (say str st) = lines_E st"
  "cache (say str st) = cache st" "global_counter (say str st) = global_counter st" "hit_cnt (say str st) = hit_cnt st"
  "miss_cnt (say str st) = miss_cnt st" "evict_cnt (say str st) = evict_cnt st" "verbosity (say str st) = verbosity st"
  by (simp_all add: say_def)

lemma rep_cache_update:
  assumes rep: "rep_cache st f" and k: "k < 2 ^ s_bits st" and gc: "global_counter st < gc'"
    and r: "rep_set gc' (nat (lines_E st)) ls' ts'"
    and st': "cache st' = (cache st)[k := ls']" "global_counter st' = gc'" "s_bits st' = s_bits st" "lines_E st' = lines_E st"
  shows "rep_cache st' (f(k := ts'))"
  using rep k r unfolding rep_cache_def st'
  by (auto simp: nth_list_update intro: rep_set_mono[OF _ less_imp_le[OF gc]])

text \<open>
  One access does what the reference does: same verdict, and the set of the address holds the
  lines of the reference afterwards.
\<close>

lemma access_data_lru:
  assumes rep: "rep_cache st f" and gc: "global_counter st < global_counter st + 1"
    and key: "addr_key (s_bits st) (b_bits st) addr = (k, t)" and step: "lru_step (nat (lines_E st)) t (f k) = (v, ts)"
  shows "rep_cache (access_data addr st) (f(k := ts))"
    and "hit_cnt (access_data addr st) = hit_cnt st + hits_of [v]"
    and "miss_cnt (access_data addr st) = miss_cnt st + misses_of [v]"
    and "evict_cnt (access_data addr st) = evict_cnt st + evicts_of [v]"
    and "global_counter (access_data addr st) = global_counter st + 1"
    and "b_bits (access_data addr st) = b_bits st" and "s_bits (access_data addr st) = s_bits st"
    and "lines_E (access_data addr st) = lines_E st"
proof -
  let ?ls = "cache st ! k" and ?E = "nat (lines_E st)"
  have kt: "unat (drop_bit (b_bits st) addr AND (2 ^ s_bits st - 1)) = k" "drop_bit (s_bits st + b_bits st) addr = t"
    using key by (auto simp: addr_key_def)
  have k: "k < 2 ^ s_bits st" using rep mask_index by (auto simp: rep_cache_def kt(1)[symmetric])
  have E: "0 < ?E" and rs: "rep_set (global_counter st) ?E ?ls (f k)" using rep k by (auto simp: rep_cache_def)
  note tags = rep_set_tags[OF rs] and upd = rep_cache_update[OF rep k gc]
  have len: "length ?ls = ?E" using rs by (simp add: rep_set_def)
  let ?st = "access_data addr st"
  have goal: "rep_cache ?st (f(k := ts)) \<and> hit_cnt ?st = hit_cnt st + hits_of [v] \<and> miss_cnt ?st = miss_cnt st + misses_of [v]
     \<and> evict_cnt ?st = evict_cnt st + evicts_of [v] \<and> global_counter ?st = global_counter st + 1
     \<and> b_bits ?st = b_bits st \<and> s_bits ?st = s_bits st \<and> lines_E ?st = lines_E st"
  proof (cases "find_line (\<lambda>l. valid l \<and> tag l = t) 0 ?ls")
    case (Some i)
    then have i: "i < length ?ls" "valid (?ls ! i)" "tag (?ls ! i) = t" using find_line_0 by fastforce+
    then have "t \<in> set (f k)" using tags by auto
    then have "v = Hit" "ts = t # remove1 t (f k)" using step by (auto simp: lru_step_def)
    then show ?thesis using Some upd[OF rep_set_hit[OF rs i(1,2) gc]] i(3)
      by (simp add: access_data_def Let_def kt hits_of_def misses_of_def evicts_of_def)
  next
    case None
    then have t: "t \<notin> set (f k)" using tags by (auto simp: find_line_None)
    show ?thesis
    proof (cases "find_line (\<lambda>l. \<not> valid l) 0 ?ls")
      case (Some i)
      then have i: "i < length ?ls" "\<not> valid (?ls ! i)" using find_line_0 by fastforce+
      have "length (f k) < ?E" using rep_set_room[OF rs i] .
      then have "v = Miss" "ts = t # f k" using step t by (auto simp: lru_step_def)
      then show ?thesis using None Some upd[OF rep_set_fill[OF rs i t gc]]
        by (simp add: access_data_def Let_def kt hits_of_def misses_of_def evicts_of_def)
    next
      case full: None
      then have v: "\<forall>l\<in>set ?ls. valid l" by (simp add: find_line_None)
      note ev = rep_set_evict[OF rs v E t gc]
      have "v = Evict" "ts = t # butlast (f k)" using step t ev(2) by (auto simp: lru_step_def)
      then show ?thesis using None full upd[OF ev(1)]
        by (simp add: access_data_def Let_def kt hits_of_def misses_of_def evicts_of_def)
    qed
  qed
  show "rep_cache (access_data addr st) (f(k := ts))"
    "hit_cnt (access_data addr st) = hit_cnt st + hits_of [v]"
    "miss_cnt (access_data addr st) = miss_cnt st + misses_of [v]"
    "evict_cnt (access_data addr st) = evict_cnt st + evicts_of [v]"
    "global_counter (access_data addr st) = global_counter st + 1"
    "b_bits (access_data addr st) = b_bits st" "s_bits (access_data addr st) = s_bits st"
    "lines_E (access_data addr st) = lines_E st"
    by (simp_all only: goal)
qed

text \<open>A sequence of accesses, while the 64-bit counter does not wrap.\<close>

lemma counter_no_wrap: "unat (x :: u64) + 1 < 2 ^ 64 \<Longrightarrow> x < x + 1 \<and> unat (x + 1) = unat x + 1"
proof -
  assume a: "unat x + 1 < 2 ^ 64"
  have "unat (x + 1) = (unat x + 1) mod 2 ^ 64" by (simp add: unat_word_ariths)
  also have "\<dots> = unat x + 1" using a by (rule mod_less)
  finally show ?thesis by (simp add: word_less_nat_alt)
qed

lemma verdicts_Cons: "hits_of (v # vs) = hits_of [v] + hits_of vs" "misses_of (v # vs) = misses_of [v] + misses_of vs"
  "evicts_of (v # vs) = evicts_of [v] + evicts_of vs"
  by (auto simp: hits_of_def misses_of_def evicts_of_def)

lemma fold_access_lru:
  assumes "rep_cache st f" and "unat (global_counter st) + length as < 2 ^ 64"
  shows "hit_cnt (fold access_data as st) = hit_cnt st + hits_of (lru_run (nat (lines_E st)) (map (addr_key (s_bits st) (b_bits st)) as) f)
    \<and> miss_cnt (fold access_data as st) = miss_cnt st + misses_of (lru_run (nat (lines_E st)) (map (addr_key (s_bits st) (b_bits st)) as) f)
    \<and> evict_cnt (fold access_data as st) = evict_cnt st + evicts_of (lru_run (nat (lines_E st)) (map (addr_key (s_bits st) (b_bits st)) as) f)"
  using assms
proof (induction as arbitrary: st f)
  case Nil
  then show ?case by (simp add: hits_of_def misses_of_def evicts_of_def)
next
  case (Cons a as)
  obtain k t where key: "addr_key (s_bits st) (b_bits st) a = (k, t)" by (cases "addr_key (s_bits st) (b_bits st) a")
  obtain v ts where step: "lru_step (nat (lines_E st)) t (f k) = (v, ts)" by (cases "lru_step (nat (lines_E st)) t (f k)")
  have gc: "global_counter st < global_counter st + 1" "unat (global_counter st + 1) = unat (global_counter st) + 1"
    using counter_no_wrap[of "global_counter st"] Cons.prems(2) by simp_all
  note ad = access_data_lru[OF Cons.prems(1) gc(1) key step]
  have "unat (global_counter (access_data a st)) + length as < 2 ^ 64" using Cons.prems(2) gc(2) ad(5) by simp
  from Cons.IH[OF ad(1) this] show ?case
    using verdicts_Cons[of v "lru_run (nat (lines_E st)) (map (addr_key (s_bits st) (b_bits st)) as) (f(k := ts))"]
    by (simp add: ad key step fun_upd_def)
qed

lemma init_cache_rep:
  assumes "0 < lines_E st" and "s_bits st < 64" and "global_counter st = 0" and "init_cache mo st = Ret st'"
  shows "rep_cache st' (\<lambda>_. [])" and "st' = st\<lparr>cache := cache st'\<rparr>"
proof -
  have st': "st' = st\<lparr>cache := replicate (2 ^ s_bits st) (replicate (nat (lines_E st)) empty_line)\<rparr>"
    using assms(4) by (auto simp: init_cache_def Let_def split: if_splits)
  then show "rep_cache st' (\<lambda>_. [])" using assms(1-3) rep_set_empty by (simp add: rep_cache_def)
  show "st' = st\<lparr>cache := cache st'\<rparr>" using st' by simp
qed

subsection \<open>The trace\<close>

text \<open>
  The accesses a trace makes: for every line whose second character is L, S or M, the address
  parsed from it (or the previous address, if none can be parsed), once or, for M, twice.
\<close>

definition line_accesses :: "string \<Rightarrow> string \<times> u64 \<times> u32 \<Rightarrow> u64 list \<times> string \<times> u64 \<times> u32" where
  "line_accesses l = (\<lambda>(buf0, addr0, len0).
     (let buf = fgets_into l buf0; c = buf ! 1; (addr, len) = sscanf_access (c_string (drop 3 buf)) addr0 len0
      in if c = CHR ''M'' then ([addr, addr], buf, addr, len)
         else if c = CHR ''S'' \<or> c = CHR ''L'' then ([addr], buf, addr, len)
         else ([], buf, addr0, len0)))"

fun trace_accesses :: "string list \<Rightarrow> string \<times> u64 \<times> u32 \<Rightarrow> u64 list" where
  "trace_accesses [] p = []"
| "trace_accesses (l # ls) p = (let (as, p') = line_accesses l p in as @ trace_accesses ls p')"

definition same_counts :: "csim \<Rightarrow> csim \<Rightarrow> bool" where
  "same_counts s1 s2 \<longleftrightarrow> s1\<lparr>printed := []\<rparr> = s2\<lparr>printed := []\<rparr>"

lemma same_counts_say: "same_counts (say str st) st"
  by (simp add: same_counts_def say_def)

lemma same_counts_refl: "same_counts st st" and same_counts_trans: "same_counts a b \<Longrightarrow> same_counts b c \<Longrightarrow> same_counts a c"
  by (simp_all add: same_counts_def)

lemma say_commute: "(say str st)\<lparr>printed := []\<rparr> = st\<lparr>printed := []\<rparr>"
  by (simp add: say_def)

lemma same_counts_access:
  assumes "same_counts s1 s2"
  shows "same_counts (access_data a s1) (access_data a s2)"
proof -
  obtain x where "s1 = s2\<lparr>printed := x\<rparr>" using assms unfolding same_counts_def
    by (metis csim.surjective csim.update_convs(10) old.unit.exhaust)
  then show ?thesis
    by (auto simp: access_data_def Let_def same_counts_def say_def split: option.splits)
qed

lemma same_counts_fold: "same_counts s1 s2 \<Longrightarrow> same_counts (fold access_data as s1) (fold access_data as s2)"
  by (induction as arbitrary: s1 s2) (auto intro: same_counts_access)

lemma replay_line_accesses:
  assumes "line_accesses l (buf, a, n) = (as, buf', a', n')"
  shows "\<exists>st'. replay_line l (buf, a, n, st) = (buf', a', n', st') \<and> same_counts st' (fold access_data as st)"
proof -
  let ?buf = "fgets_into l buf"
  obtain x y where xy: "sscanf_access (c_string (drop 3 ?buf)) a n = (x, y)" by fastforce
  show ?thesis
    using assms xy by (auto simp: line_accesses_def replay_line_def Let_def split: if_splits
      intro!: same_counts_trans[OF same_counts_say] same_counts_access same_counts_say same_counts_refl)
qed

lemma fold_replay_accesses:
  assumes "same_counts st st2"
  shows "\<exists>p st'. fold replay_line ls (buf, a, n, st) = (fst p, fst (snd p), snd (snd p), st')
    \<and> same_counts st' (fold access_data (trace_accesses ls (buf, a, n)) st2)"
  using assms
proof (induction ls arbitrary: buf a n st st2)
  case Nil
  then show ?case by auto
next
  case (Cons l ls)
  obtain as buf' a' n' where la: "line_accesses l (buf, a, n) = (as, buf', a', n')"
    by (cases "line_accesses l (buf, a, n)") auto
  from replay_line_accesses[OF la] obtain st1 where r: "replay_line l (buf, a, n, st) = (buf', a', n', st1)"
    and s1: "same_counts st1 (fold access_data as st)" by blast
  have "same_counts st1 (fold access_data as st2)"
    using s1 same_counts_fold[OF Cons.prems] by (rule same_counts_trans)
  from Cons.IH[OF this, of buf' a' n'] show ?case by (auto simp: r la)
qed

lemma replay_trace_accesses:
  "\<exists>st'. replay_trace buf (Some text) st = Ret st'
    \<and> same_counts st' (fold access_data (trace_accesses (fgets_lines text) (buf, 0, 0)) st)"
  using fold_replay_accesses[OF same_counts_refl, of "fgets_lines text" buf 0 0 st]
  by (auto simp: replay_trace_def)

lemma same_counts_eqD: "same_counts a b \<Longrightarrow> hit_cnt a = hit_cnt b \<and> miss_cnt a = miss_cnt b \<and> evict_cnt a = evict_cnt b"
  unfolding same_counts_def by (metis csim.select_convs(6-8) csim.surjective csim.update_convs(10))

definition reference_run :: "options \<Rightarrow> string \<Rightarrow> string \<Rightarrow> verdict list" where
  "reference_run o1 buf0 text = lru_run (nat (opt_E o1))
     (map (addr_key (nat (opt_s o1)) (nat (opt_b o1))) (trace_accesses (fgets_lines text) (buf0, 0, 0))) (\<lambda>_. [])"

definition good_options :: "options \<Rightarrow> bool" where
  "good_options o1 \<longleftrightarrow> 0 < opt_s o1 \<and> opt_s o1 \<le> 30 \<and> 0 < opt_b o1 \<and> opt_b o1 \<le> 30 \<and> 0 < opt_E o1"

lemma csim_main_summary:
  assumes "parse_options args no_options = Inr o1" and "good_options o1" and "opt_t o1 = Some fn" and "files fn = Some text"
    and "\<forall>n. malloc_ok n" and "length (trace_accesses (fgets_lines text) (buf0, 0, 0)) < 2 ^ 64"
  shows "csim_main malloc_ok buf0 files args = Summary (hits_of (reference_run o1 buf0 text))
     (misses_of (reference_run o1 buf0 text)) (evicts_of (reference_run o1 buf0 text))"
proof -
  let ?as = "trace_accesses (fgets_lines text) (buf0, 0, 0)" and ?st = "fresh_csim o1"
  have g: "0 < opt_s o1" "opt_s o1 \<le> 30" "0 < opt_b o1" "opt_b o1 \<le> 30" "0 < opt_E o1"
    using assms(2) by (auto simp: good_options_def)
  obtain st0 where i: "init_cache malloc_ok ?st = Ret st0"
    using assms(5) g by (simp add: init_cache_def Let_def list_all_iff fresh_csim_def)
  have f: "global_counter ?st = 0" "lines_E ?st = opt_E o1" "s_bits ?st = nat (opt_s o1)" "b_bits ?st = nat (opt_b o1)"
    "hit_cnt ?st = 0" "miss_cnt ?st = 0" "evict_cnt ?st = 0" by (simp_all add: fresh_csim_def)
  have rep: "rep_cache st0 (\<lambda>_. [])" and st0: "st0 = ?st\<lparr>cache := cache st0\<rparr>"
    using init_cache_rep[OF _ _ f(1) i] g by (simp_all add: f)
  have c: "global_counter st0 = 0" "lines_E st0 = opt_E o1" "s_bits st0 = nat (opt_s o1)" "b_bits st0 = nat (opt_b o1)"
    "hit_cnt st0 = 0" "miss_cnt st0 = 0" "evict_cnt st0 = 0" by (subst st0, simp add: f)+
  obtain st1 where r: "replay_trace buf0 (Some text) st0 = Ret st1" and sc: "same_counts st1 (fold access_data ?as st0)"
    using replay_trace_accesses by blast
  have "hit_cnt st1 = hits_of (reference_run o1 buf0 text) \<and> miss_cnt st1 = misses_of (reference_run o1 buf0 text)
    \<and> evict_cnt st1 = evicts_of (reference_run o1 buf0 text)"
    using fold_access_lru[OF rep, of ?as] same_counts_eqD[OF sc] assms(6) by (simp add: c reference_run_def)
  then show ?thesis using assms(1,3,4) g i r by (simp add: csim_main_def print_summary_def free_cache_def)
qed

subsection \<open>More lines per set\<close>

lemma take_remove1_late: "t \<notin> set (take n xs) \<Longrightarrow> take n (remove1 t xs) = take n xs"
proof (induction xs arbitrary: n)
  case (Cons x xs)
  then show ?case by (cases n) auto
qed simp

lemma take_remove1_early: "t \<in> set (take n xs) \<Longrightarrow> take (n - 1) (remove1 t xs) = remove1 t (take n xs)"
proof (induction xs arbitrary: n)
  case (Cons x xs)
  show ?case
  proof (cases n)
    case (Suc m)
    then show ?thesis using Cons.IH[of m] Cons.prems by (cases m) auto
  qed (use Cons.prems in simp)
qed simp

lemma lru_step_inclusion:
  assumes "0 < E" and "E \<le> E'" and "length ts' \<le> E'" and "distinct ts'"
  shows "snd (lru_step E t (take E ts')) = take E (snd (lru_step E' t ts'))"
    and "fst (lru_step E t (take E ts')) = Hit \<Longrightarrow> fst (lru_step E' t ts') = Hit"
    and "length (snd (lru_step E' t ts')) \<le> E'" and "distinct (snd (lru_step E' t ts'))"
proof -
  obtain m where E: "E = Suc m" using assms(1) by (cases E) auto
  show "fst (lru_step E t (take E ts')) = Hit \<Longrightarrow> fst (lru_step E' t ts') = Hit"
    by (auto simp: lru_step_def split: if_split_asm dest: in_set_takeD)
  show "length (snd (lru_step E' t ts')) \<le> E'" using assms by (auto simp: lru_step_def length_remove1 split: if_splits)
  show "distinct (snd (lru_step E' t ts'))"
    using assms by (auto simp: lru_step_def distinct_butlast dest: in_set_butlastD)
  show "snd (lru_step E t (take E ts')) = take E (snd (lru_step E' t ts'))"
  proof (cases "t \<in> set (take E ts')")
    case True
    then show ?thesis using take_remove1_early[of t E ts'] by (auto simp: lru_step_def E dest: in_set_takeD)
  next
    case False
    then have late: "take m (remove1 t ts') = take m ts'"
      using set_take_subset_set_take[of m "Suc m" ts'] by (intro take_remove1_late) (auto simp: E)
    show ?thesis using False late assms(2,3)
      by (cases "t \<in> set ts'") (auto simp: lru_step_def E butlast_conv_take min_def length_remove1 dest: in_set_takeD)
  qed
qed

lemma lru_step_evict:
  "E \<le> E' \<Longrightarrow> length ts' \<le> E' \<Longrightarrow> fst (lru_step E' t ts') = Evict \<Longrightarrow> fst (lru_step E t (take E ts')) = Evict"
  by (auto simp: lru_step_def split: if_split_asm dest: in_set_takeD)

lemma lru_run_inclusion:
  assumes "0 < E" and "E \<le> E'" and "\<forall>k. f k = take E (f' k) \<and> length (f' k) \<le> E' \<and> distinct (f' k)"
  shows "list_all2 (\<lambda>v v'. (v = Hit \<longrightarrow> v' = Hit) \<and> (v' = Evict \<longrightarrow> v = Evict)) (lru_run E acc f) (lru_run E' acc f')"
  using assms(3)
proof (induction acc arbitrary: f f')
  case (Cons kt acc)
  obtain k t where kt: "kt = (k, t)" by (cases kt)
  obtain v ts where s: "lru_step E t (f k) = (v, ts)" by (cases "lru_step E t (f k)")
  obtain v' ts' where s': "lru_step E' t (f' k) = (v', ts')" by (cases "lru_step E' t (f' k)")
  have f: "f k = take E (f' k)" "length (f' k) \<le> E'" "distinct (f' k)" using Cons.prems by auto
  note inc = lru_step_inclusion[OF assms(1,2) f(2,3), of t] and ev = lru_step_evict[OF assms(2) f(2), of t]
  have "\<forall>j. (f(k := ts)) j = take E ((f'(k := ts')) j) \<and> length ((f'(k := ts')) j) \<le> E' \<and> distinct ((f'(k := ts')) j)"
    using Cons.prems inc s s' f by auto
  from Cons.IH[OF this] show ?case using inc(2) ev s s' f(1) by (simp add: kt fun_upd_def)
qed simp

lemma verdicts_le:
  assumes "list_all2 (\<lambda>v v'. (v = Hit \<longrightarrow> v' = Hit) \<and> (v' = Evict \<longrightarrow> v = Evict)) vs vs'"
  shows "hits_of vs \<le> hits_of vs'" and "misses_of vs' \<le> misses_of vs" and "evicts_of vs' \<le> evicts_of vs"
    and "hits_of vs + misses_of vs = hits_of vs' + misses_of vs'"
  using assms by (induction rule: list_all2_induct) (auto simp: hits_of_def misses_of_def evicts_of_def)

subsection \<open>Printing and parsing a trace\<close>

lemma digit_val_char: "d < base \<Longrightarrow> base \<le> 16 \<Longrightarrow> digit_val base (digit_char d) = Some d"
  by (auto simp: digit_val_def digit_char_def of_char_of take_bit_eq_mod)

lemma digit_val_lt: "digit_val base c = Some d \<Longrightarrow> d < base"
  by (auto simp: digit_val_def Let_def split: option.splits if_splits)

lemma scan_print:
  assumes "2 \<le> base" and "base \<le> 16"
  shows "scan_digits base acc (print_nat base n @ rest)
    = scan_digits base (acc * base ^ length (print_nat base n) + n) rest"
  using assms
proof (induction base n arbitrary: acc rest rule: print_nat.induct)
  case (1 base n)
  show ?case
  proof (cases "n < base")
    case True
    then show ?thesis using 1(2,3) by (simp add: print_nat.simps[of base n] digit_val_char)
  next
    case False
    let ?p = "print_nat base (n div base)"
    have p: "print_nat base n = ?p @ [digit_char (n mod base)]" using False 1(2) by (simp add: print_nat.simps[of base n])
    have d: "digit_val base (digit_char (n mod base)) = Some (n mod base)" using 1(2,3) by (intro digit_val_char) simp_all
    have "(acc * base ^ length ?p + n div base) * base + n mod base = acc * base ^ Suc (length ?p) + n"
      by (simp add: algebra_simps)
    then show ?thesis using False 1 by (simp add: p d)
  qed
qed

lemma print_nat_digits:
  assumes "2 \<le> base"
  shows "print_nat base n \<noteq> []" and "c \<in> set (print_nat base n) \<Longrightarrow> \<exists>d<base. c = digit_char d"
  using assms
proof (induction base n arbitrary: c rule: print_nat.induct)
  case (1 base n)
  { case 1 show ?case by (subst print_nat.simps) simp
  next
    case 2 then show ?case using "1.IH"(2)[of c] by (subst (asm) print_nat.simps) (auto split: if_splits intro: exI[of _ "n mod base"] exI[of _ n]) }
qed

lemma digit_char_plain:
  assumes "d < 16"
  shows "\<not> is_space (digit_char d)" and "digit_char d \<noteq> CHR ''-''" and "digit_char d \<noteq> CHR ''+''"
    and "digit_char d \<noteq> CHR ''x''" and "digit_char d \<noteq> CHR ''X''" and "digit_char d \<noteq> CHR 0x00" and "digit_char d \<noteq> CHR 0x0A"
proof -
  have n: "(of_char (digit_char d) :: nat) = (if d < 10 then 48 + d else 87 + d)"
    using assms by (simp add: digit_char_def of_char_of take_bit_eq_mod)
  have ne: "digit_char d \<noteq> c" if "(of_char c :: nat) < 48 \<or> 102 < (of_char c :: nat) \<or> (of_char c :: nat) = 88" for c
    using n that assms by (auto split: if_splits)
  show "\<not> is_space (digit_char d)" using ne by (auto simp: is_space_def)
  show "digit_char d \<noteq> CHR ''-''" "digit_char d \<noteq> CHR ''+''" "digit_char d \<noteq> CHR ''x''"
    "digit_char d \<noteq> CHR ''X''" "digit_char d \<noteq> CHR 0x00" "digit_char d \<noteq> CHR 0x0A"
    by (rule ne, simp)+
qed

text \<open>A number printed in the base it is read in comes back, with what follows it.\<close>

lemma scan_unsigned_print:
  assumes "base = 10 \<or> base = 16" and "n < 2 ^ 64" and "rest = c # cs" and "digit_val base c = None" and "c \<noteq> CHR ''x''" and "c \<noteq> CHR ''X''"
  shows "scan_unsigned base (print_nat base n @ rest) = Some (of_nat n, rest)"
proof -
  let ?p = "print_nat base n"
  have b: "2 \<le> base" "base \<le> 16" using assms(1) by auto
  obtain x xs where p: "?p = x # xs" using print_nat_digits(1)[OF b(1), of n] by (cases ?p) auto
  obtain d where d: "d < base" "x = digit_char d" using print_nat_digits(2)[OF b(1), of x n] p by auto
  note plain = digit_char_plain[of d]
  have x: "\<not> is_space x" "x \<noteq> CHR ''-''" "x \<noteq> CHR ''+''" "digit_val base x = Some d"
    using plain d b digit_val_char[of d base] by auto
  obtain y ys where y: "xs @ rest = y # ys" using assms(3) by (cases xs) auto
  have nx: "y \<noteq> CHR ''x'' \<and> y \<noteq> CHR ''X''"
  proof (cases xs)
    case Nil
    then show ?thesis using y assms(3,5,6) by simp
  next
    case (Cons z zs)
    then obtain e where "e < base" "y = digit_char e" using print_nat_digits(2)[OF b(1), of y n] p y by auto
    then show ?thesis using digit_char_plain(4,5)[of e] b(2) by simp
  qed
  have sc: "scan_digits base 0 (?p @ rest) = (n, rest)" using scan_print[OF b, of 0 n rest] assms(3,4) by simp
  have z: "?p @ rest = x # y # ys" by (simp add: p y)
  show ?thesis using x nx sc assms(2) unfolding z by (simp add: scan_unsigned_def Let_def del: scan_digits.simps)
qed

text \<open>
  A trace line as \<open>replay_trace\<close> expects it: a blank, the kind of access, a blank, the
  address in hexadecimal, a comma, the length, a newline.
\<close>

definition trace_line :: "char \<times> u64 \<times> u32 \<Rightarrow> string" where
  "trace_line = (\<lambda>(c, a, n). '' '' @ c # '' '' @ print_nat 16 (unat a) @ '','' @ print_nat 10 (unat n) @ [CHR 0x0A])"

definition accesses_of :: "char \<times> u64 \<times> u32 \<Rightarrow> u64 list" where
  "accesses_of = (\<lambda>(c, a, n). if c = CHR ''M'' then [a, a] else if c = CHR ''L'' \<or> c = CHR ''S'' then [a] else [])"

lemma print_nat_length: "2 \<le> base \<Longrightarrow> n < base ^ Suc k \<Longrightarrow> length (print_nat base n) \<le> Suc k"
proof (induction k arbitrary: n)
  case 0
  then show ?case by (simp add: print_nat.simps)
next
  case (Suc k)
  then have "n div base < base ^ Suc k" by (simp add: less_mult_imp_div_less mult.commute)
  then show ?case using Suc by (subst print_nat.simps) simp
qed

lemma take_line_app:
  "CHR 0x0A \<notin> set xs \<Longrightarrow> length xs < m \<Longrightarrow> take_line m (xs @ CHR 0x0A # rest) = xs @ [CHR 0x0A]"
proof (induction xs arbitrary: m)
  case Nil
  then show ?case by (cases m) auto
next
  case (Cons x xs)
  then show ?case by (cases m) auto
qed

lemma fgets_lines_line:
  assumes "CHR 0x0A \<notin> set xs" and "length xs < 999"
  shows "fgets_lines (xs @ CHR 0x0A # rest) = (xs @ [CHR 0x0A]) # fgets_lines rest"
proof -
  obtain c cs where c: "xs @ CHR 0x0A # rest = c # cs" by (cases xs) auto
  have "fgets_lines (c # cs) = take_line 999 (c # cs) # fgets_lines (drop (length (take_line 999 (c # cs))) (c # cs))"
    by (simp only: fgets_lines.simps Let_def)
  then show ?thesis unfolding c[symmetric] take_line_app[OF assms, of rest] by simp
qed

lemma digits_no_newline: "2 \<le> base \<Longrightarrow> base \<le> 16 \<Longrightarrow> CHR 0x0A \<notin> set (print_nat base n) \<and> CHR 0x00 \<notin> set (print_nat base n)"
proof -
  assume b: "2 \<le> base" "base \<le> 16"
  have "c \<noteq> CHR 0x0A \<and> c \<noteq> CHR 0x00" if "c \<in> set (print_nat base n)" for c
    using print_nat_digits(2)[OF b(1) that] digit_char_plain(6,7) b(2) by fastforce
  then show ?thesis by blast
qed

lemma sscanf_line:
  "sscanf_access (print_nat 16 (unat a) @ '','' @ print_nat 10 (unat n) @ [CHR 0x0A]) a0 n0 = (a, n)"
proof -
  have "scan_unsigned 16 (print_nat 16 (unat a) @ '','' @ print_nat 10 (unat n) @ [CHR 0x0A])
      = Some (a, '','' @ print_nat 10 (unat n) @ [CHR 0x0A])"
    using scan_unsigned_print[of 16 "unat a" "'','' @ print_nat 10 (unat n) @ [CHR 0x0A]" "CHR '',''"]
      unsigned_less[of a, where ?'a = nat] by (simp add: digit_val_def)
  moreover have "unat n < 2 ^ 64" using unsigned_less[of n, where ?'a = nat] by simp
  then have "scan_unsigned 10 (print_nat 10 (unat n) @ [CHR 0x0A]) = Some (of_nat (unat n), [CHR 0x0A])"
    using scan_unsigned_print[of 10 "unat n" "[CHR 0x0A]" "CHR 0x0A" "[]"] by (simp add: digit_val_def)
  moreover have "ucast (of_nat (unat n) :: u64) = n" by transfer simp
  ultimately show ?thesis by (simp add: sscanf_access_def)
qed

lemma trace_line_accesses:
  assumes "c \<noteq> CHR 0x0A"
  shows "\<exists>p'. line_accesses (trace_line (c, a, n)) p = (accesses_of (c, a, n), p')"
proof -
  obtain buf a0 n0 where p: "p = (buf, a0, n0)" by (cases p) auto
  let ?body = "print_nat 16 (unat a) @ '','' @ print_nat 10 (unat n) @ [CHR 0x0A]"
  let ?buf = "fgets_into (trace_line (c, a, n)) buf"
  obtain junk where b: "?buf = '' '' @ c # '' '' @ ?body @ CHR 0x00 # junk"
    by (simp add: fgets_into_def trace_line_def)
  have "CHR 0x00 \<notin> set ?body" using digits_no_newline[of 16 "unat a"] digits_no_newline[of 10 "unat n"] by simp
  then have "c_string (drop 3 ?buf) = ?body"
    unfolding b c_string_def by (auto simp: takeWhile_append takeWhile_eq_all_conv numeral_3_eq_3)
  moreover have "?buf ! 1 = c" by (simp add: b)
  ultimately show ?thesis
    using sscanf_line[of a n a0 n0] unfolding p line_accesses_def accesses_of_def by (auto simp: Let_def)
qed

lemma trace_file_accesses:
  assumes "\<forall>(c, a, n)\<in>set accs. c \<noteq> CHR 0x0A"
  shows "trace_accesses (fgets_lines (concat (map trace_line accs))) p = concat (map accesses_of accs)"
  using assms
proof (induction accs arbitrary: p)
  case (Cons x accs)
  obtain c a n where x: "x = (c, a, n)" by (cases x) auto
  then have c: "c \<noteq> CHR 0x0A" using Cons.prems by simp
  let ?xs = "'' '' @ c # '' '' @ print_nat 16 (unat a) @ '','' @ print_nat 10 (unat n)"
  have l: "trace_line x = ?xs @ [CHR 0x0A]" by (simp add: x trace_line_def)
  have "unat a < 16 ^ Suc 15" "unat n < 10 ^ Suc 19"
    using unsigned_less[of a, where ?'a = nat] unsigned_less[of n, where ?'a = nat] by simp_all
  then have "length (print_nat 16 (unat a)) \<le> 16" "length (print_nat 10 (unat n)) \<le> 20"
    using print_nat_length[of 16 "unat a" 15] print_nat_length[of 10 "unat n" 19] by simp_all
  then have "length ?xs < 999" by simp
  moreover have "CHR 0x0A \<notin> set ?xs" using c digits_no_newline[of 16 "unat a"] digits_no_newline[of 10 "unat n"] by simp
  ultimately have f: "fgets_lines (concat (map trace_line (x # accs))) = trace_line x # fgets_lines (concat (map trace_line accs))"
    using fgets_lines_line[of ?xs "concat (map trace_line accs)"] l by simp
  obtain p' where "line_accesses (trace_line x) p = (accesses_of x, p')" using trace_line_accesses[OF c] x by blast
  then show ?case using Cons f by simp
qed simp

subsection \<open>Properties of the simulator\<close>


text \<open>
  More lines per set never hurt: two runs on the same trace whose options differ only in
  the number of lines per set make the same number of accesses, and the one with more lines has
  at least as many hits and no more misses and evictions.
\<close>

theorem csim_more_lines:
  assumes "parse_options args no_options = Inr o1" and "parse_options args' no_options = Inr o2" and "o2 = o1\<lparr>opt_E := E'\<rparr>"
    and "opt_E o1 \<le> E'" and "good_options o1" and "opt_t o1 = Some fn" and "files fn = Some text"
    and "\<forall>n. malloc_ok n" and "length (trace_accesses (fgets_lines text) (buf0, 0, 0)) < 2 ^ 64"
  shows "\<exists>h m e h' m' e'. csim_main malloc_ok buf0 files args = Summary h m e
    \<and> csim_main malloc_ok buf0 files args' = Summary h' m' e'
    \<and> h + m = h' + m' \<and> h \<le> h' \<and> m' \<le> m \<and> e' \<le> e"
proof -
  have g: "good_options o2" "opt_t o2 = Some fn" using assms(3-6) by (auto simp: good_options_def)
  have E: "0 < nat (opt_E o1)" "nat (opt_E o1) \<le> nat E'" using assms(4,5) by (auto simp: good_options_def)
  have "list_all2 (\<lambda>v v'. (v = Hit \<longrightarrow> v' = Hit) \<and> (v' = Evict \<longrightarrow> v = Evict)) (reference_run o1 buf0 text) (reference_run o2 buf0 text)"
    unfolding reference_run_def assms(3) using lru_run_inclusion[OF E, of "\<lambda>_. []" "\<lambda>_. []"] by simp
  from verdicts_le[OF this] show ?thesis
    using csim_main_summary[where files = files and malloc_ok = malloc_ok, OF assms(1,5-9)]
      csim_main_summary[where files = files and malloc_ok = malloc_ok, OF assms(2) g assms(7-9)] by auto
qed

text \<open>
  The trace reader parses what a trace writer prints: for a file of printed access lines,
  the accesses replayed are exactly the listed ones, in order, a modify counting as two accesses
  to the same address and any other kind of line as none.
\<close>

theorem trace_roundtrip:
  assumes "\<forall>(c, a, n)\<in>set accs. c \<noteq> CHR 0x0A"
  shows "\<exists>st'. replay_trace buf (Some (concat (map trace_line accs))) st = Ret st'
    \<and> same_counts st' (fold access_data (concat (map accesses_of accs)) st)"
  using replay_trace_accesses[of buf "concat (map trace_line accs)" st] trace_file_accesses[OF assms] by simp

text \<open>
  The line format that the comment of \<open>replay_trace\<close> shows, with the kind of access in the
  first column, is ignored by the code, which looks at the second column.
\<close>

theorem unindented_line_ignored:
  "replay_line (c # CHR '' '' # rest) (buf, a, n, st) = (fgets_into (c # CHR '' '' # rest) buf, a, n, st)"
  by (simp add: replay_line_def fgets_into_def Let_def)

subsection \<open>A concrete run\<close>

definition demo_args :: "string \<Rightarrow> (char \<times> string) list" where
  "demo_args e = [(CHR ''s'', ''1''), (CHR ''E'', e), (CHR ''b'', ''4''), (CHR ''t'', ''f'')]"

definition demo_trace :: "(char \<times> u64 \<times> u32) list" where
  "demo_trace = [(CHR ''L'', 16, 1), (CHR ''M'', 80, 4), (CHR ''S'', 16, 1)]"

definition demo_options :: "int \<Rightarrow> options" where
  "demo_options e = \<lparr>opt_b = 4, opt_s = 1, opt_E = e, opt_v = False, opt_t = Some ''f''\<rparr>"

lemma demo_parse: "parse_options (demo_args ''1'') no_options = Inr (demo_options 1)"
  "parse_options (demo_args ''2'') no_options = Inr (demo_options 2)"
  by (simp_all add: demo_args_def demo_options_def no_options_def atoi_def is_space_def digit_val_def Let_def)

lemma demo_accesses: "trace_accesses (fgets_lines (concat (map trace_line demo_trace))) p = [16, 80, 80, 16]"
  by (subst trace_file_accesses) (simp_all add: demo_trace_def accesses_of_def)

lemma demo_good: "0 < e \<Longrightarrow> good_options (demo_options e)"
  by (simp add: good_options_def demo_options_def)


theorem csim_more_lines_witness:
  "\<exists>h m e h' m' e'. csim_main (\<lambda>_. True) [] (\<lambda>_. Some (concat (map trace_line demo_trace))) (demo_args ''1'') = Summary h m e
    \<and> csim_main (\<lambda>_. True) [] (\<lambda>_. Some (concat (map trace_line demo_trace))) (demo_args ''2'') = Summary h' m' e'
    \<and> h + m = h' + m' \<and> h \<le> h' \<and> m' \<le> m \<and> e' \<le> e"
  by (rule csim_more_lines[OF demo_parse, of 2 "''f''" _ "concat (map trace_line demo_trace)"])
    (simp_all add: demo_good demo_accesses, simp_all add: demo_options_def)

theorem trace_roundtrip_witness:
  "\<exists>st'. replay_trace [] (Some (concat (map trace_line demo_trace))) (fresh_csim (demo_options 1)) = Ret st'
    \<and> same_counts st' (fold access_data [16, 80, 80, 16] (fresh_csim (demo_options 1)))"
  using trace_roundtrip[of demo_trace "[]" "fresh_csim (demo_options 1)"] by (simp add: demo_trace_def accesses_of_def)

end
