(* ===== verification/Kalloc.thy ===== *)
theory Kalloc
  imports Prelude
begin

text \<open>
  The physical page allocator of the kernel (kalloc.c) and the memory it works on. Memory is a
  function from the kernel address of a page and the index of a 32-bit word in it to the word, so
  a pointer to a word is a pair; the kernel reads and writes pages as arrays of words (page
  tables, the link of a free page) or as a whole (\<open>memset\<close>, \<open>memmove\<close>). The free list is threaded
  through word 0 of the free pages. \<open>kend\<close> is the linker's symbol \<^verbatim>\<open>end\<close>. The lock around the
  list is not modelled: an operation on the list is one step.
\<close>

subsection \<open>Pages\<close>

abbreviation (input) PGSIZE :: u32 where "PGSIZE \<equiv> 4096"
abbreviation (input) KERNBASE :: u32 where "KERNBASE \<equiv> 0x80000000"
abbreviation (input) PHYSTOP :: u32 where "PHYSTOP \<equiv> 0xE000000"
abbreviation (input) V2P :: "u32 \<Rightarrow> u32" where "V2P a \<equiv> a - KERNBASE"
abbreviation (input) P2V :: "u32 \<Rightarrow> u32" where "P2V a \<equiv> a + KERNBASE"

definition PGROUNDUP :: "u32 \<Rightarrow> u32" where
  "PGROUNDUP sz = (sz + PGSIZE - 1) AND NOT (PGSIZE - 1)"

definition PGROUNDDOWN :: "u32 \<Rightarrow> u32" where
  "PGROUNDDOWN a = a AND NOT (PGSIZE - 1)"

type_synonym memory = "u32 \<Rightarrow> nat \<Rightarrow> u32"

subsection \<open>The allocator\<close>

record kernel =
  memory :: memory
  freelist :: u32
  use_lock :: bool
  kend :: u32

definition kfree :: "u32 \<Rightarrow> kernel \<Rightarrow> kernel outcome" where
  "kfree v k =
     (if v mod PGSIZE \<noteq> 0 \<or> v < kend k \<or> V2P v \<ge> PHYSTOP then Panic ''kfree''
      else let m1 = (memory k)(v := (\<lambda>_. 0x01010101));
               m2 = m1(v := (m1 v)(0 := freelist k))
           in Ret (k\<lparr>memory := m2, freelist := v\<rparr>))"

definition kalloc :: "kernel \<Rightarrow> u32 \<times> kernel" where
  "kalloc k =
     (let r = freelist k
      in (r, if r \<noteq> 0 then k\<lparr>freelist := memory k r 0\<rparr> else k))"

text \<open>The loop of \<open>freerange\<close>; \<open>n\<close> bounds the number of pages between \<open>p\<close> and \<open>vend\<close>.\<close>

fun freerange_loop :: "nat \<Rightarrow> u32 \<Rightarrow> u32 \<Rightarrow> kernel \<Rightarrow> kernel outcome" where
  "freerange_loop 0 p vend k = Diverge"
| "freerange_loop (Suc n) p vend k =
     (if p + PGSIZE \<le> vend then obind (kfree p k) (freerange_loop n (p + PGSIZE) vend) else Ret k)"

definition freerange :: "u32 \<Rightarrow> u32 \<Rightarrow> kernel \<Rightarrow> kernel outcome" where
  "freerange vstart vend k =
     freerange_loop (Suc (unat (vend - PGROUNDUP vstart) div 4096)) (PGROUNDUP vstart) vend k"

definition kinit1 :: "u32 \<Rightarrow> u32 \<Rightarrow> kernel \<Rightarrow> kernel outcome" where
  "kinit1 vstart vend k = freerange vstart vend (k\<lparr>use_lock := False\<rparr>)"

definition kinit2 :: "u32 \<Rightarrow> u32 \<Rightarrow> kernel \<Rightarrow> kernel outcome" where
  "kinit2 vstart vend k = obind (freerange vstart vend k) (\<lambda>k'. Ret (k'\<lparr>use_lock := True\<rparr>))"

subsection \<open>Word arithmetic on page addresses\<close>

lemma unat_take_bit: "unat (take_bit n (a :: u32)) = unat a mod 2 ^ n"
  unfolding unsigned_take_bit_eq by (rule take_bit_eq_mod)

lemma unat_drop_bit: "unat (drop_bit n (a :: u32)) = unat a div 2 ^ n"
  unfolding unsigned_drop_bit_eq
  by (simp only: drop_bit_eq_div take_bit_eq_mod) (simp add: unsigned_less[where 'a = nat, of a, simplified])

lemma FFF_mask: "(0xFFF :: u32) = mask 12"
  by (simp add: mask_eq_exp_minus_1)

lemma and_not_FFF: "(a :: u32) AND NOT 0xFFF = a - take_bit 12 a"
proof -
  have "(a AND NOT 0xFFF) = push_bit 12 (drop_bit 12 a)"
    unfolding FFF_mask by (rule bit_word_eqI) (auto simp: bit_simps)
  then have "(a AND NOT 0xFFF) + take_bit 12 a = a" by (simp only: bits_ident)
  then show ?thesis by (simp only: eq_diff_eq)
qed

lemma unat_and_not_FFF: "unat ((a :: u32) AND NOT 0xFFF) = unat a - unat a mod 4096"
  unfolding and_not_FFF unat_sub_if' unat_take_bit by simp

lemma unat_and_FFF: "unat ((a :: u32) AND 0xFFF) = unat a mod 4096"
proof -
  have "a AND 0xFFF = take_bit 12 a" unfolding FFF_mask by (simp only: take_bit_eq_mask)
  then show ?thesis by (simp only: unat_take_bit) simp
qed

lemma take_bit_12_0: "take_bit 12 (x :: u32) = 0 \<longleftrightarrow> unat x mod 4096 = 0"
  unfolding word_unat_eq_iff unat_take_bit by simp

lemma take_bit_12_id: "take_bit 12 (x :: u32) = x \<longleftrightarrow> unat x < 4096"
  unfolding word_unat_eq_iff unat_take_bit by (simp add: mod_eq_self_iff_div_eq_0 div_eq_0_iff)

lemma page_or_flags:
  fixes x f :: u32
  assumes "unat x mod 4096 = 0" and "unat f < 4096"
  shows "(x OR f) AND NOT 0xFFF = x" and "(x OR f) AND 0xFFF = f"
proof -
  have t: "take_bit 12 x = 0" "take_bit 12 f = f" by (simp_all only: take_bit_12_0 take_bit_12_id assms)
  have hi: "12 \<le> n" if "bit x n" for n
    using arg_cong[OF t(1), of "\<lambda>w. bit w n"] that by (simp add: bit_take_bit_iff not_less)
  have lo: "n < 12" if "bit f n" for n
    using arg_cong[OF t(2), of "\<lambda>w. bit w n"] that by (simp add: bit_take_bit_iff)
  show "(x OR f) AND NOT 0xFFF = x"
    unfolding FFF_mask by (rule bit_word_eqI) (auto simp: bit_simps dest: hi lo)
  show "(x OR f) AND 0xFFF = f"
    unfolding FFF_mask by (rule bit_word_eqI) (auto simp: bit_simps dest: hi lo)
qed

lemma mod_PGSIZE_0: "(v :: u32) mod 4096 = 0 \<longleftrightarrow> unat v mod 4096 = 0"
  by (simp add: word_unat_eq_iff unat_mod)

subsection \<open>The free list\<close>

text \<open>A frame that may be freed, and the list of free frames as it is linked through memory.\<close>

definition good_frame :: "kernel \<Rightarrow> u32 \<Rightarrow> bool" where
  "good_frame k v \<longleftrightarrow> v mod PGSIZE = 0 \<and> kend k \<le> v \<and> V2P v < PHYSTOP \<and> v \<noteq> 0"

fun linked :: "memory \<Rightarrow> u32 \<Rightarrow> u32 list \<Rightarrow> bool" where
  "linked m r [] \<longleftrightarrow> r = 0"
| "linked m r (f # fs) \<longleftrightarrow> r = f \<and> linked m (m f 0) fs"

definition free_pages :: "kernel \<Rightarrow> u32 list \<Rightarrow> bool" where
  "free_pages k fs \<longleftrightarrow> linked (memory k) (freelist k) fs \<and> distinct fs \<and> (\<forall>f\<in>set fs. good_frame k f)"

lemma linked_cong: "(\<And>f. f \<in> set fs \<Longrightarrow> m f 0 = m' f 0) \<Longrightarrow> linked m r fs = linked m' r fs"
  by (induction fs arbitrary: r) auto

lemma linked_upd [simp]: "v \<notin> set fs \<Longrightarrow> linked (m(v := w)) r fs = linked m r fs"
  by (rule linked_cong) auto

lemma free_pages_mem:
  assumes "free_pages k fs" and "\<And>f. f \<in> set fs \<Longrightarrow> memory k' f = memory k f"
    and "freelist k' = freelist k" and "kend k' = kend k"
  shows "free_pages k' fs"
  using assms linked_cong[of fs "memory k" "memory k'"] by (simp add: free_pages_def good_frame_def)

lemma good_frame_kend: "kend k' = kend k \<Longrightarrow> good_frame k' v = good_frame k v"
  by (simp add: good_frame_def)

lemma free_pages_functional: "free_pages k fs \<Longrightarrow> free_pages k fs' \<Longrightarrow> fs = fs'"
proof -
  have "linked m r fs \<Longrightarrow> linked m r fs' \<Longrightarrow> 0 \<notin> set fs \<Longrightarrow> 0 \<notin> set fs' \<Longrightarrow> fs = fs'" for m r
  proof (induction fs arbitrary: r fs')
    case Nil
    then show ?case by (cases fs') auto
  next
    case (Cons f fs)
    then show ?case by (cases fs') auto
  qed
  then show "free_pages k fs \<Longrightarrow> free_pages k fs' \<Longrightarrow> fs = fs'"
    by (auto simp: free_pages_def good_frame_def)
qed

lemma kalloc_Nil: "free_pages k [] \<Longrightarrow> kalloc k = (0, k)"
  by (simp add: free_pages_def kalloc_def)

lemma kalloc_Cons:
  assumes "free_pages k (f # fs)"
  shows "kalloc k = (f, k\<lparr>freelist := memory k f 0\<rparr>)" and "free_pages (k\<lparr>freelist := memory k f 0\<rparr>) fs"
    and "good_frame k f" and "f \<notin> set fs" and "f \<noteq> 0"
  using assms by (auto simp: free_pages_def kalloc_def good_frame_def)

lemma kfree_ok:
  assumes "free_pages k fs" and "good_frame k v" and "v \<notin> set fs"
  shows "\<exists>k'. kfree v k = Ret k' \<and> free_pages k' (v # fs) \<and> (\<forall>p. p \<noteq> v \<longrightarrow> memory k' p = memory k p)
    \<and> kend k' = kend k \<and> use_lock k' = use_lock k"
proof -
  have "kfree v k = Ret (k\<lparr>memory := (memory k)(v := (\<lambda>_. 0x01010101)(0 := freelist k)), freelist := v\<rparr>)"
    using assms(2) by (simp add: kfree_def good_frame_def Let_def not_less not_le)
  moreover have "linked ((memory k)(v := (\<lambda>_. 0x01010101)(0 := freelist k))) (freelist k) fs"
    using assms(1,3) by (simp add: free_pages_def)
  ultimately show ?thesis using assms by (auto simp: free_pages_def good_frame_def)
qed

lemma kfree_Panic: "\<not> good_frame k v \<Longrightarrow> 0 < kend k \<Longrightarrow> kfree v k = Panic ''kfree''"
  by (auto simp: kfree_def good_frame_def not_less not_le word_neq_0_conv)

text \<open>
  The contract of a page allocator: an abstract stack of free pages, from which \<open>alloc\<close> pops
  and to which \<open>free\<close> pushes; pages that are not touched keep their contents.
\<close>

locale page_allocator =
  fixes alloc :: "'k \<Rightarrow> 'p \<times> 'k"
    and free :: "'p \<Rightarrow> 'k \<Rightarrow> 'k outcome"
    and null :: 'p
    and pages :: "'k \<Rightarrow> 'p list \<Rightarrow> bool"
    and good :: "'k \<Rightarrow> 'p \<Rightarrow> bool"
    and page :: "'k \<Rightarrow> 'p \<Rightarrow> 'c"
  assumes alloc_empty: "pages k [] \<Longrightarrow> alloc k = (null, k)"
    and alloc_pop: "pages k (f # fs) \<Longrightarrow> fst (alloc k) = f \<and> pages (snd (alloc k)) fs \<and> f \<noteq> null \<and> f \<notin> set fs
      \<and> good k f \<and> page (snd (alloc k)) = page k \<and> good (snd (alloc k)) = good k"
    and free_push: "pages k fs \<Longrightarrow> good k v \<Longrightarrow> v \<notin> set fs \<Longrightarrow>
      \<exists>k'. free v k = Ret k' \<and> pages k' (v # fs) \<and> (\<forall>p. p \<noteq> v \<longrightarrow> page k' p = page k p) \<and> good k' = good k"
begin

fun alloc_n :: "nat \<Rightarrow> 'k \<Rightarrow> 'p list \<times> 'k" where
  "alloc_n 0 k = ([], k)"
| "alloc_n (Suc n) k = (let (p, k1) = alloc k; (ps, k2) = alloc_n n k1 in (p # ps, k2))"

fun free_all :: "'p list \<Rightarrow> 'k \<Rightarrow> 'k outcome" where
  "free_all [] k = Ret k"
| "free_all (p # ps) k = obind (free p k) (free_all ps)"

text \<open>Allocation gives distinct pages, in the order of the stack, with their contents untouched.\<close>

lemma alloc_n_ok:
  "pages k (ps @ fs) \<Longrightarrow> fst (alloc_n (length ps) k) = ps \<and> pages (snd (alloc_n (length ps) k)) fs
    \<and> page (snd (alloc_n (length ps) k)) = page k \<and> good (snd (alloc_n (length ps) k)) = good k \<and> (\<forall>p\<in>set ps. good k p)"
proof (induction ps arbitrary: k)
  case (Cons p ps)
  from alloc_pop[of k p "ps @ fs"] Cons.prems
  have a: "fst (alloc k) = p" "pages (snd (alloc k)) (ps @ fs)" "good k p" "page (snd (alloc k)) = page k" "good (snd (alloc k)) = good k" by auto
  from Cons.IH[OF a(2)] show ?case using a by (auto simp: Let_def split: prod.splits)
qed auto

lemma free_all_ok:
  "pages k fs \<Longrightarrow> distinct (ps @ fs) \<Longrightarrow> \<forall>p\<in>set ps. good k p \<Longrightarrow>
   \<exists>k'. free_all ps k = Ret k' \<and> pages k' (rev ps @ fs) \<and> (\<forall>p. p \<notin> set ps \<longrightarrow> page k' p = page k p) \<and> good k' = good k"
proof (induction ps arbitrary: k fs)
  case (Cons p ps)
  from free_push[of k fs p] Cons.prems obtain k1 where k1: "free p k = Ret k1" "pages k1 (p # fs)"
    "\<forall>q. q \<noteq> p \<longrightarrow> page k1 q = page k q" "good k1 = good k" by auto
  from Cons.IH[OF k1(2)] Cons.prems k1(4) obtain k' where k': "free_all ps k1 = Ret k'" "pages k' (rev ps @ p # fs)"
    "\<forall>q. q \<notin> set ps \<longrightarrow> page k' q = page k1 q" "good k' = good k1" by auto
  then show ?case using k1 by auto
qed auto

end

interpretation ka: page_allocator kalloc kfree 0 free_pages good_frame memory
proof
  show "kalloc k = (0, k)" if "free_pages k []" for k using that by (rule kalloc_Nil)
  show "fst (kalloc k) = f \<and> free_pages (snd (kalloc k)) fs \<and> f \<noteq> 0 \<and> f \<notin> set fs
      \<and> good_frame k f \<and> memory (snd (kalloc k)) = memory k \<and> good_frame (snd (kalloc k)) = good_frame k"
    if "free_pages k (f # fs)" for k f fs
    using kalloc_Cons[OF that] by (auto simp: good_frame_def fun_eq_iff)
  show "\<exists>k'. kfree v k = Ret k' \<and> free_pages k' (v # fs) \<and> (\<forall>p. p \<noteq> v \<longrightarrow> memory k' p = memory k p) \<and> good_frame k' = good_frame k"
    if "free_pages k fs" "good_frame k v" "v \<notin> set fs" for k fs v
    using kfree_ok[OF that] by (auto simp: good_frame_def fun_eq_iff)
qed

subsection \<open>Handing a range of memory to the allocator\<close>

fun page_seq :: "nat \<Rightarrow> u32 \<Rightarrow> u32 list" where
  "page_seq 0 p = []"
| "page_seq (Suc n) p = p # page_seq n (p + PGSIZE)"

lemma unat_add_page: "unat (p :: u32) + 4096 < 2 ^ 32 \<Longrightarrow> unat (p + 4096) = unat p + 4096"
  by (simp add: unat_plus_if')

lemma page_seq_bounds:
  "unat p + 4096 * n < 2 ^ 32 \<Longrightarrow> q \<in> set (page_seq n p) \<Longrightarrow>
   unat p \<le> unat q \<and> unat q + 4096 \<le> unat p + 4096 * n \<and> unat q mod 4096 = unat p mod 4096"
proof (induction n arbitrary: p)
  case (Suc n)
  have u: "unat (p + 4096) = unat p + 4096" using Suc.prems(1) by (intro unat_add_page) simp
  show ?case using Suc.IH[of "p + 4096"] Suc.prems u by (auto simp: mod_add_self2)
qed simp

lemma page_seq_distinct: "unat p + 4096 * n < 2 ^ 32 \<Longrightarrow> distinct (page_seq n p)"
proof (induction n arbitrary: p)
  case (Suc n)
  have u: "unat (p + 4096) = unat p + 4096" using Suc.prems(1) by (intro unat_add_page) simp
  show ?case using Suc u page_seq_bounds[of "p + 4096" n p] by auto
qed simp

lemma freerange_loop_free_all:
  assumes "unat p + 4096 < 2 ^ 32" and "unat vend < 2 ^ 32 - 4096" and "(unat vend - unat p) div 4096 \<le> n"
  shows "freerange_loop (Suc n) p vend k = ka.free_all (page_seq ((unat vend - unat p) div 4096) p) k"
  using assms
proof (induction n arbitrary: p k)
  case 0
  then have "unat vend < unat p + 4096" by (simp add: div_eq_0_iff)
  then have "\<not> p + 4096 \<le> vend" using unat_add_page[OF 0(1)] by (simp add: word_le_nat_alt)
  then show ?case using 0(3) by simp
next
  case (Suc n)
  have u: "unat (p + 4096) = unat p + 4096" using unat_add_page[OF Suc.prems(1)] .
  show ?case
  proof (cases "p + 4096 \<le> vend")
    case True
    then have le: "unat p + 4096 \<le> unat vend" using u by (simp add: word_le_nat_alt)
    have d: "(unat vend - unat p) div 4096 = Suc ((unat vend - unat (p + 4096)) div 4096)"
      using le u by (simp add: div_if[of "unat vend - unat p"])
    have "freerange_loop (Suc n) (p + 4096) vend = ka.free_all (page_seq ((unat vend - unat (p + 4096)) div 4096) (p + 4096))"
      using Suc.IH[of "p + 4096"] Suc.prems le u d by (intro ext) simp
    then show ?thesis using True d by (simp del: freerange_loop.simps add: freerange_loop.simps(2)[of "Suc n"])
  next
    case False
    then have "unat vend < unat p + 4096" using u by (simp add: word_le_nat_alt)
    then have "(unat vend - unat p) div 4096 = 0" by (simp add: div_eq_0_iff)
    then show ?thesis using False by simp
  qed
qed

lemma freerange_free_all:
  assumes "unat (PGROUNDUP vstart) \<le> unat vend" and "unat vend < 2 ^ 32 - 4096"
  shows "freerange vstart vend k
    = ka.free_all (page_seq ((unat vend - unat (PGROUNDUP vstart)) div 4096) (PGROUNDUP vstart)) k"
proof -
  have "unat (vend - PGROUNDUP vstart) = unat vend - unat (PGROUNDUP vstart)" using assms(1) by (simp add: unat_sub_if')
  moreover have "unat (PGROUNDUP vstart) + 4096 < 2 ^ 32" using assms by simp
  ultimately show ?thesis unfolding freerange_def using freerange_loop_free_all assms(2) by simp
qed

lemma PGROUNDUP_alt: "PGROUNDUP a = (a + 4095) AND NOT 0xFFF"
proof -
  have "a + 4096 - 1 = a + 4095" "(4096 - 1 :: u32) = 0xFFF" by simp_all
  then show ?thesis unfolding PGROUNDUP_def by (simp only:)
qed

lemma PGROUNDUP_unat:
  assumes "unat a + 4095 < 2 ^ 32"
  shows "unat (PGROUNDUP a) = (unat a + 4095) div 4096 * 4096"
proof -
  have "unat (a + 4095) = unat a + 4095" using assms by (simp add: unat_plus_if')
  then show ?thesis unfolding PGROUNDUP_alt unat_and_not_FFF by (simp add: minus_mod_eq_div_mult)
qed

lemma PGROUNDUP_aligned:
  assumes "unat a mod 4096 = 0" and "unat a + 4095 < 2 ^ 32"
  shows "PGROUNDUP a = a"
proof -
  obtain q where "unat a = 4096 * q" using assms(1) by auto
  then have "unat (PGROUNDUP a) = unat a" using PGROUNDUP_unat[OF assms(2)] by simp
  then show ?thesis by (simp add: word_unat_eq_iff)
qed

lemma page_seq_append: "page_seq (n + m) p = page_seq n p @ page_seq m (p + of_nat n * 4096)"
  by (induction n arbitrary: p) (auto simp: algebra_simps)

text \<open>
  The allocator hands out what it was given: \<open>kinit1\<close> followed by \<open>kinit2\<close> on two
  ranges of kernel memory above \<^verbatim>\<open>end\<close> does not panic, and the free list then holds every whole
  page of the two ranges exactly once, the last page first.
\<close>

theorem kinit_frees_every_page:
  assumes "freelist k = 0" and "kend k \<le> v1" and "KERNBASE \<le> v1" and "v1 mod PGSIZE = 0" and "v2 mod PGSIZE = 0"
    and "v1 \<le> v2" and "v2 \<le> v3" and "v3 \<le> P2V PHYSTOP"
  shows "\<exists>k'. obind (kinit1 v1 v2 k) (kinit2 v2 v3) = Ret k' \<and> use_lock k'
    \<and> free_pages k' (rev (page_seq ((unat v3 - unat v1) div 4096) v1))"
proof -
  have u: "unat v1 mod 4096 = 0" "unat v2 mod 4096 = 0" "unat v1 \<le> unat v2" "unat v2 \<le> unat v3" "unat v3 \<le> 2382364672"
    "2147483648 \<le> unat v1" "unat (kend k) \<le> unat v1"
    using assms by (simp_all add: mod_PGSIZE_0 word_le_nat_alt)
  let ?n = "(unat v2 - unat v1) div 4096" and ?m = "(unat v3 - unat v2) div 4096"
  let ?k = "k\<lparr>use_lock := False\<rparr>"
  have r: "PGROUNDUP v1 = v1" "PGROUNDUP v2 = v2" using u by (simp_all add: PGROUNDUP_aligned)
  have d: "4096 dvd unat v2 - unat v1" using u(1,2) by (intro dvd_diff_nat) (simp_all add: mod_eq_0_iff_dvd)
  have n: "4096 * ?n = unat v2 - unat v1" using d by simp
  have "unat v3 - unat v1 = (unat v2 - unat v1) + (unat v3 - unat v2)" using u(3,4) by simp
  then have nm: "(unat v3 - unat v1) div 4096 = ?n + ?m" by (simp only: div_plus_div_distrib_dvd_left[OF d])
  have "unat v1 + ?n * 4096 = unat v2" using n u(3) by linarith
  then have "of_nat (unat v1 + ?n * 4096) = (of_nat (unat v2) :: u32)" by (rule arg_cong)
  then have v2: "v1 + of_nat ?n * 4096 = v2" by (simp only: of_nat_add of_nat_mult of_nat_unat ucast_id of_nat_numeral)
  have seq: "page_seq ((unat v3 - unat v1) div 4096) v1 = page_seq ?n v1 @ page_seq ?m v2"
    unfolding nm page_seq_append v2 ..
  have b: "unat v1 + 4096 * (?n + ?m) < 2 ^ 32"
    using u(3-5) n times_div_less_eq_dividend[of 4096 "unat v3 - unat v2"] by (simp add: algebra_simps)
  have dist: "distinct (page_seq ?n v1 @ page_seq ?m v2)" using page_seq_distinct[OF b] by (simp only: seq nm[symmetric])
  have good: "good_frame ?k p" if "p \<in> set (page_seq ?n v1 @ page_seq ?m v2)" for p
  proof -
    from that have "unat v1 \<le> unat p \<and> unat p + 4096 \<le> unat v1 + 4096 * (?n + ?m) \<and> unat p mod 4096 = unat v1 mod 4096"
      using page_seq_bounds[OF b, of p] by (simp only: seq nm[symmetric])
    then have p: "unat v1 \<le> unat p" "unat p + 4096 \<le> unat v1 + 4096 * (?n + ?m)" "unat p mod 4096 = 0" using u(1) by simp_all
    have "4096 * (?n + ?m) \<le> unat v3 - unat v1" unfolding nm[symmetric] by simp
    then have "unat p + 4096 \<le> unat v1 + (unat v3 - unat v1)" using p(2) by linarith
    then have "unat p < 2382364672" using u(3-5) by simp
    note p = p this
    then show ?thesis using p u by (auto simp: good_frame_def mod_PGSIZE_0 word_le_nat_alt word_less_nat_alt unat_sub_if')
  qed
  have f0: "free_pages ?k []" using assms(1) by (simp add: free_pages_def)
  have "\<exists>k1. ka.free_all (page_seq ?n v1) ?k = Ret k1 \<and> free_pages k1 (rev (page_seq ?n v1) @ []) \<and> good_frame k1 = good_frame ?k"
    using ka.free_all_ok[OF f0, of "page_seq ?n v1"] good dist by auto
  then obtain k1 where k1: "ka.free_all (page_seq ?n v1) ?k = Ret k1" "free_pages k1 (rev (page_seq ?n v1))" "good_frame k1 = good_frame ?k" by auto
  have "\<exists>k2. ka.free_all (page_seq ?m v2) k1 = Ret k2 \<and> free_pages k2 (rev (page_seq ?m v2) @ rev (page_seq ?n v1))"
    using ka.free_all_ok[OF k1(2), of "page_seq ?m v2"] good dist k1(3) by auto
  then obtain k2 where k2: "ka.free_all (page_seq ?m v2) k1 = Ret k2" "free_pages k2 (rev (page_seq ?m v2) @ rev (page_seq ?n v1))" by auto
  have "freerange v1 v2 ?k = Ret k1" "freerange v2 v3 k1 = Ret k2"
    using freerange_free_all[of v1 v2] freerange_free_all[of v2 v3] u r k1(1) k2(1) by simp_all
  then have "obind (kinit1 v1 v2 k) (kinit2 v2 v3) = Ret (k2\<lparr>use_lock := True\<rparr>)" by (simp add: kinit1_def kinit2_def)
  moreover have "free_pages (k2\<lparr>use_lock := True\<rparr>) (rev (page_seq ((unat v3 - unat v1) div 4096) v1))"
    using k2(2) unfolding seq by (auto intro: free_pages_mem)
  ultimately show ?thesis by auto
qed

theorem kinit_frees_every_page_witness:
  "\<exists>k'. obind (kinit1 0x80400000 0x80402000 \<lparr>memory = (\<lambda>_ _. 0), freelist = 0, use_lock = False, kend = 0x80400000\<rparr>)
      (kinit2 0x80402000 0x80403000) = Ret k' \<and> use_lock k' \<and> free_pages k' [0x80402000, 0x80401000, 0x80400000]"
  using kinit_frees_every_page[where k = "\<lparr>memory = (\<lambda>_ _. 0), freelist = 0, use_lock = False, kend = 0x80400000\<rparr>"
      and ?v1.0 = "0x80400000" and ?v2.0 = "0x80402000" and ?v3.0 = "0x80403000"]
  by (simp add: numeral_3_eq_3)

end
