(* ===== verification/Vm.thy ===== *)
theory Vm
  imports Kalloc
begin

text \<open>
  Virtual memory (vm.c): two-level page tables kept in kernel memory, the allocation, release
  and copy of user address spaces, and copying to user memory. A pointer to a page table entry is
  the address of its page table and an index. \<open>data\<close> is the linker's symbol that kmap uses. The
  segment and page-table registers (\<open>seginit\<close>, \<open>switchkvm\<close>, the loads of \<open>switchuvm\<close>) are not
  modelled.
\<close>

abbreviation (input) EXTMEM :: u32 where "EXTMEM \<equiv> 0x100000"
abbreviation (input) DEVSPACE :: u32 where "DEVSPACE \<equiv> 0xFE000000"
abbreviation (input) KERNLINK :: u32 where "KERNLINK \<equiv> 0x80100000"
abbreviation (input) MMAPBASE :: u32 where "MMAPBASE \<equiv> 0x60000000"
abbreviation (input) PTE_P :: u32 where "PTE_P \<equiv> 1"
abbreviation (input) PTE_W :: u32 where "PTE_W \<equiv> 2"
abbreviation (input) PTE_U :: u32 where "PTE_U \<equiv> 4"

subsection \<open>Page table entries\<close>

type_synonym pte_ptr = "u32 \<times> nat"

definition PDX :: "u32 \<Rightarrow> nat" where
  "PDX va = unat (drop_bit 22 va AND 0x3FF)"

definition PTX :: "u32 \<Rightarrow> nat" where
  "PTX va = unat (drop_bit 12 va AND 0x3FF)"

definition PTE_ADDR :: "u32 \<Rightarrow> u32" where
  "PTE_ADDR e = e AND NOT 0xFFF"

definition PTE_FLAGS :: "u32 \<Rightarrow> u32" where
  "PTE_FLAGS e = e AND 0xFFF"

definition present :: "u32 \<Rightarrow> bool" where
  "present e \<longleftrightarrow> e AND PTE_P \<noteq> 0"

definition load :: "pte_ptr \<Rightarrow> kernel \<Rightarrow> u32" where
  "load p k = memory k (fst p) (snd p)"

definition store :: "pte_ptr \<Rightarrow> u32 \<Rightarrow> kernel \<Rightarrow> kernel" where
  "store p w k = k\<lparr>memory := (memory k)(fst p := (memory k (fst p))(snd p := w))\<rparr>"

text \<open>\<open>memset(v, 0, PGSIZE)\<close> and \<open>memmove(dst, src, PGSIZE)\<close> on pages.\<close>

definition zero_page :: "u32 \<Rightarrow> kernel \<Rightarrow> kernel" where
  "zero_page v k = k\<lparr>memory := (memory k)(v := (\<lambda>_. 0))\<rparr>"

definition copy_page :: "u32 \<Rightarrow> u32 \<Rightarrow> kernel \<Rightarrow> kernel" where
  "copy_page dst src k = k\<lparr>memory := (memory k)(dst := memory k src)\<rparr>"

definition walkpgdir :: "u32 \<Rightarrow> u32 \<Rightarrow> bool \<Rightarrow> kernel \<Rightarrow> pte_ptr option \<times> kernel" where
  "walkpgdir pgdir va alloc k =
     (let pde = (pgdir, PDX va)
      in if present (load pde k) then (Some (P2V (PTE_ADDR (load pde k)), PTX va), k)
         else if \<not> alloc then (None, k)
         else let (pgtab, k1) = kalloc k
              in if pgtab = 0 then (None, k1)
                 else let k2 = zero_page pgtab k1;
                          k3 = store pde (V2P pgtab OR PTE_P OR PTE_W OR PTE_U) k2
                      in (Some (pgtab, PTX va), k3))"

text \<open>
  The loop of \<open>mappages\<close> runs from \<open>a\<close> to \<open>lst\<close> (\<^verbatim>\<open>last\<close>); the bound \<open>n\<close> is the number of pages between
  them and is never exceeded.
\<close>

fun mappages_loop :: "nat \<Rightarrow> u32 \<Rightarrow> u32 \<Rightarrow> u32 \<Rightarrow> u32 \<Rightarrow> u32 \<Rightarrow> kernel \<Rightarrow> (int \<times> kernel) outcome" where
  "mappages_loop 0 pgdir a lst pa perm k = Diverge"
| "mappages_loop (Suc n) pgdir a lst pa perm k =
     (case walkpgdir pgdir a True k of
        (None, k1) \<Rightarrow> Ret (- 1, k1)
      | (Some pte, k1) \<Rightarrow>
          (if present (load pte k1) then Panic ''remap''
           else let k2 = store pte (pa OR perm OR PTE_P) k1
                in if a = lst then Ret (0, k2)
                   else mappages_loop n pgdir (a + PGSIZE) lst (pa + PGSIZE) perm k2))"

definition mappages :: "u32 \<Rightarrow> u32 \<Rightarrow> u32 \<Rightarrow> u32 \<Rightarrow> u32 \<Rightarrow> kernel \<Rightarrow> (int \<times> kernel) outcome" where
  "mappages pgdir va sz pa perm k =
     (let a = PGROUNDDOWN va; lst = PGROUNDDOWN (va + sz - 1)
      in mappages_loop (Suc (unat (lst - a) div 4096)) pgdir a lst pa perm k)"

subsection \<open>Growing and shrinking an address space\<close>

text \<open>
  \<open>deallocuvm\<close>; where there is no page table the loop skips to the next directory entry.
\<close>

fun deallocuvm_loop :: "nat \<Rightarrow> u32 \<Rightarrow> u32 \<Rightarrow> u32 \<Rightarrow> kernel \<Rightarrow> kernel outcome" where
  "deallocuvm_loop 0 pgdir a oldsz k = Diverge"
| "deallocuvm_loop (Suc n) pgdir a oldsz k =
     (if \<not> a < oldsz then Ret k
      else case fst (walkpgdir pgdir a False k) of
             None \<Rightarrow> deallocuvm_loop n pgdir (push_bit 22 (of_nat (PDX a + 1))) oldsz k
           | Some pte \<Rightarrow>
               (if present (load pte k)
                then let pa = PTE_ADDR (load pte k)
                     in if pa = 0 then Panic ''kfree''
                        else obind (kfree (P2V pa) k) (\<lambda>k1.
                               deallocuvm_loop n pgdir (a + PGSIZE) oldsz (store pte 0 k1))
                else deallocuvm_loop n pgdir (a + PGSIZE) oldsz k))"

definition deallocuvm :: "u32 \<Rightarrow> u32 \<Rightarrow> u32 \<Rightarrow> kernel \<Rightarrow> (u32 \<times> kernel) outcome" where
  "deallocuvm pgdir oldsz newsz k =
     (if newsz \<ge> oldsz then Ret (oldsz, k)
      else let a = PGROUNDUP newsz
           in obind (deallocuvm_loop (unat (oldsz - a) div 4096 + 2) pgdir a oldsz k) (\<lambda>k1. Ret (newsz, k1)))"

fun allocuvm_loop :: "nat \<Rightarrow> u32 \<Rightarrow> u32 \<Rightarrow> u32 \<Rightarrow> u32 \<Rightarrow> kernel \<Rightarrow> (u32 \<times> kernel) outcome" where
  "allocuvm_loop 0 pgdir a oldsz newsz k = Diverge"
| "allocuvm_loop (Suc n) pgdir a oldsz newsz k =
     (if \<not> a < newsz then Ret (newsz, k)
      else let (mem, k1) = kalloc k
           in if mem = 0
              then obind (deallocuvm pgdir newsz oldsz k1) (\<lambda>(_, k2). Ret (0, k2))
              else obind (mappages pgdir a PGSIZE (V2P mem) (PTE_W OR PTE_U) (zero_page mem k1)) (\<lambda>(r, k2).
                     if r < 0
                     then obind (deallocuvm pgdir newsz oldsz k2) (\<lambda>(_, k3).
                            obind (kfree mem k3) (\<lambda>k4. Ret (0, k4)))
                     else allocuvm_loop n pgdir (a + PGSIZE) oldsz newsz k2))"

definition allocuvm :: "u32 \<Rightarrow> u32 \<Rightarrow> u32 \<Rightarrow> kernel \<Rightarrow> (u32 \<times> kernel) outcome" where
  "allocuvm pgdir oldsz newsz k =
     (if newsz \<ge> MMAPBASE then Ret (0, k)
      else if newsz < oldsz then Ret (oldsz, k)
      else let a = PGROUNDUP oldsz
           in allocuvm_loop (unat (newsz - a) div 4096 + 2) pgdir a oldsz newsz k)"

fun free_tables :: "nat \<Rightarrow> u32 \<Rightarrow> nat \<Rightarrow> kernel \<Rightarrow> kernel outcome" where
  "free_tables 0 pgdir i k = Ret k"
| "free_tables (Suc n) pgdir i k =
     (if present (load (pgdir, i) k)
      then obind (kfree (P2V (PTE_ADDR (load (pgdir, i) k))) k) (free_tables n pgdir (Suc i))
      else free_tables n pgdir (Suc i) k)"

definition freevm :: "u32 \<Rightarrow> kernel \<Rightarrow> kernel outcome" where
  "freevm pgdir k =
     (if pgdir = 0 then Panic ''freevm: no pgdir''
      else obind (deallocuvm pgdir KERNBASE 0 k) (\<lambda>(_, k1).
             obind (free_tables 1024 pgdir 0 k1) (kfree pgdir)))"

subsection \<open>The kernel part\<close>

definition kmap :: "u32 \<Rightarrow> (u32 \<times> u32 \<times> u32 \<times> u32) list" where
  "kmap data = [(KERNBASE, 0, EXTMEM, PTE_W), (KERNLINK, V2P KERNLINK, V2P data, 0),
                (data, V2P data, PHYSTOP, PTE_W), (DEVSPACE, DEVSPACE, 0, PTE_W)]"

fun map_kernel :: "(u32 \<times> u32 \<times> u32 \<times> u32) list \<Rightarrow> u32 \<Rightarrow> kernel \<Rightarrow> (u32 \<times> kernel) outcome" where
  "map_kernel [] pgdir k = Ret (pgdir, k)"
| "map_kernel ((virt, phys_start, phys_end, perm) # rest) pgdir k =
     obind (mappages pgdir virt (phys_end - phys_start) phys_start perm k) (\<lambda>(r, k1).
       if r < 0 then obind (freevm pgdir k1) (\<lambda>k2. Ret (0, k2)) else map_kernel rest pgdir k1)"

definition setupkvm :: "u32 \<Rightarrow> kernel \<Rightarrow> (u32 \<times> kernel) outcome" where
  "setupkvm data k =
     (let (pgdir, k1) = kalloc k
      in if pgdir = 0 then Ret (0, k1)
         else if P2V PHYSTOP > DEVSPACE then Panic ''PHYSTOP too high''
         else map_kernel (kmap data) pgdir (zero_page pgdir k1))"

subsection \<open>Copying an address space\<close>

fun copyuvm_loop :: "nat \<Rightarrow> u32 \<Rightarrow> u32 \<Rightarrow> u32 \<Rightarrow> u32 \<Rightarrow> kernel \<Rightarrow> (bool \<times> kernel) outcome" where
  "copyuvm_loop 0 pgdir d i sz k = Diverge"
| "copyuvm_loop (Suc n) pgdir d i sz k =
     (if \<not> i < sz then Ret (True, k)
      else case fst (walkpgdir pgdir i False k) of
             None \<Rightarrow> Panic ''copyuvm: pte should exist''
           | Some pte \<Rightarrow>
               (if \<not> present (load pte k) then Panic ''copyuvm: page not present''
                else let pa = PTE_ADDR (load pte k); flags = PTE_FLAGS (load pte k); (mem, k1) = kalloc k
                     in if mem = 0 then Ret (False, k1)
                        else obind (mappages d i PGSIZE (V2P mem) flags (copy_page mem (P2V pa) k1)) (\<lambda>(r, k2).
                               if r < 0 then obind (kfree mem k2) (\<lambda>k3. Ret (False, k3))
                               else copyuvm_loop n pgdir d (i + PGSIZE) sz k2)))"

definition copyuvm :: "u32 \<Rightarrow> u32 \<Rightarrow> u32 \<Rightarrow> kernel \<Rightarrow> (u32 \<times> kernel) outcome" where
  "copyuvm data pgdir sz k =
     obind (setupkvm data k) (\<lambda>(d, k1).
       if d = 0 then Ret (0, k1)
       else obind (copyuvm_loop (unat sz div 4096 + 2) pgdir d 0 sz k1) (\<lambda>(ok, k2).
              if ok then Ret (d, k2) else obind (freevm d k2) (\<lambda>k3. Ret (0, k3))))"

subsection \<open>Bytes of a page\<close>

definition get_byte :: "(nat \<Rightarrow> u32) \<Rightarrow> nat \<Rightarrow> byte" where
  "get_byte pg j = ucast (drop_bit (8 * (j mod 4)) (pg (j div 4)))"

definition set_byte :: "nat \<Rightarrow> byte \<Rightarrow> (nat \<Rightarrow> u32) \<Rightarrow> (nat \<Rightarrow> u32)" where
  "set_byte j b pg =
     pg(j div 4 := (pg (j div 4) AND NOT (push_bit (8 * (j mod 4)) 0xFF)) OR push_bit (8 * (j mod 4)) (ucast b))"

fun put_bytes :: "nat \<Rightarrow> byte list \<Rightarrow> (nat \<Rightarrow> u32) \<Rightarrow> (nat \<Rightarrow> u32)" where
  "put_bytes j [] pg = pg"
| "put_bytes j (b # bs) pg = put_bytes (Suc j) bs (set_byte j b pg)"

definition write_page :: "u32 \<Rightarrow> nat \<Rightarrow> byte list \<Rightarrow> kernel \<Rightarrow> kernel" where
  "write_page v j bs k = k\<lparr>memory := (memory k)(v := put_bytes j bs (memory k v))\<rparr>"

text \<open>\<open>inituvm\<close>; the code does not test the result of \<open>kalloc\<close>, and address 0 is not kernel memory.\<close>

definition inituvm :: "u32 \<Rightarrow> byte list \<Rightarrow> kernel \<Rightarrow> kernel outcome" where
  "inituvm pgdir init k =
     (if length init \<ge> 4096 then Panic ''inituvm: more than a page''
      else let (mem, k1) = kalloc k
           in if mem = 0 then Panic ''trap''
              else obind (mappages pgdir 0 PGSIZE (V2P mem) (PTE_W OR PTE_U) (zero_page mem k1)) (\<lambda>(_, k2).
                     Ret (write_page mem 0 init k2)))"

text \<open>
  \<open>loaduvm\<close>; \<open>rd off n\<close> is what \<open>readi\<close> gives for the inode at that offset: the bytes it copies,
  whose number it returns, or nothing for its error -1.
\<close>

fun loaduvm_loop :: "nat \<Rightarrow> (u32 \<Rightarrow> u32 \<Rightarrow> byte list option) \<Rightarrow> u32 \<Rightarrow> u32 \<Rightarrow> u32 \<Rightarrow> u32 \<Rightarrow> u32 \<Rightarrow> kernel \<Rightarrow> (int \<times> kernel) outcome" where
  "loaduvm_loop 0 rd pgdir addr offset sz i k = Diverge"
| "loaduvm_loop (Suc fuel) rd pgdir addr offset sz i k =
     (if \<not> i < sz then Ret (0, k)
      else case fst (walkpgdir pgdir (addr + i) False k) of
             None \<Rightarrow> Panic ''loaduvm: address should exist''
           | Some pte \<Rightarrow>
               let pa = PTE_ADDR (load pte k);
                   n = (if sz - i < PGSIZE then sz - i else PGSIZE)
               in case rd (offset + i) n of
                    None \<Rightarrow> Ret (- 1, k)
                  | Some bs \<Rightarrow>
                      let k1 = write_page (P2V pa) 0 bs k
                      in if of_nat (length bs) \<noteq> n then Ret (- 1, k1)
                         else loaduvm_loop fuel rd pgdir addr offset sz (i + PGSIZE) k1)"

definition loaduvm :: "(u32 \<Rightarrow> u32 \<Rightarrow> byte list option) \<Rightarrow> u32 \<Rightarrow> u32 \<Rightarrow> u32 \<Rightarrow> u32 \<Rightarrow> kernel \<Rightarrow> (int \<times> kernel) outcome" where
  "loaduvm rd pgdir addr offset sz k =
     (if addr mod PGSIZE \<noteq> 0 then Panic ''loaduvm: addr must be page aligned''
      else loaduvm_loop (unat sz div 4096 + 2) rd pgdir addr offset sz 0 k)"

definition clearpteu :: "u32 \<Rightarrow> u32 \<Rightarrow> kernel \<Rightarrow> kernel outcome" where
  "clearpteu pgdir uva k =
     (case fst (walkpgdir pgdir uva False k) of
        None \<Rightarrow> Panic ''clearpteu''
      | Some pte \<Rightarrow> Ret (store pte (load pte k AND NOT PTE_U) k))"

text \<open>
  \<open>uva2ka\<close> reads through the pointer that \<open>walkpgdir\<close> returns without testing it; where there is
  no page table that is a read through a null pointer, a trap.
\<close>

definition uva2ka :: "u32 \<Rightarrow> u32 \<Rightarrow> kernel \<Rightarrow> u32 outcome" where
  "uva2ka pgdir uva k =
     (case fst (walkpgdir pgdir uva False k) of
        None \<Rightarrow> Panic ''trap''
      | Some pte \<Rightarrow>
          (if load pte k AND PTE_P = 0 then Ret 0
           else if load pte k AND PTE_U = 0 then Ret 0
           else Ret (P2V (PTE_ADDR (load pte k)))))"

text \<open>\<open>copyout\<close>, on the bytes to copy; a round copies at least one byte.\<close>

fun copyout_loop :: "nat \<Rightarrow> u32 \<Rightarrow> u32 \<Rightarrow> byte list \<Rightarrow> kernel \<Rightarrow> (int \<times> kernel) outcome" where
  "copyout_loop 0 pgdir va buf k = Diverge"
| "copyout_loop (Suc fuel) pgdir va buf k =
     (if buf = [] then Ret (0, k)
      else let va0 = PGROUNDDOWN va
           in obind (uva2ka pgdir va0 k) (\<lambda>pa0.
                if pa0 = 0 then Ret (- 1, k)
                else let n = min (4096 - unat (va - va0)) (length buf)
                     in copyout_loop fuel pgdir (va0 + PGSIZE) (drop n buf)
                          (write_page pa0 (unat (va - va0)) (take n buf) k)))"

definition copyout :: "u32 \<Rightarrow> u32 \<Rightarrow> byte list \<Rightarrow> kernel \<Rightarrow> (int \<times> kernel) outcome" where
  "copyout pgdir va buf k = copyout_loop (length buf + 1) pgdir va buf k"

text \<open>The checks of \<open>switchuvm\<close> on a process's kernel stack and page directory.\<close>

definition switchuvm :: "u32 \<Rightarrow> u32 \<Rightarrow> unit outcome" where
  "switchuvm kstack pgdir =
     (if kstack = 0 then Panic ''switchuvm: no kstack''
      else if pgdir = 0 then Panic ''switchuvm: no pgdir''
      else Ret ())"

subsection \<open>Indices and entries as numbers\<close>

lemma x3FF_mask: "(0x3FF :: u32) = mask 10"
  by (simp add: mask_eq_exp_minus_1)

lemma PDX_unat: "PDX va = unat va div 2 ^ 22"
proof -
  have "unat va div 2 ^ 22 < 1024" using unsigned_less[of va, where ?'a = nat] by simp
  then show ?thesis
    unfolding PDX_def x3FF_mask take_bit_eq_mask[symmetric] unat_take_bit unat_drop_bit by simp
qed

lemma PTX_unat: "PTX va = unat va div 4096 mod 1024"
  unfolding PTX_def x3FF_mask take_bit_eq_mask[symmetric] unat_take_bit unat_drop_bit by simp

lemma PDX_lt [simp]: "PDX va < 1024" and PTX_lt [simp]: "PTX va < 1024"
  using unsigned_less[of va, where ?'a = nat] by (simp_all add: PDX_unat PTX_unat)

text \<open>The number of the virtual page of an address; two addresses have the same entry iff it is the same.\<close>

definition vpn :: "u32 \<Rightarrow> nat" where
  "vpn va = unat va div 4096"

lemma same_entry: "PDX va = PDX va' \<and> PTX va = PTX va' \<longleftrightarrow> vpn va = vpn va'"
proof -
  have "vpn a = PDX a * 1024 + PTX a" for a
    using div_mult_mod_eq[of "vpn a" 1024] by (simp add: vpn_def PDX_unat PTX_unat div_mult2_eq[symmetric])
  moreover have "PDX a = vpn a div 1024" "PTX a = vpn a mod 1024" for a
    by (simp_all add: vpn_def PDX_unat PTX_unat div_mult2_eq[symmetric])
  ultimately show ?thesis by metis
qed

lemma user_vpn: "va < KERNBASE \<longleftrightarrow> vpn va < 524288"
  by (simp add: word_less_nat_alt vpn_def div_less_iff_less_mult)

lemma V2P_aligned: "unat v mod 4096 = 0 \<Longrightarrow> unat (v - KERNBASE) mod 4096 = 0"
proof -
  assume a: "unat v mod 4096 = 0"
  then obtain q where q: "unat v = 4096 * q" by auto
  have "unat (v - KERNBASE) = (if 2147483648 \<le> unat v then unat v - 2147483648 else unat v + 2147483648)"
    by (simp add: unat_sub_if' word_le_nat_alt)
  also have "\<dots> = 4096 * (if 524288 \<le> q then q - 524288 else q + 524288)" using q by (simp add: diff_mult_distrib2)
  finally show ?thesis by simp
qed

lemma entry_fields:
  assumes "unat v mod 4096 = 0" and "unat f < 4096"
  shows "P2V (PTE_ADDR (V2P v OR f)) = v" and "PTE_FLAGS (V2P v OR f) = f"
  using page_or_flags[OF V2P_aligned[OF assms(1)] assms(2)] by (simp_all add: PTE_ADDR_def PTE_FLAGS_def)

lemma flags_or: "unat (f :: u32) < 4096 \<Longrightarrow> unat g < 4096 \<Longrightarrow> unat (f OR g) < 4096"
  unfolding take_bit_12_id[symmetric] by (simp only: take_bit_or)

lemma present_or: "present (x OR f) \<longleftrightarrow> present x \<or> present f"
proof -
  have "(w :: u32) AND 1 \<noteq> 0 \<longleftrightarrow> odd w" for w by (simp add: and_one_eq odd_iff_mod_2_eq_one)
  then show ?thesis by (simp add: present_def even_or_iff)
qed

lemma present_consts [simp]: "\<not> present 0" "present (x OR 1)" "present (x OR 1 OR y)" "present (x OR y OR 1)" "present (x OR 1 OR y OR z)"
  by (simp_all add: present_or) (simp_all add: present_def)

lemma present_7 [simp]: "present (x OR 7)"
  by (simp add: present_or) (simp add: present_def)

lemma good_frame_aligned: "good_frame k v \<Longrightarrow> unat v mod 4096 = 0"
  by (simp add: good_frame_def mod_PGSIZE_0)

lemma table_entry: "good_frame k v \<Longrightarrow> P2V (PTE_ADDR (V2P v OR PTE_P OR PTE_W OR PTE_U)) = v"
  using entry_fields(1)[of v 7] by (simp add: good_frame_aligned)

subsection \<open>The page tables of an address space\<close>

text \<open>Page table \<open>i\<close> of a directory, the entry of a virtual address, and the pages they occupy.\<close>

definition ptab :: "memory \<Rightarrow> u32 \<Rightarrow> nat \<Rightarrow> u32" where
  "ptab m d i = P2V (PTE_ADDR (m d i))"

definition pte :: "memory \<Rightarrow> u32 \<Rightarrow> u32 \<Rightarrow> u32" where
  "pte m d va = (if present (m d (PDX va)) then m (ptab m d (PDX va)) (PTX va) else 0)"

definition table_pages :: "memory \<Rightarrow> u32 \<Rightarrow> u32 set" where
  "table_pages m d = {d} \<union> {ptab m d i | i. i < 1024 \<and> present (m d i)}"

definition pgdir_ok :: "memory \<Rightarrow> u32 \<Rightarrow> bool" where
  "pgdir_ok m d \<longleftrightarrow> (\<forall>i<1024. present (m d i) \<longrightarrow> ptab m d i \<noteq> d \<and>
     (\<forall>j<1024. present (m d j) \<and> ptab m d i = ptab m d j \<longrightarrow> i = j))"

definition frame :: "memory \<Rightarrow> u32 \<Rightarrow> u32 \<Rightarrow> u32" where
  "frame m d va = P2V (PTE_ADDR (pte m d va))"

text \<open>
  The invariant of the memory of the kernel with the address spaces \<open>D\<close>: page tables are
  pairwise distinct pages, none of them free, and no user page is free or a page table.
\<close>

definition vm_inv :: "kernel \<Rightarrow> u32 list \<Rightarrow> u32 set \<Rightarrow> bool" where
  "vm_inv k fs D \<longleftrightarrow> free_pages k fs
     \<and> (\<forall>d\<in>D. pgdir_ok (memory k) d)
     \<and> (\<forall>d\<in>D. \<forall>d'\<in>D. d \<noteq> d' \<longrightarrow> table_pages (memory k) d \<inter> table_pages (memory k) d' = {})
     \<and> (\<forall>d\<in>D. \<forall>p\<in>table_pages (memory k) d. good_frame k p \<and> p \<notin> set fs)
     \<and> (\<forall>d\<in>D. \<forall>va<KERNBASE. present (pte (memory k) d va) \<longrightarrow>
          good_frame k (frame (memory k) d va) \<and> frame (memory k) d va \<notin> set fs
          \<and> (\<forall>d'\<in>D. frame (memory k) d va \<notin> table_pages (memory k) d'))"

lemma pte_cong:
  assumes "m' d = m d" and "\<And>i. i < 1024 \<Longrightarrow> present (m d i) \<Longrightarrow> m' (ptab m d i) = m (ptab m d i)"
  shows "pte m' d va = pte m d va"
  using assms by (simp add: pte_def ptab_def)

lemma table_pages_cong: "m' d = m d \<Longrightarrow> table_pages m' d = table_pages m d"
  by (simp add: table_pages_def ptab_def)

lemma pgdir_ok_cong: "m' d = m d \<Longrightarrow> pgdir_ok m' d = pgdir_ok m d"
  by (simp add: pgdir_ok_def ptab_def)

text \<open>A change of pages that are no page tables leaves every translation.\<close>

lemma pte_frame:
  assumes "\<And>p. p \<in> table_pages m d \<Longrightarrow> m' p = m p"
  shows "pte m' d va = pte m d va" and "table_pages m' d = table_pages m d" and "pgdir_ok m' d = pgdir_ok m d"
    and "frame m' d va = frame m d va"
proof -
  have d: "m' d = m d" using assms by (simp add: table_pages_def)
  show p: "pte m' d va = pte m d va" using d assms by (intro pte_cong) (auto simp: table_pages_def)
  show "table_pages m' d = table_pages m d" "pgdir_ok m' d = pgdir_ok m d"
    using table_pages_cong[of m' d m] pgdir_ok_cong[of m' d m] d by auto
  show "frame m' d va = frame m d va" using p by (simp add: frame_def)
qed

lemma vm_invD:
  assumes "vm_inv k fs D"
  shows "free_pages k fs" and "d \<in> D \<Longrightarrow> pgdir_ok (memory k) d"
    and "d \<in> D \<Longrightarrow> d' \<in> D \<Longrightarrow> d \<noteq> d' \<Longrightarrow> table_pages (memory k) d \<inter> table_pages (memory k) d' = {}"
    and "d \<in> D \<Longrightarrow> p \<in> table_pages (memory k) d \<Longrightarrow> good_frame k p \<and> p \<notin> set fs"
    and "d \<in> D \<Longrightarrow> va < KERNBASE \<Longrightarrow> present (pte (memory k) d va) \<Longrightarrow> good_frame k (frame (memory k) d va)
      \<and> frame (memory k) d va \<notin> set fs \<and> (\<forall>d'\<in>D. frame (memory k) d va \<notin> table_pages (memory k) d')"
  using assms unfolding vm_inv_def by auto

lemma walk_noalloc:
  "walkpgdir d va False k = (if present (memory k d (PDX va)) then Some (ptab (memory k) d (PDX va), PTX va) else None, k)"
  by (simp add: walkpgdir_def load_def ptab_def)

lemma walk_present:
  "present (memory k d (PDX va)) \<Longrightarrow> walkpgdir d va al k = (Some (ptab (memory k) d (PDX va), PTX va), k)"
  by (simp add: walkpgdir_def load_def ptab_def)

lemma load_pte: "present (memory k d (PDX va)) \<Longrightarrow> load (ptab (memory k) d (PDX va), PTX va) k = pte (memory k) d va"
  by (simp add: load_def pte_def)

lemma not_present_no_table: "\<not> present (memory k d (PDX va)) \<Longrightarrow> pte (memory k) d va = 0"
  by (simp add: pte_def)

text \<open>Entering a fresh page table in the directory.\<close>

definition new_table :: "u32 \<Rightarrow> nat \<Rightarrow> u32 \<Rightarrow> memory \<Rightarrow> memory" where
  "new_table d i t m = (let m1 = m(t := (\<lambda>_. 0)) in m1(d := (m1 d)(i := V2P t OR PTE_P OR PTE_W OR PTE_U)))"

lemma walk_new:
  assumes "free_pages k fs" and "\<not> present (memory k d (PDX va))"
  shows "fs = [] \<Longrightarrow> walkpgdir d va True k = (None, k)"
    and "fs = t # fs' \<Longrightarrow> walkpgdir d va True k
      = (Some (t, PTX va), k\<lparr>freelist := memory k t 0, memory := new_table d (PDX va) t (memory k)\<rparr>)"
  using assms kalloc_Nil[of k] kalloc_Cons[of k t fs']
  by (auto simp: walkpgdir_def load_def store_def zero_page_def new_table_def Let_def)

lemma new_table_lookup:
  assumes "unat t mod 4096 = 0" and "t \<notin> table_pages m d" and "\<not> present (m d i)" and "i < 1024"
  shows "ptab (new_table d i t m) d j = (if j = i then t else ptab m d j)"
    and "present (new_table d i t m d j) \<longleftrightarrow> j = i \<or> present (m d j)"
    and "p \<noteq> d \<Longrightarrow> p \<noteq> t \<Longrightarrow> new_table d i t m p = m p" and "new_table d i t m t = (\<lambda>_. 0)"
proof -
  have td: "t \<noteq> d" using assms(2) by (auto simp: table_pages_def)
  have e: "P2V (PTE_ADDR (V2P t OR PTE_P OR PTE_W OR PTE_U)) = t" using entry_fields(1)[OF assms(1), of 7] by simp
  show "ptab (new_table d i t m) d j = (if j = i then t else ptab m d j)"
    using e td by (simp add: ptab_def new_table_def Let_def)
  show "present (new_table d i t m d j) \<longleftrightarrow> j = i \<or> present (m d j)"
    using td by (simp add: new_table_def Let_def)
  show "p \<noteq> d \<Longrightarrow> p \<noteq> t \<Longrightarrow> new_table d i t m p = m p" and "new_table d i t m t = (\<lambda>_. 0)"
    using td by (auto simp: new_table_def Let_def)
qed

lemma new_table_space:
  assumes "unat t mod 4096 = 0" and "t \<notin> table_pages m d" and "\<not> present (m d i)" and "i < 1024" and "pgdir_ok m d"
  shows "table_pages (new_table d i t m) d = insert t (table_pages m d)"
    and "pgdir_ok (new_table d i t m) d" and "pte (new_table d i t m) d va = pte m d va"
proof -
  note nt = new_table_lookup[OF assms(1-4)]
  have td: "t \<noteq> d" and ptt: "\<And>j. j < 1024 \<Longrightarrow> present (m d j) \<Longrightarrow> ptab m d j \<noteq> t"
    using assms(2) by (auto simp: table_pages_def)
  have pd: "\<And>j. j < 1024 \<Longrightarrow> present (m d j) \<Longrightarrow> ptab m d j \<noteq> d" using assms(5) by (auto simp: pgdir_ok_def)
  show "table_pages (new_table d i t m) d = insert t (table_pages m d)"
    using assms(3,4) unfolding table_pages_def nt by (auto split: if_splits)
  show "pgdir_ok (new_table d i t m) d"
    using assms(3,5) ptt td unfolding pgdir_ok_def nt by (auto split: if_splits)
  show "pte (new_table d i t m) d va = pte m d va"
    using assms(3) ptt pd nt(4) nt(3)[of "ptab m d (PDX va)"] unfolding pte_def nt(1,2) by (cases "PDX va = i") auto
qed

text \<open>
  A step of the kernel that keeps the invariant, every translation and every page outside the
  tables of \<open>d\<close>, and takes the pages \<open>us\<close> from the free list for the tables of \<open>d\<close>.
\<close>

definition table_step :: "kernel \<Rightarrow> u32 list \<Rightarrow> u32 set \<Rightarrow> u32 \<Rightarrow> u32 list \<Rightarrow> kernel \<Rightarrow> u32 list \<Rightarrow> bool" where
  "table_step k fs D d us k' fs' \<longleftrightarrow> fs = us @ fs' \<and> vm_inv k' fs' D \<and> kend k' = kend k
     \<and> table_pages (memory k') d = table_pages (memory k) d \<union> set us
     \<and> (\<forall>d'\<in>D. d' \<noteq> d \<longrightarrow> table_pages (memory k') d' = table_pages (memory k) d')
     \<and> (\<forall>p. p \<notin> table_pages (memory k') d \<longrightarrow> memory k' p = memory k p)"

lemma walk_new_step:
  assumes inv: "vm_inv k (t # fs') D" and d: "d \<in> D" and np: "\<not> present (memory k d (PDX va))"
    and k': "k' = k\<lparr>freelist := memory k t 0, memory := new_table d (PDX va) t (memory k)\<rparr>"
  shows "table_step k (t # fs') D d [t] k' fs'" and "d' \<in> D \<Longrightarrow> pte (memory k') d' va' = pte (memory k) d' va'"
    and "ptab (memory k') d (PDX va) = t" and "present (memory k' d (PDX va))"
proof -
  let ?m = "memory k" and ?m' = "new_table d (PDX va) t (memory k)"
  note iv = vm_invD[OF inv]
  have f: "free_pages (k\<lparr>freelist := memory k t 0\<rparr>) fs'" and g: "good_frame k t" and t: "t \<notin> set fs'"
    using kalloc_Cons[OF iv(1)] by auto
  have tt: "t \<notin> table_pages ?m d'" if "d' \<in> D" for d' using iv(4)[OF that, of t] by auto
  have dd: "d \<notin> table_pages ?m d'" if "d' \<in> D" "d' \<noteq> d" for d'
    using iv(3)[OF d that(1)] that(2) by (auto simp: table_pages_def)
  note nt = new_table_lookup[OF good_frame_aligned[OF g] tt[OF d] np PDX_lt]
  note ns = new_table_space[OF good_frame_aligned[OF g] tt[OF d] np PDX_lt iv(2)[OF d]]
  have same: "?m' p = ?m p" if "p \<in> table_pages ?m d'" "d' \<in> D" "d' \<noteq> d" for p d'
    using nt(3)[of p] dd[OF that(2,3)] tt[OF that(2)] that(1) by metis
  have tp: "table_pages ?m' d' = table_pages ?m d'" if "d' \<in> D" "d' \<noteq> d" for d'
    using pte_frame(2)[of ?m d' ?m'] same that by blast
  have po: "pgdir_ok ?m' d'" if "d' \<in> D" for d'
    using pte_frame(3)[of ?m d' ?m'] same that ns(2) iv(2) by (cases "d' = d") blast+
  have pt: "pte ?m' d' va' = pte ?m d' va'" if "d' \<in> D" for d' va'
    using pte_frame(1)[of ?m d' ?m'] same that ns(3) by (cases "d' = d") blast+
  have fr: "frame ?m' d' va' = frame ?m d' va'" if "d' \<in> D" for d' va' using pt[OF that] by (simp add: frame_def)
  have dis: "table_pages ?m' a \<inter> table_pages ?m' b = {}" if "a \<in> D" "b \<in> D" "a \<noteq> b" for a b
    using iv(3)[OF that] tt[OF that(1)] tt[OF that(2)] tp[OF that(1)] tp[OF that(2)] ns(1) that(3) by (cases "a = d"; cases "b = d") auto
  have tg: "good_frame k p \<and> p \<notin> set fs'" if "a \<in> D" "p \<in> table_pages ?m' a" for a p
    using iv(4)[OF that(1), of p] that(2) tp[OF that(1)] ns(1) g t by (cases "a = d") auto
  have ug: "good_frame k (frame ?m a va') \<and> frame ?m a va' \<notin> set fs' \<and> (\<forall>b\<in>D. frame ?m a va' \<notin> table_pages ?m' b)"
    if "a \<in> D" "va' < KERNBASE" "present (pte ?m a va')" for a va'
    using iv(5)[OF that] tp ns(1) by (metis insert_iff list.set_intros(1) list.set_intros(2))
  have "d \<notin> set fs'" using iv(4)[OF d, of d] by (simp add: table_pages_def)
  then have "?m' p = ?m p" if "p \<in> set fs'" for p using nt(3)[of p] t that by metis
  then have "free_pages k' fs'" unfolding k' by (intro free_pages_mem[OF f]) simp_all
  then have "vm_inv k' fs' D" unfolding vm_inv_def k' using po dis tg ug pt fr by (simp add: good_frame_def)
  moreover have "memory k' p = memory k p" if "p \<notin> table_pages ?m' d" for p
    using that nt(3)[of p] ns(1) unfolding k' by (auto simp: table_pages_def)
  ultimately show "table_step k (t # fs') D d [t] k' fs'"
    unfolding table_step_def using tp ns(1) by (simp add: k')
  show "d' \<in> D \<Longrightarrow> pte (memory k') d' va' = pte (memory k) d' va'" using pt by (simp add: k')
  show "ptab (memory k') d (PDX va) = t" and "present (memory k' d (PDX va))" using nt(1,2) by (simp_all add: k')
qed

lemma table_step_refl: "vm_inv k fs D \<Longrightarrow> table_step k fs D d [] k fs"
  by (simp add: table_step_def)

text \<open>Writing an entry of a page table that exists.\<close>

lemma store_pte:
  assumes inv: "vm_inv k fs D" and d: "d \<in> D" and pr: "present (memory k d (PDX va))"
    and k': "k' = store (ptab (memory k) d (PDX va), PTX va) w k"
    and w: "present w \<Longrightarrow> va < KERNBASE \<Longrightarrow> good_frame k (P2V (PTE_ADDR w)) \<and> P2V (PTE_ADDR w) \<notin> set fs
       \<and> (\<forall>d'\<in>D. P2V (PTE_ADDR w) \<notin> table_pages (memory k) d')"
  shows "pte (memory k') d va' = (if vpn va' = vpn va then w else pte (memory k) d va')"
    and "d' \<in> D \<Longrightarrow> d' \<noteq> d \<Longrightarrow> pte (memory k') d' va' = pte (memory k) d' va'"
    and "table_step k fs D d [] k' fs"
proof -
  let ?m = "memory k" and ?t = "ptab (memory k) d (PDX va)"
  note iv = vm_invD[OF inv]
  have ttab: "?t \<in> table_pages ?m d" using pr by (auto simp: table_pages_def)
  have td: "?t \<noteq> d" using iv(2)[OF d] pr by (auto simp: pgdir_ok_def)
  have m': "memory k' = ?m(?t := (?m ?t)(PTX va := w))" by (simp add: k' store_def)
  have same: "memory k' p = ?m p" if "p \<in> table_pages ?m d'" "d' \<in> D" "d' \<noteq> d" for p d'
    using iv(3)[OF that(2) d that(3)] that(1) ttab by (auto simp: m')
  have pd: "memory k' d = ?m d" using td by (simp add: m')
  have inj: "ptab ?m d (PDX va') = ?t \<longleftrightarrow> PDX va' = PDX va" if "present (?m d (PDX va'))" for va'
    using iv(2)[OF d] pr that by (auto simp: pgdir_ok_def)
  show p1: "pte (memory k') d va' = (if vpn va' = vpn va then w else pte ?m d va')" for va'
    using pr inj[of va'] same_entry[of va' va] pd by (auto simp: pte_def ptab_def m')
  show p2: "pte (memory k') d' va' = pte ?m d' va'" if "d' \<in> D" "d' \<noteq> d" for d' va'
    using pte_frame(1)[of ?m d' "memory k'"] same that by blast
  have tp: "table_pages (memory k') d' = table_pages ?m d'" if "d' \<in> D" for d'
    using table_pages_cong[of "memory k'" d' ?m] same[of d' d'] that pd by (cases "d' = d") (auto simp: table_pages_def)
  have po: "pgdir_ok (memory k') d'" if "d' \<in> D" for d'
    using pgdir_ok_cong[of "memory k'" d' ?m] same[of d' d'] that pd iv(2) by (cases "d' = d") (auto simp: table_pages_def)
  have "?t \<notin> set fs" using iv(4)[OF d ttab] by blast
  then have fp: "free_pages k' fs" by (intro free_pages_mem[OF iv(1)]) (auto simp: k' store_def)
  have gf: "good_frame k' = good_frame k" by (simp add: fun_eq_iff good_frame_def k' store_def)
  have u: "good_frame k (frame (memory k') a v) \<and> frame (memory k') a v \<notin> set fs \<and> (\<forall>b\<in>D. frame (memory k') a v \<notin> table_pages ?m b)"
    if a: "a \<in> D" and v: "v < KERNBASE" and q: "present (pte (memory k') a v)" for a v
  proof (cases "a = d \<and> vpn v = vpn va")
    case True
    then have "va < KERNBASE" using v by (simp add: user_vpn)
    then show ?thesis using True q w by (simp add: frame_def p1)
  next
    case False
    then have "pte (memory k') a v = pte ?m a v" using p1[of v] p2[OF a, of v] by (cases "a = d") auto
    then show ?thesis using iv(5)[OF a v] q by (simp add: frame_def)
  qed
  have "vm_inv k' fs D" unfolding vm_inv_def gf using fp po tp iv(3,4) u by simp
  moreover have "memory k' p = ?m p" if "p \<notin> table_pages ?m d" for p using that ttab by (auto simp: m')
  ultimately show "table_step k fs D d [] k' fs"
    unfolding table_step_def using tp d by (simp add: k' store_def)
qed

lemma PGROUNDDOWN_alt: "PGROUNDDOWN a = a AND NOT 0xFFF"
proof -
  have "(4096 - 1 :: u32) = 0xFFF" by simp
  then show ?thesis unfolding PGROUNDDOWN_def by (simp only:)
qed

lemma PGROUNDDOWN_unat: "unat (PGROUNDDOWN a) = 4096 * vpn a"
  unfolding PGROUNDDOWN_alt unat_and_not_FFF vpn_def by (simp add: minus_mod_eq_mult_div)

lemma PGROUNDDOWN_page:
  assumes "unat va mod 4096 = 0"
  shows "PGROUNDDOWN va = va" and "PGROUNDDOWN (va + 4096 - 1) = va"
proof -
  obtain q where q: "unat va = 4096 * q" using assms by auto
  then show "PGROUNDDOWN va = va" by (simp add: word_unat_eq_iff PGROUNDDOWN_unat vpn_def)
  have "4096 * q < 4294967296" using q unsigned_less[of va, where ?'a = nat] by simp
  then have "q < 1048576" by simp
  moreover have "va + 4096 - 1 = va + 4095" by simp
  ultimately have "unat (va + 4096 - 1) = 4096 * q + 4095" using q by (simp only:) (simp add: unat_plus_if')
  then show "PGROUNDDOWN (va + 4096 - 1) = va" using q by (simp add: word_unat_eq_iff PGROUNDDOWN_unat vpn_def)
qed

lemma mappages_one:
  assumes "unat va mod 4096 = 0"
  shows "mappages d va PGSIZE pa perm k = mappages_loop 1 d va va pa perm k"
  unfolding mappages_def Let_def PGROUNDDOWN_page[OF assms] by simp

text \<open>
  Mapping one user page. If the entry is already in use the kernel panics; otherwise the page is
  mapped, or, when a page table is needed and there is no free page, nothing changes.
\<close>

lemma mappages_page:
  assumes inv: "vm_inv k fs D" and d: "d \<in> D" and va: "unat va mod 4096 = 0" and np: "\<not> present (pte (memory k) d va)"
    and mem: "good_frame k mem" "mem \<notin> set fs" "\<forall>d'\<in>D. mem \<notin> table_pages (memory k) d'" and perm: "unat perm < 4096"
  shows "(fs = [] \<and> mappages d va PGSIZE (V2P mem) perm k = Ret (- 1, k))
    \<or> (\<exists>k' us fs'. mappages d va PGSIZE (V2P mem) perm k = Ret (0, k') \<and> table_step k fs D d us k' fs'
        \<and> (\<forall>va'. pte (memory k') d va' = (if vpn va' = vpn va then V2P mem OR perm OR PTE_P else pte (memory k) d va'))
        \<and> (\<forall>d'\<in>D. d' \<noteq> d \<longrightarrow> (\<forall>va'. pte (memory k') d' va' = pte (memory k) d' va')))"
proof -
  let ?e = "V2P mem OR perm OR PTE_P"
  have "unat (perm OR 1) < 4096" using perm by (intro flags_or) simp_all
  then have e: "P2V (PTE_ADDR ?e) = mem" "present ?e"
    using entry_fields(1)[of mem "perm OR 1"] good_frame_aligned[OF mem(1)] by simp_all
  have fin: "mappages d va PGSIZE (V2P mem) perm k = Ret (0, store (ptab (memory k1) d (PDX va), PTX va) ?e k1)"
    if "walkpgdir d va True k = (Some (ptab (memory k1) d (PDX va), PTX va), k1)" "present (memory k1 d (PDX va))"
      "pte (memory k1) d va = pte (memory k) d va" for k1
    using that np by (simp add: mappages_one[OF va] load_pte)
  show ?thesis
  proof (cases "present (memory k d (PDX va))")
    case True
    let ?k' = "store (ptab (memory k) d (PDX va), PTX va) ?e k"
    have w: "good_frame k (P2V (PTE_ADDR ?e)) \<and> P2V (PTE_ADDR ?e) \<notin> set fs \<and> (\<forall>d'\<in>D. P2V (PTE_ADDR ?e) \<notin> table_pages (memory k) d')"
      using mem e by simp
    note st = store_pte[OF inv d True refl w]
    have "mappages d va PGSIZE (V2P mem) perm k = Ret (0, ?k')" using fin[of k] walk_present[OF True] True by simp
    then show ?thesis using st by blast
  next
    case False
    show ?thesis
    proof (cases fs)
      case Nil
      then show ?thesis using walk_new(1)[OF vm_invD(1)[OF inv] False] by (simp add: mappages_one[OF va])
    next
      case (Cons t fs')
      let ?k1 = "k\<lparr>freelist := memory k t 0, memory := new_table d (PDX va) t (memory k)\<rparr>"
      note s1 = walk_new_step[OF inv[unfolded Cons] d False refl]
      have inv1: "vm_inv ?k1 fs' D" using s1(1) by (simp add: table_step_def)
      have tp: "table_pages (memory ?k1) d' \<subseteq> table_pages (memory k) d' \<union> {t}" if "d' \<in> D" for d'
        using s1(1) that by (cases "d' = d") (auto simp: table_step_def)
      have w: "good_frame ?k1 (P2V (PTE_ADDR ?e)) \<and> P2V (PTE_ADDR ?e) \<notin> set fs' \<and> (\<forall>d'\<in>D. P2V (PTE_ADDR ?e) \<notin> table_pages (memory ?k1) d')"
        unfolding e using mem tp Cons by (auto simp: good_frame_def)
      note s2 = store_pte[OF inv1 d s1(4) refl w]
      have "mappages d va PGSIZE (V2P mem) perm k = Ret (0, store (ptab (memory ?k1) d (PDX va), PTX va) ?e ?k1)"
        using fin[of ?k1] walk_new(2)[OF vm_invD(1)[OF inv] False Cons] s1(2)[OF d] s1(3,4) by simp
      moreover have "table_step k fs D d [t] (store (ptab (memory ?k1) d (PDX va), PTX va) ?e ?k1) fs'"
        using s1(1) s2(3) unfolding Cons by (simp add: table_step_def)
      ultimately show ?thesis using s2(1,2) s1(2) d by auto
    qed
  qed
qed

subsection \<open>Allocation and release of user pages under the invariant\<close>

definition user_frame :: "memory \<Rightarrow> u32 set \<Rightarrow> u32 \<Rightarrow> bool" where
  "user_frame m D f \<longleftrightarrow> (\<exists>d\<in>D. \<exists>va<KERNBASE. present (pte m d va) \<and> frame m d va = f)"

definition table_page :: "memory \<Rightarrow> u32 set \<Rightarrow> u32 \<Rightarrow> bool" where
  "table_page m D p \<longleftrightarrow> (\<exists>d\<in>D. p \<in> table_pages m d)"

lemma kalloc_inv:
  assumes "vm_inv k (f # fs) D"
  shows "kalloc k = (f, k\<lparr>freelist := memory k f 0\<rparr>)" and "vm_inv (k\<lparr>freelist := memory k f 0\<rparr>) fs D"
    and "good_frame k f" and "f \<notin> set fs" and "\<not> table_page (memory k) D f" and "\<not> user_frame (memory k) D f" and "f \<noteq> 0"
proof -
  note iv = vm_invD[OF assms]
  note kc = kalloc_Cons[OF iv(1)]
  show "kalloc k = (f, k\<lparr>freelist := memory k f 0\<rparr>)" "good_frame k f" "f \<notin> set fs" "f \<noteq> 0" using kc by auto
  show "\<not> table_page (memory k) D f" using iv(4) by (auto simp: table_page_def)
  show "\<not> user_frame (memory k) D f" using iv(5) by (auto simp: user_frame_def)
  show "vm_inv (k\<lparr>freelist := memory k f 0\<rparr>) fs D"
    using assms kc(2) unfolding vm_inv_def by (auto simp: good_frame_def)
qed

lemma kalloc_inv_Nil: "vm_inv k [] D \<Longrightarrow> kalloc k = (0, k)"
  using kalloc_Nil vm_invD(1) by blast

text \<open>Changes of a page that is neither free nor a page table.\<close>

lemma page_write_inv:
  assumes inv: "vm_inv k fs D" and p: "p \<notin> set fs" "\<not> table_page (memory k) D p"
    and k': "k' = k\<lparr>memory := (memory k)(p := pg)\<rparr>"
  shows "vm_inv k' fs D" and "d \<in> D \<Longrightarrow> pte (memory k') d va = pte (memory k) d va"
    and "d \<in> D \<Longrightarrow> table_pages (memory k') d = table_pages (memory k) d"
proof -
  have s: "memory k' q = memory k q" if "q \<in> table_pages (memory k) d" "d \<in> D" for q d
    using that p(2) by (auto simp: k' table_page_def)
  show pt: "d \<in> D \<Longrightarrow> pte (memory k') d va = pte (memory k) d va" for d va using pte_frame(1)[of "memory k" d "memory k'"] s by blast
  show tp: "d \<in> D \<Longrightarrow> table_pages (memory k') d = table_pages (memory k) d" for d using pte_frame(2)[of "memory k" d "memory k'"] s by blast
  have po: "d \<in> D \<Longrightarrow> pgdir_ok (memory k') d = pgdir_ok (memory k) d" for d using pte_frame(3)[of "memory k" d "memory k'"] s by blast
  have f: "free_pages k' fs" using p(1) by (intro free_pages_mem[OF vm_invD(1)[OF inv]]) (auto simp: k')
  have g: "good_frame k' = good_frame k" by (simp add: fun_eq_iff good_frame_def k')
  show "vm_inv k' fs D" using inv f unfolding vm_inv_def g by (simp add: pt tp po frame_def)
qed

lemma kfree_inv:
  assumes inv: "vm_inv k fs D" and f: "good_frame k f" "f \<notin> set fs" "\<not> table_page (memory k) D f" "\<not> user_frame (memory k) D f"
  shows "\<exists>k'. kfree f k = Ret k' \<and> vm_inv k' (f # fs) D \<and> (\<forall>d\<in>D. \<forall>va. pte (memory k') d va = pte (memory k) d va)
    \<and> (\<forall>d\<in>D. table_pages (memory k') d = table_pages (memory k) d) \<and> (\<forall>p. p \<noteq> f \<longrightarrow> memory k' p = memory k p) \<and> kend k' = kend k"
proof -
  from kfree_ok[OF vm_invD(1)[OF inv] f(1,2)] obtain k' where k': "kfree f k = Ret k'" "free_pages k' (f # fs)"
    "\<forall>p. p \<noteq> f \<longrightarrow> memory k' p = memory k p" "kend k' = kend k" by blast
  have s: "memory k' q = memory k q" if "q \<in> table_pages (memory k) d" "d \<in> D" for q d
    using that f(3) k'(3) by (auto simp: table_page_def)
  have pt: "d \<in> D \<Longrightarrow> pte (memory k') d va = pte (memory k) d va" for d va using pte_frame(1)[of "memory k" d "memory k'"] s by blast
  have tp: "d \<in> D \<Longrightarrow> table_pages (memory k') d = table_pages (memory k) d" for d using pte_frame(2)[of "memory k" d "memory k'"] s by blast
  have po: "d \<in> D \<Longrightarrow> pgdir_ok (memory k') d = pgdir_ok (memory k) d" for d using pte_frame(3)[of "memory k" d "memory k'"] s by blast
  have g: "good_frame k' = good_frame k" using k'(4) by (simp add: fun_eq_iff good_frame_def)
  have ft: "\<forall>d\<in>D. f \<notin> table_pages (memory k) d" using f(3) by (simp add: table_page_def)
  have fu: "\<forall>d\<in>D. \<forall>va<KERNBASE. present (pte (memory k) d va) \<longrightarrow> frame (memory k) d va \<noteq> f" using f(4) by (simp add: user_frame_def)
  have "vm_inv k' (f # fs) D" using inv k'(2) ft fu unfolding vm_inv_def g by (auto simp: pt tp po frame_def)
  then show ?thesis using k' pt tp by blast
qed

text \<open>The code's sequence \<open>kfree(P2V(pa)); *pte = 0\<close> on a page that only this entry maps.\<close>

definition only_mapping :: "memory \<Rightarrow> u32 set \<Rightarrow> u32 \<Rightarrow> u32 \<Rightarrow> bool" where
  "only_mapping m D d va \<longleftrightarrow> (\<forall>d'\<in>D. \<forall>va'<KERNBASE. present (pte m d' va') \<and> frame m d' va' = frame m d va
      \<longrightarrow> d' = d \<and> vpn va' = vpn va)"

lemma kfree_store:
  assumes "f \<noteq> fst p" and "kfree f (store p w k) = Ret k'"
  shows "\<exists>k1. kfree f k = Ret k1 \<and> store p w k1 = k'"
  using assms by (auto simp: kfree_def store_def Let_def fun_upd_twist split: if_splits)

lemma unmap_page:
  assumes inv: "vm_inv k fs D" and d: "d \<in> D" and va: "va < KERNBASE" and pr: "present (pte (memory k) d va)"
    and only: "only_mapping (memory k) D d va"
  shows "\<exists>k1 k'. kfree (frame (memory k) d va) k = Ret k1 \<and> k' = store (ptab (memory k) d (PDX va), PTX va) 0 k1
    \<and> vm_inv k' (frame (memory k) d va # fs) D
    \<and> (\<forall>va'. pte (memory k') d va' = (if vpn va' = vpn va then 0 else pte (memory k) d va'))
    \<and> (\<forall>d'\<in>D. d' \<noteq> d \<longrightarrow> (\<forall>va'. pte (memory k') d' va' = pte (memory k) d' va'))
    \<and> (\<forall>d'\<in>D. table_pages (memory k') d' = table_pages (memory k) d')
    \<and> (\<forall>p. \<not> table_page (memory k) D p \<and> p \<noteq> frame (memory k) d va \<longrightarrow> memory k' p = memory k p) \<and> kend k' = kend k"
proof -
  let ?f = "frame (memory k) d va" and ?p = "(ptab (memory k) d (PDX va), PTX va)"
  let ?k0 = "store ?p 0 k"
  note iv = vm_invD[OF inv]
  have dir: "present (memory k d (PDX va))" using pr by (auto simp: pte_def split: if_splits)
  note f = iv(5)[OF d va pr]
  note s = store_pte[OF inv d dir refl, of 0, simplified]
  have inv0: "vm_inv ?k0 fs D" and tp0: "\<And>d'. d' \<in> D \<Longrightarrow> table_pages (memory ?k0) d' = table_pages (memory k) d'"
    and kend0: "kend ?k0 = kend k" and mem0: "\<And>p. p \<notin> table_pages (memory k) d \<Longrightarrow> memory ?k0 p = memory k p"
    using s(3) by (auto simp: table_step_def)
  have "\<not> user_frame (memory ?k0) D ?f"
  proof
    assume "user_frame (memory ?k0) D ?f"
    then obtain d' va' where x: "d' \<in> D" "va' < KERNBASE" "present (pte (memory ?k0) d' va')" "frame (memory ?k0) d' va' = ?f"
      by (auto simp: user_frame_def)
    then have "pte (memory ?k0) d' va' = pte (memory k) d' va' \<and> \<not> (d' = d \<and> vpn va' = vpn va)"
      using s(1)[of va'] s(2)[of d' va'] by (cases "d' = d") (auto split: if_splits)
    then show False using x only by (auto simp: only_mapping_def frame_def)
  qed
  moreover have "good_frame ?k0 ?f" using f kend0 good_frame_kend by blast
  moreover have "\<not> table_page (memory ?k0) D ?f" using f tp0 by (simp add: table_page_def)
  ultimately obtain k' where k': "kfree ?f ?k0 = Ret k'" "vm_inv k' (?f # fs) D"
    "\<forall>a\<in>D. \<forall>v. pte (memory k') a v = pte (memory ?k0) a v" "\<forall>a\<in>D. table_pages (memory k') a = table_pages (memory ?k0) a"
    "\<forall>p. p \<noteq> ?f \<longrightarrow> memory k' p = memory ?k0 p" "kend k' = kend ?k0"
    using kfree_inv[OF inv0, of ?f] f by blast
  have "?f \<noteq> fst ?p" using f d dir by (auto simp: table_pages_def)
  from kfree_store[OF this k'(1)] obtain k1 where k1: "kfree ?f k = Ret k1" "store ?p 0 k1 = k'" by blast
  have fr: "memory k' p = memory k p" if "\<not> table_page (memory k) D p" "p \<noteq> ?f" for p
    using that k'(5) mem0[of p] d by (auto simp: table_page_def)
  show ?thesis
    using k1 k'(2,3,4,6) tp0 kend0 s(1,2) d fr by (intro exI[of _ k1] exI[of _ k']) simp
qed

subsection \<open>deallocuvm\<close>

text \<open>The virtual pages of the range of addresses from \<open>a\<close> up to \<open>e\<close>.\<close>

definition pages_in :: "u32 \<Rightarrow> u32 \<Rightarrow> nat set" where
  "pages_in a e = {v. unat a \<le> 4096 * v \<and> 4096 * v < unat e}"

lemma pages_in_step:
  assumes "unat a mod 4096 = 0" and "a < e" and "unat b mod 4096 = 0" and "unat a < unat b"
  shows "pages_in a e = {v. unat a \<le> 4096 * v \<and> 4096 * v < unat b \<and> 4096 * v < unat e} \<union> pages_in b e"
  using assms by (auto simp: pages_in_def)

lemma pages_in_next:
  assumes "unat a mod 4096 = 0" and "a < e" and "unat e \<le> 2147483648"
  shows "unat (a + 4096) = unat a + 4096" and "unat (a + 4096) mod 4096 = 0" and "pages_in a e = insert (vpn a) (pages_in (a + 4096) e)"
    and "vpn a \<notin> pages_in (a + 4096) e"
proof -
  obtain q where q: "unat a = 4096 * q" using assms(1) by auto
  have l: "unat a < unat e" using assms(2) by (simp add: word_less_nat_alt)
  show u: "unat (a + 4096) = unat a + 4096" using l assms(3) by (intro unat_add_page) simp
  then show "unat (a + 4096) mod 4096 = 0" using q by simp
  show "pages_in a e = insert (vpn a) (pages_in (a + 4096) e)" and "vpn a \<notin> pages_in (a + 4096) e"
    using l by (auto simp: pages_in_def u q vpn_def)
qed

lemma next_directory:
  assumes "unat a mod 4096 = 0" and "a < e" and "unat e \<le> 2147483648" and "b = push_bit 22 (of_nat (PDX a + 1))"
  shows "unat b mod 4096 = 0" and "unat a < unat b"
    and "vpn va \<in> pages_in a e \<Longrightarrow> vpn va \<in> pages_in b e \<or> PDX va = PDX a" and "pages_in b e \<subseteq> pages_in a e"
proof -
  obtain q where q: "unat a = 4096 * q" using assms(1) by auto
  have l: "unat a < unat e" using assms(2) by (simp add: word_less_nat_alt)
  then have q19: "q < 524288" using assms(3) q by simp
  have P: "PDX a = q div 1024" by (simp add: PDX_unat q)
  moreover have "q div 1024 < 512" using q19 by (simp add: div_less_iff_less_mult)
  ultimately have small: "PDX a + 1 \<le> 512" by simp
  have "unat b = (PDX a + 1) * 4194304"
  proof -
    have "b = of_nat (PDX a + 1) * 4194304" unfolding assms(4) by (simp add: push_bit_eq_mult)
    moreover have "unat (of_nat (PDX a + 1) * 4194304 :: u32) = (PDX a + 1) * 4194304 mod 4294967296"
      by (simp add: unat_word_ariths unat_of_nat mod_mult_left_eq)
    ultimately show ?thesis using small by simp
  qed
  then have b: "unat b = 4096 * (1024 * (q div 1024 + 1))" by (simp add: P)
  then show "unat b mod 4096 = 0" by simp
  show ab: "unat a < unat b" using b q by (simp add: dividend_less_div_times)
  show "vpn va \<in> pages_in a e \<Longrightarrow> vpn va \<in> pages_in b e \<or> PDX va = PDX a"
  proof -
    assume v: "vpn va \<in> pages_in a e"
    have p: "PDX va = vpn va div 1024" by (simp add: vpn_def PDX_unat div_mult2_eq[symmetric])
    have "q \<le> vpn va" using v q by (simp add: pages_in_def)
    then have "q div 1024 \<le> vpn va div 1024" by (rule div_le_mono)
    moreover have "vpn va div 1024 < q div 1024 + 1" if "vpn va < 1024 * (q div 1024 + 1)"
      using that by (simp add: div_less_iff_less_mult mult.commute)
    ultimately show ?thesis using v b P p unfolding pages_in_def by (cases "vpn va < 1024 * (q div 1024 + 1)") auto
  qed
  show "pages_in b e \<subseteq> pages_in a e" using ab by (auto simp: pages_in_def)
qed

text \<open>
  What \<open>deallocuvm\<close> does to the pages \<open>V\<close> of \<open>d\<close>: their present entries are cleared and their frames
  \<open>gs\<close> go to the free list; nothing else changes.
\<close>

definition released :: "kernel \<Rightarrow> u32 list \<Rightarrow> u32 set \<Rightarrow> u32 \<Rightarrow> nat set \<Rightarrow> kernel \<Rightarrow> u32 list \<Rightarrow> bool" where
  "released k fs D d V k' gs \<longleftrightarrow> vm_inv k' (gs @ fs) D \<and> kend k' = kend k
     \<and> (\<forall>va. pte (memory k') d va = (if vpn va \<in> V \<and> present (pte (memory k) d va) then 0 else pte (memory k) d va))
     \<and> (\<forall>d'\<in>D. d' \<noteq> d \<longrightarrow> (\<forall>va. pte (memory k') d' va = pte (memory k) d' va))
     \<and> (\<forall>d'\<in>D. table_pages (memory k') d' = table_pages (memory k) d')
     \<and> set gs = {frame (memory k) d va | va. vpn va \<in> V \<and> present (pte (memory k) d va)}
     \<and> (\<forall>p. \<not> table_page (memory k) D p \<and> p \<notin> set gs \<longrightarrow> memory k' p = memory k p)"

lemma releasedD:
  assumes "released k fs D d V k' gs"
  shows "vm_inv k' (gs @ fs) D" and "kend k' = kend k"
    and "pte (memory k') d va = (if vpn va \<in> V \<and> present (pte (memory k) d va) then 0 else pte (memory k) d va)"
    and "d' \<in> D \<Longrightarrow> d' \<noteq> d \<Longrightarrow> pte (memory k') d' va = pte (memory k) d' va"
    and "d' \<in> D \<Longrightarrow> table_pages (memory k') d' = table_pages (memory k) d'"
    and "set gs = {frame (memory k) d va | va. vpn va \<in> V \<and> present (pte (memory k) d va)}"
    and "\<not> table_page (memory k) D p \<Longrightarrow> p \<notin> set gs \<Longrightarrow> memory k' p = memory k p"
  using assms unfolding released_def by (elim conjE; simp)+

lemma released_refl:
  assumes "vm_inv k fs D" and "\<And>va. vpn va \<in> V \<Longrightarrow> \<not> present (pte (memory k) d va)"
  shows "released k fs D d V k []"
  using assms by (auto simp: released_def)

lemma released_cong:
  assumes "released k fs D d V k' gs" and "\<And>va. present (pte (memory k) d va) \<Longrightarrow> vpn va \<in> V \<longleftrightarrow> vpn va \<in> W"
  shows "released k fs D d W k' gs"
proof -
  have "{frame (memory k) d va | va. vpn va \<in> V \<and> present (pte (memory k) d va)} = {frame (memory k) d va | va. vpn va \<in> W \<and> present (pte (memory k) d va)}"
    using assms(2) by blast
  moreover have "(if vpn va \<in> V \<and> present (pte (memory k) d va) then 0 else pte (memory k) d va)
    = (if vpn va \<in> W \<and> present (pte (memory k) d va) then 0 else pte (memory k) d va)" for va
    using assms(2)[of va] by auto
  ultimately show ?thesis using assms(1) unfolding released_def by simp
qed

lemma pte_vpn: "vpn a = vpn b \<Longrightarrow> pte m d a = pte m d b"
  using same_entry[of a b] by (simp add: pte_def)

lemma released_page:
  assumes inv: "vm_inv k fs D" and d: "d \<in> D" and va: "va < KERNBASE" and pr: "present (pte (memory k) d va)"
    and only: "only_mapping (memory k) D d va"
  shows "\<exists>k1. kfree (frame (memory k) d va) k = Ret k1
    \<and> released k fs D d {vpn va} (store (ptab (memory k) d (PDX va), PTX va) 0 k1) [frame (memory k) d va]"
proof -
  have "frame (memory k) d va' = frame (memory k) d va" if "vpn va' = vpn va" for va'
    using pte_vpn[OF that, of "memory k" d] by (simp add: frame_def)
  then have fr: "{frame (memory k) d va' | va'. vpn va' \<in> {vpn va} \<and> present (pte (memory k) d va')} = {frame (memory k) d va}"
    using pr by blast
  have sp: "(if vpn va' \<in> {vpn va} \<and> present (pte (memory k) d va') then 0 else pte (memory k) d va')
    = (if vpn va' = vpn va then 0 else pte (memory k) d va')" for va'
    using pr pte_vpn[of va' va "memory k" d] by (cases "vpn va' = vpn va") simp_all
  from unmap_page[OF assms] obtain k1 k' where k1: "kfree (frame (memory k) d va) k = Ret k1"
    and k': "k' = store (ptab (memory k) d (PDX va), PTX va) 0 k1" "vm_inv k' (frame (memory k) d va # fs) D"
    "\<forall>va'. pte (memory k') d va' = (if vpn va' = vpn va then 0 else pte (memory k) d va')"
    "\<forall>d'\<in>D. d' \<noteq> d \<longrightarrow> (\<forall>va'. pte (memory k') d' va' = pte (memory k) d' va')"
    "\<forall>d'\<in>D. table_pages (memory k') d' = table_pages (memory k) d'"
    "\<forall>p. \<not> table_page (memory k) D p \<and> p \<noteq> frame (memory k) d va \<longrightarrow> memory k' p = memory k p" "kend k' = kend k"
    by blast
  have "released k fs D d {vpn va} k' [frame (memory k) d va]"
    unfolding released_def fr sp using k'(2-7) by simp
  then show ?thesis using k1 k'(1) by blast
qed

lemma released_trans:
  assumes r1: "released k fs D d V k1 gs1" and r2: "released k1 (gs1 @ fs) D d W k2 gs2" and d: "d \<in> D"
  shows "released k fs D d (V \<union> W) k2 (gs2 @ gs1)"
proof -
  note a = releasedD[OF r1] and b = releasedD[OF r2]
  have g2: "set gs2 = {frame (memory k) d va | va. vpn va \<in> W - V \<and> present (pte (memory k) d va)}"
    unfolding b(6) frame_def a(3) by (auto split: if_splits)
  have "set (gs2 @ gs1) = {frame (memory k) d va | va. vpn va \<in> V \<union> W \<and> present (pte (memory k) d va)}"
    unfolding set_append a(6) g2 by blast
  moreover have "pte (memory k2) d va = (if vpn va \<in> V \<union> W \<and> present (pte (memory k) d va) then 0 else pte (memory k) d va)" for va
    unfolding b(3) a(3) by auto
  moreover have "memory k2 p = memory k p" if "\<not> table_page (memory k) D p" "p \<notin> set (gs2 @ gs1)" for p
  proof -
    have "\<not> table_page (memory k1) D p" using that(1) a(5) by (simp add: table_page_def)
    then show ?thesis using that a(7) b(7) by simp
  qed
  ultimately show ?thesis using a(2,4,5) b(1,2,4,5) unfolding released_def by simp
qed

lemma released_only_mapping:
  assumes rel: "released k fs D d V k' gs" and d: "d \<in> D" and nv: "vpn va \<notin> V" and o: "only_mapping (memory k) D d va"
  shows "only_mapping (memory k') D d va"
  unfolding only_mapping_def
proof (intro ballI allI impI)
  fix d' va' assume x: "d' \<in> D" "va' < KERNBASE" "present (pte (memory k') d' va') \<and> frame (memory k') d' va' = frame (memory k') d va"
  have "pte (memory k') d va = pte (memory k) d va" using releasedD(3)[OF rel] nv by simp
  moreover have "pte (memory k') d' va' = pte (memory k) d' va'"
    using x releasedD(3)[OF rel, of va'] releasedD(4)[OF rel x(1), of va'] by (cases "d' = d") (auto split: if_splits)
  ultimately show "d' = d \<and> vpn va' = vpn va" using o x by (auto simp: only_mapping_def frame_def)
qed

lemma deallocuvm_loop_ok:
  assumes "vm_inv k fs D" and "d \<in> D" and "KERNBASE < kend k" and "unat a mod 4096 = 0" and "unat e \<le> 2147483648"
    and "unat e \<le> unat a + 4096 * n"
    and "\<And>va. vpn va \<in> pages_in a e \<Longrightarrow> present (pte (memory k) d va) \<Longrightarrow> only_mapping (memory k) D d va"
  shows "\<exists>k' gs. deallocuvm_loop (Suc n) d a e k = Ret k' \<and> released k fs D d (pages_in a e) k' gs"
  using assms
proof (induction n arbitrary: a k fs)
  case 0
  then have "\<not> a < e" "pages_in a e = {}" by (auto simp: word_less_nat_alt pages_in_def)
  then show ?case using released_refl[OF 0(1)] by auto
next
  case (Suc n)
  show ?case
  proof (cases "a < e")
    case False
    then have "pages_in a e = {}" by (auto simp: word_less_nat_alt pages_in_def)
    then show ?thesis using False released_refl[OF Suc.prems(1)] by auto
  next
    case lt: True
    note nx = pages_in_next[OF Suc.prems(4) lt Suc.prems(5)]
    have au: "a < KERNBASE" using lt Suc.prems(5) by (simp add: word_less_nat_alt)
    have fuel: "unat e \<le> unat (a + 4096) + 4096 * n" using Suc.prems(6) nx(1) by simp
    show ?thesis
    proof (cases "present (memory k d (PDX a))")
      case nodir: False
      let ?b = "push_bit 22 (of_nat (PDX a + 1)) :: u32"
      note nd = next_directory[OF Suc.prems(4) lt Suc.prems(5) refl]
      obtain q r where qr: "unat a = 4096 * q" "unat ?b = 4096 * r" using Suc.prems(4) nd(1) by (auto elim!: dvdE simp: mod_eq_0_iff_dvd)
      then have "unat e \<le> unat ?b + 4096 * n" using nd(2) Suc.prems(6) by simp
      then obtain k' gs where k': "deallocuvm_loop (Suc n) d ?b e k = Ret k'" "released k fs D d (pages_in ?b e) k' gs"
        using Suc.IH[OF Suc.prems(1-3) nd(1) Suc.prems(5)] Suc.prems(7) nd(4) by blast
      have z: "\<not> present (pte (memory k) d va)" if "vpn va \<in> pages_in a e" "vpn va \<notin> pages_in ?b e" for va
        using nd(3)[OF that(1)] that(2) nodir by (auto simp: pte_def)
      have "released k fs D d (pages_in a e) k' gs" using released_cong[OF k'(2)] z nd(4) by blast
      then show ?thesis using k'(1) nodir lt
        by (auto simp: walk_noalloc simp del: deallocuvm_loop.simps simp: deallocuvm_loop.simps(2)[of "Suc n"])
    next
      case dir: True
      show ?thesis
      proof (cases "present (pte (memory k) d a)")
        case np: False
        obtain k' gs where k': "deallocuvm_loop (Suc n) d (a + 4096) e k = Ret k'" "released k fs D d (pages_in (a + 4096) e) k' gs"
          using Suc.IH[OF Suc.prems(1-3) nx(2) Suc.prems(5) fuel] Suc.prems(7) nx(3) by blast
        have "released k fs D d (pages_in a e) k' gs"
          using released_cong[OF k'(2), of "pages_in a e"] np pte_vpn nx(3) by (metis insert_iff)
        then show ?thesis using k'(1) np dir lt
          by (auto simp: walk_noalloc load_pte simp del: deallocuvm_loop.simps simp: deallocuvm_loop.simps(2)[of "Suc n"])
      next
        case pr: True
        let ?f = "frame (memory k) d a"
        have only: "only_mapping (memory k) D d a" using Suc.prems(7) pr nx(3) by blast
        obtain k1 where k1: "kfree ?f k = Ret k1"
          "released k fs D d {vpn a} (store (ptab (memory k) d (PDX a), PTX a) 0 k1) [?f]"
          using released_page[OF Suc.prems(1,2) au pr only] by blast
        let ?k2 = "store (ptab (memory k) d (PDX a), PTX a) 0 k1"
        note rel = k1(2)[unfolded released_def]
        have inv2: "vm_inv ?k2 ([?f] @ fs) D" "KERNBASE < kend ?k2" using rel Suc.prems(3) by simp_all
        have only2: "only_mapping (memory ?k2) D d va" if "vpn va \<in> pages_in (a + 4096) e" "present (pte (memory ?k2) d va)" for va
        proof -
          have "vpn va \<notin> {vpn a}" using that(1) nx(4) by auto
          then show ?thesis using released_only_mapping[OF k1(2) Suc.prems(2)] releasedD(3)[OF k1(2), of va] Suc.prems(7)[of va] that nx(3) by simp
        qed
        obtain k' gs where k': "deallocuvm_loop (Suc n) d (a + 4096) e ?k2 = Ret k'" "released ?k2 ([?f] @ fs) D d (pages_in (a + 4096) e) k' gs"
          using Suc.IH[OF inv2(1) Suc.prems(2) inv2(2) nx(2) Suc.prems(5) fuel] only2 by blast
        have "released k fs D d (pages_in a e) k' (gs @ [?f])"
          using released_trans[OF k1(2) k'(2) Suc.prems(2)] nx(3) by simp
        moreover have "PTE_ADDR (pte (memory k) d a) \<noteq> 0"
        proof
          assume "PTE_ADDR (pte (memory k) d a) = 0"
          then have "?f = KERNBASE" by (simp add: frame_def)
          then show False using vm_invD(5)[OF Suc.prems(1,2) au pr] Suc.prems(3) by (auto simp: good_frame_def)
        qed
        ultimately show ?thesis using k'(1) k1(1) pr dir lt
          by (auto simp: walk_noalloc load_pte frame_def Let_def simp del: deallocuvm_loop.simps simp: deallocuvm_loop.simps(2)[of "Suc n"])
      qed
    qed
  qed
qed

lemma range_fuel: "unat e \<le> unat a + 4096 * (unat (e - a) div 4096 + 1)"
proof (cases "a \<le> e")
  case True
  then have "unat (e - a) = unat e - unat a" "unat a \<le> unat e" by (simp_all add: unat_sub word_le_nat_alt)
  then show ?thesis using dividend_less_div_times[of 4096 "unat (e - a)"] by simp
next
  case False
  then show ?thesis by (simp add: word_le_nat_alt)
qed

lemma PGROUNDUP_mod: "unat (PGROUNDUP a) mod 4096 = 0"
  unfolding PGROUNDUP_alt unat_and_not_FFF by (simp add: minus_mod_eq_mult_div)

lemma deallocuvm_ok:
  assumes "vm_inv k fs D" and "d \<in> D" and "KERNBASE < kend k" and "newsz < oldsz" and "oldsz \<le> KERNBASE"
    and "\<And>va. vpn va \<in> pages_in (PGROUNDUP newsz) oldsz \<Longrightarrow> present (pte (memory k) d va) \<Longrightarrow> only_mapping (memory k) D d va"
  shows "\<exists>k' gs. deallocuvm d oldsz newsz k = Ret (newsz, k') \<and> released k fs D d (pages_in (PGROUNDUP newsz) oldsz) k' gs"
proof -
  have "unat oldsz \<le> 2147483648" using assms(5) by (simp add: word_le_nat_alt)
  then obtain k' gs where
    "deallocuvm_loop (Suc (unat (oldsz - PGROUNDUP newsz) div 4096 + 1)) d (PGROUNDUP newsz) oldsz k = Ret k'"
    "released k fs D d (pages_in (PGROUNDUP newsz) oldsz) k' gs"
    using deallocuvm_loop_ok[OF assms(1-3) PGROUNDUP_mod _ range_fuel, of oldsz newsz] assms(6) by blast
  then show ?thesis using assms(4) by (auto simp: deallocuvm_def Let_def)
qed

subsection \<open>allocuvm\<close>

text \<open>
  The state \<open>k\<close> reached from \<open>k0\<close> by mapping fresh zeroed pages, taken from the free list, at the
  virtual pages \<open>S\<close> of \<open>d\<close>.
\<close>

definition user_entry :: "u32 \<Rightarrow> u32" where
  "user_entry f = V2P f OR (PTE_W OR PTE_U) OR PTE_P"

definition grown :: "kernel \<Rightarrow> u32 list \<Rightarrow> u32 set \<Rightarrow> u32 \<Rightarrow> nat set \<Rightarrow> kernel \<Rightarrow> u32 list \<Rightarrow> bool" where
  "grown k0 fs0 D d S k fs \<longleftrightarrow> vm_inv k fs D \<and> kend k = kend k0 \<and> set fs \<subseteq> set fs0
     \<and> (\<forall>d'\<in>D. d' \<noteq> d \<longrightarrow> (\<forall>va. pte (memory k) d' va = pte (memory k0) d' va) \<and> table_pages (memory k) d' = table_pages (memory k0) d')
     \<and> (\<forall>va. vpn va \<notin> S \<longrightarrow> pte (memory k) d va = pte (memory k0) d va)
     \<and> (\<forall>va. vpn va \<in> S \<longrightarrow> (\<exists>f\<in>set fs0 - set fs - table_pages (memory k) d. pte (memory k) d va = user_entry f \<and> frame (memory k) d va = f \<and> memory k f = (\<lambda>_. 0)))
     \<and> (\<forall>va va'. vpn va \<in> S \<and> vpn va' \<in> S \<and> frame (memory k) d va = frame (memory k) d va' \<longrightarrow> vpn va = vpn va')
     \<and> table_pages (memory k0) d \<subseteq> table_pages (memory k) d
     \<and> set fs0 = set fs \<union> (table_pages (memory k) d - table_pages (memory k0) d) \<union> {frame (memory k) d va | va. vpn va \<in> S}
     \<and> (\<forall>p. p \<notin> set fs0 \<and> p \<notin> table_pages (memory k0) d \<longrightarrow> memory k p = memory k0 p)"

lemma grown_refl: "vm_inv k fs D \<Longrightarrow> grown k fs D d {} k fs"
  by (simp add: grown_def)

lemma grownD:
  assumes "grown k0 fs0 D d S k fs"
  shows "vm_inv k fs D" and "kend k = kend k0" and "set fs \<subseteq> set fs0"
    and "d' \<in> D \<Longrightarrow> d' \<noteq> d \<Longrightarrow> pte (memory k) d' va = pte (memory k0) d' va"
    and "d' \<in> D \<Longrightarrow> d' \<noteq> d \<Longrightarrow> table_pages (memory k) d' = table_pages (memory k0) d'"
    and "vpn va \<notin> S \<Longrightarrow> pte (memory k) d va = pte (memory k0) d va"
    and "vpn va \<in> S \<Longrightarrow> \<exists>f\<in>set fs0 - set fs - table_pages (memory k) d. pte (memory k) d va = user_entry f \<and> frame (memory k) d va = f \<and> memory k f = (\<lambda>_. 0)"
    and "vpn va \<in> S \<Longrightarrow> vpn va' \<in> S \<Longrightarrow> frame (memory k) d va = frame (memory k) d va' \<Longrightarrow> vpn va = vpn va'"
    and "table_pages (memory k0) d \<subseteq> table_pages (memory k) d"
    and "set fs0 = set fs \<union> (table_pages (memory k) d - table_pages (memory k0) d) \<union> {frame (memory k) d va | va. vpn va \<in> S}"
    and "p \<notin> set fs0 \<Longrightarrow> p \<notin> table_pages (memory k0) d \<Longrightarrow> memory k p = memory k0 p"
proof -
  note g = assms[unfolded grown_def]
  show "vm_inv k fs D" using g by (elim conjE)
  show "kend k = kend k0" using g by (elim conjE)
  show "set fs \<subseteq> set fs0" using g by (elim conjE)
  show "d' \<in> D \<Longrightarrow> d' \<noteq> d \<Longrightarrow> pte (memory k) d' va = pte (memory k0) d' va" using g by (elim conjE) blast
  show "d' \<in> D \<Longrightarrow> d' \<noteq> d \<Longrightarrow> table_pages (memory k) d' = table_pages (memory k0) d'" using g by (elim conjE) blast
  show "vpn va \<notin> S \<Longrightarrow> pte (memory k) d va = pte (memory k0) d va" using g by (elim conjE) blast
  show "vpn va \<in> S \<Longrightarrow> \<exists>f\<in>set fs0 - set fs - table_pages (memory k) d. pte (memory k) d va = user_entry f \<and> frame (memory k) d va = f \<and> memory k f = (\<lambda>_. 0)"
    using g by (elim conjE) blast
  show "vpn va \<in> S \<Longrightarrow> vpn va' \<in> S \<Longrightarrow> frame (memory k) d va = frame (memory k) d va' \<Longrightarrow> vpn va = vpn va'"
    using g by (elim conjE) blast
  show "table_pages (memory k0) d \<subseteq> table_pages (memory k) d" using g by (elim conjE)
  show "set fs0 = set fs \<union> (table_pages (memory k) d - table_pages (memory k0) d) \<union> {frame (memory k) d va | va. vpn va \<in> S}"
    using g by (elim conjE)
  show "p \<notin> set fs0 \<Longrightarrow> p \<notin> table_pages (memory k0) d \<Longrightarrow> memory k p = memory k0 p" using g by (elim conjE) blast
qed

lemma user_entry_fields:
  assumes "good_frame k f"
  shows "P2V (PTE_ADDR (user_entry f)) = f" and "present (user_entry f)"
  using entry_fields(1)[OF good_frame_aligned[OF assms], of 7] by (simp_all add: user_entry_def)

text \<open>One round of the loop: a fresh page is zeroed and mapped, or there is no page for a page table.\<close>

lemma grown_step:
  assumes g: "grown k0 fs0 D d S k (f # fs1)" and d: "d \<in> D" and va: "unat va mod 4096 = 0" "va < KERNBASE" "vpn va \<notin> S"
    and np: "\<not> present (pte (memory k) d va)" and k1: "k1 = k\<lparr>freelist := memory k f 0\<rparr>"
  shows "kalloc k = (f, k1)" and "f \<noteq> 0" and "vm_inv (zero_page f k1) fs1 D" and "f \<notin> set fs1"
    and "(fs1 = [] \<and> mappages d va PGSIZE (V2P f) (PTE_W OR PTE_U) (zero_page f k1) = Ret (- 1, zero_page f k1))
      \<or> (\<exists>k' fs'. mappages d va PGSIZE (V2P f) (PTE_W OR PTE_U) (zero_page f k1) = Ret (0, k')
           \<and> grown k0 fs0 D d (insert (vpn va) S) k' fs')"
    and "d' \<in> D \<Longrightarrow> pte (memory (zero_page f k1)) d' va' = pte (memory k) d' va'"
    and "d' \<in> D \<Longrightarrow> table_pages (memory (zero_page f k1)) d' = table_pages (memory k) d'"
proof -
  note G = grownD[OF g]
  note ka = kalloc_inv[OF G(1)]
  show "kalloc k = (f, k1)" "f \<noteq> 0" "f \<notin> set fs1" using ka k1 by auto
  let ?z = "zero_page f k1"
  have z: "?z = k1\<lparr>memory := (memory k1)(f := (\<lambda>_. 0))\<rparr>" "memory ?z = (memory k)(f := (\<lambda>_. 0))" "kend ?z = kend k"
    by (simp_all add: zero_page_def k1)
  have inv1: "vm_inv k1 fs1 D" using ka(2) by (simp add: k1)
  have m1: "memory k1 = memory k" by (simp add: k1)
  have nt: "\<not> table_page (memory k1) D f" using ka(5) by (simp add: m1)
  note zw = page_write_inv[OF inv1 ka(4) nt z(1), unfolded m1]
  show invz: "vm_inv ?z fs1 D" by (rule zw(1))
  show "d' \<in> D \<Longrightarrow> pte (memory ?z) d' va' = pte (memory k) d' va'" for d' va' by (rule zw(2))
  show "d' \<in> D \<Longrightarrow> table_pages (memory ?z) d' = table_pages (memory k) d'" for d' by (rule zw(3))
  have gz: "good_frame ?z f" using ka(3) z(3) good_frame_kend by blast
  have ntz: "\<forall>d'\<in>D. f \<notin> table_pages (memory ?z) d'" using ka(5) zw(3) by (auto simp: table_page_def)
  have npz: "\<not> present (pte (memory ?z) d va)" using np zw(2)[OF d] by simp
  have fl: "unat (PTE_W OR PTE_U :: u32) < 4096" by simp
  note mp = mappages_page[OF invz d va(1) npz gz ka(4) ntz fl]
  show "(fs1 = [] \<and> mappages d va PGSIZE (V2P f) (PTE_W OR PTE_U) ?z = Ret (- 1, ?z))
      \<or> (\<exists>k' fs'. mappages d va PGSIZE (V2P f) (PTE_W OR PTE_U) ?z = Ret (0, k') \<and> grown k0 fs0 D d (insert (vpn va) S) k' fs')"
    using mp
  proof (elim disjE exE conjE)
    fix k' us fs' assume r: "mappages d va PGSIZE (V2P f) (PTE_W OR PTE_U) ?z = Ret (0, k')" and ts: "table_step ?z fs1 D d us k' fs'"
      and p1: "\<forall>va'. pte (memory k') d va' = (if vpn va' = vpn va then V2P f OR (PTE_W OR PTE_U) OR PTE_P else pte (memory ?z) d va')"
      and p2: "\<forall>d'\<in>D. d' \<noteq> d \<longrightarrow> (\<forall>va'. pte (memory k') d' va' = pte (memory ?z) d' va')"
    have T: "fs1 = us @ fs'" "vm_inv k' fs' D" "kend k' = kend ?z" "table_pages (memory k') d = table_pages (memory ?z) d \<union> set us"
      "\<And>d'. d' \<in> D \<Longrightarrow> d' \<noteq> d \<Longrightarrow> table_pages (memory k') d' = table_pages (memory ?z) d'"
      "\<And>p. p \<notin> table_pages (memory k') d \<Longrightarrow> memory k' p = memory ?z p"
      using ts unfolding table_step_def by auto
    have ft: "f \<notin> table_pages (memory k') d" using T(4) ntz d ka(4) T(1) by auto
    have mf: "memory k' f = (\<lambda>_. 0)" using T(6)[OF ft] z(2) by simp
    have ff: "frame (memory k') d va = f" using p1 user_entry_fields(1)[OF ka(3)] by (simp add: frame_def user_entry_def)
    have fs: "f \<in> set fs0" "set us \<subseteq> set fs0" "set fs' \<subseteq> set fs0" "f \<notin> set fs'" using G(3) T(1) ka(4) by auto
    have old: "\<exists>g\<in>set fs0 - set fs' - table_pages (memory k') d. pte (memory k') d v = user_entry g \<and> frame (memory k') d v = g
        \<and> memory k' g = (\<lambda>_. 0) \<and> g \<noteq> f \<and> frame (memory k) d v = g" if v: "vpn v \<in> S" for v
    proof -
      obtain g where g: "g \<in> set fs0 - set (f # fs1) - table_pages (memory k) d" "pte (memory k) d v = user_entry g"
        "frame (memory k) d v = g" "memory k g = (\<lambda>_. 0)" using G(7)[OF v] by blast
      have ne: "vpn v \<noteq> vpn va" using v va(3) by auto
      then have pe: "pte (memory k') d v = pte (memory k) d v" using p1 zw(2)[OF d] by simp
      have gt: "g \<notin> table_pages (memory k') d" using g(1) T(1,4) zw(3)[OF d] by auto
      have "memory k' g = (\<lambda>_. 0)" using T(6)[OF gt] z(2) g(1,4) by simp
      then show ?thesis using g gt pe T(1) by (intro bexI[of _ g]) (auto simp: frame_def)
    qed
    have tab: "table_pages (memory k') d = table_pages (memory k) d \<union> set us" using T(4) zw(3)[OF d] by simp
    have frs: "{frame (memory k') d v | v. vpn v \<in> insert (vpn va) S} = insert f {frame (memory k) d v | v. vpn v \<in> S}"
    proof -
      have "frame (memory k') d v = frame (memory k') d va" if "vpn v = vpn va" for v
        using pte_vpn[OF that, of "memory k'" d] by (simp add: frame_def)
      then have "{frame (memory k') d v | v. vpn v = vpn va} = {f}" using ff by auto
      moreover have s: "frame (memory k') d v = frame (memory k) d v" if "vpn v \<in> S" for v using old[OF that] by auto
      have "{frame (memory k') d v | v. vpn v \<in> S} = {frame (memory k) d v | v. vpn v \<in> S}"
        by (rule Collect_cong) (metis s)
      moreover have "{frame (memory k') d v | v. vpn v \<in> insert (vpn va) S}
        = {frame (memory k') d v | v. vpn v = vpn va} \<union> {frame (memory k') d v | v. vpn v \<in> S}" by blast
      ultimately show ?thesis by simp
    qed
    have "grown k0 fs0 D d (insert (vpn va) S) k' fs'" unfolding grown_def
    proof (intro conjI)
      show "vm_inv k' fs' D" "kend k' = kend k0" "set fs' \<subseteq> set fs0" using T(2,3) z(3) G(2) fs by simp_all
      show "\<forall>d'\<in>D. d' \<noteq> d \<longrightarrow> (\<forall>va. pte (memory k') d' va = pte (memory k0) d' va) \<and> table_pages (memory k') d' = table_pages (memory k0) d'"
        using p2 zw(2,3) G(4,5) T(5) by simp
      show "\<forall>v. vpn v \<notin> insert (vpn va) S \<longrightarrow> pte (memory k') d v = pte (memory k0) d v" using p1 zw(2)[OF d] G(6) by simp
      show "\<forall>v. vpn v \<in> insert (vpn va) S \<longrightarrow> (\<exists>f\<in>set fs0 - set fs' - table_pages (memory k') d.
          pte (memory k') d v = user_entry f \<and> frame (memory k') d v = f \<and> memory k' f = (\<lambda>_. 0))"
      proof (intro allI impI)
        fix v assume v: "vpn v \<in> insert (vpn va) S"
        show "\<exists>f\<in>set fs0 - set fs' - table_pages (memory k') d.
          pte (memory k') d v = user_entry f \<and> frame (memory k') d v = f \<and> memory k' f = (\<lambda>_. 0)"
        proof (cases "vpn v = vpn va")
          case True
          then have "frame (memory k') d v = f" "pte (memory k') d v = user_entry f"
            using ff pte_vpn[OF True, of "memory k'" d] p1 by (simp_all add: frame_def user_entry_def)
          then show ?thesis using ft mf fs by (intro bexI[of _ f]) simp_all
        qed (use v old in blast)
      qed
      have "vpn v = vpn v'" if "vpn v \<in> insert (vpn va) S" "vpn v' \<in> insert (vpn va) S" "frame (memory k') d v = frame (memory k') d v'" for v v'
      proof -
        have fa: "frame (memory k') d w = f" if "vpn w = vpn va" for w
          using pte_vpn[OF that, of "memory k'" d] ff by (simp add: frame_def)
        show ?thesis using that old[of v] old[of v'] fa[of v] fa[of v'] G(8)[of v v']
          by (cases "vpn v = vpn va"; cases "vpn v' = vpn va") auto
      qed
      then show "\<forall>v v'. vpn v \<in> insert (vpn va) S \<and> vpn v' \<in> insert (vpn va) S \<and> frame (memory k') d v = frame (memory k') d v' \<longrightarrow> vpn v = vpn v'"
        by blast
      show "table_pages (memory k0) d \<subseteq> table_pages (memory k') d" using G(9) tab by auto
      have "set us \<inter> table_pages (memory k) d = {}" using vm_invD(4)[OF G(1) d] T(1) by auto
      then show "set fs0 = set fs' \<union> (table_pages (memory k') d - table_pages (memory k0) d) \<union> {frame (memory k') d v | v. vpn v \<in> insert (vpn va) S}"
        unfolding frs tab G(10) T(1) using G(9) by auto
      show "\<forall>p. p \<notin> set fs0 \<and> p \<notin> table_pages (memory k0) d \<longrightarrow> memory k' p = memory k0 p"
      proof (intro allI impI)
        fix p assume p: "p \<notin> set fs0 \<and> p \<notin> table_pages (memory k0) d"
        then have "p \<notin> table_pages (memory k') d" using tab fs(2) G(10) by auto
        then have "memory k' p = memory ?z p" by (rule T(6))
        also have "\<dots> = memory k p" using p fs(1) z(2) by auto
        finally show "memory k' p = memory k0 p" using G(11) p by simp
      qed
    qed
    then show ?thesis using r by blast
  qed simp_all
qed

text \<open>The pages mapped by the loop are mapped nowhere else, so a failing \<open>allocuvm\<close> gives them all back.\<close>

lemma grown_only_mapping:
  assumes inv: "vm_inv k0 fs0 D" and d: "d \<in> D" and g: "grown k0 fs0 D d S k fs" and va: "vpn va \<in> S"
  shows "only_mapping (memory k) D d va"
  unfolding only_mapping_def
proof (intro ballI allI impI)
  note G = grownD[OF g]
  fix d' va' assume x: "d' \<in> D" "va' < KERNBASE" "present (pte (memory k) d' va') \<and> frame (memory k) d' va' = frame (memory k) d va"
  from G(7)[OF va] obtain f where f: "f \<in> set fs0" "frame (memory k) d va = f" by blast
  show "d' = d \<and> vpn va' = vpn va"
  proof (cases "d' = d \<and> vpn va' \<in> S")
    case True
    then show ?thesis using G(8)[of va' va] x va by simp
  next
    case False
    then have "pte (memory k) d' va' = pte (memory k0) d' va'" using G(4,6) x(1) by auto
    then have "present (pte (memory k0) d' va')" "frame (memory k0) d' va' = f" using x(3) f(2) by (simp_all add: frame_def)
    then show ?thesis using vm_invD(5)[OF inv x(1,2)] f(1) by blast
  qed
qed

text \<open>Releasing the grown pages again.\<close>

definition restored :: "kernel \<Rightarrow> u32 list \<Rightarrow> u32 set \<Rightarrow> u32 \<Rightarrow> kernel \<Rightarrow> u32 list \<Rightarrow> bool" where
  "restored k0 fs0 D d k fs \<longleftrightarrow> vm_inv k fs D \<and> kend k = kend k0
     \<and> (\<forall>d'\<in>D. \<forall>va. pte (memory k) d' va = pte (memory k0) d' va)
     \<and> table_pages (memory k0) d \<subseteq> table_pages (memory k) d
     \<and> set fs0 = set fs \<union> (table_pages (memory k) d - table_pages (memory k0) d)"

lemma dealloc_grown:
  assumes inv: "vm_inv k0 fs0 D" and d: "d \<in> D" and kend: "KERNBASE < kend k0" and sz: "oldsz < newsz" "newsz \<le> KERNBASE"
    and g: "grown k0 fs0 D d S kg fsg" and S: "S \<subseteq> pages_in (PGROUNDUP oldsz) newsz"
    and np: "\<And>va. vpn va \<in> pages_in (PGROUNDUP oldsz) newsz \<Longrightarrow> pte (memory k0) d va = 0"
    and k: "vm_inv k fs D" "\<And>d' va. d' \<in> D \<Longrightarrow> pte (memory k) d' va = pte (memory kg) d' va"
      "\<And>d'. d' \<in> D \<Longrightarrow> table_pages (memory k) d' = table_pages (memory kg) d'" "kend k = kend kg"
  shows "\<exists>k' gs. deallocuvm d newsz oldsz k = Ret (oldsz, k') \<and> vm_inv k' (gs @ fs) D \<and> kend k' = kend k0
    \<and> (\<forall>d'\<in>D. \<forall>va. pte (memory k') d' va = pte (memory k0) d' va)
    \<and> (\<forall>d'\<in>D. table_pages (memory k') d' = table_pages (memory kg) d') \<and> set gs = {frame (memory kg) d va | va. vpn va \<in> S}"
proof -
  note G = grownD[OF g]
  have only: "only_mapping (memory k) D d va" if "vpn va \<in> pages_in (PGROUNDUP oldsz) newsz" "present (pte (memory k) d va)" for va
  proof -
    have "vpn va \<in> S" using that G(6)[of va] np[of va] k(2)[OF d] by (cases "vpn va \<in> S") auto
    from grown_only_mapping[OF inv d g this] show ?thesis using k(2) d by (simp add: only_mapping_def frame_def)
  qed
  have ke: "KERNBASE < kend k" using kend G(2) k(4) by simp
  obtain k' gs where k': "deallocuvm d newsz oldsz k = Ret (oldsz, k')" and rel: "released k fs D d (pages_in (PGROUNDUP oldsz) newsz) k' gs"
    using deallocuvm_ok[OF k(1) d ke sz] only by blast
  note R = releasedD[OF rel]
  have pr: "present (pte (memory kg) d va)" if "vpn va \<in> S" for va
    using G(7)[OF that] user_entry_fields(2) vm_invD(1)[OF inv] by (auto simp: free_pages_def)
  have p: "pte (memory k') d va = pte (memory k0) d va" for va
    using R(3)[of va] G(6)[of va] np[of va] pr[of va] S k(2)[OF d, of va] by (cases "vpn va \<in> S") auto
  have "vpn va \<in> pages_in (PGROUNDUP oldsz) newsz \<and> present (pte (memory k) d va) \<longleftrightarrow> vpn va \<in> S" for va
    using pr[of va] S G(6)[of va] np[of va] k(2)[OF d, of va] by (cases "vpn va \<in> S") auto
  then have "set gs = {frame (memory kg) d va | va. vpn va \<in> S}" using R(6) k(2)[OF d] by (simp add: frame_def)
  moreover have "pte (memory k') d' va = pte (memory k0) d' va" if "d' \<in> D" for d' va
    using p R(4)[OF that] G(4)[OF that] k(2)[OF that] by (cases "d' = d") auto
  ultimately show ?thesis using k' R(1,2,5) k(3,4) G(2) by auto
qed

text \<open>The two ways in which \<open>allocuvm\<close> fails leave the address spaces as they were and lose no page.\<close>

lemma alloc_fail_no_page:
  assumes inv: "vm_inv k0 fs0 D" and d: "d \<in> D" and kend: "KERNBASE < kend k0" and sz: "oldsz < newsz" "newsz \<le> KERNBASE"
    and g: "grown k0 fs0 D d S k fs" and S: "S \<subseteq> pages_in (PGROUNDUP oldsz) newsz"
    and np: "\<And>va. vpn va \<in> pages_in (PGROUNDUP oldsz) newsz \<Longrightarrow> pte (memory k0) d va = 0"
  shows "\<exists>k' fs'. deallocuvm d newsz oldsz k = Ret (oldsz, k') \<and> restored k0 fs0 D d k' fs'"
proof -
  note G = grownD[OF g]
  obtain k' gs where k': "deallocuvm d newsz oldsz k = Ret (oldsz, k')" "vm_inv k' (gs @ fs) D" "kend k' = kend k0"
    "\<forall>d'\<in>D. \<forall>va. pte (memory k') d' va = pte (memory k0) d' va"
    "\<forall>d'\<in>D. table_pages (memory k') d' = table_pages (memory k) d'" "set gs = {frame (memory k) d va | va. vpn va \<in> S}"
    using dealloc_grown[OF inv d kend sz g S np G(1) refl refl refl] by blast
  then have "restored k0 fs0 D d k' (gs @ fs)" unfolding restored_def using G(9,10) d by auto
  then show ?thesis using k'(1) by blast
qed

lemma alloc_fail_no_table:
  assumes inv: "vm_inv k0 fs0 D" and d: "d \<in> D" and kend: "KERNBASE < kend k0" and sz: "oldsz < newsz" "newsz \<le> KERNBASE"
    and g: "grown k0 fs0 D d S kg [f]" and S: "S \<subseteq> pages_in (PGROUNDUP oldsz) newsz"
    and np: "\<And>va. vpn va \<in> pages_in (PGROUNDUP oldsz) newsz \<Longrightarrow> pte (memory k0) d va = 0"
    and k: "vm_inv k [] D" "\<And>d' va. d' \<in> D \<Longrightarrow> pte (memory k) d' va = pte (memory kg) d' va"
      "\<And>d'. d' \<in> D \<Longrightarrow> table_pages (memory k) d' = table_pages (memory kg) d'" "kend k = kend kg"
  shows "\<exists>k1 k2 fs'. deallocuvm d newsz oldsz k = Ret (oldsz, k1) \<and> kfree f k1 = Ret k2 \<and> restored k0 fs0 D d k2 fs'"
proof -
  note G = grownD[OF g]
  obtain k1 gs where k1: "deallocuvm d newsz oldsz k = Ret (oldsz, k1)" "vm_inv k1 (gs @ []) D" "kend k1 = kend k0"
    "\<forall>d'\<in>D. \<forall>va. pte (memory k1) d' va = pte (memory k0) d' va"
    "\<forall>d'\<in>D. table_pages (memory k1) d' = table_pages (memory kg) d'" "set gs = {frame (memory kg) d va | va. vpn va \<in> S}"
    using dealloc_grown[OF inv d kend sz g S np k] by blast
  have f0: "f \<in> set fs0" using G(3) by simp
  have good: "good_frame k1 f" using f0 vm_invD(1)[OF inv] k1(3) by (auto simp: free_pages_def good_frame_def)
  have fg: "f \<notin> set (gs @ [])" using G(7) k1(6) by fastforce
  have fu: "\<not> user_frame (memory k1) D f" using vm_invD(5)[OF inv] f0 k1(4) by (auto simp: user_frame_def frame_def)
  have ft: "\<not> table_page (memory k1) D f" using k1(5) vm_invD(4)[OF G(1)] by (auto simp: table_page_def)
  from kfree_inv[OF k1(2) good fg ft fu] obtain k2 where k2: "kfree f k1 = Ret k2" "vm_inv k2 (f # gs) D"
    "\<forall>d\<in>D. \<forall>va. pte (memory k2) d va = pte (memory k1) d va" "\<forall>d\<in>D. table_pages (memory k2) d = table_pages (memory k1) d" "kend k2 = kend k1"
    by auto
  have "restored k0 fs0 D d k2 (f # gs)"
    unfolding restored_def using k2 k1(3-6) G(9,10) d by auto
  then show ?thesis using k1(1) k2(1) by blast
qed

lemma allocuvm_loop_ok:
  assumes inv: "vm_inv k0 fs0 D" and d: "d \<in> D" and kend: "KERNBASE < kend k0" and sz: "oldsz \<le> newsz" "newsz \<le> KERNBASE"
    and np: "\<And>va. vpn va \<in> pages_in (PGROUNDUP oldsz) newsz \<Longrightarrow> pte (memory k0) d va = 0"
  shows "grown k0 fs0 D d S k fs \<Longrightarrow> unat a mod 4096 = 0 \<Longrightarrow> unat newsz \<le> unat a + 4096 * n \<Longrightarrow>
    S \<union> pages_in a newsz = pages_in (PGROUNDUP oldsz) newsz \<Longrightarrow> S \<inter> pages_in a newsz = {} \<Longrightarrow>
    \<exists>r k' fs'. allocuvm_loop (Suc n) d a oldsz newsz k = Ret (r, k')
      \<and> (r = newsz \<and> grown k0 fs0 D d (pages_in (PGROUNDUP oldsz) newsz) k' fs' \<or> r = 0 \<and> restored k0 fs0 D d k' fs')"
proof (induction n arbitrary: a S k fs)
  case 0
  then have "\<not> a < newsz" "pages_in a newsz = {}" by (auto simp: word_less_nat_alt pages_in_def)
  then show ?case using 0 by auto
next
  case (Suc n)
  note G = grownD[OF Suc.prems(1)]
  show ?case
  proof (cases "a < newsz")
    case False
    then have "pages_in a newsz = {}" by (auto simp: word_less_nat_alt pages_in_def)
    then show ?thesis using False Suc.prems by auto
  next
    case lt: True
    have ns: "unat newsz \<le> 2147483648" using sz(2) by (simp add: word_le_nat_alt)
    note nx = pages_in_next[OF Suc.prems(2) lt ns]
    have au: "a < KERNBASE" using lt ns by (simp add: word_less_nat_alt)
    have aS: "vpn a \<notin> S" "vpn a \<in> pages_in (PGROUNDUP oldsz) newsz" using Suc.prems(4,5) nx(3) by blast+
    have npa: "\<not> present (pte (memory k) d a)" using G(6)[OF aS(1)] np[OF aS(2)] by simp
    have "oldsz \<noteq> newsz"
    proof
      assume e: "oldsz = newsz"
      have "unat newsz \<le> unat (PGROUNDUP oldsz)" using PGROUNDUP_unat[of oldsz] ns e by simp
      then show False using aS(2) by (simp add: pages_in_def)
    qed
    then have olt: "oldsz < newsz" using sz(1) by simp
    show ?thesis
    proof (cases fs)
      case Nil
      then have "kalloc k = (0, k)" using kalloc_inv_Nil G(1) by blast
      moreover obtain k' fs' where "deallocuvm d newsz oldsz k = Ret (oldsz, k')" "restored k0 fs0 D d k' fs'"
        using alloc_fail_no_page[OF inv d kend olt sz(2) Suc.prems(1) _ np] Suc.prems(4) by blast
      ultimately show ?thesis using lt by auto
    next
      case (Cons f fs1)
      let ?k1 = "k\<lparr>freelist := memory k f 0\<rparr>" and ?z = "zero_page f (k\<lparr>freelist := memory k f 0\<rparr>)"
      note st = grown_step[OF Suc.prems(1)[unfolded Cons] d Suc.prems(2) au aS(1) npa refl]
      from st(5) show ?thesis
      proof (elim disjE conjE exE)
        assume m: "fs1 = []" "mappages d a PGSIZE (V2P f) (PTE_W OR PTE_U) ?z = Ret (- 1, ?z)"
        have "kend ?z = kend k" by (simp add: zero_page_def)
        then obtain k1 k2 fs' where "deallocuvm d newsz oldsz ?z = Ret (oldsz, k1)" "kfree f k1 = Ret k2" "restored k0 fs0 D d k2 fs'"
          using alloc_fail_no_table[OF inv d kend olt sz(2) Suc.prems(1)[unfolded Cons m(1)] _ np st(3)[unfolded m(1)] st(6,7)] Suc.prems(4) by blast
        then show ?thesis using m(2) st(1,2) lt by auto
      next
        fix k' fs' assume m: "mappages d a PGSIZE (V2P f) (PTE_W OR PTE_U) ?z = Ret (0, k')" "grown k0 fs0 D d (insert (vpn a) S) k' fs'"
        have "unat newsz \<le> unat (a + 4096) + 4096 * n" using Suc.prems(3) nx(1) by simp
        from Suc.IH[OF m(2) nx(2) this] show ?thesis
          using m(1) st(1,2) lt Suc.prems(4,5) nx(3,4)
          by (auto simp del: allocuvm_loop.simps simp: allocuvm_loop.simps(2)[of "Suc n"])
      qed
    qed
  qed
qed

text \<open>
  (C40) \<open>allocuvm\<close> grows an address space or leaves it alone. Where the pages of the new range are
  not mapped, it returns the new size with every page of the range mapped user-writable to its own
  zeroed page that was free, or 0 with every translation of every address space as before. In both
  cases the free pages it consumed are exactly the new page tables and the pages mapped.
\<close>

theorem allocuvm_all_or_nothing:
  assumes "vm_inv k fs D" and "d \<in> D" and "KERNBASE < kend k" and "oldsz \<le> newsz" and "newsz < MMAPBASE"
    and "\<forall>va. vpn va \<in> pages_in (PGROUNDUP oldsz) newsz \<longrightarrow> pte (memory k) d va = 0"
  shows "\<exists>r k' fs'. allocuvm d oldsz newsz k = Ret (r, k')
    \<and> (r = newsz \<and> grown k fs D d (pages_in (PGROUNDUP oldsz) newsz) k' fs' \<or> r = 0 \<and> restored k fs D d k' fs')"
proof -
  have "MMAPBASE \<le> (KERNBASE :: u32)" by simp
  then have n: "newsz \<le> KERNBASE" using assms(5) by (meson less_imp_le order_trans)
  have "{} \<union> pages_in (PGROUNDUP oldsz) newsz = pages_in (PGROUNDUP oldsz) newsz" by simp
  note loop = allocuvm_loop_ok[OF assms(1-4) n _ grown_refl[OF assms(1)] PGROUNDUP_mod range_fuel this]
  have "\<not> newsz \<ge> MMAPBASE" "\<not> newsz < oldsz" using assms(4,5) by auto
  then have "allocuvm d oldsz newsz k
    = allocuvm_loop (Suc (unat (newsz - PGROUNDUP oldsz) div 4096 + 1)) d (PGROUNDUP oldsz) oldsz newsz k"
    by (simp add: allocuvm_def Let_def del: allocuvm_loop.simps)
  then show ?thesis using loop assms(6) by (simp del: allocuvm_loop.simps)
qed

text \<open>Mapping one page, as \<open>allocuvm\<close>, the page fault handler and \<open>fork\<close> use \<open>mappages\<close>:
  the page gets the given frame and permissions and no other translation of any address space
  changes; when a page table is needed and no page is free, the call returns -1 and nothing changes;
  a page that is already mapped makes the kernel panic.\<close>

theorem mappages_maps_one_page:
  assumes "vm_inv k fs D" and "d \<in> D" and "unat va mod 4096 = 0" and "unat perm < 4096"
    and "good_frame k mem" and "mem \<notin> set fs" and "\<forall>d'\<in>D. mem \<notin> table_pages (memory k) d'"
  shows "if present (pte (memory k) d va) then mappages d va PGSIZE (V2P mem) perm k = Panic ''remap''
    else (fs = [] \<and> mappages d va PGSIZE (V2P mem) perm k = Ret (- 1, k))
      \<or> (\<exists>k' us fs'. mappages d va PGSIZE (V2P mem) perm k = Ret (0, k') \<and> table_step k fs D d us k' fs'
          \<and> (\<forall>va'. pte (memory k') d va' = (if vpn va' = vpn va then V2P mem OR perm OR PTE_P else pte (memory k) d va'))
          \<and> (\<forall>d'\<in>D. d' \<noteq> d \<longrightarrow> (\<forall>va'. pte (memory k') d' va' = pte (memory k) d' va')))"
proof (cases "present (pte (memory k) d va)")
  case True
  then have "present (memory k d (PDX va))" by (auto simp: pte_def split: if_splits)
  then show ?thesis using True by (simp add: mappages_one[OF assms(3)] walk_present load_pte)
next
  case False
  then show ?thesis using mappages_page[OF assms(1-3) False assms(5-7,4)] by simp
qed

subsection \<open>A new address space\<close>

lemma zero_dir:
  assumes "m d = (\<lambda>_. 0)"
  shows "table_pages m d = {d}" and "pte m d va = 0" and "pgdir_ok m d"
  using assms by (simp_all add: table_pages_def pte_def pgdir_ok_def)

lemma vm_inv_new_space:
  assumes inv: "vm_inv k fs D" and d: "good_frame k d" "d \<notin> set fs" "\<not> table_page (memory k) D d" "\<not> user_frame (memory k) D d"
    and z: "memory k d = (\<lambda>_. 0)"
  shows "vm_inv k fs (insert d D)"
proof -
  note zd = zero_dir[of "memory k" d, OF z] and iv = vm_invD[OF inv]
  show ?thesis unfolding vm_inv_def
  proof (intro conjI)
    show "\<forall>a\<in>insert d D. \<forall>b\<in>insert d D. a \<noteq> b \<longrightarrow> table_pages (memory k) a \<inter> table_pages (memory k) b = {}"
      using zd(1) iv(3) d(3) by (auto simp: table_page_def)
    show "\<forall>a\<in>insert d D. \<forall>va<KERNBASE. present (pte (memory k) a va) \<longrightarrow> good_frame k (frame (memory k) a va)
        \<and> frame (memory k) a va \<notin> set fs \<and> (\<forall>d'\<in>insert d D. frame (memory k) a va \<notin> table_pages (memory k) d')"
      using zd(1,2) iv(5) d(4) by (auto simp: user_frame_def)
    show "\<forall>a\<in>insert d D. \<forall>p\<in>table_pages (memory k) a. good_frame k p \<and> p \<notin> set fs"
      using zd(1) iv(4) d(1,2) by auto
    show "\<forall>a\<in>insert d D. pgdir_ok (memory k) a" using zd(3) iv(2) by auto
  qed (rule iv(1))
qed

lemma vm_inv_one_space:
  assumes "free_pages k fs" and "good_frame k d" and "d \<notin> set fs" and "memory k d = (\<lambda>_. 0)"
  shows "vm_inv k fs {d}"
proof -
  have "vm_inv k fs {}" using assms(1) by (simp add: vm_inv_def)
  then show ?thesis using vm_inv_new_space[of k fs "{}" d] assms by (simp add: table_page_def user_frame_def)
qed

text \<open>A kernel with an empty directory and two free pages.\<close>

definition demo_kernel :: kernel where
  "demo_kernel = \<lparr>memory = (\<lambda>_ _. 0)(0x80400000 := (\<lambda>_. 0x80401000)), freelist = 0x80400000, use_lock = True, kend = 0x80110000\<rparr>"

lemma demo_kernel_inv: "vm_inv demo_kernel [0x80400000, 0x80401000] {0x80402000}"
  by (rule vm_inv_one_space) (simp_all add: demo_kernel_def free_pages_def good_frame_def)

lemma demo_kernel_empty: "pte (memory demo_kernel) 0x80402000 va = 0"
  by (rule zero_dir) (simp add: demo_kernel_def)

theorem mappages_maps_one_page_witness:
  "\<exists>k' us fs'. mappages 0x80402000 0x1000 PGSIZE (V2P 0x80500000) 6 demo_kernel = Ret (0, k')
     \<and> table_step demo_kernel [0x80400000, 0x80401000] {0x80402000} 0x80402000 us k' fs'
     \<and> pte (memory k') 0x80402000 0x1004 = 0x500007"
proof -
  have "\<forall>d'\<in>{0x80402000}. 0x80500000 \<notin> table_pages (memory demo_kernel) d'"
    by (simp add: zero_dir demo_kernel_def)
  moreover have "good_frame demo_kernel 0x80500000" by (simp add: good_frame_def demo_kernel_def)
  ultimately show ?thesis
    using mappages_maps_one_page[OF demo_kernel_inv, of "0x80402000" "0x1000" 6 "0x80500000"] demo_kernel_empty
    by (fastforce simp: vpn_def)
qed

theorem allocuvm_all_or_nothing_witness:
  "\<exists>r k' fs'. allocuvm 0x80402000 0 0x1000 demo_kernel = Ret (r, k')
    \<and> (r = 0x1000 \<and> grown demo_kernel [0x80400000, 0x80401000] {0x80402000} 0x80402000 (pages_in (PGROUNDUP 0) 0x1000) k' fs'
       \<or> r = 0 \<and> restored demo_kernel [0x80400000, 0x80401000] {0x80402000} 0x80402000 k' fs')"
  using allocuvm_all_or_nothing[OF demo_kernel_inv, of "0x80402000" 0 "0x1000"] demo_kernel_empty
  by (simp add: demo_kernel_def)

end
