(* ===== verification/Wmap.thy ===== *)
theory Wmap
  imports Vm
begin

text \<open>
  Memory mappings (wmap.c): the per-process array of regions with the list threaded through it,
  the system calls \<open>wmap\<close>, \<open>wunmap\<close>, \<open>wpunmap\<close>, \<open>getwmapinfo\<close> and \<open>getpgdirinfo\<close>, the page fault
  handler, and the parts of \<open>fork\<close> and \<open>exit\<close> that copy and delete mappings. A pointer to a region
  is its index in the array. Open files are numbers with a reference count (\<open>filedup\<close>,
  \<open>fileclose\<close>); reading, writing and the final close of their inode are operations of the file
  system, a record of functions on its state. Arguments arrive as the values that \<open>argint\<close> and
  \<open>argfd\<close> fetched. The list loops visit at most 16 regions of an acyclic list; the bound 17 is
  never reached on a well-formed process, and reaching it is divergence.
\<close>

abbreviation (input) MAP_PRIVATE :: int where "MAP_PRIVATE \<equiv> 1"
abbreviation (input) MAP_SHARED :: int where "MAP_SHARED \<equiv> 2"
abbreviation (input) MAP_ANONYMOUS :: int where "MAP_ANONYMOUS \<equiv> 4"
abbreviation (input) MAP_FIXED :: int where "MAP_FIXED \<equiv> 8"
abbreviation (input) MAX_NMMAP :: nat where "MAX_NMMAP \<equiv> 16"
abbreviation (input) FAILED :: int where "FAILED \<equiv> - 1"

subsection \<open>State\<close>

record mmap_region =
  mm_addr :: u32
  mm_length :: int
  mm_flags :: int
  mm_fd :: int
  mm_f :: "nat option"
  mm_refcnt :: int
  mm_n_loaded :: int
  mm_next :: "nat option"

record proc =
  pgdir :: u32
  kstack :: u32
  parent :: "nat option"
  mmaps :: "mmap_region list"
  mmap_head :: "nat option"
  total_mmaps :: int

record 'fs world =
  kern :: kernel
  procs :: "nat \<Rightarrow> proc"
  file_ref :: "nat \<Rightarrow> int"
  fsys :: 'fs

text \<open>
  The file system as this code uses it, on the inode of an open file: \<open>readi\<close> at an offset gives
  the bytes read or its error, \<open>writei\<close> gives its result and the new state, and \<open>iclose\<close> is what
  \<open>fileclose\<close> does when the last reference goes.
\<close>

record 'fs inode_ops =
  iread :: "'fs \<Rightarrow> nat \<Rightarrow> int \<Rightarrow> nat \<Rightarrow> byte list option"
  iwrite :: "'fs \<Rightarrow> nat \<Rightarrow> byte list \<Rightarrow> int \<Rightarrow> int \<times> 'fs"
  iclose :: "'fs \<Rightarrow> nat \<Rightarrow> 'fs"

definition filedup :: "nat \<Rightarrow> 'fs world \<Rightarrow> 'fs world outcome" where
  "filedup f w =
     (if file_ref w f < 1 then Panic ''filedup''
      else Ret (w\<lparr>file_ref := (file_ref w)(f := file_ref w f + 1)\<rparr>))"

definition fileclose :: "'fs inode_ops \<Rightarrow> nat \<Rightarrow> 'fs world \<Rightarrow> 'fs world outcome" where
  "fileclose io f w =
     (if file_ref w f < 1 then Panic ''fileclose''
      else let w1 = w\<lparr>file_ref := (file_ref w)(f := file_ref w f - 1)\<rparr>
           in if file_ref w1 f > 0 then Ret w1 else Ret (w1\<lparr>fsys := iclose io (fsys w1) f\<rparr>))"

definition filedup_opt :: "nat option \<Rightarrow> 'fs world \<Rightarrow> 'fs world outcome" where
  "filedup_opt f w = (case f of None \<Rightarrow> Ret w | Some x \<Rightarrow> filedup x w)"

definition fileclose_opt :: "'fs inode_ops \<Rightarrow> nat option \<Rightarrow> 'fs world \<Rightarrow> 'fs world outcome" where
  "fileclose_opt io f w = (case f of None \<Rightarrow> Ret w | Some x \<Rightarrow> fileclose io x w)"

definition set_proc :: "nat \<Rightarrow> proc \<Rightarrow> 'fs world \<Rightarrow> 'fs world" where
  "set_proc pid p w = w\<lparr>procs := (procs w)(pid := p)\<rparr>"

definition set_region :: "nat \<Rightarrow> mmap_region \<Rightarrow> proc \<Rightarrow> proc" where
  "set_region i r p = p\<lparr>mmaps := (mmaps p)[i := r]\<rparr>"

definition upd_region :: "nat \<Rightarrow> (mmap_region \<Rightarrow> mmap_region) \<Rightarrow> proc \<Rightarrow> proc" where
  "upd_region i g p = set_region i (g (mmaps p ! i)) p"

text \<open>The end of a region, \<open>addr + (uint)length\<close>.\<close>

definition mm_end :: "mmap_region \<Rightarrow> u32" where
  "mm_end r = mm_addr r + of_int (mm_length r)"

definition unused_region :: mmap_region where
  "unused_region = \<lparr>mm_addr = - 1, mm_length = - 1, mm_flags = - 1, mm_fd = - 1, mm_f = None,
     mm_refcnt = 0, mm_n_loaded = 0, mm_next = None\<rparr>"

definition init_one_mmap :: "nat \<Rightarrow> proc \<Rightarrow> proc" where
  "init_one_mmap i p = set_region i unused_region p"

definition init_mmaps :: "proc \<Rightarrow> proc" where
  "init_mmaps p = (fold init_one_mmap [0..<MAX_NMMAP] p)\<lparr>mmap_head := None, total_mmaps := 0\<rparr>"

subsection \<open>Placing a mapping\<close>

definition validate_input :: "u32 \<Rightarrow> int \<Rightarrow> int \<Rightarrow> nat option \<Rightarrow> int" where
  "validate_input addr len flags f =
     (let shared = (flags AND MAP_SHARED \<noteq> 0); priv = (flags AND MAP_PRIVATE \<noteq> 0)
      in if len \<le> 0 then - 1
         else if shared = priv then - 1
         else if flags AND MAP_ANONYMOUS = 0 \<and> f = None then - 1
         else if flags AND MAP_FIXED \<noteq> 0 \<and> addr mod PGSIZE \<noteq> 0 then - 1
         else if flags AND MAP_FIXED \<noteq> 0 \<and> (addr < MMAPBASE \<or> addr \<ge> KERNBASE) then - 1
         else if flags AND MAP_FIXED \<noteq> 0 \<and> addr + of_int len > KERNBASE then - 1
         else 0)"

fun find_unused :: "nat \<Rightarrow> mmap_region list \<Rightarrow> nat option" where
  "find_unused i [] = None"
| "find_unused i (r # rs) = (if mm_addr r = - 1 then Some i else find_unused (Suc i) rs)"

definition find_unused_mmap :: "proc \<Rightarrow> nat option" where
  "find_unused_mmap p = find_unused 0 (mmaps p)"

text \<open>The overlap test of \<open>fix_addr_place_mmap\<close>, on one region and along the list.\<close>

definition overlaps :: "u32 \<Rightarrow> u32 \<Rightarrow> mmap_region \<Rightarrow> bool" where
  "overlaps a e r \<longleftrightarrow> a < mm_end r \<and> e > mm_addr r"

fun any_overlap :: "nat \<Rightarrow> u32 \<Rightarrow> u32 \<Rightarrow> mmap_region list \<Rightarrow> nat option \<Rightarrow> bool outcome" where
  "any_overlap fuel a e ms None = Ret False"
| "any_overlap 0 a e ms (Some i) = Diverge"
| "any_overlap (Suc fuel) a e ms (Some i) =
     (if overlaps a e (ms ! i) then Ret True else any_overlap fuel a e ms (mm_next (ms ! i)))"

text \<open>The walk to the last region whose address is below \<open>a\<close>.\<close>

fun find_prev :: "nat \<Rightarrow> u32 \<Rightarrow> mmap_region list \<Rightarrow> nat \<Rightarrow> nat outcome" where
  "find_prev 0 a ms prev = Diverge"
| "find_prev (Suc fuel) a ms prev =
     (case mm_next (ms ! prev) of
        None \<Rightarrow> Ret prev
      | Some j \<Rightarrow> (if mm_addr (ms ! j) < a then find_prev fuel a ms j else Ret prev))"

definition fix_addr_place_mmap :: "proc \<Rightarrow> u32 \<Rightarrow> int \<Rightarrow> (nat option \<times> proc) outcome" where
  "fix_addr_place_mmap p a len =
     obind (any_overlap (Suc MAX_NMMAP) a (a + of_int len) (mmaps p) (mmap_head p)) (\<lambda>ov.
       if ov then Ret (None, p)
       else case find_unused_mmap p of
              None \<Rightarrow> Ret (None, p)
            | Some m \<Rightarrow>
                let p1 = upd_region m (\<lambda>r. r\<lparr>mm_addr := a\<rparr>) p
                in case mmap_head p1 of
                     None \<Rightarrow> Ret (Some m, (upd_region m (\<lambda>r. r\<lparr>mm_next := None\<rparr>) p1)\<lparr>mmap_head := Some m\<rparr>)
                   | Some h \<Rightarrow>
                       (if mm_addr (mmaps p1 ! h) > a
                        then Ret (Some m, (upd_region m (\<lambda>r. r\<lparr>mm_next := Some h\<rparr>) p1)\<lparr>mmap_head := Some m\<rparr>)
                        else obind (find_prev (Suc MAX_NMMAP) a (mmaps p1) h) (\<lambda>prev.
                               let p2 = upd_region m (\<lambda>r. r\<lparr>mm_next := mm_next (mmaps p1 ! prev)\<rparr>) p1
                               in Ret (Some m, upd_region prev (\<lambda>r. r\<lparr>mm_next := Some m\<rparr>) p2))))"

fun find_gap :: "nat \<Rightarrow> u32 \<Rightarrow> int \<Rightarrow> mmap_region list \<Rightarrow> nat option \<Rightarrow> u32 outcome" where
  "find_gap fuel start len ms None = Ret start"
| "find_gap 0 start len ms (Some i) = Diverge"
| "find_gap (Suc fuel) start len ms (Some i) =
     (if mm_addr (ms ! i) \<ge> start + of_int len then Ret start
      else let cend = mm_end (ms ! i);
               start1 = (if cend > start then cend else start);
               start2 = (if start1 mod PGSIZE \<noteq> 0 then PGROUNDUP start1 else start1)
           in find_gap fuel start2 len ms (mm_next (ms ! i)))"

definition find_addr_place_mmap :: "proc \<Rightarrow> int \<Rightarrow> (nat option \<times> proc) outcome" where
  "find_addr_place_mmap p len =
     obind (find_gap (Suc MAX_NMMAP) MMAPBASE len (mmaps p) (mmap_head p)) (\<lambda>start.
       if start + of_int len > KERNBASE then Ret (None, p)
       else fix_addr_place_mmap p start len)"

text \<open>
  \<open>sys_wmap\<close>; the file argument is the descriptor and the open file that \<open>argfd\<close> found, if any.
\<close>

definition sys_wmap :: "'fs inode_ops \<Rightarrow> nat \<Rightarrow> u32 \<Rightarrow> int \<Rightarrow> int \<Rightarrow> (int \<times> nat) option \<Rightarrow> 'fs world \<Rightarrow> (int \<times> 'fs world) outcome" where
  "sys_wmap io pid addr len flags fdarg w =
     (let fd = (case fdarg of None \<Rightarrow> - 1 | Some (n, _) \<Rightarrow> n); f = map_option snd fdarg
      in obind (filedup_opt f w) (\<lambda>w1.
           if validate_input addr len flags f < 0 then Ret (FAILED, w1)
           else let curproc = procs w1 pid
                in if total_mmaps curproc \<ge> int MAX_NMMAP
                   then obind (fileclose_opt io f w1) (\<lambda>w2. Ret (FAILED, w2))
                   else obind (if flags AND MAP_FIXED \<noteq> 0 then fix_addr_place_mmap curproc addr len
                               else find_addr_place_mmap curproc len) (\<lambda>(m, p1).
                     case m of
                       None \<Rightarrow> obind (fileclose_opt io f w1) (\<lambda>w2. Ret (FAILED, w2))
                     | Some i \<Rightarrow>
                         let p2 = upd_region i (\<lambda>r. r\<lparr>mm_length := len, mm_flags := flags, mm_fd := fd, mm_f := f,
                                                  mm_refcnt := 0, mm_n_loaded := 0\<rparr>) p1;
                             p3 = p2\<lparr>total_mmaps := total_mmaps p2 + 1\<rparr>
                         in Ret (sint (mm_addr (mmaps p3 ! i)), set_proc pid p3 w1))))"

subsection \<open>Unmapping\<close>

text \<open>
  \<open>write_to_file\<close>, from the page that holds the user address; \<open>MAXOPBLOCKS\<close> is 10, so a round
  writes at most 1536 bytes. Every round but the last writes that much, so \<open>n + 1\<close> rounds are enough.
\<close>

definition page_bytes :: "(nat \<Rightarrow> u32) \<Rightarrow> nat \<Rightarrow> nat \<Rightarrow> byte list" where
  "page_bytes pg i n = map (get_byte pg) [i..<i + n]"

fun write_to_file_loop :: "nat \<Rightarrow> 'fs inode_ops \<Rightarrow> nat \<Rightarrow> (nat \<Rightarrow> u32) \<Rightarrow> int \<Rightarrow> nat \<Rightarrow> nat \<Rightarrow> 'fs \<Rightarrow> (nat \<times> 'fs) outcome" where
  "write_to_file_loop 0 io f pg offset i n fs = Diverge"
| "write_to_file_loop (Suc fuel) io f pg offset i n fs =
     (if \<not> i < n then Ret (i, fs)
      else let n1 = min (n - i) 1536;
               (r, fs1) = iwrite io fs f (page_bytes pg i n1) offset;
               offset1 = (if r > 0 then offset + r else offset)
           in if r < 0 then Ret (i, fs1)
              else if r \<noteq> int n1 then Panic ''wmap: short filewrite''
              else write_to_file_loop fuel io f pg offset1 (i + n1) n fs1)"

definition write_to_file :: "'fs inode_ops \<Rightarrow> nat \<Rightarrow> (nat \<Rightarrow> u32) \<Rightarrow> int \<Rightarrow> nat \<Rightarrow> 'fs \<Rightarrow> (int \<times> 'fs) outcome" where
  "write_to_file io f pg offset n fs =
     obind (write_to_file_loop (Suc n) io f pg offset 0 n fs) (\<lambda>(i, fs1).
       Ret (if i = n then int n else - 1, fs1))"

text \<open>
  The loop that \<open>remove_map\<close>, \<open>delete_mmaps\<close> and \<open>sys_wpunmap\<close> share: for every mapped page of the
  range, write it back to \<open>wb\<close> (the file, if the mapping is to be written back) at its offset from
  \<open>base\<close>, free the page if \<open>fr\<close>, and clear the entry. It returns the number of pages unmapped.
\<close>

definition write_back :: "'fs inode_ops \<Rightarrow> nat option \<Rightarrow> (nat \<Rightarrow> u32) \<Rightarrow> int \<Rightarrow> 'fs \<Rightarrow> 'fs outcome" where
  "write_back io wb pg offset fs =
     (case wb of
        None \<Rightarrow> Ret fs
      | Some f \<Rightarrow> obind (write_to_file io f pg offset 4096 fs) (\<lambda>(_, fs1). Ret fs1))"

fun unmap_range :: "nat \<Rightarrow> 'fs inode_ops \<Rightarrow> u32 \<Rightarrow> u32 \<Rightarrow> nat option \<Rightarrow> bool \<Rightarrow> u32 \<Rightarrow> u32 \<Rightarrow> kernel \<times> 'fs \<Rightarrow> (int \<times> kernel \<times> 'fs) outcome" where
  "unmap_range 0 io d base wb fr va e s = Diverge"
| "unmap_range (Suc fuel) io d base wb fr va e (k, fs) =
     (if \<not> va < e then Ret (0, k, fs)
      else case fst (walkpgdir d va False k) of
             None \<Rightarrow> unmap_range fuel io d base wb fr (va + PGSIZE) e (k, fs)
           | Some ptep \<Rightarrow>
               (if \<not> present (load ptep k) then unmap_range fuel io d base wb fr (va + PGSIZE) e (k, fs)
                else let pa = PTE_ADDR (load ptep k)
                     in obind (write_back io wb (memory k (P2V pa)) (sint (va - base)) fs) (\<lambda>fs1.
                        obind (if fr then kfree (P2V pa) k else Ret k) (\<lambda>k1.
                        obind (unmap_range fuel io d base wb fr (va + PGSIZE) e (store ptep 0 k1, fs1)) (\<lambda>(c, s1).
                          Ret (c + 1, s1))))))"

text \<open>The file a mapping is written back to: it is shared and not anonymous.\<close>

definition wb_file :: "mmap_region \<Rightarrow> nat option" where
  "wb_file r = (if mm_flags r AND MAP_ANONYMOUS = 0 \<and> mm_flags r AND MAP_SHARED \<noteq> 0 then mm_f r else None)"

definition unmap_pages :: "'fs inode_ops \<Rightarrow> u32 \<Rightarrow> u32 \<Rightarrow> nat option \<Rightarrow> bool \<Rightarrow> u32 \<Rightarrow> u32 \<Rightarrow> 'fs world \<Rightarrow> (int \<times> 'fs world) outcome" where
  "unmap_pages io d base wb fr va e w =
     obind (unmap_range (unat (e - va) div 4096 + 2) io d base wb fr va e (kern w, fsys w)) (\<lambda>(c, k, fs).
       Ret (c, w\<lparr>kern := k, fsys := fs\<rparr>))"

text \<open>The search of \<open>remove_map\<close>: the region that starts at \<open>a\<close> and the one before it in the list.\<close>

fun find_at :: "nat \<Rightarrow> u32 \<Rightarrow> mmap_region list \<Rightarrow> nat option \<Rightarrow> nat option \<Rightarrow> (nat option \<times> nat option) outcome" where
  "find_at fuel a ms prev None = Ret (prev, None)"
| "find_at 0 a ms prev (Some i) = Diverge"
| "find_at (Suc fuel) a ms prev (Some i) =
     (if mm_addr (ms ! i) = a then Ret (prev, Some i) else find_at fuel a ms (Some i) (mm_next (ms ! i)))"

definition unlink_region :: "nat option \<Rightarrow> nat \<Rightarrow> proc \<Rightarrow> proc" where
  "unlink_region prev i p =
     (case prev of
        None \<Rightarrow> p\<lparr>mmap_head := mm_next (mmaps p ! i)\<rparr>
      | Some j \<Rightarrow> upd_region j (\<lambda>r. r\<lparr>mm_next := mm_next (mmaps p ! i)\<rparr>) p)"

definition remove_map :: "'fs inode_ops \<Rightarrow> nat \<Rightarrow> u32 \<Rightarrow> 'fs world \<Rightarrow> (int \<times> 'fs world) outcome" where
  "remove_map io pid a w =
     (let curproc = procs w pid
      in obind (find_at (Suc MAX_NMMAP) a (mmaps curproc) None (mmap_head curproc)) (\<lambda>(prev, found).
           case found of
             None \<Rightarrow> Ret (- 1, w)
           | Some i \<Rightarrow>
               let r = mmaps curproc ! i
               in obind (unmap_pages io (pgdir curproc) (mm_addr r) (wb_file r) (mm_refcnt r = 0) (mm_addr r) (mm_end r) w) (\<lambda>(_, w1).
                  obind (if mm_refcnt r = 0 then fileclose_opt io (mm_f r) w1 else Ret w1) (\<lambda>w2.
                    let p1 = unlink_region prev i curproc;
                        p2 = p1\<lparr>total_mmaps := total_mmaps p1 - 1\<rparr>;
                        p3 = init_one_mmap i p2
                    in obind (switchuvm (kstack p3) (pgdir p3)) (\<lambda>_. Ret (0, set_proc pid p3 w2))))))"

definition sys_wunmap :: "'fs inode_ops \<Rightarrow> nat \<Rightarrow> u32 \<Rightarrow> 'fs world \<Rightarrow> (int \<times> 'fs world) outcome" where
  "sys_wunmap io pid a w =
     (if a mod PGSIZE \<noteq> 0 then Ret (FAILED, w)
      else obind (remove_map io pid a w) (\<lambda>(r, w1). if r < 0 then Ret (FAILED, w1) else Ret (0, w1)))"

subsection \<open>Unmapping a part\<close>

fun count_loaded_loop :: "nat \<Rightarrow> u32 \<Rightarrow> u32 \<Rightarrow> u32 \<Rightarrow> kernel \<Rightarrow> int outcome" where
  "count_loaded_loop 0 d va e k = Diverge"
| "count_loaded_loop (Suc fuel) d va e k =
     (if \<not> va < e then Ret 0
      else obind (count_loaded_loop fuel d (va + PGSIZE) e k) (\<lambda>c.
             case fst (walkpgdir d va False k) of
               None \<Rightarrow> Ret c
             | Some ptep \<Rightarrow> Ret (if present (load ptep k) then c + 1 else c)))"

definition count_loaded_pages :: "u32 \<Rightarrow> u32 \<Rightarrow> u32 \<Rightarrow> kernel \<Rightarrow> int outcome" where
  "count_loaded_pages d start e k = count_loaded_loop (unat (e - start) div 4096 + 2) d start e k"

fun find_covering :: "nat \<Rightarrow> u32 \<Rightarrow> u32 \<Rightarrow> mmap_region list \<Rightarrow> nat option \<Rightarrow> nat option outcome" where
  "find_covering fuel a e ms None = Ret None"
| "find_covering 0 a e ms (Some i) = Diverge"
| "find_covering (Suc fuel) a e ms (Some i) =
     (if mm_addr (ms ! i) \<le> a \<and> mm_end (ms ! i) \<ge> e then Ret (Some i)
      else find_covering fuel a e ms (mm_next (ms ! i)))"

text \<open>The split of \<open>sys_wpunmap\<close>; it runs after the pages are unmapped.\<close>

definition split_mapping :: "nat \<Rightarrow> nat \<Rightarrow> u32 \<Rightarrow> int \<Rightarrow> 'fs world \<Rightarrow> (int \<times> 'fs world) outcome" where
  "split_mapping pid i a len w =
     (let p = procs w pid; r = mmaps p ! i
      in case find_unused_mmap p of
           None \<Rightarrow> Ret (FAILED, w)
         | Some n \<Rightarrow>
             let new_addr = a + of_int len;
                 new_length = sint (mm_end r - new_addr);
                 r1 = r\<lparr>mm_length := sint (a - mm_addr r)\<rparr>
             in obind (filedup_opt (mm_f r) w) (\<lambda>w1.
                obind (count_loaded_pages (pgdir p) new_addr (new_addr + of_int new_length) (kern w1)) (\<lambda>c1.
                obind (count_loaded_pages (pgdir p) (mm_addr r1) (mm_end r1) (kern w1)) (\<lambda>c2.
                  let r2 = r1\<lparr>mm_n_loaded := c2, mm_next := Some n\<rparr>;
                      nr = \<lparr>mm_addr = new_addr, mm_length = new_length, mm_flags = mm_flags r, mm_fd = mm_fd r,
                            mm_f = mm_f r, mm_refcnt = mm_refcnt r, mm_n_loaded = c1, mm_next = mm_next r\<rparr>;
                      p1 = set_region n nr (set_region i r2 p);
                      p2 = p1\<lparr>total_mmaps := total_mmaps p1 + 1\<rparr>
                  in Ret (0, set_proc pid p2 w1)))))"

definition sys_wpunmap :: "'fs inode_ops \<Rightarrow> nat \<Rightarrow> u32 \<Rightarrow> int \<Rightarrow> 'fs world \<Rightarrow> (int \<times> 'fs world) outcome" where
  "sys_wpunmap io pid a len w =
     (if (a + of_int len) mod PGSIZE \<noteq> 0 then Ret (FAILED, w)
      else if len \<le> 0 then Ret (FAILED, w)
      else if a mod PGSIZE \<noteq> 0 then Ret (FAILED, w)
      else let curproc = procs w pid; e = a + of_int len
           in obind (find_covering (Suc MAX_NMMAP) a e (mmaps curproc) (mmap_head curproc)) (\<lambda>found.
                case found of
                  None \<Rightarrow> Ret (FAILED, w)
                | Some i \<Rightarrow>
                    let r = mmaps curproc ! i
                    in obind (unmap_pages io (pgdir curproc) (mm_addr r) (wb_file r) True a e w) (\<lambda>(c, w1).
                       let r1 = r\<lparr>mm_n_loaded := mm_n_loaded r - c\<rparr>;
                           p1 = set_region i r1 curproc
                       in obind (if a = mm_addr r
                                 then Ret (0, set_proc pid (set_region i (r1\<lparr>mm_addr := e, mm_length := mm_length r - len\<rparr>) p1) w1)
                                 else if e = mm_end r
                                 then Ret (0, set_proc pid (set_region i (r1\<lparr>mm_length := mm_length r - len\<rparr>) p1) w1)
                                 else split_mapping pid i a len (set_proc pid p1 w1)) (\<lambda>(res, w2).
                            if res < 0 then Ret (FAILED, w2)
                            else obind (switchuvm (kstack curproc) (pgdir curproc)) (\<lambda>_. Ret (0, w2))))))"

subsection \<open>Information\<close>

text \<open>\<open>sys_getwmapinfo\<close>: the total and the first 16 regions of the list.\<close>

fun mapping_rows :: "nat \<Rightarrow> mmap_region list \<Rightarrow> nat option \<Rightarrow> (int \<times> int \<times> int \<times> int \<times> int \<times> int) list" where
  "mapping_rows 0 ms h = []"
| "mapping_rows (Suc n) ms h =
     (case h of
        None \<Rightarrow> []
      | Some i \<Rightarrow>
          (let r = ms ! i
           in (sint (mm_addr r), mm_length r, mm_flags r, mm_fd r, mm_refcnt r, mm_n_loaded r) # mapping_rows n ms (mm_next r)))"

definition sys_getwmapinfo :: "nat \<Rightarrow> 'fs world \<Rightarrow> int \<times> (int \<times> int \<times> int \<times> int \<times> int \<times> int) list" where
  "sys_getwmapinfo pid w = (let p = procs w pid in (total_mmaps p, mapping_rows MAX_NMMAP (mmaps p) (mmap_head p)))"

text \<open>\<open>sys_getpgdirinfo\<close>: the number of user pages and the first 32 of them.\<close>

fun user_pages_loop :: "nat \<Rightarrow> u32 \<Rightarrow> u32 \<Rightarrow> kernel \<Rightarrow> (u32 \<times> u32) list" where
  "user_pages_loop 0 d va k = []"
| "user_pages_loop (Suc n) d va k =
     (let rest = user_pages_loop n d (va + PGSIZE) k
      in case fst (walkpgdir d va False k) of
           None \<Rightarrow> rest
         | Some ptep \<Rightarrow>
             (if present (load ptep k) \<and> load ptep k AND PTE_U \<noteq> 0 then (va, PTE_ADDR (load ptep k)) # rest else rest))"

definition sys_getpgdirinfo :: "nat \<Rightarrow> 'fs world \<Rightarrow> nat \<times> (u32 \<times> u32) list" where
  "sys_getpgdirinfo pid w =
     (let l = user_pages_loop 524288 (pgdir (procs w pid)) 0 (kern w) in (length l, take 32 l))"

definition get_physical_page :: "u32 \<Rightarrow> u32 \<Rightarrow> kernel \<Rightarrow> u32 \<times> pte_ptr option" where
  "get_physical_page d va k =
     (case fst (walkpgdir d va False k) of
        None \<Rightarrow> (0, None)
      | Some ptep \<Rightarrow> (if \<not> present (load ptep k) then (0, None) else (PTE_ADDR (load ptep k), Some ptep)))"

subsection \<open>Demand allocation\<close>

fun find_containing :: "nat \<Rightarrow> u32 \<Rightarrow> mmap_region list \<Rightarrow> nat option \<Rightarrow> nat option outcome" where
  "find_containing fuel va ms None = Ret None"
| "find_containing 0 va ms (Some i) = Diverge"
| "find_containing (Suc fuel) va ms (Some i) =
     (if va \<ge> mm_addr (ms ! i) \<and> va < mm_end (ms ! i) then Ret (Some i)
      else find_containing fuel va ms (mm_next (ms ! i)))"

text \<open>
  \<open>handle_page_fault\<close>; \<open>readi\<close> copies into the user address, which is the page just mapped.
\<close>

definition handle_page_fault :: "'fs inode_ops \<Rightarrow> nat \<Rightarrow> u32 \<Rightarrow> 'fs world \<Rightarrow> (int \<times> 'fs world) outcome" where
  "handle_page_fault io pid pgflt_vaddr w =
     (let curproc = procs w pid; va = PGROUNDDOWN pgflt_vaddr
      in obind (find_containing (Suc MAX_NMMAP) va (mmaps curproc) (mmap_head curproc)) (\<lambda>found.
           case found of
             None \<Rightarrow> Ret (FAILED, w)
           | Some i \<Rightarrow>
               let r = mmaps curproc ! i; (mem, k1) = kalloc (kern w)
               in if mem = 0 then Ret (FAILED, w\<lparr>kern := k1\<rparr>)
                  else obind (mappages (pgdir curproc) va PGSIZE (V2P mem) (PTE_W OR PTE_U) (zero_page mem k1)) (\<lambda>(res, k2).
                    if res < 0 then obind (kfree mem k2) (\<lambda>k3. Ret (FAILED, w\<lparr>kern := k3\<rparr>))
                    else let loaded = (\<lambda>k. Ret (0, set_proc pid (upd_region i (\<lambda>r. r\<lparr>mm_n_loaded := mm_n_loaded r + 1\<rparr>) curproc)
                                                       (w\<lparr>kern := k\<rparr>)))
                         in if mm_flags r AND MAP_ANONYMOUS = 0 \<and> mm_f r \<noteq> None
                            then case iread io (fsys w) (the (mm_f r)) (sint (va - mm_addr r)) 4096 of
                                   None \<Rightarrow> Ret (FAILED, w\<lparr>kern := k2\<rparr>)
                                 | Some bs \<Rightarrow> loaded (write_page mem 0 bs k2)
                            else loaded k2)))"

subsection \<open>fork\<close>

text \<open>The page loops of \<open>copy_maps\<close>; they return the number of pages mapped in the child, or failure.\<close>

fun share_pages :: "nat \<Rightarrow> u32 \<Rightarrow> u32 \<Rightarrow> u32 \<Rightarrow> u32 \<Rightarrow> int \<Rightarrow> kernel \<Rightarrow> (int option \<times> kernel) outcome" where
  "share_pages 0 pd cd va e c k = Diverge"
| "share_pages (Suc fuel) pd cd va e c k =
     (if \<not> va < e then Ret (Some c, k)
      else case fst (walkpgdir pd va False k) of
             None \<Rightarrow> share_pages fuel pd cd (va + PGSIZE) e c k
           | Some ptep \<Rightarrow>
               (if \<not> present (load ptep k) then share_pages fuel pd cd (va + PGSIZE) e c k
                else obind (mappages cd va PGSIZE (PTE_ADDR (load ptep k)) (PTE_W OR PTE_U) k) (\<lambda>(res, k1).
                       if res < 0 then Ret (None, k1) else share_pages fuel pd cd (va + PGSIZE) e (c + 1) k1)))"

fun copy_pages :: "nat \<Rightarrow> u32 \<Rightarrow> u32 \<Rightarrow> u32 \<Rightarrow> u32 \<Rightarrow> int \<Rightarrow> kernel \<Rightarrow> (int option \<times> kernel) outcome" where
  "copy_pages 0 pd cd va e c k = Diverge"
| "copy_pages (Suc fuel) pd cd va e c k =
     (if \<not> va < e then Ret (Some c, k)
      else case fst (walkpgdir pd va False k) of
             None \<Rightarrow> copy_pages fuel pd cd (va + PGSIZE) e c k
           | Some ptep \<Rightarrow>
               (if \<not> present (load ptep k) then copy_pages fuel pd cd (va + PGSIZE) e c k
                else let pa = PTE_ADDR (load ptep k); (mem, k1) = kalloc k
                     in if mem = 0 then Ret (None, k1)
                        else obind (mappages cd va PGSIZE (V2P mem) (PTE_W OR PTE_U) (copy_page mem (P2V pa) k1)) (\<lambda>(res, k2).
                               if res < 0 then obind (kfree mem k2) (\<lambda>k3. Ret (None, k3))
                               else copy_pages fuel pd cd (va + PGSIZE) e (c + 1) k2)))"

text \<open>
  \<open>copy_maps\<close>. A failure leaves the child as it is at that point, with the region being copied
  filled in but not linked.
\<close>

fun copy_maps_loop :: "nat \<Rightarrow> nat \<Rightarrow> nat \<Rightarrow> nat option \<Rightarrow> nat option \<Rightarrow> 'fs world \<Rightarrow> (int \<times> 'fs world) outcome" where
  "copy_maps_loop fuel ppid cpid child_prev None w = Ret (0, w)"
| "copy_maps_loop 0 ppid cpid child_prev (Some i) w = Diverge"
| "copy_maps_loop (Suc fuel) ppid cpid child_prev (Some i) w =
     (let pr = procs w ppid; r = mmaps pr ! i; child = procs w cpid
      in case find_unused_mmap child of
           None \<Rightarrow> Ret (FAILED, w)
         | Some c \<Rightarrow>
             obind (filedup_opt (mm_f r) w) (\<lambda>w1.
               let r1 = r\<lparr>mm_refcnt := 0, mm_n_loaded := 0, mm_next := None\<rparr>;
                   shared = (mm_flags r AND MAP_SHARED \<noteq> 0);
                   pages = (if shared then share_pages else copy_pages)
               in obind (pages (unat (mm_end r - mm_addr r) div 4096 + 2) (pgdir pr) (pgdir child) (mm_addr r) (mm_end r) 0 (kern w1)) (\<lambda>(n, k1).
                    case n of
                      None \<Rightarrow> Ret (FAILED, set_proc cpid (set_region c r1 child) (w1\<lparr>kern := k1\<rparr>))
                    | Some cnt \<Rightarrow>
                        let r2 = r1\<lparr>mm_n_loaded := cnt, mm_refcnt := (if shared then 1 else 0)\<rparr>;
                            c1 = set_region c r2 child;
                            c2 = (if mmap_head c1 = None then c1\<lparr>mmap_head := Some c\<rparr>
                                  else upd_region (the child_prev) (\<lambda>q. q\<lparr>mm_next := Some c\<rparr>) c1);
                            c3 = c2\<lparr>total_mmaps := total_mmaps c2 + 1\<rparr>
                        in copy_maps_loop fuel ppid cpid (Some c) (mm_next r) (set_proc cpid c3 (w1\<lparr>kern := k1\<rparr>)))))"

definition copy_maps :: "nat \<Rightarrow> nat \<Rightarrow> 'fs world \<Rightarrow> (int \<times> 'fs world) outcome" where
  "copy_maps ppid cpid w = copy_maps_loop (Suc MAX_NMMAP) ppid cpid None (mmap_head (procs w ppid)) w"

subsection \<open>exit\<close>

fun parent_deref :: "nat \<Rightarrow> u32 \<Rightarrow> nat option \<Rightarrow> proc \<Rightarrow> proc outcome" where
  "parent_deref fuel a None p = Ret p"
| "parent_deref 0 a (Some i) p = Diverge"
| "parent_deref (Suc fuel) a (Some i) p =
     (if mm_addr (mmaps p ! i) = a
      then Ret (if mm_refcnt (mmaps p ! i) > 0 then upd_region i (\<lambda>r. r\<lparr>mm_refcnt := mm_refcnt r - 1\<rparr>) p else p)
      else parent_deref fuel a (mm_next (mmaps p ! i)) p)"

fun delete_loop :: "nat \<Rightarrow> 'fs inode_ops \<Rightarrow> nat \<Rightarrow> nat option \<Rightarrow> 'fs world \<Rightarrow> 'fs world outcome" where
  "delete_loop fuel io pid None w = Ret w"
| "delete_loop 0 io pid (Some i) w = Diverge"
| "delete_loop (Suc fuel) io pid (Some i) w =
     (let p = procs w pid; r = mmaps p ! i
      in obind (unmap_pages io (pgdir p) (mm_addr r) (if mm_refcnt r = 0 then wb_file r else None) (mm_refcnt r = 0)
                 (mm_addr r) (mm_end r) w) (\<lambda>(_, w1).
         obind (if mm_flags r AND MAP_SHARED \<noteq> 0 \<and> mm_refcnt r = 1 \<and> parent p \<noteq> None
                then obind (parent_deref (Suc MAX_NMMAP) (mm_addr r) (mmap_head (procs w1 (the (parent p)))) (procs w1 (the (parent p))))
                       (\<lambda>q. Ret (set_proc (the (parent p)) q w1))
                else Ret w1) (\<lambda>w2.
         obind (if mm_refcnt r = 0 then fileclose_opt io (mm_f r) w2 else Ret w2) (\<lambda>w3.
           delete_loop fuel io pid (mm_next r) (set_proc pid (init_one_mmap i (procs w3 pid)) w3)))))"

definition delete_mmaps :: "'fs inode_ops \<Rightarrow> nat \<Rightarrow> 'fs world \<Rightarrow> (int \<times> 'fs world) outcome" where
  "delete_mmaps io pid w =
     obind (delete_loop (Suc MAX_NMMAP) io pid (mmap_head (procs w pid)) w) (\<lambda>w1.
       Ret (0, set_proc pid ((procs w1 pid)\<lparr>mmap_head := None, total_mmaps := 0\<rparr>) w1))"

end
