(* ===== verification/Wmap_Regions.thy ===== *)
theory Wmap_Regions
  imports Wmap
begin

text \<open>
  The regions of a process (wmap.c): the list threaded through the array of regions, the invariant
  that the regions are in range, page aligned, in order of address and pairwise disjoint, and what
  the placement of a mapping does to them. Addresses are compared as integers.
\<close>

subsection \<open>The list of regions\<close>

fun chain :: "mmap_region list \<Rightarrow> nat option \<Rightarrow> nat list \<Rightarrow> bool" where
  "chain ms h [] \<longleftrightarrow> h = None"
| "chain ms h (i # is) \<longleftrightarrow> h = Some i \<and> i < length ms \<and> chain ms (mm_next (ms ! i)) is"

lemma chain_cong:
  "length ms' = length ms \<Longrightarrow> (\<And>i. i \<in> set is \<Longrightarrow> mm_next (ms' ! i) = mm_next (ms ! i)) \<Longrightarrow> chain ms' h is = chain ms h is"
  by (induction "is" arbitrary: h) auto

lemma chain_bound: "chain ms h is \<Longrightarrow> i \<in> set is \<Longrightarrow> i < length ms"
  by (induction "is" arbitrary: h) auto

text \<open>What the loops over the list compute.\<close>

lemma any_overlap_chain:
  "chain ms h is \<Longrightarrow> length is \<le> fuel \<Longrightarrow> any_overlap fuel a e ms h = Ret (\<exists>i\<in>set is. overlaps a e (ms ! i))"
proof (induction "is" arbitrary: h fuel)
  case Nil
  then show ?case by simp
next
  case (Cons i "is")
  then show ?case by (cases fuel) auto
qed

lemma find_containing_chain:
  "chain ms h is \<Longrightarrow> length is \<le> fuel \<Longrightarrow>
   find_containing fuel va ms h = Ret (find (\<lambda>i. va \<ge> mm_addr (ms ! i) \<and> va < mm_end (ms ! i)) is)"
proof (induction "is" arbitrary: h fuel)
  case Nil
  then show ?case by simp
next
  case (Cons i "is")
  then show ?case by (cases fuel) auto
qed

lemma find_covering_chain:
  "chain ms h is \<Longrightarrow> length is \<le> fuel \<Longrightarrow>
   find_covering fuel a e ms h = Ret (find (\<lambda>i. mm_addr (ms ! i) \<le> a \<and> mm_end (ms ! i) \<ge> e) is)"
proof (induction "is" arbitrary: h fuel)
  case Nil
  then show ?case by simp
next
  case (Cons i "is")
  then show ?case by (cases fuel) auto
qed

lemma find_prev_chain:
  "chain ms (mm_next (ms ! j)) is \<Longrightarrow> length is < fuel \<Longrightarrow>
   find_prev fuel a ms j = Ret (last (j # takeWhile (\<lambda>i. mm_addr (ms ! i) < a) is))"
proof (induction "is" arbitrary: j fuel)
  case Nil
  then show ?case by (cases fuel) auto
next
  case (Cons i "is")
  then show ?case by (cases fuel) auto
qed

lemma find_at_chain:
  assumes "chain ms h is" and "length is \<le> fuel" and "distinct is"
  shows "(\<forall>i\<in>set is. mm_addr (ms ! i) \<noteq> a) \<Longrightarrow> \<exists>q. find_at fuel a ms prev h = Ret (q, None)"
    and "is = xs @ i # ys \<Longrightarrow> mm_addr (ms ! i) = a \<Longrightarrow> (\<forall>j\<in>set xs. mm_addr (ms ! j) \<noteq> a) \<Longrightarrow>
      find_at fuel a ms prev h = Ret (if xs = [] then prev else Some (last xs), Some i)"
  using assms
proof (induction "is" arbitrary: h fuel prev xs)
  case Nil
  { case 1 then show ?case by simp
  next
    case 2 then show ?case by simp }
next
  case (Cons k "is")
  { case 1
    then show ?case using Cons.IH(1)[of "mm_next (ms ! k)" "fuel - 1" "Some k"] by (cases fuel) auto
  next
    case 2
    then show ?case
      using Cons.IH(2)[of "tl xs" "mm_next (ms ! k)" "fuel - 1" "Some k"] by (cases fuel; cases xs) auto }
qed

lemma find_unused_None: "find_unused i ms = None \<longleftrightarrow> (\<forall>r\<in>set ms. mm_addr r \<noteq> - 1)"
  by (induction ms arbitrary: i) auto

lemma find_unused_Some: "find_unused i ms = Some j \<Longrightarrow> i \<le> j \<and> j < i + length ms \<and> mm_addr (ms ! (j - i)) = - 1"
proof (induction ms arbitrary: i)
  case (Cons r ms)
  show ?case
  proof (cases "mm_addr r = - 1")
    case False
    then have "Suc i \<le> j \<and> j < Suc i + length ms \<and> mm_addr (ms ! (j - Suc i)) = - 1"
      using Cons.IH[of "Suc i"] Cons.prems by simp
    then show ?thesis by (auto simp: nth_Cons')
  qed (use Cons.prems in simp)
qed simp

subsection \<open>The invariant\<close>

definition A :: "mmap_region \<Rightarrow> int" where
  "A r = uint (mm_addr r)"

definition region_ok :: "mmap_region \<Rightarrow> bool" where
  "region_ok r \<longleftrightarrow> 0x60000000 \<le> A r \<and> A r mod 4096 = 0 \<and> 0 < mm_length r \<and> A r + mm_length r \<le> 0x80000000"

text \<open>Two ranges of addresses overlap, as the code tests it.\<close>

definition meets :: "int \<Rightarrow> int \<Rightarrow> mmap_region \<Rightarrow> bool" where
  "meets a e r \<longleftrightarrow> a < A r + mm_length r \<and> A r < e"

definition mm_inv :: "proc \<Rightarrow> nat list \<Rightarrow> bool" where
  "mm_inv p is \<longleftrightarrow> length (mmaps p) = MAX_NMMAP \<and> chain (mmaps p) (mmap_head p) is \<and> distinct is
     \<and> (\<forall>i<MAX_NMMAP. mm_addr (mmaps p ! i) \<noteq> - 1 \<longleftrightarrow> i \<in> set is)
     \<and> total_mmaps p = int (length is)
     \<and> sorted (map (\<lambda>i. A (mmaps p ! i)) is)
     \<and> (\<forall>i\<in>set is. region_ok (mmaps p ! i))
     \<and> (\<forall>i\<in>set is. \<forall>j\<in>set is. i \<noteq> j \<longrightarrow>
          \<not> meets (A (mmaps p ! i)) (A (mmaps p ! i) + mm_length (mmaps p ! i)) (mmaps p ! j))"

lemma uint_add_len:
  assumes "0 \<le> len" and "uint a + len < 2 ^ 32"
  shows "uint (a + of_int len :: u32) = uint a + len"
proof -
  have "len < 2 ^ 32" using assms(2) unsigned_greater_eq[of a, where ?'a = int] by linarith
  then have "uint (of_int len :: u32) = len" using assms(1) by (simp add: uint_word_of_int_eq take_bit_int_eq_self)
  then show ?thesis using assms by (simp add: uint_plus_if')
qed

lemma mm_end_uint: "region_ok r \<Longrightarrow> uint (mm_end r) = A r + mm_length r"
  unfolding mm_end_def region_ok_def A_def by (intro uint_add_len) simp_all

lemma region_ok_used: "region_ok r \<Longrightarrow> mm_addr r \<noteq> - 1"
  by (auto simp: region_ok_def A_def unsigned_minus_1_eq_mask mask_eq_exp_minus_1)

lemma overlaps_meets: "region_ok r \<Longrightarrow> overlaps a e r \<longleftrightarrow> meets (uint a) (uint e) r"
  by (auto simp: overlaps_def meets_def word_less_def mm_end_uint) (simp_all add: A_def)

lemma mm_inv_length: "mm_inv p is \<Longrightarrow> length is \<le> 16"
proof -
  assume i: "mm_inv p is"
  then have "set is \<subseteq> {..<16}" using chain_bound by (fastforce simp: mm_inv_def)
  then have "card (set is) \<le> 16" using card_mono[of "{..<16::nat}"] by simp
  then show ?thesis using i by (simp add: mm_inv_def distinct_card)
qed

text \<open>There is an unused slot exactly when fewer than 16 regions are listed.\<close>

lemma find_unused_mmap_inv:
  assumes "mm_inv p is"
  shows "length is < 16 \<Longrightarrow> \<exists>m. find_unused_mmap p = Some m"
    and "find_unused_mmap p = Some m \<Longrightarrow> m < 16 \<and> m \<notin> set is"
proof -
  have l: "length (mmaps p) = 16" and u: "\<forall>i<16. mm_addr (mmaps p ! i) \<noteq> - 1 \<longleftrightarrow> i \<in> set is"
    using assms by (auto simp: mm_inv_def)
  show "\<exists>m. find_unused_mmap p = Some m" if "length is < 16"
  proof (rule ccontr)
    assume "\<not> ?thesis"
    then have "\<forall>i<16. mm_addr (mmaps p ! i) \<noteq> - 1" using l by (auto simp: find_unused_mmap_def find_unused_None)
    then have "{..<16} \<subseteq> set is" using u by auto
    then have "16 \<le> card (set is)" using card_mono[of "set is" "{..<16}"] by simp
    then show False using that card_length[of "is"] by simp
  qed
  show "find_unused_mmap p = Some m \<Longrightarrow> m < 16 \<and> m \<notin> set is"
    using find_unused_Some[of 0 "mmaps p" m] l u by (auto simp: find_unused_mmap_def)
qed

subsection \<open>Linking and unlinking\<close>

text \<open>The fields of a region other than its link.\<close>

definition body :: "mmap_region \<Rightarrow> mmap_region" where
  "body r = r\<lparr>mm_next := None\<rparr>"

lemma body_simps [simp]: "mm_addr (body r) = mm_addr r" "mm_length (body r) = mm_length r" "mm_flags (body r) = mm_flags r"
  "mm_f (body r) = mm_f r" "mm_refcnt (body r) = mm_refcnt r" "mm_n_loaded (body r) = mm_n_loaded r"
  "body (r\<lparr>mm_next := x\<rparr>) = body r"
  by (simp_all add: body_def)

lemma body_eqD: "body r = body r' \<Longrightarrow> mm_addr r = mm_addr r' \<and> mm_length r = mm_length r' \<and> mm_flags r = mm_flags r'
   \<and> mm_f r = mm_f r' \<and> mm_refcnt r = mm_refcnt r' \<and> mm_n_loaded r = mm_n_loaded r'"
  by (metis body_simps(1-6))

text \<open>A part of the list, from the link \<open>h\<close> to the link \<open>g\<close>.\<close>

fun cseg :: "mmap_region list \<Rightarrow> nat option \<Rightarrow> nat list \<Rightarrow> nat option \<Rightarrow> bool" where
  "cseg ms h [] g \<longleftrightarrow> h = g"
| "cseg ms h (i # is) g \<longleftrightarrow> h = Some i \<and> i < length ms \<and> cseg ms (mm_next (ms ! i)) is g"

lemma chain_cseg: "chain ms h is \<longleftrightarrow> cseg ms h is None"
  by (induction "is" arbitrary: h) auto

lemma cseg_append: "cseg ms h (xs @ ys) g \<longleftrightarrow> (\<exists>l. cseg ms h xs l \<and> cseg ms l ys g)"
  by (induction xs arbitrary: h) auto

lemma cseg_cong:
  "length ms' = length ms \<Longrightarrow> (\<And>i. i \<in> set is \<Longrightarrow> mm_next (ms' ! i) = mm_next (ms ! i)) \<Longrightarrow> cseg ms' h is g = cseg ms h is g"
  by (induction "is" arbitrary: h) auto

lemma cseg_upd: "j \<notin> set is \<Longrightarrow> cseg (ms[j := r]) h is g = cseg ms h is g"
  by (rule cseg_cong) (auto, metis nth_list_update_neq)

text \<open>The link that leaves the part \<open>xs\<close> starting at \<open>h\<close>, and setting it.\<close>

definition relink :: "nat option \<Rightarrow> proc \<Rightarrow> nat option \<Rightarrow> proc" where
  "relink q p g = (case q of None \<Rightarrow> p\<lparr>mmap_head := g\<rparr> | Some j \<Rightarrow> upd_region j (\<lambda>r. r\<lparr>mm_next := g\<rparr>) p)"

definition last_opt :: "nat list \<Rightarrow> nat option" where
  "last_opt xs = (if xs = [] then None else Some (last xs))"

lemma relink_cseg:
  assumes "cseg (mmaps p) (mmap_head p) xs l" and "distinct xs"
  shows "cseg (mmaps (relink (last_opt xs) p g)) (mmap_head (relink (last_opt xs) p g)) xs g"
proof (cases xs rule: rev_cases)
  case Nil
  then show ?thesis by (simp add: relink_def last_opt_def)
next
  case (snoc ys j)
  then have "cseg (mmaps p) (mmap_head p) ys (Some j)" "j < length (mmaps p)" "j \<notin> set ys"
    using assms by (auto simp: cseg_append)
  then show ?thesis using snoc by (simp add: relink_def last_opt_def upd_region_def set_region_def cseg_append cseg_upd)
qed

lemma relink_other:
  assumes "cseg (mmaps p) h ys None" and "set xs \<inter> set ys = {}"
  shows "cseg (mmaps (relink (last_opt xs) p g)) h ys None"
proof (cases "xs = []")
  case False
  then have "last xs \<notin> set ys" using assms(2) last_in_set by blast
  then show ?thesis using assms(1) False by (simp add: relink_def last_opt_def upd_region_def set_region_def cseg_upd)
qed (use assms(1) in \<open>simp add: relink_def last_opt_def\<close>)

lemma relink_fields:
  "length (mmaps (relink q p g)) = length (mmaps p)" "total_mmaps (relink q p g) = total_mmaps p"
  "pgdir (relink q p g) = pgdir p" "kstack (relink q p g) = kstack p" "parent (relink q p g) = parent p"
  "body (mmaps (relink q p g) ! i) = body (mmaps p ! i)"
  by (auto simp: relink_def upd_region_def set_region_def nth_list_update split: option.splits)
    (metis body_simps(7) list_update_beyond not_le nth_list_update_eq nth_list_update_neq)

text \<open>Inserting the region \<open>m\<close> between \<open>xs\<close> and \<open>ys\<close>, and removing it.\<close>

lemma link_chain:
  assumes c: "chain (mmaps p) (mmap_head p) (xs @ ys)" and d: "distinct (xs @ ys)" and m: "m < length (mmaps p)" "m \<notin> set (xs @ ys)"
    and p1: "cseg (mmaps p) (mmap_head p) xs l"
  shows "chain (mmaps (relink (last_opt xs) (upd_region m (\<lambda>r. r\<lparr>mm_next := l\<rparr>) p) (Some m)))
     (mmap_head (relink (last_opt xs) (upd_region m (\<lambda>r. r\<lparr>mm_next := l\<rparr>) p) (Some m))) (xs @ m # ys)"
proof -
  let ?p1 = "upd_region m (\<lambda>r. r\<lparr>mm_next := l\<rparr>) p"
  let ?p2 = "relink (last_opt xs) ?p1 (Some m)"
  have det: "cseg (mmaps p) h xs l1 \<Longrightarrow> cseg (mmaps p) h xs l2 \<Longrightarrow> l1 = l2" for h l1 l2
    by (induction xs arbitrary: h) auto
  have l: "cseg (mmaps p) l ys None" using c p1 det unfolding chain_cseg cseg_append by blast
  have x1: "cseg (mmaps ?p1) (mmap_head ?p1) xs l" and y1: "cseg (mmaps ?p1) l ys None"
    using p1 l m by (simp_all add: upd_region_def set_region_def cseg_upd)
  have xx: "cseg (mmaps ?p2) (mmap_head ?p2) xs (Some m)" using relink_cseg[OF x1] d by simp
  have yy: "cseg (mmaps ?p2) l ys None" using relink_other[OF y1] d by simp
  have "mm_next (mmaps ?p2 ! m) = l"
  proof -
    have "last_opt xs \<noteq> Some m" using m last_in_set[of xs] by (auto simp: last_opt_def)
    then have "mmaps ?p2 ! m = mmaps ?p1 ! m"
      by (auto simp: relink_def upd_region_def set_region_def nth_list_update split: option.splits)
    then show ?thesis using m(1) by (simp add: upd_region_def set_region_def)
  qed
  then show ?thesis using xx yy m(1) relink_fields(1)[of "last_opt xs" ?p1 "Some m"]
    by (auto simp: chain_cseg cseg_append upd_region_def set_region_def)
qed

lemma unlink_chain:
  assumes c: "chain (mmaps p) (mmap_head p) (xs @ i # ys)" and d: "distinct (xs @ i # ys)"
  shows "chain (mmaps (relink (last_opt xs) p (mm_next (mmaps p ! i)))) (mmap_head (relink (last_opt xs) p (mm_next (mmaps p ! i)))) (xs @ ys)"
proof -
  obtain l where l: "cseg (mmaps p) (mmap_head p) xs l" "l = Some i" "cseg (mmaps p) (mm_next (mmaps p ! i)) ys None"
    using c by (auto simp: chain_cseg cseg_append)
  have "cseg (mmaps (relink (last_opt xs) p (mm_next (mmaps p ! i)))) (mm_next (mmaps p ! i)) ys None"
    using relink_other[OF l(3)] d by simp
  then show ?thesis using relink_cseg[OF l(1)] d by (auto simp: chain_cseg cseg_append)
qed

subsection \<open>Placing a region\<close>

definition placed :: "proc \<Rightarrow> nat list \<Rightarrow> u32 \<Rightarrow> nat \<Rightarrow> nat list \<Rightarrow> nat list \<Rightarrow> proc \<Rightarrow> bool" where
  "placed p is a m xs ys p' \<longleftrightarrow> is = xs @ ys \<and> chain (mmaps p') (mmap_head p') (xs @ m # ys)
     \<and> (\<forall>x\<in>set xs. A (mmaps p ! x) \<le> uint a) \<and> (\<forall>y\<in>set ys. uint a \<le> A (mmaps p ! y))
     \<and> (\<forall>i. i \<noteq> m \<longrightarrow> body (mmaps p' ! i) = body (mmaps p ! i)) \<and> mm_addr (mmaps p' ! m) = a
     \<and> length (mmaps p') = length (mmaps p) \<and> total_mmaps p' = total_mmaps p \<and> pgdir p' = pgdir p
     \<and> kstack p' = kstack p \<and> parent p' = parent p"

lemma upd_region_fields [simp]:
  "length (mmaps (upd_region i g p)) = length (mmaps p)" "total_mmaps (upd_region i g p) = total_mmaps p"
  "pgdir (upd_region i g p) = pgdir p" "kstack (upd_region i g p) = kstack p" "parent (upd_region i g p) = parent p"
  "mmap_head (upd_region i g p) = mmap_head p" "j \<noteq> i \<Longrightarrow> mmaps (upd_region i g p) ! j = mmaps p ! j"
  "i < length (mmaps p) \<Longrightarrow> mmaps (upd_region i g p) ! i = g (mmaps p ! i)"
  by (simp_all add: upd_region_def set_region_def)

lemma placed_relink:
  assumes c: "chain (mmaps p) (mmap_head p) is" and d: "distinct is" and m: "m < length (mmaps p)" "m \<notin> set is"
    and xy: "is = xs @ ys" and l: "cseg (mmaps p) (mmap_head p) xs l"
    and le: "\<forall>x\<in>set xs. A (mmaps p ! x) \<le> uint a" "\<forall>y\<in>set ys. uint a \<le> A (mmaps p ! y)"
  shows "placed p is a m xs ys (relink (last_opt xs) (upd_region m (\<lambda>r. r\<lparr>mm_next := l\<rparr>) (upd_region m (\<lambda>r. r\<lparr>mm_addr := a\<rparr>) p)) (Some m))"
proof -
  let ?p1 = "upd_region m (\<lambda>r. r\<lparr>mm_addr := a\<rparr>) p"
  let ?p2 = "upd_region m (\<lambda>r. r\<lparr>mm_next := l\<rparr>) ?p1"
  let ?p3 = "relink (last_opt xs) ?p2 (Some m)"
  have n: "mm_next (mmaps ?p1 ! i) = mm_next (mmaps p ! i)" if "i \<in> set is" for i using that m by (cases "i = m") auto
  have c1: "chain (mmaps ?p1) (mmap_head ?p1) (xs @ ys)" using c chain_cong[of "mmaps ?p1" "mmaps p" "is"] n xy by simp
  have l1: "cseg (mmaps ?p1) (mmap_head ?p1) xs l" using l cseg_cong[of "mmaps ?p1" "mmaps p" xs] n xy by simp
  have ch: "chain (mmaps ?p3) (mmap_head ?p3) (xs @ m # ys)"
    using link_chain[OF c1 _ _ _ l1, of m] d m xy by simp
  have bo: "body (mmaps ?p3 ! i) = body (mmaps p ! i)" if "i \<noteq> m" for i using that by (simp add: relink_fields(6))
  have "body (mmaps ?p3 ! m) = body ((mmaps p ! m)\<lparr>mm_addr := a\<rparr>)" using m by (simp add: relink_fields(6))
  then have "mm_addr (mmaps ?p3 ! m) = a" by (metis body_simps(1) mmap_region.select_convs(1) mmap_region.surjective mmap_region.update_convs(1))
  then show ?thesis unfolding placed_def using xy ch le bo by (simp add: relink_fields)
qed

lemma takeWhile_all_next:
  "cseg ms (Some h) (h # is) None \<Longrightarrow> cseg ms (Some h) (h # takeWhile P is) (mm_next (ms ! last (h # takeWhile P is)))"
proof (induction "is" arbitrary: h)
  case Nil
  then show ?case by simp
next
  case (Cons i "is")
  then show ?case by (cases "P i") auto
qed

lemma sorted_dropWhile_ge:
  "sorted (map f is) \<Longrightarrow> y \<in> set (dropWhile (\<lambda>i. f i < (a :: int)) is) \<Longrightarrow> a \<le> f y"
  by (induction "is") (auto split: if_splits intro: order_trans)

lemma fix_addr_place_ok:
  assumes inv: "mm_inv p is" and no: "\<forall>i\<in>set is. \<not> overlaps a (a + of_int len) (mmaps p ! i)" and u: "find_unused_mmap p = Some m"
  shows "\<exists>xs ys p'. fix_addr_place_mmap p a len = Ret (Some m, p') \<and> placed p is a m xs ys p'"
proof -
  note ln = mm_inv_length[OF inv]
  have m: "m < 16" "m \<notin> set is" using find_unused_mmap_inv(2)[OF inv u] by auto
  have c: "chain (mmaps p) (mmap_head p) is" "distinct is" "length (mmaps p) = 16" "sorted (map (\<lambda>i. A (mmaps p ! i)) is)"
    using inv by (auto simp: mm_inv_def)
  let ?p1 = "upd_region m (\<lambda>r. r\<lparr>mm_addr := a\<rparr>) p"
  have ov: "any_overlap (Suc 16) a (a + of_int len) (mmaps p) (mmap_head p) = Ret False"
    using any_overlap_chain[OF c(1), of "Suc 16"] no ln by simp
  note pr = placed_relink[OF c(1,2), of m _ _ _ a]
  show ?thesis
  proof (cases "is")
    case Nil
    then have "mmap_head p = None" using c(1) by simp
    then have "fix_addr_place_mmap p a len = Ret (Some m, relink (last_opt []) (upd_region m (\<lambda>r. r\<lparr>mm_next := None\<rparr>) ?p1) (Some m))"
      using ov u by (simp add: fix_addr_place_mmap_def relink_def last_opt_def)
    then show ?thesis using pr[of "[]" "[]" None] m c(3) Nil \<open>mmap_head p = None\<close> by auto
  next
    case (Cons h is')
    then have h: "mmap_head p = Some h" "h \<noteq> m" using c(1) m by auto
    show ?thesis
    proof (cases "mm_addr (mmaps p ! h) > a")
      case True
      then have "fix_addr_place_mmap p a len = Ret (Some m, relink (last_opt []) (upd_region m (\<lambda>r. r\<lparr>mm_next := Some h\<rparr>) ?p1) (Some m))"
        using ov u h by (simp add: fix_addr_place_mmap_def relink_def last_opt_def)
      moreover have "\<forall>y\<in>set is. uint a \<le> A (mmaps p ! y)"
        using True c(4) by (auto simp: Cons A_def word_less_def)
      ultimately show ?thesis using pr[of "[]" "is" "Some h"] m c(3) h by auto
    next
      case False
      let ?P = "\<lambda>i. mm_addr (mmaps p ! i) < a"
      let ?xs = "h # takeWhile ?P is'" and ?ys = "dropWhile ?P is'"
      have cs: "cseg (mmaps p) (Some h) (h # is') None" using c(1) h Cons by (simp add: chain_cseg)
      have n: "mm_next (mmaps ?p1 ! i) = mm_next (mmaps p ! i)" "mm_addr (mmaps ?p1 ! i) = mm_addr (mmaps p ! i)" if "i \<in> set is" for i
        using that m by (cases "i = m"; simp)+
      have "chain (mmaps ?p1) (mm_next (mmaps ?p1 ! h)) is'"
        using cs chain_cong[of "mmaps ?p1" "mmaps p" is'] n Cons by (simp add: chain_cseg)
      then have "find_prev (Suc 16) a (mmaps ?p1) h = Ret (last (h # takeWhile (\<lambda>i. mm_addr (mmaps ?p1 ! i) < a) is'))"
        using find_prev_chain ln Cons by simp
      moreover have "takeWhile (\<lambda>i. mm_addr (mmaps ?p1 ! i) < a) is' = takeWhile ?P is'"
        using n Cons by (intro takeWhile_cong) auto
      ultimately have fp: "find_prev (Suc 16) a (mmaps ?p1) h = Ret (last ?xs)" by simp
      have lx: "last ?xs \<in> set is" using Cons set_takeWhileD by (metis last_in_set list.distinct(1) list.set_intros(1) set_ConsD set_subset_Cons subsetD)
      let ?l = "mm_next (mmaps p ! last ?xs)"
      have "fix_addr_place_mmap p a len = Ret (Some m, relink (last_opt ?xs) (upd_region m (\<lambda>r. r\<lparr>mm_next := ?l\<rparr>) ?p1) (Some m))"
        using ov u h False fp n(1)[OF lx] by (simp add: fix_addr_place_mmap_def relink_def last_opt_def del: find_prev.simps)
      moreover have "\<forall>x\<in>set ?xs. A (mmaps p ! x) \<le> uint a"
        using False by (auto simp: A_def word_less_def dest: set_takeWhileD)
      moreover have "\<forall>y\<in>set ?ys. uint a \<le> A (mmaps p ! y)"
      proof -
        have "sorted (map (\<lambda>i. A (mmaps p ! i)) is')" using c(4) Cons by simp
        then show ?thesis using sorted_dropWhile_ge[of "\<lambda>i. A (mmaps p ! i)" is' _ "uint a"] by (simp add: A_def word_less_def)
      qed
      moreover have "cseg (mmaps p) (mmap_head p) ?xs ?l" using takeWhile_all_next[OF cs, of ?P] h by simp
      moreover have "is = ?xs @ ?ys" using Cons by simp
      moreover have "m < length (mmaps p)" using m c(3) by simp
      ultimately show ?thesis using pr[of ?xs ?ys ?l] m(2) by blast
    qed
  qed
qed

lemma fix_addr_place_None:
  assumes inv: "mm_inv p is" and "\<exists>i\<in>set is. overlaps a (a + of_int len) (mmaps p ! i)"
  shows "fix_addr_place_mmap p a len = Ret (None, p)"
proof -
  have c: "chain (mmaps p) (mmap_head p) is" using inv by (simp add: mm_inv_def)
  then have "any_overlap (Suc 16) a (a + of_int len) (mmaps p) (mmap_head p) = Ret True"
    using any_overlap_chain[OF c, of "Suc 16"] assms(2) mm_inv_length[OF inv] by simp
  then show ?thesis by (simp add: fix_addr_place_mmap_def)
qed

text \<open>Filling in the placed region gives the invariant for the longer list.\<close>

lemma placed_inv:
  assumes inv: "mm_inv p is" and pl: "placed p is a m xs ys p'" and m: "m < 16" "m \<notin> set is"
    and r: "mm_addr r = a" "region_ok r" and no: "\<forall>i\<in>set is. \<not> meets (A r) (A r + mm_length r) (mmaps p ! i)"
    and q: "q = (set_region m (r\<lparr>mm_next := mm_next (mmaps p' ! m)\<rparr>) p')\<lparr>total_mmaps := total_mmaps p' + 1\<rparr>"
  shows "mm_inv q (xs @ m # ys)" and "\<And>i. i \<noteq> m \<Longrightarrow> body (mmaps q ! i) = body (mmaps p ! i)" and "body (mmaps q ! m) = body r"
proof -
  note P = pl[unfolded placed_def] and I = inv[unfolded mm_inv_def]
  have ln: "length (mmaps p') = 16" using P I by simp
  have iss: "is = xs @ ys" using P by simp
  show bo: "body (mmaps q ! i) = body (mmaps p ! i)" if "i \<noteq> m" for i using that P by (simp add: q set_region_def)
  show bm: "body (mmaps q ! m) = body r" using m(1) ln by (simp add: q set_region_def)
  have qi: "A (mmaps q ! i) = A (mmaps p ! i)" "mm_length (mmaps q ! i) = mm_length (mmaps p ! i)" "mm_addr (mmaps q ! i) = mm_addr (mmaps p ! i)"
    if "i \<noteq> m" for i using body_eqD[OF bo[OF that]] by (simp_all add: A_def)
  have qm: "A (mmaps q ! m) = A r" "mm_length (mmaps q ! m) = mm_length r" "mm_addr (mmaps q ! m) = a"
    using body_eqD[OF bm] r by (simp_all add: A_def)
  have nm: "i \<noteq> m" if "i \<in> set is" for i using that m by auto
  show "mm_inv q (xs @ m # ys)" unfolding mm_inv_def
  proof (intro conjI)
    have "chain (mmaps p') (mmap_head p') (xs @ m # ys)" using P by simp
    moreover have "mm_next (mmaps q ! i) = mm_next (mmaps p' ! i)" for i
      using m(1) ln by (cases "i = m") (simp_all add: q set_region_def)
    ultimately show "chain (mmaps q) (mmap_head q) (xs @ m # ys)"
      using chain_cong[of "mmaps q" "mmaps p'"] by (simp add: q set_region_def)
    show "length (mmaps q) = 16" using ln by (simp add: q set_region_def)
    show "distinct (xs @ m # ys)" using I m(2) iss by auto
    show "\<forall>i<16. (mm_addr (mmaps q ! i) \<noteq> - 1) = (i \<in> set (xs @ m # ys))"
      using I qi(3) qm(3) r iss region_ok_used by (metis (no_types, lifting) Un_iff list.set_intros(1,2) set_ConsD set_append)
    show "total_mmaps q = int (length (xs @ m # ys))" using P I iss by (simp add: q set_region_def)
    have mq: "map (\<lambda>i. A (mmaps q ! i)) (xs @ m # ys) = map (\<lambda>i. A (mmaps p ! i)) xs @ A r # map (\<lambda>i. A (mmaps p ! i)) ys"
      using qi(1) nm iss by (auto simp: qm(1))
    have "sorted (map (\<lambda>i. A (mmaps p ! i)) (xs @ ys))" using I iss by simp
    moreover have "A r = uint a" using r by (simp add: A_def)
    ultimately show "sorted (map (\<lambda>i. A (mmaps q ! i)) (xs @ m # ys))"
      unfolding mq using P by (auto simp: sorted_append)
    have ok: "region_ok (mmaps q ! i)" if "i \<in> set is" for i
      using I that qi(1,2)[OF nm[OF that]] by (simp add: region_ok_def)
    show "\<forall>i\<in>set (xs @ m # ys). region_ok (mmaps q ! i)"
      using ok r(2) qm iss by (auto simp: region_ok_def)
    show "\<forall>i\<in>set (xs @ m # ys). \<forall>j\<in>set (xs @ m # ys). i \<noteq> j \<longrightarrow>
        \<not> meets (A (mmaps q ! i)) (A (mmaps q ! i) + mm_length (mmaps q ! i)) (mmaps q ! j)"
    proof (intro ballI impI)
      fix i j assume ij: "i \<in> set (xs @ m # ys)" "j \<in> set (xs @ m # ys)" "i \<noteq> j"
      have all: "\<not> meets (A (mmaps p ! a)) (A (mmaps p ! a) + mm_length (mmaps p ! a)) (mmaps p ! b)"
        if "a \<in> set is" "b \<in> set is" "a \<noteq> b" for a b using I that by blast
      have new: "\<not> (A r < A (mmaps p ! b) + mm_length (mmaps p ! b) \<and> A (mmaps p ! b) < A r + mm_length r)" if "b \<in> set is" for b
        using no that by (auto simp: meets_def)
      consider "i = m" "j \<in> set is" "j \<noteq> m" | "j = m" "i \<in> set is" "i \<noteq> m" | "i \<in> set is" "j \<in> set is" "i \<noteq> m" "j \<noteq> m"
        using ij iss nm by fastforce
      then show "\<not> meets (A (mmaps q ! i)) (A (mmaps q ! i) + mm_length (mmaps q ! i)) (mmaps q ! j)"
        using new all[of i j] ij(3) by cases (auto simp: meets_def qi qm)
    qed
  qed
qed

subsection \<open>The search for a gap\<close>

lemma page_up:
  assumes "uint (a :: u32) \<le> 0x80000000"
  shows "uint (if a mod 4096 \<noteq> 0 then PGROUNDUP a else a) = (uint a + 4095) div 4096 * 4096"
proof -
  have i: "int (unat x) = uint x" for x :: u32 by simp
  have "unat a \<le> 0x80000000" using assms i[of a] by linarith
  then have u: "unat a + 4095 < 2 ^ 32" by simp
  show ?thesis
  proof (cases "a mod 4096 = 0")
    case True
    then have "unat a mod 4096 = 0" by (simp only: mod_PGSIZE_0)
    then obtain k where "unat a = 4096 * k" by auto
    then have "uint a = 4096 * int k" using i[of a] by linarith
    then show ?thesis using True by simp
  next
    case False
    have "uint (PGROUNDUP a) = int (unat (PGROUNDUP a))" by (rule i[symmetric])
    also have "\<dots> = int ((unat a + 4095) div 4096 * 4096)" by (simp only: PGROUNDUP_unat[OF u])
    also have "\<dots> = (uint a + 4095) div 4096 * 4096" by (simp only: of_nat_mult zdiv_int of_nat_add i of_nat_numeral)
    finally show ?thesis using False by simp
  qed
qed

lemma gap_step:
  fixes s E :: int
  assumes "s mod 4096 = 0" and "s' mod 4096 = 0" and "s' < (max s E + 4095) div 4096 * 4096"
  shows "s' < s \<or> s' < E"
proof (rule ccontr)
  assume "\<not> ?thesis"
  then have "max s E \<le> s'" by simp
  moreover obtain k where "s' = 4096 * k" using assms(2) by auto
  ultimately have "(max s E + 4095) div 4096 \<le> (4096 * k + 4095) div 4096" by (intro zdiv_mono1) simp_all
  then have "(max s E + 4095) div 4096 \<le> k" by simp
  then show False using assms(3) \<open>s' = 4096 * k\<close> by simp
qed

lemma page_up_bounds:
  fixes M :: int
  shows "M \<le> (M + 4095) div 4096 * 4096" and "M \<le> 0x80000000 \<Longrightarrow> (M + 4095) div 4096 * 4096 \<le> 0x80000000"
proof -
  show "M \<le> (M + 4095) div 4096 * 4096" using div_mult_mod_eq[of "M + 4095" 4096] pos_mod_bound[of 4096 "M + 4095"] by linarith
  assume "M \<le> 0x80000000"
  then have "(M + 4095) div 4096 \<le> (0x80000000 + 4095) div 4096" by (intro zdiv_mono1) simp_all
  then show "(M + 4095) div 4096 * 4096 \<le> 0x80000000" by simp
qed

text \<open>
  The start address found: no region meets the new range there, and every page-aligned address
  below it is taken.
\<close>

lemma find_gap_chain:
  assumes "chain ms h is" and "length is \<le> fuel" and "sorted (map (\<lambda>i. A (ms ! i)) is)" and "\<forall>i\<in>set is. region_ok (ms ! i)"
    and "uint s mod 4096 = 0" and "0x60000000 \<le> uint s" and "uint s \<le> 0x80000000" and "0 < len" and "len < 2 ^ 31"
    and "\<forall>r\<in>R. A r + mm_length r \<le> uint s"
    and "\<forall>s'. 0x60000000 \<le> s' \<and> s' < uint s \<and> s' mod 4096 = 0 \<longrightarrow> (\<exists>r\<in>R. meets s' (s' + len) r)"
  shows "\<exists>g. find_gap fuel s len ms h = Ret g \<and> uint g mod 4096 = 0 \<and> 0x60000000 \<le> uint g \<and> uint g \<le> 0x80000000
    \<and> (\<forall>r\<in>R \<union> (!) ms ` set is. \<not> meets (uint g) (uint g + len) r)
    \<and> (\<forall>s'. 0x60000000 \<le> s' \<and> s' < uint g \<and> s' mod 4096 = 0 \<longrightarrow> (\<exists>r\<in>R \<union> (!) ms ` set is. meets s' (s' + len) r))"
  using assms
proof (induction "is" arbitrary: h fuel s R)
  case Nil
  then show ?case by (auto simp: meets_def)
next
  case (Cons i "is")
  let ?r = "ms ! i"
  obtain n where n: "fuel = Suc n" using Cons.prems(2) by (cases fuel) auto
  have h: "h = Some i" and c: "chain ms (mm_next ?r) is" using Cons.prems(1) by auto
  have ok: "region_ok ?r" using Cons.prems(4) by simp
  have ul: "uint (s + of_int len) = uint s + len" using Cons.prems(7-9) by (intro uint_add_len) simp_all
  have later: "\<forall>j\<in>set is. A ?r \<le> A (ms ! j)" using Cons.prems(3) by auto
  show ?case
  proof (cases "mm_addr ?r \<ge> s + of_int len")
    case True
    then have ge: "uint s + len \<le> A ?r" using ul by (simp add: word_le_def A_def)
    then have "find_gap fuel s len ms h = Ret s" using True by (simp add: n h)
    moreover have "\<forall>r\<in>R \<union> (!) ms ` set (i # is). \<not> meets (uint s) (uint s + len) r"
      using ge later Cons.prems(10) by (fastforce simp: meets_def)
    ultimately show ?thesis using Cons.prems(5-7,11) by (intro exI[of _ s] conjI) auto
  next
    case False
    then have lt: "A ?r < uint s + len" using ul by (simp add: word_le_def A_def)
    let ?E = "A ?r + mm_length ?r"
    let ?s1 = "if mm_end ?r > s then mm_end ?r else s"
    let ?s2 = "if ?s1 mod 4096 \<noteq> 0 then PGROUNDUP ?s1 else ?s1"
    have E: "uint (mm_end ?r) = ?E" using mm_end_uint[OF ok] .
    have s1: "uint ?s1 = max (uint s) ?E" using E by (auto simp: word_less_def max_def)
    have E8: "?E \<le> 0x80000000" using ok by (simp add: region_ok_def)
    have b1: "uint ?s1 \<le> 0x80000000" using s1 E8 Cons.prems(7) by simp
    have s2: "uint ?s2 = (max (uint s) ?E + 4095) div 4096 * 4096" using page_up[OF b1] s1 by simp
    have f: "find_gap fuel s len ms h = find_gap n ?s2 len ms (mm_next ?r)" using False by (simp add: n h Let_def)
    have up: "max (uint s) ?E \<le> uint ?s2" "uint ?s2 \<le> 0x80000000" "uint ?s2 mod 4096 = 0"
      unfolding s2 using page_up_bounds[of "max (uint s) ?E"] b1 s1 by simp_all
    have below: "\<exists>r\<in>insert ?r R. meets s' (s' + len) r" if "0x60000000 \<le> s'" "s' < uint ?s2" "s' mod 4096 = 0" for s'
    proof (cases "s' < uint s")
      case True
      then have "\<exists>r\<in>R. meets s' (s' + len) r" using Cons.prems(11) that(1,3) by presburger
      then show ?thesis by blast
    next
      case False
      then have "s' < ?E" using gap_step[OF Cons.prems(5) that(3), of ?E] that(2) unfolding s2 by simp
      then show ?thesis using False lt by (intro bexI[of _ ?r]) (simp_all add: meets_def)
    qed
    have "\<forall>r\<in>insert ?r R. A r + mm_length r \<le> uint ?s2" using up(1) Cons.prems(10) by fastforce
    from Cons.IH[OF c _ _ _ up(3) _ up(2) Cons.prems(8,9) this] below up(1) Cons.prems(2-4,6) n
    show ?thesis unfolding f by auto
  qed
qed

end
