(* ===== verification/Wmap_Calls.thy ===== *)
theory Wmap_Calls
  imports Wmap_Regions
begin

text \<open>
  The mapping system calls on a well-formed process (wmap.c): where \<open>wmap\<close> places a region and when
  it fails, that \<open>wunmap\<close> undoes it, what \<open>wpunmap\<close> removes, and that the regions stay disjoint.
\<close>

subsection \<open>The regions of a process\<close>

fun list_from :: "nat \<Rightarrow> mmap_region list \<Rightarrow> nat option \<Rightarrow> nat list" where
  "list_from fuel ms None = []"
| "list_from 0 ms (Some i) = []"
| "list_from (Suc fuel) ms (Some i) = i # list_from fuel ms (mm_next (ms ! i))"

definition listed :: "proc \<Rightarrow> nat list" where
  "listed p = list_from MAX_NMMAP (mmaps p) (mmap_head p)"

definition wf_proc :: "proc \<Rightarrow> bool" where
  "wf_proc p \<longleftrightarrow> mm_inv p (listed p)"

definition regions :: "proc \<Rightarrow> mmap_region list" where
  "regions p = map (\<lambda>i. body (mmaps p ! i)) (listed p)"

text \<open>The addresses the regions cover, and that a new region fits at an address.\<close>

definition covered :: "proc \<Rightarrow> int set" where
  "covered p = (\<Union>r\<in>set (regions p). {A r..<A r + mm_length r})"

definition free_at :: "proc \<Rightarrow> int \<Rightarrow> int \<Rightarrow> bool" where
  "free_at p s len \<longleftrightarrow> 0x60000000 \<le> s \<and> s mod 4096 = 0 \<and> s + len \<le> 0x80000000
     \<and> {s..<s + len} \<inter> covered p = {}"

lemma list_from_chain: "chain ms h is \<Longrightarrow> length is \<le> fuel \<Longrightarrow> list_from fuel ms h = is"
proof (induction "is" arbitrary: h fuel)
  case (Cons i "is")
  then show ?case by (cases fuel) auto
qed simp

lemma listed_inv: "mm_inv p is \<Longrightarrow> listed p = is"
  unfolding listed_def using list_from_chain mm_inv_length by (auto simp: mm_inv_def)

lemma mm_inv_wf: "mm_inv p is \<Longrightarrow> wf_proc p"
  by (simp add: wf_proc_def listed_inv)

lemma A_body [simp]: "A (body r) = A r"
  by (simp add: A_def)

lemma set_regions: "set (regions p) = (\<lambda>i. body (mmaps p ! i)) ` set (listed p)"
  by (simp add: regions_def)

lemma covered_listed: "covered p = (\<Union>i\<in>set (listed p). {A (mmaps p ! i)..<A (mmaps p ! i) + mm_length (mmaps p ! i)})"
  by (simp add: covered_def set_regions)

lemma meets_covered:
  assumes "wf_proc p" and "0 < len"
  shows "(\<exists>i\<in>set (listed p). meets s (s + len) (mmaps p ! i)) \<longleftrightarrow> {s..<s + len} \<inter> covered p \<noteq> {}"
proof -
  have "meets s (s + len) r \<longleftrightarrow> {s..<s + len} \<inter> {A r..<A r + mm_length r} \<noteq> {}" if "region_ok r" for r
    unfolding Int_atLeastLessThan using that assms(2) by (simp add: meets_def region_ok_def) linarith
  moreover have "\<forall>i\<in>set (listed p). region_ok (mmaps p ! i)" using assms(1) by (simp add: wf_proc_def mm_inv_def)
  moreover have "{s..<s + len} \<inter> covered p \<noteq> {} \<longleftrightarrow>
      (\<exists>i\<in>set (listed p). {s..<s + len} \<inter> {A (mmaps p ! i)..<A (mmaps p ! i) + mm_length (mmaps p ! i)} \<noteq> {})"
    unfolding covered_listed by blast
  ultimately show ?thesis by simp
qed

subsection \<open>Placing a mapping\<close>

text \<open>The address \<open>wmap\<close> gives to a mapping: the one asked for, or the lowest where it fits.\<close>

definition wmap_choice :: "proc \<Rightarrow> u32 \<Rightarrow> int \<Rightarrow> int \<Rightarrow> int \<Rightarrow> bool" where
  "wmap_choice p addr len flags s \<longleftrightarrow> free_at p s len
     \<and> (if flags AND MAP_FIXED \<noteq> 0 then s = uint addr else \<forall>s'. free_at p s' len \<longrightarrow> s \<le> s')"

lemma validate_inputD:
  assumes "validate_input addr len flags f = 0" and "len < 2 ^ 31"
  shows "0 < len" and "flags AND MAP_FIXED \<noteq> 0 \<Longrightarrow> uint addr mod 4096 = 0 \<and> 0x60000000 \<le> uint addr \<and> uint addr + len \<le> 0x80000000"
proof -
  show l: "0 < len" using assms(1) by (auto simp: validate_input_def Let_def split: if_splits)
  assume "flags AND MAP_FIXED \<noteq> 0"
  then have a: "addr mod 4096 = 0" "0x60000000 \<le> addr" "addr < 0x80000000" "addr + of_int len \<le> 0x80000000"
    using assms(1) by (auto simp: validate_input_def Let_def not_less not_le split: if_splits)
  have u: "uint addr < 0x80000000" "0x60000000 \<le> uint addr" using a(2,3) by (simp_all add: word_less_def word_le_def)
  then have "uint (addr + of_int len) = uint addr + len" using l assms(2) by (intro uint_add_len) simp_all
  then have "uint addr + len \<le> 0x80000000" using a(4) by (simp add: word_le_def)
  moreover have "unat addr mod 4096 = 0" using a(1) by (simp only: mod_PGSIZE_0)
  then have "int (unat addr mod 4096) = 0" by simp
  then have "uint addr mod 4096 = 0" by (simp add: zmod_int)
  ultimately show "uint addr mod 4096 = 0 \<and> 0x60000000 \<le> uint addr \<and> uint addr + len \<le> 0x80000000" using u by simp
qed

lemma uint_end:
  assumes "0 < len" and "len < 2 ^ 31" and "uint (a :: u32) \<le> 0x80000000"
  shows "uint (a + of_int len) = uint a + len"
  using assms by (intro uint_add_len) simp_all

lemma overlaps_covered:
  assumes "wf_proc p" and "0 < len" and "len < 2 ^ 31" and "uint a \<le> 0x80000000"
  shows "(\<exists>i\<in>set (listed p). overlaps a (a + of_int len) (mmaps p ! i)) \<longleftrightarrow> {uint a..<uint a + len} \<inter> covered p \<noteq> {}"
proof -
  have "overlaps a (a + of_int len) (mmaps p ! i) \<longleftrightarrow> meets (uint a) (uint a + len) (mmaps p ! i)" if "i \<in> set (listed p)" for i
    using that assms(1) overlaps_meets uint_end[OF assms(2-4)] by (simp add: wf_proc_def mm_inv_def)
  then show ?thesis using meets_covered[OF assms(1,2)] by blast
qed

text \<open>The lowest address where a region fits, as the search computes it.\<close>

lemma find_addr_place:
  assumes wf: "wf_proc p" and len: "0 < len" "len < 2 ^ 31"
  shows "(find_addr_place_mmap p len = Ret (None, p) \<and> (\<forall>s. \<not> free_at p s len))
    \<or> (\<exists>a. find_addr_place_mmap p len = fix_addr_place_mmap p a len \<and> free_at p (uint a) len \<and> (\<forall>s. free_at p s len \<longrightarrow> uint a \<le> s))"
proof -
  note I = wf[unfolded wf_proc_def mm_inv_def]
  have ln: "length (listed p) \<le> Suc 16" using mm_inv_length wf by (fastforce simp: wf_proc_def)
  have b: "uint (0x60000000 :: u32) = 0x60000000" by simp
  obtain g where g: "find_gap (Suc 16) 0x60000000 len (mmaps p) (mmap_head p) = Ret g" "uint g mod 4096 = 0"
      "0x60000000 \<le> uint g" "uint g \<le> 0x80000000" and no: "\<forall>i\<in>set (listed p). \<not> meets (uint g) (uint g + len) (mmaps p ! i)"
    and below: "\<forall>s. 0x60000000 \<le> s \<and> s < uint g \<and> s mod 4096 = 0 \<longrightarrow> (\<exists>i\<in>set (listed p). meets s (s + len) (mmaps p ! i))"
    using find_gap_chain[of "mmaps p" "mmap_head p" "listed p" "Suc 16" "0x60000000" len "{}"] I ln len unfolding b by auto
  have least: "uint g \<le> s" if "free_at p s len" for s
    using below that meets_covered[OF wf len(1), of s] by (force simp: free_at_def not_le)
  have e: "uint (g + of_int len) = uint g + len" using uint_end[OF len g(4)] .
  have fit: "free_at p (uint g) len \<longleftrightarrow> uint g + len \<le> 0x80000000"
    using g no meets_covered[OF wf len(1), of "uint g"] by (auto simp: free_at_def)
  show ?thesis
  proof (cases "uint g + len \<le> 0x80000000")
    case True
    then have "find_addr_place_mmap p len = fix_addr_place_mmap p g len"
      using g(1) e by (simp add: find_addr_place_mmap_def word_less_def del: find_gap.simps)
    then show ?thesis using True fit least by blast
  next
    case False
    then have "find_addr_place_mmap p len = Ret (None, p)"
      using g(1) e by (simp add: find_addr_place_mmap_def word_less_def del: find_gap.simps)
    moreover have "\<not> free_at p s len" for s using least[of s] False by (auto simp: free_at_def)
    ultimately show ?thesis by blast
  qed
qed

text \<open>The process after the fields of the placed region are filled in.\<close>

definition wmapped :: "proc \<Rightarrow> mmap_region \<Rightarrow> proc \<Rightarrow> bool" where
  "wmapped p r p' \<longleftrightarrow> wf_proc p' \<and> (\<exists>xs ys. regions p = xs @ ys \<and> regions p' = xs @ r # ys)
     \<and> pgdir p' = pgdir p \<and> kstack p' = kstack p \<and> parent p' = parent p"

lemma fill_placed:
  assumes wf: "wf_proc p" and pl: "placed p (listed p) a m xs ys p'" and m: "m < 16" "m \<notin> set (listed p)"
    and r: "mm_addr r = a" "region_ok r" "mm_next r = None" and no: "{A r..<A r + mm_length r} \<inter> covered p = {}"
    and q: "q = (set_region m (r\<lparr>mm_next := mm_next (mmaps p' ! m)\<rparr>) p')\<lparr>total_mmaps := total_mmaps p' + 1\<rparr>"
  shows "wmapped p r q"
proof -
  have "0 < mm_length r" using r(2) by (simp add: region_ok_def)
  then have nm: "\<forall>i\<in>set (listed p). \<not> meets (A r) (A r + mm_length r) (mmaps p ! i)" using no meets_covered[OF wf] by blast
  note iv = placed_inv[OF wf[unfolded wf_proc_def] pl m r(1,2) nm q]
  have l: "listed p = xs @ ys" using pl by (simp add: placed_def)
  have "body r = r" using r(3) by (simp add: body_def)
  then have "regions q = map (\<lambda>i. body (mmaps p ! i)) xs @ r # map (\<lambda>i. body (mmaps p ! i)) ys"
    unfolding regions_def listed_inv[OF iv(1)] using iv(2,3) m(2) l by (auto; metis)
  moreover have "pgdir q = pgdir p" "kstack q = kstack p" "parent q = parent p" using pl by (simp_all add: q placed_def set_region_def)
  ultimately show ?thesis unfolding wmapped_def using mm_inv_wf[OF iv(1)] l by (auto simp: regions_def)
qed

definition dup_ref :: "nat option \<Rightarrow> 'fs world \<Rightarrow> 'fs world" where
  "dup_ref f w = (case f of None \<Rightarrow> w | Some x \<Rightarrow> w\<lparr>file_ref := (file_ref w)(x := file_ref w x + 1)\<rparr>)"

lemma dup_close:
  assumes "\<And>x. f = Some x \<Longrightarrow> 0 < file_ref w x"
  shows "filedup_opt f w = Ret (dup_ref f w)" and "fileclose_opt io f (dup_ref f w) = Ret w"
  using assms by (auto simp: filedup_opt_def filedup_def fileclose_opt_def fileclose_def dup_ref_def Let_def split: option.splits)

lemma dup_ref_fields [simp]: "kern (dup_ref f w) = kern w" "procs (dup_ref f w) = procs w" "fsys (dup_ref f w) = fsys w"
  by (simp_all add: dup_ref_def split: option.splits)

definition new_region :: "int \<Rightarrow> int \<Rightarrow> int \<Rightarrow> (int \<times> nat) option \<Rightarrow> mmap_region" where
  "new_region s len flags fdarg = \<lparr>mm_addr = of_int s, mm_length = len, mm_flags = flags,
     mm_fd = (case fdarg of None \<Rightarrow> - 1 | Some (n, _) \<Rightarrow> n), mm_f = map_option snd fdarg, mm_refcnt = 0, mm_n_loaded = 0, mm_next = None\<rparr>"

text \<open>
  \<open>fix_addr_place_mmap\<close> and the code after it in \<open>sys_wmap\<close>, at an address that the checks let through.
\<close>

lemma place_region:
  assumes wf: "wf_proc p" and len: "0 < len" "len < 2 ^ 31" and a: "uint a mod 4096 = 0" "0x60000000 \<le> uint a" "uint a + len \<le> 0x80000000"
    and room: "total_mmaps p < 16"
  shows "\<not> free_at p (uint a) len \<Longrightarrow> fix_addr_place_mmap p a len = Ret (None, p)"
    and "free_at p (uint a) len \<Longrightarrow> \<exists>m p'. fix_addr_place_mmap p a len = Ret (Some m, p') \<and> mm_addr (mmaps p' ! m) = a \<and> m < length (mmaps p')
      \<and> wmapped p (new_region (uint a) len flags fdarg)
          ((upd_region m (\<lambda>r. r\<lparr>mm_length := len, mm_flags := flags, mm_fd := (case fdarg of None \<Rightarrow> - 1 | Some (n, _) \<Rightarrow> n),
              mm_f := map_option snd fdarg, mm_refcnt := 0, mm_n_loaded := 0\<rparr>) p')\<lparr>total_mmaps := total_mmaps p' + 1\<rparr>)"
proof -
  have b: "uint a \<le> 0x80000000" using a len by simp
  note ov = overlaps_covered[OF wf len b]
  have f: "free_at p (uint a) len \<longleftrightarrow> \<not> (\<exists>i\<in>set (listed p). overlaps a (a + of_int len) (mmaps p ! i))"
    unfolding ov using a by (auto simp: free_at_def)
  show "\<not> free_at p (uint a) len \<Longrightarrow> fix_addr_place_mmap p a len = Ret (None, p)"
    using fix_addr_place_None[of p "listed p" a len] wf f by (simp add: wf_proc_def)
  assume fr: "free_at p (uint a) len"
  have "length (listed p) < 16" using room wf by (simp add: wf_proc_def mm_inv_def)
  then obtain m where m: "find_unused_mmap p = Some m" "m < 16" "m \<notin> set (listed p)"
    using find_unused_mmap_inv[OF wf[unfolded wf_proc_def]] by blast
  obtain xs ys p' where p': "fix_addr_place_mmap p a len = Ret (Some m, p')" "placed p (listed p) a m xs ys p'"
    using fix_addr_place_ok[OF wf[unfolded wf_proc_def] _ m(1)] fr f by blast
  let ?r = "new_region (uint a) len flags fdarg"
  have r: "mm_addr ?r = a" "region_ok ?r" "mm_next ?r = None" "A ?r = uint a" "mm_length ?r = len"
    using a len by (simp_all add: new_region_def region_ok_def A_def)
  have ln: "length (mmaps p') = 16" and am: "mm_addr (mmaps p' ! m) = a"
    using p'(2) wf by (simp_all add: placed_def wf_proc_def mm_inv_def)
  have eq: "upd_region m (\<lambda>r. r\<lparr>mm_length := len, mm_flags := flags, mm_fd := (case fdarg of None \<Rightarrow> - 1 | Some (n, _) \<Rightarrow> n),
      mm_f := map_option snd fdarg, mm_refcnt := 0, mm_n_loaded := 0\<rparr>) p' = set_region m (?r\<lparr>mm_next := mm_next (mmaps p' ! m)\<rparr>) p'"
    unfolding upd_region_def new_region_def using am by (intro arg_cong[where f = "\<lambda>r. set_region m r p'"]) (cases "mmaps p' ! m", simp)
  have "{A ?r..<A ?r + mm_length ?r} \<inter> covered p = {}" using fr r by (simp add: free_at_def)
  then have "wmapped p ?r ((set_region m (?r\<lparr>mm_next := mm_next (mmaps p' ! m)\<rparr>) p')\<lparr>total_mmaps := total_mmaps p' + 1\<rparr>)"
    using fill_placed[OF wf p'(2) m(2,3) r(1-3)] by blast
  then show "\<exists>m p'. fix_addr_place_mmap p a len = Ret (Some m, p') \<and> mm_addr (mmaps p' ! m) = a \<and> m < length (mmaps p')
      \<and> wmapped p ?r ((upd_region m (\<lambda>r. r\<lparr>mm_length := len, mm_flags := flags, mm_fd := (case fdarg of None \<Rightarrow> - 1 | Some (n, _) \<Rightarrow> n),
              mm_f := map_option snd fdarg, mm_refcnt := 0, mm_n_loaded := 0\<rparr>) p')\<lparr>total_mmaps := total_mmaps p' + 1\<rparr>)"
    using p'(1) am ln m(2) eq by (intro exI[of _ m] exI[of _ p']) simp
qed

lemma sys_wmap_at:
  assumes wf: "wf_proc (procs w pid)" and fref: "\<forall>n x. fdarg = Some (n, x) \<longrightarrow> 0 < file_ref w x"
    and val: "validate_input addr len flags (map_option snd fdarg) = 0" and len: "len < 2 ^ 31" and room: "total_mmaps (procs w pid) < 16"
    and pl: "(if flags AND MAP_FIXED \<noteq> 0 then fix_addr_place_mmap (procs w pid) addr len else find_addr_place_mmap (procs w pid) len)
      = fix_addr_place_mmap (procs w pid) a len" and fr: "free_at (procs w pid) (uint a) len"
  shows "\<exists>p'. sys_wmap io pid addr len flags fdarg w = Ret (sint a, set_proc pid p' (dup_ref (map_option snd fdarg) w))
      \<and> wmapped (procs w pid) (new_region (uint a) len flags fdarg) p'"
proof -
  let ?p = "procs w pid" and ?f = "map_option snd fdarg" and ?fd = "case fdarg of None \<Rightarrow> - 1 | Some (n, _) \<Rightarrow> n"
  have l: "0 < len" using validate_inputD[OF val len] by simp
  have b: "uint a mod 4096 = 0" "0x60000000 \<le> uint a" "uint a + len \<le> 0x80000000" using fr by (simp_all add: free_at_def)
  obtain m p' where p': "fix_addr_place_mmap ?p a len = Ret (Some m, p')" "mm_addr (mmaps p' ! m) = a" "m < length (mmaps p')"
    and w': "wmapped ?p (new_region (uint a) len flags fdarg)
          ((upd_region m (\<lambda>r. r\<lparr>mm_length := len, mm_flags := flags, mm_fd := ?fd, mm_f := ?f, mm_refcnt := 0, mm_n_loaded := 0\<rparr>) p')
            \<lparr>total_mmaps := total_mmaps p' + 1\<rparr>)"
    using place_region(2)[OF wf l len b room fr, of flags fdarg] by (elim exE conjE) rule
  have d: "filedup_opt ?f w = Ret (dup_ref ?f w)" using fref by (intro dup_close(1)) auto
  have "sys_wmap io pid addr len flags fdarg w = Ret (sint a, set_proc pid
      ((upd_region m (\<lambda>r. r\<lparr>mm_length := len, mm_flags := flags, mm_fd := ?fd, mm_f := ?f, mm_refcnt := 0, mm_n_loaded := 0\<rparr>) p')
        \<lparr>total_mmaps := total_mmaps p' + 1\<rparr>) (dup_ref ?f w))"
    unfolding sys_wmap_def Let_def d obind.simps dup_ref_fields pl p'(1) using val room p'(2,3) by simp
  then show ?thesis using w' by blast
qed

lemma sys_wmap_none:
  assumes fref: "\<forall>n x. fdarg = Some (n, x) \<longrightarrow> 0 < file_ref w x" and val: "validate_input addr len flags (map_option snd fdarg) = 0"
    and no: "total_mmaps (procs w pid) < 16 \<Longrightarrow>
      (if flags AND MAP_FIXED \<noteq> 0 then fix_addr_place_mmap (procs w pid) addr len else find_addr_place_mmap (procs w pid) len) = Ret (None, procs w pid)"
  shows "sys_wmap io pid addr len flags fdarg w = Ret (FAILED, w)"
proof -
  let ?f = "map_option snd fdarg"
  have d: "filedup_opt ?f w = Ret (dup_ref ?f w)" "fileclose_opt io ?f (dup_ref ?f w) = Ret w" using fref by (intro dup_close; auto)+
  show ?thesis
  proof (cases "total_mmaps (procs w pid) < 16")
    case True
    show ?thesis unfolding sys_wmap_def Let_def d obind.simps dup_ref_fields no[OF True] using val True d(2) by simp
  next
    case False
    then show ?thesis unfolding sys_wmap_def Let_def d obind.simps dup_ref_fields using val d(2) by simp
  qed
qed

lemma sys_wmap_cases:
  assumes "wf_proc (procs w pid)" and "\<forall>n x. fdarg = Some (n, x) \<longrightarrow> 0 < file_ref w x"
    and "validate_input addr len flags (map_option snd fdarg) = 0" and "len < 2 ^ 31"
  obtains (placed) s p' where "total_mmaps (procs w pid) < 16" and "wmap_choice (procs w pid) addr len flags s"
      and "sys_wmap io pid addr len flags fdarg w = Ret (sint (of_int s :: u32), set_proc pid p' (dup_ref (map_option snd fdarg) w))"
      and "wmapped (procs w pid) (new_region s len flags fdarg) p'"
    | (none) "sys_wmap io pid addr len flags fdarg w = Ret (FAILED, w)"
      and "\<not> (total_mmaps (procs w pid) < 16 \<and> (\<exists>s. wmap_choice (procs w pid) addr len flags s))"
proof -
  let ?p = "procs w pid"
  note at = sys_wmap_at[OF assms(1-4), of _ io] and fail = sys_wmap_none[OF assms(2,3), of pid io]
  note v = validate_inputD[OF assms(3,4)]
  have go: thesis if c: "total_mmaps ?p < 16" "wmap_choice ?p addr len flags (uint a)" and ex: "\<exists>p'. sys_wmap io pid addr len flags fdarg w
      = Ret (sint a, set_proc pid p' (dup_ref (map_option snd fdarg) w)) \<and> wmapped ?p (new_region (uint a) len flags fdarg) p'" for a :: u32
  proof -
    obtain p' where "sys_wmap io pid addr len flags fdarg w = Ret (sint a, set_proc pid p' (dup_ref (map_option snd fdarg) w))"
      "wmapped ?p (new_region (uint a) len flags fdarg) p'" using ex by blast
    moreover have "(of_int (uint a) :: u32) = a" by simp
    ultimately show thesis using placed[OF c] by metis
  qed
  show thesis
  proof (cases "flags AND MAP_FIXED \<noteq> 0")
    case True
    then have c: "wmap_choice ?p addr len flags s \<longleftrightarrow> s = uint addr \<and> free_at ?p (uint addr) len" for s
      by (auto simp: wmap_choice_def)
    have "fix_addr_place_mmap ?p addr len = Ret (None, ?p)" if "total_mmaps ?p < 16" "\<not> free_at ?p (uint addr) len"
      using place_region(1)[OF assms(1) v(1) assms(4), of addr] v(2)[OF True] that by simp
    then show thesis using at[of addr] fail True go[of addr] none by (cases "total_mmaps ?p < 16 \<and> free_at ?p (uint addr) len") (auto simp: c)
  next
    case False
    then have c: "wmap_choice ?p addr len flags s \<longleftrightarrow> free_at ?p s len \<and> (\<forall>s'. free_at ?p s' len \<longrightarrow> s \<le> s')" for s
      by (simp add: wmap_choice_def)
    from find_addr_place[OF assms(1) v(1) assms(4)] show thesis
    proof (elim disjE exE conjE)
      assume "find_addr_place_mmap ?p len = Ret (None, ?p)" "\<forall>s. \<not> free_at ?p s len"
      then show thesis using fail False none by (simp add: c)
    next
      fix a assume "find_addr_place_mmap ?p len = fix_addr_place_mmap ?p a len" "free_at ?p (uint a) len"
        "\<forall>s. free_at ?p s len \<longrightarrow> uint a \<le> s"
      then show thesis using at[of a] go[of a] fail False none by (cases "total_mmaps ?p < 16") (simp_all add: c)
    qed
  qed
qed

text \<open>
  (C1) \<open>wmap\<close> with valid arguments on a well-formed process returns the address asked for with
  \<open>MAP_FIXED\<close>, or the lowest page-aligned address from \<open>0x60000000\<close> where the region fits below
  \<open>0x80000000\<close> without touching another; the new region is inserted in address order and nothing
  else but the reference count of the file changes: no page is allocated. When there is no such
  address or 16 regions exist, the call fails and changes nothing.
\<close>

theorem wmap_places_region:
  assumes "wf_proc (procs w pid)" and "\<forall>n x. fdarg = Some (n, x) \<longrightarrow> 0 < file_ref w x"
    and "validate_input addr len flags (map_option snd fdarg) = 0" and "len < 2 ^ 31"
  shows "if total_mmaps (procs w pid) < 16 \<and> (\<exists>s. wmap_choice (procs w pid) addr len flags s)
    then \<exists>s p'. wmap_choice (procs w pid) addr len flags s
      \<and> sys_wmap io pid addr len flags fdarg w = Ret (sint (of_int s :: u32), set_proc pid p' (dup_ref (map_option snd fdarg) w))
      \<and> wmapped (procs w pid) (new_region s len flags fdarg) p'
    else sys_wmap io pid addr len flags fdarg w = Ret (FAILED, w)"
  by (cases rule: sys_wmap_cases[OF assms, of io]) auto

subsection \<open>Removing a region\<close>

lemma unlink_relink: "unlink_region q i p = relink q p (mm_next (mmaps p ! i))"
  by (simp add: unlink_region_def relink_def split: option.splits)

lemma unlink_inv:
  assumes inv: "mm_inv p (xs @ i # ys)"
    and q: "q = init_one_mmap i ((unlink_region (last_opt xs) i p)\<lparr>total_mmaps := total_mmaps p - 1\<rparr>)"
  shows "mm_inv q (xs @ ys)" and "j \<noteq> i \<Longrightarrow> body (mmaps q ! j) = body (mmaps p ! j)"
    and "pgdir q = pgdir p" and "kstack q = kstack p" and "parent q = parent p"
proof -
  let ?u = "relink (last_opt xs) p (mm_next (mmaps p ! i))"
  note I = inv[unfolded mm_inv_def] and rf = relink_fields[of "last_opt xs" p "mm_next (mmaps p ! i)"]
  have "i < length (mmaps p)" using I chain_bound[of "mmaps p" "mmap_head p" "xs @ i # ys" i] by simp
  then have ln: "length (mmaps p) = 16" "i < 16" "distinct (xs @ i # ys)" using I by auto
  have qm: "mmaps q = (mmaps ?u)[i := unused_region]" by (simp add: q init_one_mmap_def set_region_def unlink_relink)
  show bo: "j \<noteq> i \<Longrightarrow> body (mmaps q ! j) = body (mmaps p ! j)" for j using rf(6) by (simp add: qm)
  show "pgdir q = pgdir p" "kstack q = kstack p" "parent q = parent p" using rf by (simp_all add: q init_one_mmap_def set_region_def unlink_relink)
  have f: "mm_addr (mmaps q ! j) = mm_addr (mmaps p ! j)" "A (mmaps q ! j) = A (mmaps p ! j)" "mm_length (mmaps q ! j) = mm_length (mmaps p ! j)"
    if "j \<noteq> i" for j using body_eqD[OF bo[OF that]] by (simp_all add: A_def)
  have ni: "j \<noteq> i" if "j \<in> set (xs @ ys)" for j using that ln(3) by auto
  show "mm_inv q (xs @ ys)" unfolding mm_inv_def
  proof (intro conjI)
    show "length (mmaps q) = 16" using rf ln by (simp add: qm)
    have "chain (mmaps ?u) (mmap_head ?u) (xs @ ys)" using unlink_chain I by blast
    moreover have "chain (mmaps q) (mmap_head ?u) (xs @ ys) = chain (mmaps ?u) (mmap_head ?u) (xs @ ys)"
      by (rule chain_cong) (simp add: qm, metis qm ni nth_list_update_neq)
    moreover have "mmap_head q = mmap_head ?u" by (simp add: q init_one_mmap_def set_region_def unlink_relink)
    ultimately show "chain (mmaps q) (mmap_head q) (xs @ ys)" by simp
    show "distinct (xs @ ys)" using ln by auto
    show "\<forall>j<16. (mm_addr (mmaps q ! j) \<noteq> - 1) = (j \<in> set (xs @ ys))"
    proof (intro allI impI)
      fix j :: nat assume j: "j < 16"
      show "(mm_addr (mmaps q ! j) \<noteq> - 1) = (j \<in> set (xs @ ys))"
      proof (cases "j = i")
        case True
        then show ?thesis using ln rf by (simp add: qm unused_region_def)
      next
        case False
        then show ?thesis using f(1) I j by simp
      qed
    qed
    show "total_mmaps q = int (length (xs @ ys))" using I by (simp add: q init_one_mmap_def set_region_def)
    have m: "map (\<lambda>j. A (mmaps q ! j)) (xs @ ys) = map (\<lambda>j. A (mmaps p ! j)) (xs @ ys)" using f(2) ni by (intro map_cong) simp_all
    show "sorted (map (\<lambda>j. A (mmaps q ! j)) (xs @ ys))" unfolding m using I by (simp add: sorted_append)
    show "\<forall>j\<in>set (xs @ ys). region_ok (mmaps q ! j)" using I f ni by (auto simp: region_ok_def)
    show "\<forall>j\<in>set (xs @ ys). \<forall>l\<in>set (xs @ ys). j \<noteq> l \<longrightarrow>
        \<not> meets (A (mmaps q ! j)) (A (mmaps q ! j) + mm_length (mmaps q ! j)) (mmaps q ! l)"
    proof (intro ballI impI)
      fix j l assume jl: "j \<in> set (xs @ ys)" "l \<in> set (xs @ ys)" "j \<noteq> l"
      then have "\<not> meets (A (mmaps p ! j)) (A (mmaps p ! j) + mm_length (mmaps p ! j)) (mmaps p ! l)" using I by simp
      then show "\<not> meets (A (mmaps q ! j)) (A (mmaps q ! j) + mm_length (mmaps q ! j)) (mmaps q ! l)"
        using f[OF ni[OF jl(1)]] f[OF ni[OF jl(2)]] by (simp add: meets_def)
    qed
  qed
qed

text \<open>A process with no regions, as \<open>init_mmaps\<close> leaves it.\<close>

lemma init_mmaps_wf:
  assumes "length (mmaps p) = 16"
  shows "wf_proc (init_mmaps p)" and "regions (init_mmaps p) = []" and "covered (init_mmaps p) = {}"
proof -
  have i: "length (mmaps (fold init_one_mmap is p)) = length (mmaps p)
      \<and> (\<forall>i<length (mmaps p). mmaps (fold init_one_mmap is p) ! i = (if i \<in> set is then unused_region else mmaps p ! i))" for p "is"
    by (induction "is" arbitrary: p) (auto simp: init_one_mmap_def set_region_def nth_list_update)
  have all: "length (mmaps (init_mmaps p)) = 16" "\<forall>i<16. mmaps (init_mmaps p) ! i = unused_region"
    using i[of "[0..<16]" p] assms by (simp_all add: init_mmaps_def)
  have h: "mmap_head (init_mmaps p) = None" "total_mmaps (init_mmaps p) = 0" by (simp_all add: init_mmaps_def)
  then have l: "listed (init_mmaps p) = []" by (simp add: listed_def)
  show "wf_proc (init_mmaps p)" unfolding wf_proc_def l mm_inv_def using all h by (simp add: unused_region_def)
  show "regions (init_mmaps p) = []" "covered (init_mmaps p) = {}" using l by (simp_all add: covered_def regions_def)
qed

lemma init_mmaps_fields [simp]: "pgdir (init_mmaps p) = pgdir p" "kstack (init_mmaps p) = kstack p" "parent (init_mmaps p) = parent p"
proof -
  have "pgdir (fold init_one_mmap is p) = pgdir p \<and> kstack (fold init_one_mmap is p) = kstack p \<and> parent (fold init_one_mmap is p) = parent p" for "is"
    by (induction "is" arbitrary: p) (simp_all add: init_one_mmap_def set_region_def)
  then show "pgdir (init_mmaps p) = pgdir p" "kstack (init_mmaps p) = kstack p" "parent (init_mmaps p) = parent p"
    by (simp_all add: init_mmaps_def)
qed

definition demo_proc :: proc where
  "demo_proc = init_mmaps \<lparr>pgdir = 0x80402000, kstack = 0x80500000, parent = None, mmaps = replicate 16 unused_region, mmap_head = None, total_mmaps = 0\<rparr>"

definition demo_world :: "unit world" where
  "demo_world = \<lparr>kern = demo_kernel, procs = (\<lambda>_. demo_proc), file_ref = (\<lambda>_. 0), fsys = ()\<rparr>"

definition demo_io :: "unit inode_ops" where
  "demo_io = \<lparr>iread = (\<lambda>_ _ _ _. None), iwrite = (\<lambda>_ _ bs _. (int (length bs), ())), iclose = (\<lambda>_ _. ())\<rparr>"

lemma demo_proc_wf: "wf_proc demo_proc" "regions demo_proc = []" "covered demo_proc = {}" "total_mmaps demo_proc = 0"
  unfolding demo_proc_def by (rule init_mmaps_wf, simp)+ (simp add: init_mmaps_def)

lemma demo_validate: "validate_input 0 8192 5 None = 0"
  by (simp add: validate_input_def)

lemma demo_choice: "wmap_choice demo_proc 0 8192 5 s \<longleftrightarrow> s = 0x60000000"
  by (auto simp: wmap_choice_def free_at_def demo_proc_wf)

theorem wmap_places_region_witness:
  "\<exists>p'. sys_wmap demo_io 0 0 8192 5 None demo_world = Ret (0x60000000, set_proc 0 p' demo_world)
     \<and> wmapped demo_proc (new_region 0x60000000 8192 5 None) p'"
  using wmap_places_region[of demo_world 0 None 0 8192 5 demo_io]
  by (simp add: demo_proc_wf demo_validate demo_choice demo_world_def dup_ref_def)

end
