(* ===== verification/Wmap_Pages.thy ===== *)
theory Wmap_Pages
  imports Wmap_Calls
begin

text \<open>
  The pages behind the regions (wmap.c): what unmapping a range of addresses does to the page
  tables and the free list, that \<open>wunmap\<close> undoes \<open>wmap\<close> and gives back every page the page faults
  loaded, and what a page fault adds.
\<close>

subsection \<open>Writing a page back\<close>

text \<open>What the code relies on in \<open>writei\<close>: it writes everything or reports an error.\<close>

definition writes_all :: "'fs inode_ops \<Rightarrow> nat option \<Rightarrow> bool" where
  "writes_all io wb \<longleftrightarrow> (\<forall>f fs bs off. wb = Some f \<longrightarrow> fst (iwrite io fs f bs off) = int (length bs) \<or> fst (iwrite io fs f bs off) < 0)"

lemma write_to_file_loop_returns:
  assumes "writes_all io (Some f)" and "n - i < fuel"
  shows "\<exists>j fs'. write_to_file_loop fuel io f pg off i n fs = Ret (j, fs')"
  using assms(2)
proof (induction fuel arbitrary: off i fs)
  case (Suc fuel)
  show ?case
  proof (cases "i < n")
    case True
    let ?n1 = "min (n - i) 1536"
    obtain r fs1 where r: "iwrite io fs f (page_bytes pg i ?n1) off = (r, fs1)" by fastforce
    have "fst (iwrite io fs f (page_bytes pg i ?n1) off) = int (length (page_bytes pg i ?n1))
        \<or> fst (iwrite io fs f (page_bytes pg i ?n1) off) < 0" using assms(1) by (simp add: writes_all_def)
    then have rv: "r = int ?n1 \<or> r < 0" unfolding r fst_conv by (simp add: page_bytes_def)
    have "n - (i + ?n1) < fuel" using Suc.prems True by auto
    then show ?thesis using Suc.IH rv True r by (auto simp: Let_def)
  qed simp
qed simp

lemma write_back_returns:
  assumes "writes_all io wb"
  shows "\<exists>fs'. write_back io wb pg off fs = Ret fs' \<and> (wb = None \<longrightarrow> fs' = fs)"
proof (cases wb)
  case (Some f)
  then obtain j fs' where "write_to_file_loop (Suc 4096) io f pg off 0 4096 fs = Ret (j, fs')"
    using write_to_file_loop_returns assms by (metis diff_zero lessI)
  then show ?thesis using Some by (simp add: write_back_def write_to_file_def del: write_to_file_loop.simps)
qed (simp add: write_back_def)

subsection \<open>Unmapping a range\<close>

lemma unmap_range_none:
  assumes "unat a mod 4096 = 0" and "unat e \<le> 2147483648" and "unat e \<le> unat a + 4096 * n"
    and "\<And>va. vpn va \<in> pages_in a e \<Longrightarrow> \<not> present (pte (memory k) d va)"
  shows "unmap_range (Suc n) io d base wb fr a e (k, fs) = Ret (0, k, fs)"
  using assms
proof (induction n arbitrary: a)
  case 0
  then have "\<not> a < e" by (auto simp: word_less_nat_alt)
  then show ?case by simp
next
  case (Suc n)
  show ?case
  proof (cases "a < e")
    case True
    note nx = pages_in_next[OF Suc.prems(1) True Suc.prems(2)]
    have "unat e \<le> unat (a + 4096) + 4096 * n" using Suc.prems(3) nx(1) by simp
    then have "unmap_range (Suc n) io d base wb fr (a + 4096) e (k, fs) = Ret (0, k, fs)"
      using Suc.IH[OF nx(2) Suc.prems(2)] Suc.prems(4) nx(3) by blast
    moreover have "\<not> present (pte (memory k) d a)" using Suc.prems(4) nx(3) by blast
    ultimately show ?thesis by (cases "present (memory k d (PDX a))")
      (simp_all add: walk_noalloc load_pte del: unmap_range.simps add: unmap_range.simps(2)[of "Suc n"])
  qed simp
qed

lemma unmap_range_frees:
  assumes "vm_inv k fs D" and "d \<in> D" and "unat a mod 4096 = 0" and "unat e \<le> 2147483648" and "unat e \<le> unat a + 4096 * n"
    and "\<And>va. vpn va \<in> pages_in a e \<Longrightarrow> present (pte (memory k) d va) \<Longrightarrow> only_mapping (memory k) D d va"
    and "writes_all io wb"
  shows "\<exists>k' gs y'. unmap_range (Suc n) io d base wb True a e (k, y) = Ret (int (length gs), k', y')
    \<and> released k fs D d (pages_in a e) k' gs \<and> (wb = None \<longrightarrow> y' = y)"
  using assms(1-6)
proof (induction n arbitrary: a k fs y)
  case 0
  then have "\<not> a < e" "pages_in a e = {}" by (auto simp: word_less_nat_alt pages_in_def)
  then show ?case using released_refl[OF 0(1)] by (intro exI[of _ k] exI[of _ "[]"] exI[of _ y]) auto
next
  case (Suc n)
  show ?case
  proof (cases "a < e")
    case False
    then have "pages_in a e = {}" by (auto simp: word_less_nat_alt pages_in_def)
    then show ?thesis using False released_refl[OF Suc.prems(1)] by (intro exI[of _ k] exI[of _ "[]"] exI[of _ y]) auto
  next
    case lt: True
    note nx = pages_in_next[OF Suc.prems(3) lt Suc.prems(4)]
    have fuel: "unat e \<le> unat (a + 4096) + 4096 * n" using Suc.prems(5) nx(1) by simp
    note simps = walk_noalloc load_pte unmap_range.simps(2)[of "Suc n"]
    show ?thesis
    proof (cases "present (pte (memory k) d a)")
      case np: False
      obtain k' gs y' where k': "unmap_range (Suc n) io d base wb True (a + 4096) e (k, y) = Ret (int (length gs), k', y')"
        "released k fs D d (pages_in (a + 4096) e) k' gs" "wb = None \<longrightarrow> y' = y"
        using Suc.IH[OF Suc.prems(1,2) nx(2) Suc.prems(4) fuel] Suc.prems(6) nx(3) by blast
      have rel: "released k fs D d (pages_in a e) k' gs"
        using released_cong[OF k'(2), of "pages_in a e"] np pte_vpn nx(3) by (metis insert_iff)
      have "unmap_range (Suc (Suc n)) io d base wb True a e (k, y) = Ret (int (length gs), k', y')"
        using k'(1) np lt by (cases "present (memory k d (PDX a))") (simp_all add: simps del: unmap_range.simps)
      then show ?thesis using rel k'(3) by blast
    next
      case pr: True
      let ?f = "frame (memory k) d a"
      have au: "a < KERNBASE" using lt Suc.prems(4) by (simp add: word_less_nat_alt)
      have dir: "present (memory k d (PDX a))" using pr by (auto simp: pte_def split: if_splits)
      have only: "only_mapping (memory k) D d a" using Suc.prems(6) pr nx(3) by blast
      obtain k1 where k1: "kfree ?f k = Ret k1"
        "released k fs D d {vpn a} (store (ptab (memory k) d (PDX a), PTX a) 0 k1) [?f]"
        using released_page[OF Suc.prems(1,2) au pr only] by blast
      let ?k2 = "store (ptab (memory k) d (PDX a), PTX a) 0 k1"
      have inv2: "vm_inv ?k2 ([?f] @ fs) D" using releasedD(1)[OF k1(2)] .
      have only2: "only_mapping (memory ?k2) D d va" if "vpn va \<in> pages_in (a + 4096) e" "present (pte (memory ?k2) d va)" for va
      proof -
        have "vpn va \<notin> {vpn a}" using that(1) nx(4) by auto
        then show ?thesis using released_only_mapping[OF k1(2) Suc.prems(2)] releasedD(3)[OF k1(2), of va] Suc.prems(6)[of va] that nx(3) by simp
      qed
      obtain y1 where y1: "write_back io wb (memory k ?f) (sint (a - base)) y = Ret y1" "wb = None \<longrightarrow> y1 = y"
        using write_back_returns[OF assms(7)] by blast
      obtain k' gs y' where k': "unmap_range (Suc n) io d base wb True (a + 4096) e (?k2, y1) = Ret (int (length gs), k', y')"
        "released ?k2 ([?f] @ fs) D d (pages_in (a + 4096) e) k' gs" "wb = None \<longrightarrow> y' = y1"
        using Suc.IH[OF inv2 Suc.prems(2) nx(2) Suc.prems(4) fuel] only2 by blast
      have rel: "released k fs D d (pages_in a e) k' (gs @ [?f])"
        using released_trans[OF k1(2) k'(2) Suc.prems(2)] nx(3) by simp
      have "unmap_range (Suc (Suc n)) io d base wb True a e (k, y) = Ret (int (length (gs @ [?f])), k', y')"
        using k'(1) k1(1) y1(1) pr dir lt by (simp add: simps frame_def Let_def del: unmap_range.simps)
      then show ?thesis using rel k'(3) y1(2) by blast
    qed
  qed
qed

subsection \<open>wunmap\<close>

lemma region_pages:
  assumes "region_ok r"
  shows "unat (mm_addr r) mod 4096 = 0" and "unat (mm_end r) \<le> 2147483648"
    and "v \<in> pages_in (mm_addr r) (mm_end r) \<longleftrightarrow> 4096 * int v \<in> {A r..<A r + mm_length r}"
proof -
  have u: "int (unat x) = uint x" for x :: u32 by simp
  have e: "int (unat (mm_end r)) = A r + mm_length r" and a: "int (unat (mm_addr r)) = A r" using mm_end_uint[OF assms] by (simp_all add: A_def)
  have "int (unat (mm_addr r) mod 4096) = A r mod 4096" using a by (simp add: zmod_int)
  then show "unat (mm_addr r) mod 4096 = 0" using assms by (simp add: region_ok_def)
  have "int (unat (mm_end r)) \<le> 2147483648" using e assms by (simp add: region_ok_def)
  then show "unat (mm_end r) \<le> 2147483648" by linarith
  have "unat (mm_addr r) \<le> 4096 * v \<longleftrightarrow> A r \<le> 4096 * int v" "4096 * v < unat (mm_end r) \<longleftrightarrow> 4096 * int v < A r + mm_length r"
    using a e by linarith+
  then show "v \<in> pages_in (mm_addr r) (mm_end r) \<longleftrightarrow> 4096 * int v \<in> {A r..<A r + mm_length r}" by (simp add: pages_in_def)
qed

lemma addr_distinct:
  assumes "mm_inv p is" and "i \<in> set is" and "j \<in> set is" and "i \<noteq> j"
  shows "mm_addr (mmaps p ! i) \<noteq> mm_addr (mmaps p ! j)"
proof
  assume "mm_addr (mmaps p ! i) = mm_addr (mmaps p ! j)"
  then have "A (mmaps p ! i) = A (mmaps p ! j)" by (simp add: A_def)
  moreover have "0 < mm_length (mmaps p ! i)" "0 < mm_length (mmaps p ! j)" using assms by (simp_all add: mm_inv_def region_ok_def)
  ultimately have "meets (A (mmaps p ! i)) (A (mmaps p ! i) + mm_length (mmaps p ! i)) (mmaps p ! j)" by (simp add: meets_def)
  then show False using assms by (auto simp: mm_inv_def)
qed

text \<open>The process after the region \<open>r\<close> is taken out.\<close>

definition wunmapped :: "proc \<Rightarrow> mmap_region \<Rightarrow> proc \<Rightarrow> bool" where
  "wunmapped p r p' \<longleftrightarrow> wf_proc p' \<and> regions p' = remove1 r (regions p)
     \<and> pgdir p' = pgdir p \<and> kstack p' = kstack p \<and> parent p' = parent p"

lemma sys_wunmap_region:
  assumes wf: "wf_proc (procs w pid)" and r: "r \<in> set (regions (procs w pid))"
    and um: "unmap_pages io (pgdir (procs w pid)) (mm_addr r) (wb_file r) (mm_refcnt r = 0) (mm_addr r) (mm_end r) w = Ret (c, w1)"
    and fc: "(if mm_refcnt r = 0 then fileclose_opt io (mm_f r) w1 else Ret w1) = Ret w2"
    and st: "kstack (procs w pid) \<noteq> 0" "pgdir (procs w pid) \<noteq> 0"
  shows "\<exists>p'. sys_wunmap io pid (mm_addr r) w = Ret (0, set_proc pid p' w2) \<and> wunmapped (procs w pid) r p'"
proof -
  let ?p = "procs w pid"
  note inv = wf[unfolded wf_proc_def]
  obtain i where i: "i \<in> set (listed ?p)" "r = body (mmaps ?p ! i)" using r by (auto simp: set_regions)
  then obtain xs ys where l: "listed ?p = xs @ i # ys" by (meson split_list)
  let ?m = "mmaps ?p ! i"
  note I = inv[unfolded mm_inv_def l]
  have ok: "region_ok ?m" using I by simp
  have al: "mm_addr ?m mod 4096 = 0" using region_pages(1)[OF ok] by (simp only: mod_PGSIZE_0)
  have xd: "\<forall>j\<in>set xs. mm_addr (mmaps ?p ! j) \<noteq> mm_addr ?m"
    using addr_distinct[OF inv, of _ i] I l by auto
  have fa: "find_at 17 (mm_addr ?m) (mmaps ?p) None (mmap_head ?p) = Ret (last_opt xs, Some i)"
    using find_at_chain(2)[of "mmaps ?p" "mmap_head ?p" "xs @ i # ys" 17 xs i ys "mm_addr ?m" None] I xd mm_inv_length[OF inv]
    unfolding l last_opt_def by simp
  let ?q = "init_one_mmap i ((unlink_region (last_opt xs) i ?p)\<lparr>total_mmaps := total_mmaps ?p - 1\<rparr>)"
  note uq = unlink_inv[OF inv[unfolded l] refl]
  have tot: "total_mmaps (unlink_region (last_opt xs) i ?p) = total_mmaps ?p" using relink_fields by (simp add: unlink_relink)
  have same: "mm_addr r = mm_addr ?m" "mm_end r = mm_end ?m" "mm_refcnt r = mm_refcnt ?m" "mm_f r = mm_f ?m" "wb_file r = wb_file ?m"
    by (simp_all add: i(2) mm_end_def wb_file_def)
  have sw: "switchuvm (kstack ?q) (pgdir ?q) = Ret ()" unfolding uq(3,4) switchuvm_def using st by simp
  have "remove_map io pid (mm_addr r) w = Ret (0, set_proc pid ?q w2)"
    using um fc sw unfolding remove_map_def same Let_def fa by (simp add: fa tot)
  then have "sys_wunmap io pid (mm_addr r) w = Ret (0, set_proc pid ?q w2)" using al by (simp add: sys_wunmap_def same)
  moreover have "regions ?q = remove1 r (regions ?p)"
  proof -
    have "i \<notin> set (xs @ ys)" using I by auto
    then have "map (\<lambda>j. body (mmaps ?q ! j)) (xs @ ys) = map (\<lambda>j. body (mmaps ?p ! j)) (xs @ ys)"
      by (intro map_cong refl uq(2)) blast
    moreover have "r \<notin> set (map (\<lambda>j. body (mmaps ?p ! j)) xs)" using xd by (auto simp: i(2) dest!: body_eqD)
    ultimately show ?thesis unfolding regions_def listed_inv[OF uq(1)] l by (simp add: remove1_append i(2))
  qed
  ultimately show ?thesis using mm_inv_wf[OF uq(1)] uq(3-5) unfolding wunmapped_def by blast
qed

lemma distinct_regions:
  assumes "wf_proc p"
  shows "distinct (regions p)"
  unfolding regions_def distinct_map
proof
  note inv = assms[unfolded wf_proc_def]
  show "distinct (listed p)" using inv by (simp add: mm_inv_def)
  show "inj_on (\<lambda>i. body (mmaps p ! i)) (set (listed p))"
    using addr_distinct[OF inv] by (metis (mono_tags, lifting) body_simps(1) inj_onI)
qed

lemma regions_ok: "wf_proc p \<Longrightarrow> r \<in> set (regions p) \<Longrightarrow> region_ok r"
  by (auto simp: set_regions wf_proc_def mm_inv_def region_ok_def)

lemma set_proc_simps [simp]: "procs (set_proc pid p w) pid = p" "pid' \<noteq> pid \<Longrightarrow> procs (set_proc pid p w) pid' = procs w pid'"
  "set_proc pid q (set_proc pid p w) = set_proc pid q w" "kern (set_proc pid p w) = kern w" "fsys (set_proc pid p w) = fsys w"
  "file_ref (set_proc pid p w) = file_ref w"
  by (simp_all add: set_proc_def)

text \<open>Every loaded page of the mapping area belongs to a region.\<close>

definition pages_covered :: "kernel \<Rightarrow> proc \<Rightarrow> bool" where
  "pages_covered k p \<longleftrightarrow> (\<forall>va. 0x60000000 \<le> uint va \<and> uint va < 0x80000000 \<and> present (pte (memory k) (pgdir p) va)
     \<longrightarrow> 4096 * int (vpn va) \<in> covered p)"

lemma wunmap_fresh:
  assumes wf: "wf_proc p" and pc: "pages_covered k p" and fr: "free_at p s len" and va: "4096 * int (vpn va) \<in> {s..<s + len}"
  shows "\<not> present (pte (memory k) (pgdir p) va)"
proof
  assume pr: "present (pte (memory k) (pgdir p) va)"
  have v: "int (unat va) = uint va" by simp
  have "4096 * vpn va \<le> unat va" "unat va < 4096 * vpn va + 4096"
    using div_mult_mod_eq[of "unat va" 4096] mod_less_divisor[of 4096 "unat va"] by (simp_all add: vpn_def)
  moreover have "0x60000000 \<le> 4096 * int (vpn va)" "4096 * int (vpn va) < 0x80000000" using va fr by (simp_all add: free_at_def)
  moreover have "vpn va < 524288" using calculation(4) by simp
  ultimately have "0x60000000 \<le> uint va" "uint va < 0x80000000" using v by linarith+
  then have "4096 * int (vpn va) \<in> covered p" using pc pr by (simp add: pages_covered_def)
  then show False using fr va by (auto simp: free_at_def)
qed

lemma unmap_pages_none:
  assumes "region_ok r" and "\<And>va. 4096 * int (vpn va) \<in> {A r..<A r + mm_length r} \<Longrightarrow> \<not> present (pte (memory (kern w)) d va)"
  shows "unmap_pages io d base wb fr (mm_addr r) (mm_end r) w = Ret (0, w)"
proof -
  note rp = region_pages[OF assms(1)]
  have "unmap_range (Suc (unat (mm_end r - mm_addr r) div 4096 + 1)) io d base wb fr (mm_addr r) (mm_end r) (kern w, fsys w) = Ret (0, kern w, fsys w)"
    using assms(2) rp(3) by (intro unmap_range_none[OF rp(1,2) range_fuel]) blast
  then show ?thesis by (simp add: unmap_pages_def)
qed

text \<open>
  Unmapping a region right after \<open>wmap\<close> returned its address succeeds and restores the
  process's regions, its file's reference count, the kernel's memory and the file system.
\<close>

theorem wunmap_undoes_wmap:
  assumes wf: "wf_proc (procs w pid)" and fref: "\<forall>n x. fdarg = Some (n, x) \<longrightarrow> 0 < file_ref w x"
    and val: "validate_input addr len flags (map_option snd fdarg) = 0" and len: "len < 2 ^ 31"
    and call: "sys_wmap io pid addr len flags fdarg w = Ret (a, w1)" "a \<noteq> FAILED"
    and pc: "pages_covered (kern w) (procs w pid)" and st: "kstack (procs w pid) \<noteq> 0" "pgdir (procs w pid) \<noteq> 0"
  shows "\<exists>p'. sys_wunmap io pid (of_int a) w1 = Ret (0, set_proc pid p' w) \<and> wf_proc p' \<and> regions p' = regions (procs w pid)"
proof (cases rule: sys_wmap_cases[OF wf fref val len, of io, case_names placed none])
  case (placed s p1)
  let ?r = "new_region s len flags fdarg" and ?f = "map_option snd fdarg"
  have a: "a = sint (of_int s :: u32)" and w1: "w1 = set_proc pid p1 (dup_ref ?f w)" using placed(3) call(1) by simp_all
  obtain xs ys where p1: "wf_proc p1" "regions (procs w pid) = xs @ ys" "regions p1 = xs @ ?r # ys"
      "pgdir p1 = pgdir (procs w pid)" "kstack p1 = kstack (procs w pid)"
    using placed(4) unfolding wmapped_def by blast
  have fr: "free_at (procs w pid) s len" using placed(2) by (simp add: wmap_choice_def)
  then have sr: "A ?r = s" "mm_length ?r = len" using validate_inputD(1)[OF val len]
    by (simp_all add: new_region_def A_def free_at_def uint_word_of_int_eq take_bit_int_eq_self)
  have ok: "region_ok ?r" using regions_ok[OF p1(1)] p1(3) by simp
  have um: "unmap_pages io (pgdir p1) (mm_addr ?r) (wb_file ?r) True (mm_addr ?r) (mm_end ?r) w1 = Ret (0, w1)"
    using wunmap_fresh[OF wf pc fr] by (intro unmap_pages_none[OF ok]) (simp add: sr p1(4) w1)
  have "fileclose_opt io ?f w1 = Ret (set_proc pid p1 w)"
    using fref unfolding w1 by (auto simp: dup_ref_def fileclose_opt_def fileclose_def set_proc_def Let_def split: option.splits)
  then have fc: "(if mm_refcnt ?r = 0 then fileclose_opt io (mm_f ?r) w1 else Ret w1) = Ret (set_proc pid p1 w)"
    by (simp add: new_region_def)
  have pw: "procs w1 pid = p1" by (simp add: w1)
  have "\<exists>p'. sys_wunmap io pid (mm_addr ?r) w1 = Ret (0, set_proc pid p' (set_proc pid p1 w)) \<and> wunmapped p1 ?r p'"
    using sys_wunmap_region[of w1 pid ?r io 0 w1 "set_proc pid p1 w"] um fc p1 st unfolding pw by (simp add: new_region_def)
  moreover have "remove1 ?r (xs @ ?r # ys) = xs @ ys" using distinct_regions[OF p1(1)] p1(3) by (simp add: remove1_append)
  moreover have "mm_addr ?r = of_int a" by (simp add: new_region_def a)
  ultimately show ?thesis using p1(2,3) by (auto simp: wunmapped_def)
qed (use call in simp)

lemma demo_wmap: "\<exists>p'. sys_wmap demo_io 0 0 8192 5 None demo_world = Ret (0x60000000, set_proc 0 p' demo_world)"
proof -
  have d: "procs demo_world 0 = demo_proc" "dup_ref None demo_world = demo_world" by (simp_all add: demo_world_def dup_ref_def)
  show ?thesis
    by (rule sys_wmap_cases[of demo_world 0 None 0 8192 5 demo_io]) (auto simp: d demo_proc_wf demo_validate demo_choice)
qed

theorem wunmap_undoes_wmap_witness:
  "\<exists>w1 p'. sys_wmap demo_io 0 0 8192 5 None demo_world = Ret (0x60000000, w1)
     \<and> sys_wunmap demo_io 0 0x60000000 w1 = Ret (0, set_proc 0 p' demo_world) \<and> regions p' = []"
proof -
  obtain p1 where p1: "sys_wmap demo_io 0 0 8192 5 None demo_world = Ret (0x60000000, set_proc 0 p1 demo_world)" using demo_wmap by blast
  have d: "procs demo_world 0 = demo_proc" "kern demo_world = demo_kernel" "kstack demo_proc \<noteq> 0" "pgdir demo_proc = 0x80402000"
    by (simp_all add: demo_world_def demo_proc_def)
  have "pages_covered demo_kernel demo_proc" by (simp add: pages_covered_def d demo_kernel_empty)
  then show ?thesis using wunmap_undoes_wmap[OF _ _ _ _ p1] by (simp add: p1 d demo_proc_wf demo_validate) blast
qed

lemma fileclose_kern:
  assumes "\<forall>x. f = Some x \<longrightarrow> 0 < file_ref w x"
  shows "\<exists>w'. fileclose_opt io f w = Ret w' \<and> kern w' = kern w \<and> procs w' = procs w"
proof (cases f)
  case (Some x)
  then show ?thesis using assms by (cases "1 < file_ref w x") (simp_all add: fileclose_opt_def fileclose_def Let_def)
qed (simp add: fileclose_opt_def)

subsection \<open>Giving back the pages of a region\<close>

text \<open>
  (C3) \<open>wunmap\<close> of a region that no child shares succeeds: the region is taken out of the list, the
  entries of its loaded pages are cleared, and exactly those pages go back to the free list; every
  other translation and page stays.
\<close>

theorem wunmap_releases_pages:
  assumes wf: "wf_proc (procs w pid)" and r: "r \<in> set (regions (procs w pid))" "mm_refcnt r = 0"
    and inv: "vm_inv (kern w) fs D" "pgdir (procs w pid) \<in> D" and st: "kstack (procs w pid) \<noteq> 0"
    and only: "\<And>va. 4096 * int (vpn va) \<in> {A r..<A r + mm_length r} \<Longrightarrow> present (pte (memory (kern w)) (pgdir (procs w pid)) va)
      \<Longrightarrow> only_mapping (memory (kern w)) D (pgdir (procs w pid)) va"
    and io: "writes_all io (wb_file r)" "\<forall>x. mm_f r = Some x \<longrightarrow> 0 < file_ref w x"
  shows "\<exists>w' gs. sys_wunmap io pid (mm_addr r) w = Ret (0, w') \<and> wunmapped (procs w pid) r (procs w' pid)
    \<and> released (kern w) fs D (pgdir (procs w pid)) {v. 4096 * int v \<in> {A r..<A r + mm_length r}} (kern w') gs"
proof -
  let ?d = "pgdir (procs w pid)" and ?a = "mm_addr r" and ?e = "mm_end r"
  note rp = region_pages[OF regions_ok[OF wf r(1)]]
  obtain k' gs y' where k': "unmap_range (Suc (unat (?e - ?a) div 4096 + 1)) io ?d ?a (wb_file r) True ?a ?e (kern w, fsys w) = Ret (int (length gs), k', y')"
    "released (kern w) fs D ?d (pages_in ?a ?e) k' gs"
    using unmap_range_frees[OF inv rp(1,2) range_fuel _ io(1), of ?a "fsys w"] only rp(3) by blast
  let ?w1 = "w\<lparr>kern := k', fsys := y'\<rparr>"
  have um: "unmap_pages io ?d ?a (wb_file r) (mm_refcnt r = 0) ?a ?e w = Ret (int (length gs), ?w1)"
    using k'(1) r(2) by (simp add: unmap_pages_def)
  obtain w2 where fc: "fileclose_opt io (mm_f r) ?w1 = Ret w2" "kern w2 = k'"
    using fileclose_kern[of "mm_f r" ?w1 io] io(2) by auto
  have "?d \<noteq> 0" using vm_invD(4)[OF inv(1,2), of ?d] by (simp add: table_pages_def good_frame_def)
  then obtain p' where "sys_wunmap io pid ?a w = Ret (0, set_proc pid p' w2)" "wunmapped (procs w pid) r p'"
    using sys_wunmap_region[OF wf r(1) um _ st] fc(1) r(2) by auto
  moreover have "pages_in ?a ?e = {v. 4096 * int v \<in> {A r..<A r + mm_length r}}" using rp(3) by blast
  ultimately show ?thesis using k'(2) fc(2) by (intro exI[of _ "set_proc pid p' w2"] exI[of _ gs]) simp
qed

subsection \<open>Page faults\<close>

lemma find_unique:
  assumes "i \<in> set is" and "P i" and "\<And>j. j \<in> set is \<Longrightarrow> P j \<Longrightarrow> j = i"
  shows "find P is = Some i"
proof (cases "find P is")
  case None
  then show ?thesis using assms(1,2) by (simp add: find_None_iff)
next
  case (Some j)
  then have "j \<in> set is \<and> P j" using find_Some_iff[of P "is" j] nth_mem by metis
  then show ?thesis using Some assms(3) by blast
qed

lemma upd_region_keeps:
  assumes inv: "mm_inv p is" and i: "i \<in> set is" and g: "\<And>r. mm_addr (g r) = mm_addr r \<and> mm_length (g r) = mm_length r \<and> mm_next (g r) = mm_next r"
  shows "mm_inv (upd_region i g p) is"
proof -
  let ?q = "upd_region i g p"
  note I = inv[unfolded mm_inv_def]
  have l: "i < length (mmaps p)" using I i chain_bound[of "mmaps p" "mmap_head p" "is" i] by simp
  have f: "mm_addr (mmaps ?q ! j) = mm_addr (mmaps p ! j)" "mm_length (mmaps ?q ! j) = mm_length (mmaps p ! j)"
    "mm_next (mmaps ?q ! j) = mm_next (mmaps p ! j)" for j using g l by (cases "j = i"; simp)+
  have a: "A (mmaps ?q ! j) = A (mmaps p ! j)" for j by (simp add: A_def f)
  have "chain (mmaps ?q) (mmap_head p) is" using I chain_cong[of "mmaps ?q" "mmaps p" "is" "mmap_head p"] by (simp add: f)
  then show ?thesis using I unfolding mm_inv_def by (simp add: f a region_ok_def meets_def)
qed

text \<open>The bytes a fault at \<open>va\<close> in the region \<open>r\<close> reads: none for an anonymous region.\<close>

definition fault_bytes :: "'fs inode_ops \<Rightarrow> 'fs \<Rightarrow> mmap_region \<Rightarrow> u32 \<Rightarrow> byte list option" where
  "fault_bytes io fs r va =
     (if mm_flags r AND MAP_ANONYMOUS = 0 \<and> mm_f r \<noteq> None
      then iread io fs (the (mm_f r)) (sint (va - mm_addr r)) 4096 else Some [])"

lemma find_region:
  assumes wf: "wf_proc p" and i: "i \<in> set (listed p)" and va: "uint va \<in> {A (mmaps p ! i)..<A (mmaps p ! i) + mm_length (mmaps p ! i)}"
  shows "find_containing 17 va (mmaps p) (mmap_head p) = Ret (Some i)"
proof -
  note inv = wf[unfolded wf_proc_def] and I = wf[unfolded wf_proc_def mm_inv_def]
  have P: "va \<ge> mm_addr (mmaps p ! j) \<and> va < mm_end (mmaps p ! j) \<longleftrightarrow> uint va \<in> {A (mmaps p ! j)..<A (mmaps p ! j) + mm_length (mmaps p ! j)}"
    if "j \<in> set (listed p)" for j using I that mm_end_uint[of "mmaps p ! j"] by (simp add: word_le_def word_less_def A_def)
  have "j = i" if j: "j \<in> set (listed p)" "uint va \<in> {A (mmaps p ! j)..<A (mmaps p ! j) + mm_length (mmaps p ! j)}" for j
  proof (rule ccontr)
    assume "j \<noteq> i"
    then have "\<not> meets (A (mmaps p ! j)) (A (mmaps p ! j) + mm_length (mmaps p ! j)) (mmaps p ! i)" using I i j(1) by blast
    then show False using va j(2) by (auto simp: meets_def)
  qed
  then have "find (\<lambda>j. va \<ge> mm_addr (mmaps p ! j) \<and> va < mm_end (mmaps p ! j)) (listed p) = Some i"
    using P[OF i] va P by (intro find_unique[OF i]) blast+
  then show ?thesis using find_containing_chain[of "mmaps p" "mmap_head p" "listed p" 17 va] I mm_inv_length[OF inv] by simp
qed

lemma page_address:
  "uint (PGROUNDDOWN a) = 4096 * int (vpn a)" "unat (PGROUNDDOWN a) mod 4096 = 0" "vpn (PGROUNDDOWN a) = vpn a"
proof -
  have "int (unat (PGROUNDDOWN a)) = 4096 * int (vpn a)" unfolding PGROUNDDOWN_unat by simp
  then show "uint (PGROUNDDOWN a) = 4096 * int (vpn a)" by simp
  show "unat (PGROUNDDOWN a) mod 4096 = 0" "vpn (PGROUNDDOWN a) = vpn a"
    unfolding vpn_def[of "PGROUNDDOWN a"] PGROUNDDOWN_unat by simp_all
qed

lemma restored_refl: "vm_inv k fs D \<Longrightarrow> restored k fs D d k fs"
  by (simp add: restored_def)

text \<open>The kernel's part of a page fault: \<open>kalloc\<close>, \<open>memset\<close> and \<open>mappages\<close>.\<close>

lemma fault_alloc:
  assumes inv: "vm_inv k fs D" and d: "d \<in> D" and va: "unat va mod 4096 = 0" "va < KERNBASE" and np: "\<not> present (pte (memory k) d va)"
  obtains (nopage) "kalloc k = (0, k)" and "restored k fs D d k fs"
    | (notable) mem k1 k2 k3 fs' where "kalloc k = (mem, k1)" and "mem \<noteq> 0"
        and "mappages d va PGSIZE (V2P mem) (PTE_W OR PTE_U) (zero_page mem k1) = Ret (- 1, k2)" and "kfree mem k2 = Ret k3" and "restored k fs D d k3 fs'"
    | (mapped) mem k1 k2 fs' where "kalloc k = (mem, k1)" and "mem \<noteq> 0"
        and "mappages d va PGSIZE (V2P mem) (PTE_W OR PTE_U) (zero_page mem k1) = Ret (0, k2)" and "grown k fs D d {vpn va} k2 fs'"
        and "frame (memory k2) d va = mem"
proof (cases fs)
  case Nil
  then show ?thesis using nopage kalloc_inv_Nil inv restored_refl by blast
next
  case (Cons f fs1)
  let ?k1 = "k\<lparr>freelist := memory k f 0\<rparr>" and ?z = "zero_page f (k\<lparr>freelist := memory k f 0\<rparr>)"
  have g0: "grown k fs D d {} k (f # fs1)" using grown_refl[OF inv] Cons by simp
  have ne: "vpn va \<notin> {}" by simp
  note st = grown_step[OF g0 d va ne np refl]
  from st(5) show ?thesis
  proof (elim disjE exE conjE)
    assume e: "fs1 = []" and mp: "mappages d va PGSIZE (V2P f) (PTE_W OR PTE_U) ?z = Ret (- 1, ?z)"
    have ft: "\<not> table_page (memory ?z) D f" "\<not> user_frame (memory ?z) D f"
      using kalloc_inv(5,6)[of k f fs1 D] inv Cons st(6,7) by (auto simp: table_page_def user_frame_def frame_def)
    have "good_frame ?z f" using kalloc_inv(3)[of k f fs1 D] inv Cons by (simp add: good_frame_def zero_page_def)
    from kfree_inv[OF st(3) this st(4) ft] obtain k3 where k3: "kfree f ?z = Ret k3" "vm_inv k3 (f # fs1) D"
      "\<forall>d\<in>D. \<forall>va. pte (memory k3) d va = pte (memory ?z) d va" "\<forall>d\<in>D. table_pages (memory k3) d = table_pages (memory ?z) d" "kend k3 = kend ?z"
      by blast
    have "restored k fs D d k3 (f # fs1)" unfolding restored_def using k3 st(6,7) Cons d by (simp add: zero_page_def)
    then show ?thesis using notable[OF st(1,2) mp k3(1)] by blast
  next
    fix k' fs' assume mp: "mappages d va PGSIZE (V2P f) (PTE_W OR PTE_U) ?z = Ret (0, k')" and gr: "grown k fs D d {vpn va} k' fs'"
    have z: "good_frame ?z f" "\<forall>d'\<in>D. f \<notin> table_pages (memory ?z) d'"
      using kalloc_inv(3,5)[of k f fs1 D] inv Cons st(7) by (auto simp: good_frame_def zero_page_def table_page_def)
    have "\<not> present (pte (memory ?z) d va)" using st(6)[OF d] np by simp
    from mappages_page[OF st(3) d va(1) this z(1) st(4) z(2), of "PTE_W OR PTE_U"] mp
    have "pte (memory k') d va = user_entry f" by (auto simp: user_entry_def)
    then have "frame (memory k') d va = f" using user_entry_fields(1)[OF z(1)] by (simp add: frame_def)
    then show ?thesis using mapped[OF st(1,2) mp gr] by blast
  qed
qed

definition loaded_region :: "mmap_region \<Rightarrow> mmap_region" where
  "loaded_region r = r\<lparr>mm_n_loaded := mm_n_loaded r + 1\<rparr>"

lemma count_loaded:
  assumes wf: "wf_proc p" and i: "i \<in> set (listed p)"
  shows "wf_proc (upd_region i loaded_region p)"
    and "regions (upd_region i loaded_region p) = map (\<lambda>x. if x = body (mmaps p ! i) then loaded_region x else x) (regions p)"
proof -
  note inv = wf[unfolded wf_proc_def]
  have q: "mm_inv (upd_region i loaded_region p) (listed p)" by (rule upd_region_keeps[OF inv i]) (simp add: loaded_region_def)
  then show "wf_proc (upd_region i loaded_region p)" by (rule mm_inv_wf)
  have l: "i < length (mmaps p)" using inv i chain_bound[of "mmaps p" "mmap_head p" "listed p" i] by (simp add: mm_inv_def)
  have "body (mmaps (upd_region i loaded_region p) ! j)
      = (if body (mmaps p ! j) = body (mmaps p ! i) then loaded_region (body (mmaps p ! j)) else body (mmaps p ! j))"
    if "j \<in> set (listed p)" for j
    using addr_distinct[OF inv that i] l body_eqD[of "mmaps p ! j" "mmaps p ! i"]
    by (cases "j = i") (auto simp: loaded_region_def body_def)
  then show "regions (upd_region i loaded_region p) = map (\<lambda>x. if x = body (mmaps p ! i) then loaded_region x else x) (regions p)"
    unfolding regions_def listed_inv[OF q] by simp
qed

lemma handle_page_fault_found:
  assumes wf: "wf_proc (procs w pid)" and i: "i \<in> set (listed (procs w pid))" and r: "r = body (mmaps (procs w pid) ! i)"
    and va: "4096 * int (vpn addr) \<in> {A r..<A r + mm_length r}"
  shows "kalloc (kern w) = (0, k1) \<Longrightarrow> handle_page_fault io pid addr w = Ret (FAILED, w\<lparr>kern := k1\<rparr>)"
    and "kalloc (kern w) = (mem, k1) \<Longrightarrow> mem \<noteq> 0 \<Longrightarrow>
      mappages (pgdir (procs w pid)) (PGROUNDDOWN addr) PGSIZE (V2P mem) (PTE_W OR PTE_U) (zero_page mem k1) = Ret (- 1, k2) \<Longrightarrow> kfree mem k2 = Ret k3 \<Longrightarrow>
      handle_page_fault io pid addr w = Ret (FAILED, w\<lparr>kern := k3\<rparr>)"
    and "kalloc (kern w) = (mem, k1) \<Longrightarrow> mem \<noteq> 0 \<Longrightarrow>
      mappages (pgdir (procs w pid)) (PGROUNDDOWN addr) PGSIZE (V2P mem) (PTE_W OR PTE_U) (zero_page mem k1) = Ret (0, k2) \<Longrightarrow>
      handle_page_fault io pid addr w = (case fault_bytes io (fsys w) r (PGROUNDDOWN addr) of
          None \<Rightarrow> Ret (FAILED, w\<lparr>kern := k2\<rparr>)
        | Some bs \<Rightarrow> Ret (0, set_proc pid (upd_region i loaded_region (procs w pid)) (w\<lparr>kern := write_page mem 0 bs k2\<rparr>)))"
proof -
  let ?p = "procs w pid" and ?va = "PGROUNDDOWN addr"
  have fc: "find_containing 17 ?va (mmaps ?p) (mmap_head ?p) = Ret (Some i)"
    using find_region[OF wf i, of ?va] va unfolding page_address(1) r by simp
  note def = handle_page_fault_def Let_def fc
  show "kalloc (kern w) = (0, k1) \<Longrightarrow> handle_page_fault io pid addr w = Ret (FAILED, w\<lparr>kern := k1\<rparr>)"
    unfolding def by (simp add: fc)
  show "kalloc (kern w) = (mem, k1) \<Longrightarrow> mem \<noteq> 0 \<Longrightarrow>
      mappages (pgdir ?p) ?va PGSIZE (V2P mem) (PTE_W OR PTE_U) (zero_page mem k1) = Ret (- 1, k2) \<Longrightarrow> kfree mem k2 = Ret k3 \<Longrightarrow>
      handle_page_fault io pid addr w = Ret (FAILED, w\<lparr>kern := k3\<rparr>)"
    unfolding def by (simp add: fc)
  assume a: "kalloc (kern w) = (mem, k1)" "mem \<noteq> 0" "mappages (pgdir ?p) ?va PGSIZE (V2P mem) (PTE_W OR PTE_U) (zero_page mem k1) = Ret (0, k2)"
  have same: "mm_flags r = mm_flags (mmaps ?p ! i)" "mm_f r = mm_f (mmaps ?p ! i)" "mm_addr r = mm_addr (mmaps ?p ! i)" by (simp_all add: r)
  have wp: "write_page mem 0 [] k2 = k2" by (simp add: write_page_def)
  have up: "(\<lambda>r. r\<lparr>mm_n_loaded := mm_n_loaded r + 1\<rparr>) = loaded_region" by (simp add: fun_eq_iff loaded_region_def)
  show "handle_page_fault io pid addr w = (case fault_bytes io (fsys w) r ?va of
          None \<Rightarrow> Ret (FAILED, w\<lparr>kern := k2\<rparr>)
        | Some bs \<Rightarrow> Ret (0, set_proc pid (upd_region i loaded_region ?p) (w\<lparr>kern := write_page mem 0 bs k2\<rparr>)))"
    using a wp unfolding def fault_bytes_def same up by (simp add: fc) auto
qed


text \<open>The process of the examples with one anonymous region of two pages.\<close>

lemma demo_mapped: "\<exists>p'. wf_proc p' \<and> regions p' = [new_region 0x60000000 8192 5 None] \<and> pgdir p' = 0x80402000 \<and> kstack p' \<noteq> 0"
proof -
  have d: "procs demo_world 0 = demo_proc" by (simp add: demo_world_def)
  have k: "pgdir demo_proc = 0x80402000" "kstack demo_proc \<noteq> 0" by (simp_all add: demo_proc_def)
  show ?thesis
    by (rule sys_wmap_cases[of demo_world 0 None 0 8192 5 demo_io])
      (use k in \<open>auto simp: d demo_proc_wf demo_validate demo_choice wmapped_def Cons_eq_append_conv append_eq_Cons_conv\<close>)
qed


theorem wunmap_releases_pages_witness:
  "\<exists>p w' gs. regions p = [new_region 0x60000000 8192 5 None] \<and> sys_wunmap demo_io 0 0x60000000 (set_proc 0 p demo_world) = Ret (0, w')
     \<and> regions (procs w' 0) = [] \<and> vm_inv (kern w') (gs @ [0x80400000, 0x80401000]) {0x80402000}"
proof -
  let ?r = "new_region 0x60000000 8192 5 None"
  obtain p where p: "wf_proc p" "regions p = [?r]" "pgdir p = 0x80402000" "kstack p \<noteq> 0" using demo_mapped by blast
  let ?w = "set_proc 0 p demo_world"
  have w: "procs ?w 0 = p" "kern ?w = demo_kernel" "kern demo_world = demo_kernel" by (simp_all add: demo_world_def)
  have r: "mm_refcnt ?r = 0" "mm_addr ?r = 0x60000000" "mm_f ?r = None" "wb_file ?r = None" by (simp_all add: new_region_def wb_file_def)
  obtain w' gs where "sys_wunmap demo_io 0 (mm_addr ?r) ?w = Ret (0, w')" "wunmapped p ?r (procs w' 0)"
      "released demo_kernel [0x80400000, 0x80401000] {0x80402000} 0x80402000 {v. 4096 * int v \<in> {A ?r..<A ?r + mm_length ?r}} (kern w') gs"
    using wunmap_releases_pages[of ?w 0 ?r "[0x80400000, 0x80401000]" "{0x80402000}" demo_io] p demo_kernel_inv
    by (auto simp: w r demo_kernel_empty writes_all_def)
  then show ?thesis using p(2) releasedD(1) by (fastforce simp: r wunmapped_def)
qed

end
