(* ===== verification/Wmap_Parts.thy ===== *)
theory Wmap_Parts
  imports Wmap_Pages
begin

text \<open>
  Partial unmapping and fork (wmap.c): \<open>wpunmap\<close> takes a range of pages out of a region and keeps the
  rest of it, in one or two regions; \<open>copy_maps\<close> gives the child the parent's regions.
\<close>

subsection \<open>Shrinking a region\<close>

lemma later_regions:
  assumes inv: "mm_inv p (xs @ i # ys)" and y: "y \<in> set ys"
  shows "A (mmaps p ! i) + mm_length (mmaps p ! i) \<le> A (mmaps p ! y)"
proof -
  have "i \<noteq> y" "A (mmaps p ! i) \<le> A (mmaps p ! y)" "0 < mm_length (mmaps p ! y)"
    using inv y by (auto simp: mm_inv_def region_ok_def sorted_append)
  moreover have "\<not> meets (A (mmaps p ! i)) (A (mmaps p ! i) + mm_length (mmaps p ! i)) (mmaps p ! y)"
    using inv y calculation(1) by (simp add: mm_inv_def)
  ultimately show ?thesis by (auto simp: meets_def)
qed

lemma shrink_inv:
  assumes inv: "mm_inv p (xs @ i # ys)" and ok: "region_ok r'" and nx: "mm_next r' = mm_next (mmaps p ! i)"
    and lo: "A (mmaps p ! i) \<le> A r'" and hi: "A r' + mm_length r' \<le> A (mmaps p ! i) + mm_length (mmaps p ! i)"
  shows "mm_inv (set_region i r' p) (xs @ i # ys)"
proof -
  let ?q = "set_region i r' p" and ?is = "xs @ i # ys"
  note I = inv[unfolded mm_inv_def]
  have l: "i < length (mmaps p)" using I chain_bound[of "mmaps p" "mmap_head p" ?is i] by simp
  have qi: "mmaps ?q ! i = r'" and qj: "\<And>j. j \<noteq> i \<Longrightarrow> mmaps ?q ! j = mmaps p ! j" using l by (auto simp: set_region_def)
  have n: "mm_next (mmaps ?q ! j) = mm_next (mmaps p ! j)" for j using nx qi qj by (cases "j = i") auto
  have "chain (mmaps ?q) (mmap_head p) ?is" using I chain_cong[of "mmaps ?q" "mmaps p" ?is] n by (simp add: set_region_def)
  moreover have "mm_addr (mmaps ?q ! j) \<noteq> - 1 \<longleftrightarrow> j \<in> set ?is" if "j < 16" for j
    using I that qi qj region_ok_used[OF ok] by (cases "j = i") auto
  moreover have "sorted (map (\<lambda>j. A (mmaps ?q ! j)) ?is)"
  proof -
    have m: "map (\<lambda>j. A (mmaps ?q ! j)) ?is = map (\<lambda>j. A (mmaps p ! j)) xs @ A r' # map (\<lambda>j. A (mmaps p ! j)) ys"
      using I qi qj by (auto intro!: map_cong arg_cong[where f = A] qj)
    have "\<forall>y\<in>set ys. A r' \<le> A (mmaps p ! y)" using later_regions[OF inv] hi ok by (force simp: region_ok_def)
    then show ?thesis unfolding m using I lo by (auto simp: sorted_append intro: order_trans)
  qed
  moreover have "region_ok (mmaps ?q ! j)" if "j \<in> set ?is" for j using I that qi qj ok by (cases "j = i") auto
  moreover have "\<not> meets (A (mmaps ?q ! j)) (A (mmaps ?q ! j) + mm_length (mmaps ?q ! j)) (mmaps ?q ! k)"
    if jk: "j \<in> set ?is" "k \<in> set ?is" "j \<noteq> k" for j k
  proof -
    have "\<not> meets (A (mmaps p ! j)) (A (mmaps p ! j) + mm_length (mmaps p ! j)) (mmaps p ! k)" using I jk by blast
    then show ?thesis using lo hi qi qj[of j] qj[of k] jk(3) by (cases "j = i"; cases "k = i") (auto simp: meets_def)
  qed
  ultimately show ?thesis unfolding mm_inv_def using I by (simp add: set_region_def)
qed

lemma insert_inv:
  assumes inv: "mm_inv p (xs @ i # ys)" and n: "n < 16" "n \<notin> set (xs @ i # ys)" and ok: "region_ok nr"
    and nx: "mm_next nr = mm_next (mmaps p ! i)" and lo: "A (mmaps p ! i) + mm_length (mmaps p ! i) \<le> A nr"
    and hi: "\<forall>y\<in>set ys. A nr + mm_length nr \<le> A (mmaps p ! y)"
    and q: "q = (set_region n nr (upd_region i (\<lambda>r. r\<lparr>mm_next := Some n\<rparr>) p))\<lparr>total_mmaps := total_mmaps p + 1\<rparr>"
  shows "mm_inv q (xs @ i # n # ys)"
proof -
  let ?xs = "xs @ [i]" and ?a = "mm_addr nr"
  note I = inv[unfolded mm_inv_def]
  have ln: "length (mmaps p) = 16" using I by simp
  have len: "0 < mm_length (mmaps p ! j)" if "j \<in> set (xs @ i # ys)" for j using I that by (auto simp: region_ok_def)
  have ub: "A (mmaps p ! x) \<le> A (mmaps p ! i)" if "x \<in> set ?xs" for x using I that by (auto simp: sorted_append)
  have le: "\<forall>x\<in>set ?xs. A (mmaps p ! x) \<le> uint ?a" "\<forall>y\<in>set ys. uint ?a \<le> A (mmaps p ! y)"
    using ub lo len[of i] hi ok by (fastforce simp: A_def[of nr] region_ok_def)+
  have cs: "cseg (mmaps p) (mmap_head p) ?xs (mm_next nr)" using I nx by (auto simp: chain_cseg cseg_append)
  let ?p' = "relink (last_opt ?xs) (upd_region n (\<lambda>r. r\<lparr>mm_next := mm_next nr\<rparr>) (upd_region n (\<lambda>r. r\<lparr>mm_addr := ?a\<rparr>) p)) (Some n)"
  have pl: "placed p (xs @ i # ys) ?a n ?xs ys ?p'"
    using I n ln cs le by (intro placed_relink) auto
  have ne: "i \<noteq> n" using n by auto
  have mp: "mmaps ?p' ! n = (mmaps p ! n)\<lparr>mm_addr := ?a, mm_next := mm_next nr\<rparr>"
    using n(1) ln ne by (simp add: relink_def last_opt_def)
  have "nr\<lparr>mm_next := mm_next (mmaps ?p' ! n)\<rparr> = nr" by (simp add: mp)
  moreover have "set_region n nr ?p' = set_region n nr (upd_region i (\<lambda>r. r\<lparr>mm_next := Some n\<rparr>) p)"
    using ne by (simp add: relink_def last_opt_def upd_region_def set_region_def list_update_swap[of i n])
  moreover have "total_mmaps ?p' = total_mmaps p" by (simp add: relink_fields)
  ultimately have qq: "q = (set_region n (nr\<lparr>mm_next := mm_next (mmaps ?p' ! n)\<rparr>) ?p')\<lparr>total_mmaps := total_mmaps ?p' + 1\<rparr>"
    by (simp add: q)
  have "\<not> meets (A nr) (A nr + mm_length nr) (mmaps p ! j)" if "j \<in> set (xs @ i # ys)" for j
  proof -
    have "A (mmaps p ! j) + mm_length (mmaps p ! j) \<le> A (mmaps p ! i)" if x: "j \<in> set xs"
      using later_regions[of p _ j _ i] inv split_list[OF x] by fastforce
    then show ?thesis using that lo hi len[of i] by (auto simp: meets_def)
  qed
  then show ?thesis using placed_inv(1)[OF inv pl n refl ok _ qq] by simp
qed

subsection \<open>wpunmap\<close>

definition span :: "mmap_region \<Rightarrow> int set" where
  "span r = {A r..<A r + mm_length r}"

lemma covered_inv: "mm_inv p is \<Longrightarrow> covered p = (\<Union>i\<in>set is. span (mmaps p ! i))"
  by (simp add: covered_listed listed_inv span_def)

lemma span_disjoint:
  assumes "mm_inv p is" and "i \<in> set is" and "j \<in> set is" and "i \<noteq> j"
  shows "span (mmaps p ! i) \<inter> span (mmaps p ! j) = {}"
proof -
  have "\<not> meets (A (mmaps p ! i)) (A (mmaps p ! i) + mm_length (mmaps p ! i)) (mmaps p ! j)" using assms by (auto simp: mm_inv_def)
  then show ?thesis by (auto simp: span_def meets_def)
qed

lemma covered_minus:
  assumes inv: "mm_inv p (xs @ i # ys)" and X: "X \<subseteq> span (mmaps p ! i)"
    and q: "covered q = (\<Union>j\<in>set (xs @ ys). span (mmaps p ! j)) \<union> (span (mmaps p ! i) - X)"
  shows "covered q = covered p - X"
proof -
  have "X \<inter> span (mmaps p ! j) = {}" if "j \<in> set (xs @ ys)" for j
  proof -
    have "distinct (xs @ i # ys)" using inv by (simp add: mm_inv_def)
    then have "j \<noteq> i" using that by auto
    then show ?thesis using span_disjoint[OF inv, of i j] that X by auto
  qed
  then show ?thesis unfolding q covered_inv[OF inv] by auto
qed

lemma sint_diff:
  fixes x y :: u32
  assumes "uint y \<le> uint x" and "uint x - uint y < 2 ^ 31"
  shows "sint (x - y) = uint x - uint y"
proof -
  have "uint (x - y) = uint x - uint y" using assms(1) by (simp add: uint_sub_if')
  then show ?thesis unfolding sint_uint using assms by (simp add: signed_take_bit_int_eq_self)
qed

lemma uint_page: "unat (x :: u32) mod 4096 = 0 \<longleftrightarrow> uint x mod 4096 = 0"
proof -
  have "int (unat x mod 4096) = uint x mod 4096" by (simp add: zmod_int)
  then show ?thesis by linarith
qed

lemma count_loaded_returns:
  assumes "unat a mod 4096 = 0" and "unat e \<le> 0xFFFFF000" and "unat e \<le> unat a + 4096 * n"
  shows "\<exists>c. count_loaded_loop (Suc n) d a e k = Ret c"
  using assms
proof (induction n arbitrary: a)
  case 0
  then have "\<not> a < e" by (simp add: word_less_nat_alt)
  then show ?case by simp
next
  case (Suc n)
  show ?case
  proof (cases "a < e")
    case True
    then have l: "unat a < unat e" by (simp add: word_less_nat_alt)
    obtain q where q: "unat a = 4096 * q" using Suc.prems(1) by auto
    have u: "unat (a + 4096) = unat a + 4096" using l Suc.prems(2) by (intro unat_add_page) simp
    then have "unat (a + 4096) mod 4096 = 0" "unat e \<le> unat (a + 4096) + 4096 * n" using q Suc.prems(3) by simp_all
    from Suc.IH[OF this(1) Suc.prems(2) this(2)] obtain c where "count_loaded_loop (Suc n) d (a + 4096) e k = Ret c" by (elim exE)
    then show ?thesis by (auto simp del: count_loaded_loop.simps simp: count_loaded_loop.simps(2)[of "Suc n"] split: option.splits)
  qed simp
qed

lemma count_loaded_pages_returns:
  "unat a mod 4096 = 0 \<Longrightarrow> unat e \<le> 0xFFFFF000 \<Longrightarrow> \<exists>c. count_loaded_pages d a e k = Ret c"
  using count_loaded_returns[OF _ _ range_fuel] by (simp add: count_loaded_pages_def)

text \<open>The region list after the middle of a region is taken out.\<close>

lemma split_mapping_ok:
  assumes inv: "mm_inv (procs w pid) (xs @ i # ys)" and r: "r = mmaps (procs w pid) ! i"
    and a: "A r < uint a" "uint a + len < A r + mm_length r" "0 < len" "uint a mod 4096 = 0" "len mod 4096 = 0"
    and room: "length (xs @ i # ys) < 16" and fr: "\<forall>x. mm_f r = Some x \<longrightarrow> 0 < file_ref w x"
  shows "\<exists>p'. split_mapping pid i a len w = Ret (0, set_proc pid p' (dup_ref (mm_f r) w)) \<and> wf_proc p'
    \<and> covered p' = covered (procs w pid) - {uint a..<uint a + len}"
proof -
  let ?p = "procs w pid" and ?na = "a + of_int len"
  note I = inv[unfolded mm_inv_def]
  have ok: "region_ok r" using I by (simp add: r)
  note R = ok[unfolded region_ok_def]
  have l: "i < length (mmaps ?p)" using I chain_bound[of "mmaps ?p" "mmap_head ?p" "xs @ i # ys" i] by simp
  obtain n where n: "find_unused_mmap ?p = Some n" "n < 16" "n \<notin> set (xs @ i # ys)" using find_unused_mmap_inv[OF inv] room by blast
  have na: "uint ?na = uint a + len" using a R by (intro uint_add_len) simp_all
  have e: "uint (mm_end r) = A r + mm_length r" using mm_end_uint[OF ok] .
  have ar: "uint (mm_addr r) = A r" by (simp add: A_def)
  have nl: "sint (mm_end r - ?na) = A r + mm_length r - (uint a + len)" using sint_diff[of ?na "mm_end r"] e na a R by simp
  have rl: "sint (a - mm_addr r) = uint a - A r" using sint_diff[of "mm_addr r" a] ar a R by simp
  let ?nr = "\<lambda>c. \<lparr>mm_addr = ?na, mm_length = sint (mm_end r - ?na), mm_flags = mm_flags r, mm_fd = mm_fd r, mm_f = mm_f r,
    mm_refcnt = mm_refcnt r, mm_n_loaded = c, mm_next = mm_next r\<rparr>"
  let ?r1 = "\<lambda>c. r\<lparr>mm_length := sint (a - mm_addr r), mm_n_loaded := c\<rparr>"
  have nok: "region_ok (?nr c)" "A (?nr c) = uint a + len" "A (?nr c) + mm_length (?nr c) = A r + mm_length r" for c
    using a R by (simp_all add: region_ok_def A_def na nl[unfolded A_def] mod_add_eq[symmetric])
  have rok: "region_ok (?r1 c)" "A (?r1 c) = A r" "A (?r1 c) + mm_length (?r1 c) = uint a" for c
    using a R by (simp_all add: region_ok_def A_def rl[unfolded A_def])
  have ends: "?na + of_int (sint (mm_end r - ?na)) = mm_end r" "mm_addr r + of_int (sint (a - mm_addr r)) = a" by simp_all
  have al: "unat a mod 4096 = 0" "unat ?na mod 4096 = 0" "unat (mm_addr r) mod 4096 = 0"
    unfolding uint_page na ar using a R by (simp_all add: mod_add_eq[symmetric])
  have "int (unat (mm_end r)) \<le> 0x80000000" "int (unat a) \<le> 0x80000000" using e a R by simp_all
  then have up: "unat (mm_end r) \<le> 0xFFFFF000" "unat a \<le> 0xFFFFF000" by linarith+
  obtain c1 c2 where c: "count_loaded_pages (pgdir ?p) ?na (mm_end r) (kern w) = Ret c1" "count_loaded_pages (pgdir ?p) (mm_addr r) a (kern w) = Ret c2"
    using count_loaded_pages_returns al up by meson
  let ?q1 = "set_region i (?r1 c2) ?p"
  let ?q = "(set_region n (?nr c1) (upd_region i (\<lambda>r. r\<lparr>mm_next := Some n\<rparr>) ?q1))\<lparr>total_mmaps := total_mmaps ?q1 + 1\<rparr>"
  have inv1: "mm_inv ?q1 (xs @ i # ys)" using rok a R r by (intro shrink_inv[OF inv]) simp_all
  have d: "distinct (xs @ i # ys)" using I by simp
  have q1: "mmaps ?q1 ! i = ?r1 c2" "\<And>j. j \<noteq> i \<Longrightarrow> mmaps ?q1 ! j = mmaps ?p ! j" using l by (auto simp: set_region_def)
  have hi: "\<forall>y\<in>set ys. A (?nr c1) + mm_length (?nr c1) \<le> A (mmaps ?q1 ! y)"
    unfolding nok(3) using later_regions[OF inv] d q1(2) r by (metis distinct.simps(2) distinct_append)
  have inv2: "mm_inv ?q (xs @ i # n # ys)"
    using nok rok a q1(1) by (intro insert_inv[OF inv1 n(2,3) nok(1) _ _ hi refl]) simp_all
  have dup: "filedup_opt (mm_f r) w = Ret (dup_ref (mm_f r) w)" using fr by (intro dup_close(1)) simp
  have qq: "?q = (set_region n (?nr c1) (set_region i (r\<lparr>mm_length := sint (a - mm_addr r), mm_n_loaded := c2, mm_next := Some n\<rparr>) ?p))
      \<lparr>total_mmaps := total_mmaps ?p + 1\<rparr>" using l by (simp add: upd_region_def set_region_def)
  have "split_mapping pid i a len w = Ret (0, set_proc pid ?q (dup_ref (mm_f r) w))"
    unfolding qq split_mapping_def Let_def n(1) using c ends by (simp add: dup r[symmetric] mm_end_def set_region_def)
  moreover have "covered ?q = covered ?p - {uint a..<uint a + len}"
  proof (rule covered_minus[OF inv])
    show "{uint a..<uint a + len} \<subseteq> span (mmaps ?p ! i)" using a by (auto simp: span_def r)
    have "mmaps ?q ! n = ?nr c1" using n(2) I by (simp add: set_region_def)
    then have "span (mmaps ?q ! n) = {uint a + len..<A r + mm_length r}" unfolding span_def using nok(2,3) by simp
    moreover have "mmaps ?q ! i = (?r1 c2)\<lparr>mm_next := Some n\<rparr>" using n(3) q1(1) l by (auto simp: set_region_def upd_region_def)
    then have "span (mmaps ?q ! i) = {A r..<uint a}" unfolding span_def using rok(2,3)[of c2] by (simp add: A_def)
    moreover have "mmaps ?q ! j = mmaps ?p ! j" if "j \<in> set (xs @ ys)" for j
    proof -
      have "j \<noteq> i" "j \<noteq> n" using that d n(3) by auto
      then show ?thesis by (simp add: set_region_def upd_region_def)
    qed
    ultimately show "covered ?q = (\<Union>j\<in>set (xs @ ys). span (mmaps ?p ! j)) \<union> (span (mmaps ?p ! i) - {uint a..<uint a + len})"
      unfolding covered_inv[OF inv2] using a by (auto simp: span_def[of "mmaps ?p ! i"] r)
  qed
  ultimately show ?thesis using mm_inv_wf[OF inv2] by blast
qed

lemma find_covering_region:
  assumes wf: "wf_proc p" and i: "i \<in> set (listed p)" and a: "uint a < uint e"
    and ae: "A (mmaps p ! i) \<le> uint a" "uint e \<le> A (mmaps p ! i) + mm_length (mmaps p ! i)"
  shows "find_covering 17 a e (mmaps p) (mmap_head p) = Ret (Some i)"
proof -
  note inv = wf[unfolded wf_proc_def] and I = wf[unfolded wf_proc_def mm_inv_def]
  have P: "mm_addr (mmaps p ! j) \<le> a \<and> mm_end (mmaps p ! j) \<ge> e \<longleftrightarrow> A (mmaps p ! j) \<le> uint a \<and> uint e \<le> A (mmaps p ! j) + mm_length (mmaps p ! j)"
    if "j \<in> set (listed p)" for j using I that mm_end_uint[of "mmaps p ! j"] by (simp add: word_le_def A_def)
  have "j = i" if j: "j \<in> set (listed p)" "A (mmaps p ! j) \<le> uint a \<and> uint e \<le> A (mmaps p ! j) + mm_length (mmaps p ! j)" for j
    using span_disjoint[OF inv i j(1)] a ae j(2) by (auto simp: span_def)
  then have "find (\<lambda>j. mm_addr (mmaps p ! j) \<le> a \<and> mm_end (mmaps p ! j) \<ge> e) (listed p) = Some i"
    using P[OF i] ae P by (intro find_unique[OF i]) blast+
  then show ?thesis using find_covering_chain[of "mmaps p" "mmap_head p" "listed p" 17 a e] I mm_inv_length[OF inv] by simp
qed

text \<open>The three ways in which \<open>wpunmap\<close> updates the regions.\<close>

lemma shrunk_covered:
  assumes inv: "mm_inv p (xs @ i # ys)" and ok: "region_ok r'" and nx: "mm_next r' = mm_next (mmaps p ! i)"
    and sp: "span r' = span (mmaps p ! i) - X" "X \<subseteq> span (mmaps p ! i)" "A (mmaps p ! i) \<le> A r'" "A r' + mm_length r' \<le> A (mmaps p ! i) + mm_length (mmaps p ! i)"
  shows "wf_proc (set_region i r' p)" and "covered (set_region i r' p) = covered p - X"
proof -
  note q = shrink_inv[OF inv ok nx sp(3,4)]
  show "wf_proc (set_region i r' p)" using q by (rule mm_inv_wf)
  have d: "distinct (xs @ i # ys)" and l: "i < length (mmaps p)"
    using inv chain_bound[of "mmaps p" "mmap_head p" "xs @ i # ys" i] by (simp_all add: mm_inv_def)
  have "mmaps (set_region i r' p) ! j = mmaps p ! j" if "j \<in> set (xs @ ys)" for j
  proof -
    have "j \<noteq> i" using that d by auto
    then show ?thesis by (simp add: set_region_def)
  qed
  moreover have "mmaps (set_region i r' p) ! i = r'" using l by (simp add: set_region_def)
  ultimately show "covered (set_region i r' p) = covered p - X"
    by (intro covered_minus[OF inv sp(2)]) (auto simp: covered_inv[OF q] sp(1))
qed

definition wpunmap_update :: "nat \<Rightarrow> nat \<Rightarrow> u32 \<Rightarrow> int \<Rightarrow> mmap_region \<Rightarrow> 'fs world \<Rightarrow> (int \<times> 'fs world) outcome" where
  "wpunmap_update pid i a len r w =
     (if a = mm_addr r
      then Ret (0, set_proc pid (set_region i (r\<lparr>mm_addr := a + of_int len, mm_length := mm_length r - len\<rparr>) (procs w pid)) w)
      else if a + of_int len = mm_end r
      then Ret (0, set_proc pid (set_region i (r\<lparr>mm_length := mm_length r - len\<rparr>) (procs w pid)) w)
      else split_mapping pid i a len w)"

lemma wpunmap_update_ok:
  assumes inv: "mm_inv (procs w pid) (xs @ i # ys)" and r: "r = mmaps (procs w pid) ! i"
    and a: "A r \<le> uint a" "uint a + len \<le> A r + mm_length r" "len < mm_length r" "0 < len" "uint a mod 4096 = 0" "len mod 4096 = 0"
    and room: "length (xs @ i # ys) < 16" and fr: "\<forall>x. mm_f r = Some x \<longrightarrow> 0 < file_ref w x"
  shows "\<exists>w'. wpunmap_update pid i a len r w = Ret (0, w') \<and> kern w' = kern w \<and> wf_proc (procs w' pid)
    \<and> covered (procs w' pid) = covered (procs w pid) - {uint a..<uint a + len}"
proof -
  let ?p = "procs w pid" and ?X = "{uint a..<uint a + len}"
  have ok: "region_ok r" using inv by (simp add: mm_inv_def r)
  note R = ok[unfolded region_ok_def]
  have e: "uint (mm_end r) = A r + mm_length r" using mm_end_uint[OF ok] .
  have ae: "uint (a + of_int len) = uint a + len" using a R by (intro uint_add_len) simp_all
  consider (front) "a = mm_addr r" | (rear) "a \<noteq> mm_addr r" "a + of_int len = mm_end r" | (mid) "a \<noteq> mm_addr r" "a + of_int len \<noteq> mm_end r" by blast
  then show ?thesis
  proof cases
    case front
    let ?r = "r\<lparr>mm_addr := a + of_int len, mm_length := mm_length r - len\<rparr>"
    have "A ?r = A r + len" using ae front by (simp add: A_def)
    then have sh: "region_ok ?r" "A r \<le> A ?r" "A ?r + mm_length ?r \<le> A r + mm_length r" "span ?r = span r - ?X" "?X \<subseteq> span r"
      using a R front by (auto simp: region_ok_def span_def A_def[of r] mod_add_eq[symmetric])
    note q = shrunk_covered[OF inv sh(1), of ?X]
    show ?thesis using q sh(2-5) front by (simp add: wpunmap_update_def r)
  next
    case rear
    let ?r = "r\<lparr>mm_length := mm_length r - len\<rparr>"
    have ends: "uint a + len = A r + mm_length r" using rear(2) ae e by simp
    have "A ?r = A r" by (simp add: A_def)
    then have sh: "region_ok ?r" "A r \<le> A ?r" "A ?r + mm_length ?r \<le> A r + mm_length r" "span ?r = span r - ?X" "?X \<subseteq> span r"
      using a R ends by (auto simp: region_ok_def span_def)
    note q = shrunk_covered[OF inv sh(1), of ?X]
    show ?thesis using q sh(2-5) rear by (simp add: wpunmap_update_def r)
  next
    case mid
    have "A r \<noteq> uint a" using mid(1) by (simp add: A_def word_uint_eq_iff)
    moreover have "uint a + len \<noteq> A r + mm_length r" using mid(2) ae e by (simp add: word_uint_eq_iff)
    ultimately have "\<exists>p'. split_mapping pid i a len w = Ret (0, set_proc pid p' (dup_ref (mm_f r) w)) \<and> wf_proc p' \<and> covered p' = covered ?p - ?X"
      using a by (intro split_mapping_ok[OF inv r _ _ _ _ _ room fr]) simp_all
    then show ?thesis using mid by (auto simp: wpunmap_update_def)
  qed
qed

lemma sys_wpunmap_found:
  assumes "a mod 4096 = 0" and "(a + of_int len) mod 4096 = 0" and "0 < len"
    and fc: "find_covering 17 a (a + of_int len) (mmaps (procs w pid)) (mmap_head (procs w pid)) = Ret (Some i)"
    and um: "unmap_pages io (pgdir (procs w pid)) (mm_addr (mmaps (procs w pid) ! i)) (wb_file (mmaps (procs w pid) ! i)) True a (a + of_int len) w = Ret (c, w1)"
    and sw: "switchuvm (kstack (procs w pid)) (pgdir (procs w pid)) = Ret ()"
    and r1: "r1 = (mmaps (procs w pid) ! i)\<lparr>mm_n_loaded := mm_n_loaded (mmaps (procs w pid) ! i) - c\<rparr>"
  shows "sys_wpunmap io pid a len w = obind (wpunmap_update pid i a len r1 (set_proc pid (set_region i r1 (procs w pid)) w1))
     (\<lambda>(res, w2). if res < 0 then Ret (FAILED, w2) else Ret (0, w2))"
proof -
  let ?m = "mmaps (procs w pid) ! i"
  have e: "mm_addr r1 = mm_addr ?m" "mm_end r1 = mm_end ?m" "mm_length r1 = mm_length ?m" by (simp_all add: r1 mm_end_def)
  have "sys_wpunmap io pid a len w = obind
     (if a = mm_addr ?m then Ret (0, set_proc pid (set_region i (r1\<lparr>mm_addr := a + of_int len, mm_length := mm_length ?m - len\<rparr>) (set_region i r1 (procs w pid))) w1)
      else if a + of_int len = mm_end ?m
      then Ret (0, set_proc pid (set_region i (r1\<lparr>mm_length := mm_length ?m - len\<rparr>) (set_region i r1 (procs w pid))) w1)
      else split_mapping pid i a len (set_proc pid (set_region i r1 (procs w pid)) w1))
     (\<lambda>(res, w2). if res < 0 then Ret (FAILED, w2) else obind (switchuvm (kstack (procs w pid)) (pgdir (procs w pid))) (\<lambda>_. Ret (0, w2)))"
    unfolding sys_wpunmap_def Let_def r1 using assms(1-3) fc um by simp
  then show ?thesis unfolding wpunmap_update_def e sw obind.simps set_proc_simps .
qed

text \<open>
  (C4) \<open>wpunmap\<close> of a proper part of a region that starts and ends on a page boundary succeeds when
  a slot is free: the process then covers exactly the addresses it covered before without that
  part, in disjoint regions, and exactly the loaded pages of that part go back to the free list.
\<close>

theorem wpunmap_removes_range:
  assumes wf: "wf_proc (procs w pid)" and r: "r \<in> set (regions (procs w pid))"
    and a: "A r \<le> uint a" "uint a + len \<le> A r + mm_length r" "len < mm_length r" "0 < len" "uint a mod 4096 = 0" "len mod 4096 = 0"
    and room: "total_mmaps (procs w pid) < 16"
    and inv: "vm_inv (kern w) fs D" "pgdir (procs w pid) \<in> D" and st: "kstack (procs w pid) \<noteq> 0"
    and only: "\<And>va. 4096 * int (vpn va) \<in> {uint a..<uint a + len} \<Longrightarrow> present (pte (memory (kern w)) (pgdir (procs w pid)) va)
      \<Longrightarrow> only_mapping (memory (kern w)) D (pgdir (procs w pid)) va"
    and io: "writes_all io (wb_file r)" "\<forall>x. mm_f r = Some x \<longrightarrow> 0 < file_ref w x"
  shows "\<exists>w' gs. sys_wpunmap io pid a len w = Ret (0, w') \<and> wf_proc (procs w' pid)
    \<and> covered (procs w' pid) = covered (procs w pid) - {uint a..<uint a + len}
    \<and> released (kern w) fs D (pgdir (procs w pid)) {v. 4096 * int v \<in> {uint a..<uint a + len}} (kern w') gs"
proof -
  let ?p = "procs w pid" and ?d = "pgdir (procs w pid)" and ?e = "a + of_int len"
  obtain i where i: "i \<in> set (listed ?p)" "r = body (mmaps ?p ! i)" using r by (auto simp: set_regions)
  then obtain xs ys where l: "listed ?p = xs @ i # ys" by (meson split_list)
  note linv = wf[unfolded wf_proc_def l]
  let ?m = "mmaps ?p ! i"
  have same: "A ?m = A r" "mm_addr ?m = mm_addr r" "mm_length ?m = mm_length r" "mm_f ?m = mm_f r" "wb_file ?m = wb_file r"
    by (simp_all add: i(2) wb_file_def)
  have R: "0x60000000 \<le> A r" "A r + mm_length r \<le> 0x80000000" using regions_ok[OF wf r] by (simp_all add: region_ok_def)
  have e: "uint ?e = uint a + len" using a R by (intro uint_add_len) simp_all
  have al: "unat a mod 4096 = 0" "unat ?e mod 4096 = 0" unfolding uint_page e using a by (simp_all add: mod_add_eq[symmetric])
  then have alw: "a mod 4096 = 0" "?e mod 4096 = 0" by (simp_all only: mod_PGSIZE_0)
  have "int (unat ?e) \<le> 0x80000000" using e a R by simp
  then have up: "unat ?e \<le> 2147483648" by linarith
  have pages: "pages_in a ?e = {v. 4096 * int v \<in> {uint a..<uint a + len}}"
  proof -
    have "int (unat a) = uint a" "int (unat ?e) = uint a + len" using e by simp_all
    then have "unat a \<le> 4096 * v \<longleftrightarrow> uint a \<le> 4096 * int v" "4096 * v < unat ?e \<longleftrightarrow> 4096 * int v < uint a + len" for v by linarith+
    then show ?thesis by (simp add: pages_in_def)
  qed
  have fc: "find_covering 17 a ?e (mmaps ?p) (mmap_head ?p) = Ret (Some i)"
    using a by (intro find_covering_region[OF wf i(1)]) (simp_all add: e same)
  obtain k' gs y' where k': "unmap_range (Suc (unat (?e - a) div 4096 + 1)) io ?d (mm_addr r) (wb_file r) True a ?e (kern w, fsys w) = Ret (int (length gs), k', y')"
    "released (kern w) fs D ?d (pages_in a ?e) k' gs"
    using unmap_range_frees[OF inv al(1) up range_fuel _ io(1), of "mm_addr r" "fsys w"] only pages by blast
  let ?w1 = "w\<lparr>kern := k', fsys := y'\<rparr>" and ?r1 = "?m\<lparr>mm_n_loaded := mm_n_loaded ?m - int (length gs)\<rparr>"
  let ?p1 = "set_region i ?r1 ?p"
  let ?w2 = "set_proc pid ?p1 ?w1"
  have um: "unmap_pages io ?d (mm_addr r) (wb_file r) True a ?e w = Ret (int (length gs), ?w1)"
    using k'(1) by (simp add: unmap_pages_def)
  have il: "i < length (mmaps ?p)" using linv chain_bound[of "mmaps ?p" "mmap_head ?p" "xs @ i # ys" i] by (simp add: mm_inv_def)
  have r1: "region_ok ?r1" "mm_next ?r1 = mm_next ?m" "A ?r1 = A ?m" "mm_length ?r1 = mm_length ?m" "span ?r1 = span ?m - {}"
    using linv by (simp_all add: mm_inv_def region_ok_def A_def span_def)
  note sh = shrunk_covered[OF linv r1(1,2), of "{}"]
  have inv1: "mm_inv (procs ?w2 pid) (xs @ i # ys)" using shrink_inv[OF linv r1(1,2)] r1(3,4) by simp
  have cov1: "covered ?p1 = covered ?p" using sh(2) r1 by simp
  have "length (xs @ i # ys) < 16" using room linv by (simp add: mm_inv_def)
  moreover have "?r1 = mmaps (procs ?w2 pid) ! i" using il by (simp add: set_region_def)
  ultimately obtain w' where w': "wpunmap_update pid i a len ?r1 ?w2 = Ret (0, w')" "kern w' = kern ?w2" "wf_proc (procs w' pid)"
      "covered (procs w' pid) = covered (procs ?w2 pid) - {uint a..<uint a + len}"
    using wpunmap_update_ok[OF inv1, of ?r1 a len] a io(2) r1(3,4) by (auto simp: same)
  have "?d \<noteq> 0" using vm_invD(4)[OF inv, of ?d] by (simp add: table_pages_def good_frame_def)
  then have sw: "switchuvm (kstack ?p) ?d = Ret ()" using st by (simp add: switchuvm_def)
  have "sys_wpunmap io pid a len w = Ret (0, w')"
    using sys_wpunmap_found[OF alw a(4) fc _ sw] um w'(1) by (simp add: same)
  then show ?thesis using w'(2-4) k'(2) cov1 pages by (intro exI[of _ w'] exI[of _ gs]) simp
qed

theorem wpunmap_removes_range_witness:
  "\<exists>p w'. regions p = [new_region 0x60000000 8192 5 None] \<and> sys_wpunmap demo_io 0 0x60001000 4096 (set_proc 0 p demo_world) = Ret (0, w')
     \<and> covered (procs w' 0) = {0x60000000..<0x60001000}"
proof -
  let ?r = "new_region 0x60000000 8192 5 None"
  obtain p where p: "wf_proc p" "regions p = [?r]" "pgdir p = 0x80402000" "kstack p \<noteq> 0" using demo_mapped by blast
  let ?w = "set_proc 0 p demo_world"
  have w: "procs ?w 0 = p" "kern demo_world = demo_kernel" by (simp_all add: demo_world_def)
  have r: "A ?r = 0x60000000" "mm_length ?r = 8192" "mm_f ?r = None" "wb_file ?r = None" by (simp_all add: new_region_def A_def wb_file_def)
  have t: "total_mmaps p = 1" using p(1,2) by (auto simp: wf_proc_def mm_inv_def regions_def)
  have c: "covered p = {0x60000000..<0x60002000}" using p(2) r by (simp add: covered_def)
  have "\<exists>w' gs. sys_wpunmap demo_io 0 0x60001000 4096 ?w = Ret (0, w') \<and> wf_proc (procs w' 0)
    \<and> covered (procs w' 0) = covered p - {uint (0x60001000 :: u32)..<uint (0x60001000 :: u32) + 4096}
    \<and> released demo_kernel [0x80400000, 0x80401000] {0x80402000} 0x80402000
        {v. 4096 * int v \<in> {uint (0x60001000 :: u32)..<uint (0x60001000 :: u32) + 4096}} (kern w') gs"
    using wpunmap_removes_range[of ?w 0 ?r "0x60001000" 4096 "[0x80400000, 0x80401000]" "{0x80402000}" demo_io] p t demo_kernel_inv
    by (simp add: w r demo_kernel_empty writes_all_def)
  then obtain w' where "sys_wpunmap demo_io 0 0x60001000 4096 ?w = Ret (0, w')" "covered (procs w' 0) = {0x60000000..<0x60002000} - {0x60001000..<0x60002000}"
    by (auto simp: c)
  moreover have "{0x60000000..<0x60002000} - {0x60001000..<0x60002000} = {0x60000000..<0x60001000 :: int}" by auto
  ultimately show ?thesis using p(2) by auto
qed

subsection \<open>An end that wraps around\<close>

text \<open>
  (C5) \<open>wpunmap\<close> does not check that its range stays below 4 GB: on a process with a region, the call
  on the last page of the address space, whose end wraps around to 0, succeeds and turns the first
  region into one that starts at address 0 and one that ends at \<open>0xFFFFF000\<close>, so that the regions
  are no longer well-formed.
\<close>

theorem wpunmap_wraps_around:
  assumes wf: "wf_proc (procs w pid)" and ne: "regions (procs w pid) = r # rs" and f: "mm_f r = None"
    and room: "total_mmaps (procs w pid) < 16" and st: "kstack (procs w pid) \<noteq> 0" "pgdir (procs w pid) \<noteq> 0"
  shows "\<exists>w' n. sys_wpunmap io pid 0xFFFFF000 4096 w = Ret (0, w') \<and> n < 16 \<and> mm_addr (mmaps (procs w' pid) ! n) = 0
    \<and> \<not> wf_proc (procs w' pid)"
proof -
  let ?p = "procs w pid"
  note inv = wf[unfolded wf_proc_def]
  obtain i ys where l: "listed ?p = i # ys" and rb: "r = body (mmaps ?p ! i)" using ne by (auto simp: regions_def)
  let ?m = "mmaps ?p ! i"
  note I = inv[unfolded mm_inv_def l]
  have h: "mmap_head ?p = Some i" "i < 16" and ok: "region_ok ?m" and len: "length (listed ?p) < 16" using I room l by auto
  obtain n where n: "find_unused_mmap ?p = Some n" "n < 16" "n \<notin> set (listed ?p)" using find_unused_mmap_inv[OF inv] len by blast
  have z: "(0xFFFFF000 + of_int 4096 :: u32) = 0" by simp
  have "uint (mm_addr ?m) < 0x80000000" using ok by (simp add: region_ok_def A_def)
  then have fc: "find_covering 17 0xFFFFF000 (0xFFFFF000 + of_int 4096) (mmaps ?p) (mmap_head ?p) = Ret (Some i)"
    unfolding z using find_covering_chain[of "mmaps ?p" "mmap_head ?p" "i # ys" 17 "0xFFFFF000" 0] I len by (simp add: l word_le_def)
  have um: "unmap_pages io (pgdir ?p) (mm_addr ?m) (wb_file ?m) True 0xFFFFF000 (0xFFFFF000 + of_int 4096) w = Ret (0, w)"
    by (simp add: unmap_pages_def)
  have sw: "switchuvm (kstack ?p) (pgdir ?p) = Ret ()" using st by (simp add: switchuvm_def)
  have fn: "mm_f ?m = None" using f rb by simp
  have up: "unat (mm_end ?m) \<le> 0xFFFFF000" using region_pages(2)[OF ok] by simp
  have "\<exists>c. count_loaded_pages (pgdir ?p) 0 (mm_end ?m) (kern w) = Ret c" "\<exists>c. count_loaded_pages (pgdir ?p) (mm_addr ?m) 0xFFFFF000 (kern w) = Ret c"
    by (rule count_loaded_pages_returns; use up region_pages(1)[OF ok] in simp)+
  then obtain c1 c2 where c: "count_loaded_pages (pgdir ?p) 0 (mm_end ?m) (kern w) = Ret c1" "count_loaded_pages (pgdir ?p) (mm_addr ?m) 0xFFFFF000 (kern w) = Ret c2"
    by (elim exE)
  have sr: "set_proc pid (set_region i ?m ?p) w = w" by (simp add: set_proc_def set_region_def)
  have "uint (mm_end ?m) > 0" using mm_end_uint[OF ok] ok by (simp add: region_ok_def)
  then have nz: "mm_end ?m \<noteq> 0" by auto
  have "\<exists>q. split_mapping pid i 0xFFFFF000 4096 w = Ret (0, set_proc pid q w) \<and> mm_addr (mmaps q ! n) = 0 \<and> length (mmaps q) = 16"
    using c n I fn unfolding split_mapping_def Let_def n(1) z
    by (simp add: filedup_opt_def mm_end_def set_region_def) (rule exI, intro conjI, rule refl, simp_all)
  then obtain q where q: "split_mapping pid i 0xFFFFF000 4096 w = Ret (0, set_proc pid q w)" "mm_addr (mmaps q ! n) = 0" "length (mmaps q) = 16" by blast
  have "mm_addr ?m \<noteq> 0xFFFFF000" using ok by (auto simp: region_ok_def A_def)
  then have "wpunmap_update pid i 0xFFFFF000 4096 ?m w = Ret (0, set_proc pid q w)" unfolding wpunmap_update_def z using q(1) nz by simp
  then have "sys_wpunmap io pid 0xFFFFF000 4096 w = Ret (0, set_proc pid q w)"
    using sys_wpunmap_found[OF _ _ _ fc um sw refl] sr by simp
  moreover have "\<not> wf_proc q"
  proof
    assume "wf_proc q"
    then have "n \<in> set (listed q) \<and> region_ok (mmaps q ! n)" using q(2) n(2) by (simp add: wf_proc_def mm_inv_def) force
    then show False using q(2) by (simp add: region_ok_def A_def)
  qed
  ultimately show ?thesis using n(2) q(2) by (intro exI[of _ "set_proc pid q w"] exI[of _ n]) simp
qed

theorem wpunmap_wraps_around_witness:
  "\<exists>p w' n. regions p = [new_region 0x60000000 8192 5 None] \<and> sys_wpunmap demo_io 0 0xFFFFF000 4096 (set_proc 0 p demo_world) = Ret (0, w')
     \<and> n < 16 \<and> mm_addr (mmaps (procs w' 0) ! n) = 0 \<and> \<not> wf_proc (procs w' 0)"
proof -
  let ?r = "new_region 0x60000000 8192 5 None"
  obtain p where p: "wf_proc p" "regions p = [?r]" "pgdir p = 0x80402000" "kstack p \<noteq> 0" using demo_mapped by blast
  have t: "total_mmaps p = 1" using p(1,2) by (auto simp: wf_proc_def mm_inv_def regions_def)
  have "mm_f ?r = None" by (simp add: new_region_def)
  then show ?thesis using wpunmap_wraps_around[of "set_proc 0 p demo_world" 0 ?r "[]" demo_io] p t by auto
qed

subsection \<open>fork\<close>

lemma filedup_opt_procs: "filedup_opt f w = Ret w' \<Longrightarrow> procs w' = procs w"
  by (auto simp: filedup_opt_def filedup_def split: option.splits if_splits)

lemma copy_maps_loop_other:
  assumes "copy_maps_loop fuel ppid cpid prev h w = Ret (res, w')" and "pid \<noteq> cpid"
  shows "procs w' pid = procs w pid"
  using assms(1)
proof (induction fuel arbitrary: prev h w)
  case 0
  then show ?case by (cases h) auto
next
  case (Suc fuel)
  show ?case
  proof (cases h)
    case (Some i)
    show ?thesis
    proof (cases "find_unused_mmap (procs w cpid)")
      case None
      then show ?thesis using Suc.prems Some by simp
    next
      case (Some c)
      let ?r = "mmaps (procs w ppid) ! i"
      from Suc.prems \<open>h = Some i\<close> Some obtain w1 n k1 where w1: "filedup_opt (mm_f ?r) w = Ret w1"
        and rest: "(case n of None \<Rightarrow> \<exists>q. w' = set_proc cpid q (w1\<lparr>kern := k1\<rparr>)
          | Some cnt \<Rightarrow> \<exists>q. copy_maps_loop fuel ppid cpid (Some c) (mm_next ?r) (set_proc cpid q (w1\<lparr>kern := k1\<rparr>)) = Ret (res, w'))"
        by (fastforce simp: Let_def obind_eq_Ret_iff split: option.splits)
      show ?thesis using rest Suc.IH assms(2) filedup_opt_procs[OF w1] by (fastforce split: option.splits)
    qed
  qed (use Suc.prems in simp)
qed

text \<open>
  \<open>copy_maps\<close> changes no process but the child: in particular the reference counts of the
  parent's shared regions stay as they are, although the child now maps their pages.
\<close>

theorem copy_maps_leaves_parent:
  assumes "copy_maps ppid cpid w = Ret (res, w')" and "pid \<noteq> cpid"
  shows "procs w' pid = procs w pid"
  using assms copy_maps_loop_other unfolding copy_maps_def by blast

theorem copy_maps_leaves_parent_witness:
  "copy_maps 0 1 demo_world = Ret (0, demo_world) \<and> procs demo_world 0 = procs demo_world 0"
proof -
  have c: "copy_maps 0 1 demo_world = Ret (0, demo_world)"
    by (simp add: copy_maps_def demo_world_def demo_proc_def init_mmaps_def)
  show ?thesis using c copy_maps_leaves_parent[OF c, of 0] by simp
qed

end
