(* ===== verification/Proc.thy ===== *)
theory Proc
  imports Wmap_Parts
begin

text \<open>
  Processes (proc.c): the process table, creation, exit and wait, sleep and wakeup, and the
  scheduler of every processor. A pointer to a process is its index in the table. What runs under
  \<open>ptable.lock\<close> is one section: from the acquire of a process through \<open>sched\<close>, the scheduler's
  scan, and the resumed process up to its release. A process that gave up its processor remembers
  in \<open>ctx\<close> from where it called \<open>sched\<close>; \<open>point\<close> is how far it is in a call that has several
  sections. The page directory, kernel stack, parent and mappings of a process are in the state of
  wmap.c. References to the current directory are operations of the file system, given as
  functions. Process numbers are integers: they do not overflow before \<open>2 ^ 31\<close> processes have been
  created. Interrupt flags, register loads and the first process's call of \<open>iinit\<close> and \<open>initlog\<close> in
  \<open>forkret\<close> are left out.
\<close>

subsection \<open>State\<close>

abbreviation (input) NPROC :: nat where "NPROC \<equiv> 64"
abbreviation (input) NOFILE :: nat where "NOFILE \<equiv> 16"

datatype procstate = UNUSED | EMBRYO | SLEEPING | RUNNABLE | RUNNING | ZOMBIE

text \<open>A channel is an address: that of a process, or another one.\<close>

datatype channel = Proc_at nat | Addr u32

datatype reg = Edi | Esi | Ebp | Oesp | Ebx | Edx | Ecx | Eax | Gs | Fs | Es | Ds | Trapno | Err
  | Eip | Cs | Eflags | Esp | Ss

datatype ctxt = Forkret | In_yield | In_sleep | In_wait

datatype point = Outside | Forking nat | Exiting

record pslot =
  state :: procstate
  pid :: int
  chan :: "channel option"
  killed :: bool
  sz :: u32
  tf :: "reg \<Rightarrow> u32"
  ofile :: "nat option list"
  cwd :: "nat option"
  pname :: string
  ctx :: ctxt
  point :: point

record 'fs system =
  wld :: "'fs world"
  ptable :: "nat \<Rightarrow> pslot"
  nextpid :: int
  initproc :: "nat option"
  cpu_proc :: "nat \<Rightarrow> nat option"

record 'fs dir_ops =
  idup_op :: "'fs \<Rightarrow> nat \<Rightarrow> 'fs"
  iput_op :: "'fs \<Rightarrow> nat \<Rightarrow> 'fs"
  namei_root :: "'fs \<Rightarrow> nat option \<times> 'fs"

definition upd :: "nat \<Rightarrow> (pslot \<Rightarrow> pslot) \<Rightarrow> 'fs system \<Rightarrow> 'fs system" where
  "upd i g s = s\<lparr>ptable := (ptable s)(i := g (ptable s i))\<rparr>"

definition updp :: "nat \<Rightarrow> (proc \<Rightarrow> proc) \<Rightarrow> 'fs system \<Rightarrow> 'fs system" where
  "updp i g s = s\<lparr>wld := set_proc i (g (procs (wld s) i)) (wld s)\<rparr>"

definition set_kern :: "kernel \<Rightarrow> 'fs system \<Rightarrow> 'fs system" where
  "set_kern k s = s\<lparr>wld := (wld s)\<lparr>kern := k\<rparr>\<rparr>"

definition set_state :: "nat \<Rightarrow> procstate \<Rightarrow> 'fs system \<Rightarrow> 'fs system" where
  "set_state i st s = upd i (\<lambda>p. p\<lparr>state := st\<rparr>) s"

definition on_cpu :: "nat \<Rightarrow> nat option \<Rightarrow> 'fs system \<Rightarrow> 'fs system" where
  "on_cpu c p s = s\<lparr>cpu_proc := (cpu_proc s)(c := p)\<rparr>"

subsection \<open>Creating processes\<close>

text \<open>The section of \<open>allocproc\<close> under the lock, and what follows it.\<close>

definition take_slot :: "'fs system \<Rightarrow> nat option \<times> 'fs system" where
  "take_slot s =
     (case find (\<lambda>i. state (ptable s i) = UNUSED) [0..<NPROC] of
        None \<Rightarrow> (None, s)
      | Some i \<Rightarrow> (Some i, (upd i (\<lambda>p. p\<lparr>state := EMBRYO, pid := nextpid s\<rparr>) s)\<lparr>nextpid := nextpid s + 1\<rparr>))"

definition give_stack :: "nat \<Rightarrow> 'fs system \<Rightarrow> bool \<times> 'fs system" where
  "give_stack i s =
     (let (ks, k1) = kalloc (kern (wld s)); s1 = updp i (\<lambda>p. p\<lparr>kstack := ks\<rparr>) (set_kern k1 s)
      in if ks = 0 then (False, set_state i UNUSED s1)
         else (True, updp i init_mmaps (upd i (\<lambda>p. p\<lparr>ctx := Forkret, point := Outside\<rparr>) s1)))"

definition allocproc :: "'fs system \<Rightarrow> nat option \<times> 'fs system" where
  "allocproc s =
     (case take_slot s of
        (None, s1) \<Rightarrow> (None, s1)
      | (Some i, s1) \<Rightarrow> (let (ok, s2) = give_stack i s1 in (if ok then Some i else None, s2)))"

definition userinit :: "u32 \<Rightarrow> byte list \<Rightarrow> 'fs dir_ops \<Rightarrow> 'fs system \<Rightarrow> 'fs system outcome" where
  "userinit data initcode dio s =
     (case allocproc s of
        (None, s1) \<Rightarrow> Panic ''null pointer''
      | (Some p, s1) \<Rightarrow>
          obind (setupkvm data (kern (wld s1))) (\<lambda>(d, k1).
            if d = 0 then Panic ''userinit: out of memory?''
            else obind (inituvm d initcode k1) (\<lambda>k2.
              let frame = (\<lambda>_. 0)(Cs := 27, Ds := 35, Es := 35, Ss := 35, Eflags := 512, Esp := 4096, Eip := 0);
                  (dir, fs1) = namei_root dio (fsys (wld s1));
                  s2 = updp p (\<lambda>q. q\<lparr>pgdir := d\<rparr>) (set_kern k2 (s1\<lparr>initproc := Some p\<rparr>));
                  s3 = upd p (\<lambda>q. q\<lparr>sz := PGSIZE, tf := frame, pname := ''initcode'', cwd := dir\<rparr>) s2
              in Ret (set_state p RUNNABLE (s3\<lparr>wld := (wld s3)\<lparr>fsys := fs1\<rparr>\<rparr>)))))"

definition growproc :: "nat \<Rightarrow> int \<Rightarrow> 'fs system \<Rightarrow> (int \<times> 'fs system) outcome" where
  "growproc p n s =
     (let sz0 = sz (ptable s p); d = pgdir (procs (wld s) p); k = kern (wld s);
          grown = (\<lambda>sz1 k1. obind (switchuvm (kstack (procs (wld s) p)) d) (\<lambda>_.
                     Ret (0, upd p (\<lambda>q. q\<lparr>sz := sz1\<rparr>) (set_kern k1 s))))
      in if n > 0 then obind (allocuvm d sz0 (sz0 + of_int n) k) (\<lambda>(sz1, k1).
                         if sz1 = 0 then Ret (- 1, set_kern k1 s) else grown sz1 k1)
         else if n < 0 then obind (deallocuvm d sz0 (sz0 + of_int n) k) (\<lambda>(sz1, k1).
                         if sz1 = 0 then Ret (- 1, set_kern k1 s) else grown sz1 k1)
         else grown sz0 k)"

text \<open>
  \<open>fork\<close> in two steps: the section of \<open>allocproc\<close> under the lock, and the copy of the caller, which
  ends with the new process runnable. Other processors do not read a process in state \<open>EMBRYO\<close>
  except for its parent and process number.
\<close>

fun dup_files :: "nat list \<Rightarrow> nat \<Rightarrow> nat \<Rightarrow> 'fs system \<Rightarrow> 'fs system outcome" where
  "dup_files [] p np s = Ret s"
| "dup_files (i # is) p np s =
     (case ofile (ptable s p) ! i of
        None \<Rightarrow> dup_files is p np s
      | Some f \<Rightarrow> obind (filedup f (wld s)) (\<lambda>w1.
          dup_files is p np (upd np (\<lambda>q. q\<lparr>ofile := (ofile q)[i := Some f]\<rparr>) (s\<lparr>wld := w1\<rparr>))))"

definition set_point :: "nat \<Rightarrow> point \<Rightarrow> 'fs system \<Rightarrow> 'fs system" where
  "set_point p x s = upd p (\<lambda>q. q\<lparr>point := x\<rparr>) s"

definition fork_start :: "nat \<Rightarrow> 'fs system \<Rightarrow> 'fs system" where
  "fork_start p s =
     (case take_slot s of (None, s1) \<Rightarrow> s1 | (Some np, s1) \<Rightarrow> set_point p (Forking np) s1)"

definition drop_stack :: "nat \<Rightarrow> 'fs system \<Rightarrow> 'fs system outcome" where
  "drop_stack np s =
     obind (kfree (kstack (procs (wld s) np)) (kern (wld s))) (\<lambda>k1.
       Ret (updp np (\<lambda>q. q\<lparr>kstack := 0\<rparr>) (set_kern k1 s)))"

definition fork_maps :: "'fs dir_ops \<Rightarrow> nat \<Rightarrow> nat \<Rightarrow> 'fs system \<Rightarrow> (int \<times> 'fs system) outcome" where
  "fork_maps dio p np s =
     (case cwd (ptable s p) of
        None \<Rightarrow> Panic ''null pointer''
      | Some dir \<Rightarrow>
          let s1 = upd np (\<lambda>q. q\<lparr>cwd := Some dir, pname := pname (ptable s p)\<rparr>)
                     (s\<lparr>wld := (wld s)\<lparr>fsys := idup_op dio (fsys (wld s)) dir\<rparr>\<rparr>)
          in obind (copy_maps p np (wld s1)) (\<lambda>(r, w2).
               let s2 = s1\<lparr>wld := w2\<rparr> in
               if r < 0
               then obind (drop_stack np s2) (\<lambda>s3.
                    obind (freevm (pgdir (procs (wld s3) np)) (kern (wld s3))) (\<lambda>k4.
                      Ret (- 1, set_state np UNUSED (set_kern k4 s3))))
               else Ret (pid (ptable s2 np), set_state np RUNNABLE s2)))"

definition fork_fill :: "'fs dir_ops \<Rightarrow> nat \<Rightarrow> nat \<Rightarrow> 'fs system \<Rightarrow> (int \<times> 'fs system) outcome" where
  "fork_fill dio p np s =
     (let s1 = updp np (\<lambda>q. q\<lparr>parent := Some p\<rparr>)
                 (upd np (\<lambda>q. q\<lparr>sz := sz (ptable s p), tf := (tf (ptable s p))(Eax := 0)\<rparr>) s)
      in obind (dup_files [0..<NOFILE] p np s1) (fork_maps dio p np))"

definition fork_copy :: "u32 \<Rightarrow> 'fs dir_ops \<Rightarrow> nat \<Rightarrow> nat \<Rightarrow> 'fs system \<Rightarrow> (int \<times> 'fs system) outcome" where
  "fork_copy data dio p np s =
     (let (ok, s1) = give_stack np (set_point p Outside s) in
      if \<not> ok then Ret (- 1, s1)
      else obind (copyuvm data (pgdir (procs (wld s1) p)) (sz (ptable s1 p)) (kern (wld s1))) (\<lambda>(d, k1).
        let s2 = updp np (\<lambda>q. q\<lparr>pgdir := d\<rparr>) (set_kern k1 s1) in
        if d = 0 then obind (drop_stack np s2) (\<lambda>s3. Ret (- 1, set_state np UNUSED s3))
        else fork_fill dio p np s2))"

definition fork :: "u32 \<Rightarrow> 'fs dir_ops \<Rightarrow> nat \<Rightarrow> 'fs system \<Rightarrow> (int \<times> 'fs system) outcome" where
  "fork data dio p s =
     (let s1 = fork_start p s in
      case point (ptable s1 p) of Forking np \<Rightarrow> fork_copy data dio p np s1 | _ \<Rightarrow> Ret (- 1, s1))"

subsection \<open>Waiting and waking\<close>

definition wakeup1 :: "channel option \<Rightarrow> 'fs system \<Rightarrow> 'fs system" where
  "wakeup1 ch s = s\<lparr>ptable := (\<lambda>i. let p = ptable s i in
     if i < NPROC \<and> state p = SLEEPING \<and> chan p = ch then p\<lparr>state := RUNNABLE\<rparr> else p)\<rparr>"

definition wakeup :: "channel option \<Rightarrow> 'fs system \<Rightarrow> 'fs system" where
  "wakeup ch s = wakeup1 ch s"

definition kill :: "int \<Rightarrow> 'fs system \<Rightarrow> int \<times> 'fs system" where
  "kill n s =
     (case find (\<lambda>i. pid (ptable s i) = n) [0..<NPROC] of
        None \<Rightarrow> (- 1, s)
      | Some i \<Rightarrow> (0, upd i (\<lambda>p. p\<lparr>killed := True, state := (if state p = SLEEPING then RUNNABLE else state p)\<rparr>) s))"

text \<open>One pass of \<open>wait\<close> over the table: the number of the child it released, if any, and whether it saw a child.\<close>

definition reap :: "nat \<Rightarrow> 'fs system \<Rightarrow> 'fs system outcome" where
  "reap i s =
     obind (drop_stack i s) (\<lambda>s1.
     obind (freevm (pgdir (procs (wld s1) i)) (kern (wld s1))) (\<lambda>k2.
       Ret (upd i (\<lambda>p. p\<lparr>pid := 0, pname := '''', killed := False, state := UNUSED\<rparr>)
             (updp i (\<lambda>q. q\<lparr>parent := None\<rparr>) (set_kern k2 s1)))))"

fun wait_scan :: "nat list \<Rightarrow> nat \<Rightarrow> bool \<Rightarrow> 'fs system \<Rightarrow> (int option \<times> bool \<times> 'fs system) outcome" where
  "wait_scan [] p havekids s = Ret (None, havekids, s)"
| "wait_scan (i # is) p havekids s =
     (if parent (procs (wld s) i) \<noteq> Some p then wait_scan is p havekids s
      else if state (ptable s i) = ZOMBIE
      then obind (reap i s) (\<lambda>s1. Ret (Some (pid (ptable s i)), True, s1))
      else wait_scan is p True s)"

text \<open>A round of the loop of \<open>wait\<close>: it returns a value, or puts the caller to sleep.\<close>

definition wait_round :: "nat \<Rightarrow> 'fs system \<Rightarrow> (int option \<times> 'fs system) outcome" where
  "wait_round p s =
     obind (wait_scan [0..<NPROC] p False s) (\<lambda>(found, havekids, s1).
       case found of
         Some n \<Rightarrow> Ret (Some n, s1)
       | None \<Rightarrow>
           if \<not> havekids \<or> killed (ptable s1 p) then Ret (Some (- 1), s1)
           else Ret (None, upd p (\<lambda>q. q\<lparr>chan := Some (Proc_at p), state := SLEEPING, ctx := In_wait\<rparr>) s1))"

subsection \<open>The scheduler\<close>

datatype resumed = Nobody | From_fork nat | From_yield nat | From_sleep nat | From_wait nat int

text \<open>
  The scheduler of processor \<open>c\<close> from index \<open>i\<close> of its scan on, up to the release of the lock: at the
  end of the table, or by the process it has switched to.
\<close>

function sched_scan :: "nat \<Rightarrow> nat \<Rightarrow> 'fs system \<Rightarrow> (resumed \<times> 'fs system) outcome" where
  "sched_scan c i s =
     (if \<not> i < NPROC then Ret (Nobody, s)
      else if state (ptable s i) \<noteq> RUNNABLE then sched_scan c (Suc i) s
      else obind (switchuvm (kstack (procs (wld s) i)) (pgdir (procs (wld s) i))) (\<lambda>_.
        let s1 = set_state i RUNNING (on_cpu c (Some i) s) in
        case ctx (ptable s i) of
          Forkret \<Rightarrow> Ret (From_fork i, s1)
        | In_yield \<Rightarrow> Ret (From_yield i, s1)
        | In_sleep \<Rightarrow> Ret (From_sleep i, upd i (\<lambda>p. p\<lparr>chan := None\<rparr>) s1)
        | In_wait \<Rightarrow>
            obind (wait_round i (upd i (\<lambda>p. p\<lparr>chan := None\<rparr>) s1)) (\<lambda>(r, s2).
              case r of
                Some n \<Rightarrow> Ret (From_wait i n, s2)
              | None \<Rightarrow> sched_scan c (Suc i) (on_cpu c None s2))))"
  by pat_completeness auto
termination by (relation "measure (\<lambda>(c, i, s). NPROC - i)") auto

declare sched_scan.simps [simp del]

definition scheduler :: "nat \<Rightarrow> 'fs system \<Rightarrow> (resumed \<times> 'fs system) outcome" where
  "scheduler c s = sched_scan c 0 s"

definition sched :: "nat \<Rightarrow> nat \<Rightarrow> 'fs system \<Rightarrow> (resumed \<times> 'fs system) outcome" where
  "sched c p s =
     (if state (ptable s p) = RUNNING then Panic ''sched running'' else sched_scan c (Suc p) (on_cpu c None s))"

definition yield :: "nat \<Rightarrow> nat \<Rightarrow> 'fs system \<Rightarrow> (resumed \<times> 'fs system) outcome" where
  "yield c p s = sched c p (upd p (\<lambda>q. q\<lparr>state := RUNNABLE, ctx := In_yield\<rparr>) s)"

text \<open>\<open>sleep\<close> with a lock other than \<open>ptable.lock\<close>; with that one it is the end of \<open>wait_round\<close>.\<close>

definition sleep :: "nat \<Rightarrow> nat \<Rightarrow> channel option \<Rightarrow> 'fs system \<Rightarrow> (resumed \<times> 'fs system) outcome" where
  "sleep c p ch s = sched c p (upd p (\<lambda>q. q\<lparr>chan := ch, state := SLEEPING, ctx := In_sleep\<rparr>) s)"

definition wait :: "nat \<Rightarrow> nat \<Rightarrow> 'fs system \<Rightarrow> (resumed \<times> 'fs system) outcome" where
  "wait c p s =
     obind (wait_round p s) (\<lambda>(r, s1).
       case r of Some n \<Rightarrow> Ret (From_wait p n, s1) | None \<Rightarrow> sched c p s1)"

subsection \<open>Exit\<close>

fun close_files :: "'fs inode_ops \<Rightarrow> nat list \<Rightarrow> nat \<Rightarrow> 'fs system \<Rightarrow> 'fs system outcome" where
  "close_files io [] p s = Ret s"
| "close_files io (fd # fds) p s =
     (case ofile (ptable s p) ! fd of
        None \<Rightarrow> close_files io fds p s
      | Some f \<Rightarrow> obind (fileclose io f (wld s)) (\<lambda>w1.
          close_files io fds p (upd p (\<lambda>q. q\<lparr>ofile := (ofile q)[fd := None]\<rparr>) (s\<lparr>wld := w1\<rparr>))))"

text \<open>\<open>exit\<close> up to the lock, and its section under the lock.\<close>

definition exit_start :: "'fs inode_ops \<Rightarrow> 'fs dir_ops \<Rightarrow> nat \<Rightarrow> 'fs system \<Rightarrow> 'fs system outcome" where
  "exit_start io dio p s =
     (if initproc s = Some p then Panic ''init exiting''
      else obind (delete_mmaps io p (wld s)) (\<lambda>(_, w1).
           obind (close_files io [0..<NOFILE] p (s\<lparr>wld := w1\<rparr>)) (\<lambda>s2.
             case cwd (ptable s2 p) of
               None \<Rightarrow> Panic ''null pointer''
             | Some dir \<Rightarrow>
                 Ret (upd p (\<lambda>q. q\<lparr>cwd := None, point := Exiting\<rparr>)
                        (s2\<lparr>wld := (wld s2)\<lparr>fsys := iput_op dio (fsys (wld s2)) dir\<rparr>\<rparr>)))))"

fun reparent :: "nat list \<Rightarrow> nat \<Rightarrow> 'fs system \<Rightarrow> 'fs system" where
  "reparent [] p s = s"
| "reparent (i # is) p s =
     (if parent (procs (wld s) i) = Some p
      then let s1 = updp i (\<lambda>q. q\<lparr>parent := initproc s\<rparr>) s
           in reparent is p (if state (ptable s1 i) = ZOMBIE then wakeup1 (map_option Proc_at (initproc s1)) s1 else s1)
      else reparent is p s)"

definition exit_finish :: "nat \<Rightarrow> nat \<Rightarrow> 'fs system \<Rightarrow> (resumed \<times> 'fs system) outcome" where
  "exit_finish c p s =
     (let s1 = wakeup1 (map_option Proc_at (parent (procs (wld s) p))) s;
          s2 = reparent [0..<NPROC] p s1
      in sched c p (set_state p ZOMBIE s2))"

end
