(* ===== verification/Proc_Table.thy ===== *)
theory Proc_Table
  imports Proc
begin

text \<open>
  The invariant of the process table: which process runs on which processor, process numbers,
  the tree of processes, slots being filled, and processes that sleep in \<open>wait\<close>; and that the
  elementary changes of the table keep it.
\<close>

subsection \<open>The invariant\<close>

abbreviation st :: "'fs system \<Rightarrow> nat \<Rightarrow> procstate" where "st s i \<equiv> state (ptable s i)"
abbreviation parent_of :: "'fs system \<Rightarrow> nat \<Rightarrow> nat option" where "parent_of s i \<equiv> parent (procs (wld s) i)"

definition live :: "procstate \<Rightarrow> bool" where
  "live x \<longleftrightarrow> x = SLEEPING \<or> x = RUNNABLE \<or> x = RUNNING"

lemma live_simps [simp]: "live SLEEPING" "live RUNNABLE" "live RUNNING" "\<not> live UNUSED" "\<not> live EMBRYO" "\<not> live ZOMBIE"
  by (simp_all add: live_def)

text \<open>A process is in state \<open>RUNNING\<close> exactly when one processor runs it.\<close>

definition cpus_ok :: "'fs system \<Rightarrow> bool" where
  "cpus_ok s \<longleftrightarrow>
     (\<forall>c p. cpu_proc s c = Some p \<longrightarrow> p < NPROC \<and> st s p = RUNNING \<and> (\<forall>d. cpu_proc s d = Some p \<longrightarrow> d = c)) \<and>
     (\<forall>p<NPROC. st s p = RUNNING \<longrightarrow> (\<exists>c. cpu_proc s c = Some p))"

definition pids_ok :: "'fs system \<Rightarrow> bool" where
  "pids_ok s \<longleftrightarrow> 0 < nextpid s \<and>
     (\<forall>i<NPROC. st s i \<noteq> UNUSED \<longrightarrow> 0 < pid (ptable s i) \<and> pid (ptable s i) < nextpid s \<and>
        (\<forall>j<NPROC. st s j \<noteq> UNUSED \<and> pid (ptable s j) = pid (ptable s i) \<longrightarrow> j = i))"

text \<open>The first process lives and does not exit, and every other process or zombie has another, living process as its parent.\<close>

definition family_ok :: "'fs system \<Rightarrow> bool" where
  "family_ok s \<longleftrightarrow> (\<exists>q<NPROC. initproc s = Some q \<and> live (st s q) \<and> point (ptable s q) \<noteq> Exiting \<and>
     (\<forall>i<NPROC. i \<noteq> q \<and> st s i \<noteq> UNUSED \<and> st s i \<noteq> EMBRYO \<longrightarrow> (\<exists>r<NPROC. r \<noteq> i \<and> parent_of s i = Some r \<and> live (st s r))))"

text \<open>The slots in state \<open>EMBRYO\<close> are those that some process in \<open>fork\<close> is filling, each by one.\<close>

definition embryos_ok :: "'fs system \<Rightarrow> bool" where
  "embryos_ok s \<longleftrightarrow>
     (\<forall>p<NPROC. \<forall>np. live (st s p) \<and> point (ptable s p) = Forking np \<longrightarrow> np < NPROC \<and> st s np = EMBRYO \<and>
        (\<forall>q<NPROC. live (st s q) \<and> point (ptable s q) = Forking np \<longrightarrow> q = p)) \<and>
     (\<forall>np<NPROC. st s np = EMBRYO \<longrightarrow> (\<exists>p<NPROC. live (st s p) \<and> point (ptable s p) = Forking np))"

lemma embryosI:
  assumes "\<And>p np. p < NPROC \<Longrightarrow> live (st s p) \<Longrightarrow> point (ptable s p) = Forking np \<Longrightarrow> np < NPROC \<and> st s np = EMBRYO"
    and "\<And>p np q. p < NPROC \<Longrightarrow> live (st s p) \<Longrightarrow> point (ptable s p) = Forking np \<Longrightarrow> q < NPROC \<Longrightarrow> live (st s q) \<Longrightarrow> point (ptable s q) = Forking np \<Longrightarrow> q = p"
    and "\<And>np. np < NPROC \<Longrightarrow> st s np = EMBRYO \<Longrightarrow> \<exists>p<NPROC. live (st s p) \<and> point (ptable s p) = Forking np"
  shows "embryos_ok s"
  using assms unfolding embryos_ok_def by blast

lemma embryosD:
  assumes "embryos_ok s"
  shows "p < NPROC \<Longrightarrow> live (st s p) \<and> point (ptable s p) = Forking np \<Longrightarrow> np < NPROC"
    and "p < NPROC \<Longrightarrow> live (st s p) \<and> point (ptable s p) = Forking np \<Longrightarrow> st s np = EMBRYO"
    and "p < NPROC \<Longrightarrow> live (st s p) \<and> point (ptable s p) = Forking np \<Longrightarrow> q < NPROC \<Longrightarrow> live (st s q) \<and> point (ptable s q) = Forking np \<Longrightarrow> q = p"
    and "np < NPROC \<Longrightarrow> st s np = EMBRYO \<Longrightarrow> \<exists>p<NPROC. live (st s p) \<and> point (ptable s p) = Forking np"
  using assms unfolding embryos_ok_def by blast+

text \<open>A process that sleeps in \<open>wait\<close> can be woken by its children and has no dead child.\<close>

definition waiters_ok :: "'fs system \<Rightarrow> bool" where
  "waiters_ok s \<longleftrightarrow>
     (\<forall>p<NPROC. st s p = SLEEPING \<and> ctx (ptable s p) = In_wait \<longrightarrow>
        chan (ptable s p) = Some (Proc_at p) \<and> \<not> killed (ptable s p) \<and>
        (\<forall>i<NPROC. parent_of s i = Some p \<longrightarrow> st s i \<noteq> ZOMBIE))"

definition stacks_ok :: "'fs system \<Rightarrow> bool" where
  "stacks_ok s \<longleftrightarrow>
     (\<forall>i<NPROC. live (st s i) \<longrightarrow> kstack (procs (wld s) i) \<noteq> 0 \<and> pgdir (procs (wld s) i) \<noteq> 0)"

definition table_ok :: "'fs system \<Rightarrow> bool" where
  "table_ok s \<longleftrightarrow> cpus_ok s \<and> pids_ok s \<and> family_ok s \<and> embryos_ok s \<and> waiters_ok s \<and> stacks_ok s"

lemma table_okI:
  "cpus_ok s \<Longrightarrow> pids_ok s \<Longrightarrow> family_ok s \<Longrightarrow> embryos_ok s \<Longrightarrow> waiters_ok s \<Longrightarrow> stacks_ok s \<Longrightarrow> table_ok s"
  by (simp add: table_ok_def)

subsection \<open>What the operations change\<close>

text \<open>The links of a process in the state of wmap.c.\<close>

definition links :: "'fs world \<Rightarrow> nat \<Rightarrow> nat option \<times> u32 \<times> u32" where
  "links w i = (parent (procs w i), kstack (procs w i), pgdir (procs w i))"

lemma system_upd_simps [simp]:
  "wld (upd i g s) = wld s" "nextpid (upd i g s) = nextpid s" "initproc (upd i g s) = initproc s" "cpu_proc (upd i g s) = cpu_proc s"
  "ptable (upd i g s) = (ptable s)(i := g (ptable s i))"
  "ptable (updp i h s) = ptable s" "nextpid (updp i h s) = nextpid s" "initproc (updp i h s) = initproc s" "cpu_proc (updp i h s) = cpu_proc s"
  "procs (wld (updp i h s)) = (procs (wld s))(i := h (procs (wld s) i))" "kern (wld (updp i h s)) = kern (wld s)" "fsys (wld (updp i h s)) = fsys (wld s)"
  "ptable (set_kern k s) = ptable s" "nextpid (set_kern k s) = nextpid s" "initproc (set_kern k s) = initproc s" "cpu_proc (set_kern k s) = cpu_proc s"
  "procs (wld (set_kern k s)) = procs (wld s)" "kern (wld (set_kern k s)) = k"
  "wld (on_cpu c x s) = wld s" "nextpid (on_cpu c x s) = nextpid s" "initproc (on_cpu c x s) = initproc s" "cpu_proc (on_cpu c x s) = (cpu_proc s)(c := x)"
  "ptable (on_cpu c x s) = ptable s"
  by (simp_all add: upd_def updp_def set_kern_def on_cpu_def set_proc_def)

lemma wakeup1_simps [simp]:
  "wld (wakeup1 ch s) = wld s" "nextpid (wakeup1 ch s) = nextpid s" "initproc (wakeup1 ch s) = initproc s" "cpu_proc (wakeup1 ch s) = cpu_proc s"
  by (simp_all add: wakeup1_def)

lemma wakeup1_ptable:
  "ptable (wakeup1 ch s) i =
     (if i < NPROC \<and> st s i = SLEEPING \<and> chan (ptable s i) = ch then (ptable s i)\<lparr>state := RUNNABLE\<rparr> else ptable s i)"
  by (simp add: wakeup1_def Let_def)

lemma links_eq:
  "links w' i = links w i \<Longrightarrow> parent (procs w' i) = parent (procs w i) \<and> kstack (procs w' i) = kstack (procs w i) \<and> pgdir (procs w' i) = pgdir (procs w i)"
  by (simp add: links_def)

subsection \<open>Changes that keep every process alive, dead or unused\<close>

definition same_kind :: "procstate \<Rightarrow> procstate \<Rightarrow> bool" where
  "same_kind x y \<longleftrightarrow> x = y \<or> live x \<and> live y"

lemma same_kindD:
  assumes "same_kind x y"
  shows "live x = live y" "x = UNUSED \<longleftrightarrow> y = UNUSED" "x = EMBRYO \<longleftrightarrow> y = EMBRYO" "x = ZOMBIE \<longleftrightarrow> y = ZOMBIE"
  using assms by (auto simp: same_kind_def live_def)

definition same_processes :: "'fs system \<Rightarrow> 'fs system \<Rightarrow> bool" where
  "same_processes s t \<longleftrightarrow>
     nextpid t = nextpid s \<and> initproc t = initproc s \<and>
     (\<forall>i<NPROC. links (wld t) i = links (wld s) i \<and> same_kind (st t i) (st s i) \<and> pid (ptable t i) = pid (ptable s i) \<and>
        (\<forall>np. point (ptable t i) = Forking np \<longleftrightarrow> point (ptable s i) = Forking np) \<and>
        (initproc s = Some i \<and> point (ptable t i) = Exiting \<longrightarrow> point (ptable s i) = Exiting))"

lemma same_processesD:
  assumes "same_processes s t" and "i < NPROC"
  shows "parent_of t i = parent_of s i" "kstack (procs (wld t) i) = kstack (procs (wld s) i)" "pgdir (procs (wld t) i) = pgdir (procs (wld s) i)"
    "live (st t i) = live (st s i)" "st t i = UNUSED \<longleftrightarrow> st s i = UNUSED" "st t i = EMBRYO \<longleftrightarrow> st s i = EMBRYO" "st t i = ZOMBIE \<longleftrightarrow> st s i = ZOMBIE"
    "pid (ptable t i) = pid (ptable s i)" "point (ptable t i) = Forking np \<longleftrightarrow> point (ptable s i) = Forking np"
proof -
  have a: "links (wld t) i = links (wld s) i" "same_kind (st t i) (st s i)" "pid (ptable t i) = pid (ptable s i)"
    "point (ptable t i) = Forking np \<longleftrightarrow> point (ptable s i) = Forking np"
    using assms by (auto simp: same_processes_def)
  show "parent_of t i = parent_of s i" "kstack (procs (wld t) i) = kstack (procs (wld s) i)" "pgdir (procs (wld t) i) = pgdir (procs (wld s) i)"
    using links_eq[OF a(1)] by auto
  show "live (st t i) = live (st s i)" "st t i = UNUSED \<longleftrightarrow> st s i = UNUSED" "st t i = EMBRYO \<longleftrightarrow> st s i = EMBRYO" "st t i = ZOMBIE \<longleftrightarrow> st s i = ZOMBIE"
    by (fact same_kindD[OF a(2)])+
  show "pid (ptable t i) = pid (ptable s i)" "point (ptable t i) = Forking np \<longleftrightarrow> point (ptable s i) = Forking np" by (fact a)+
qed

lemma same_processes_ok:
  assumes ok: "table_ok s" and m: "same_processes s t" and c: "cpus_ok t" and w: "waiters_ok t"
  shows "table_ok t"
proof (rule table_okI)
  note d = same_processesD[OF m]
  have n: "nextpid t = nextpid s" "initproc t = initproc s" using m by (auto simp: same_processes_def)
  show "pids_ok t" using ok d(5,8) n(1) unfolding table_ok_def pids_ok_def by simp
  obtain q where q: "q < NPROC" "initproc s = Some q" "live (st s q)" "point (ptable s q) \<noteq> Exiting"
    and f: "\<And>i. i < NPROC \<Longrightarrow> i \<noteq> q \<Longrightarrow> st s i \<noteq> UNUSED \<Longrightarrow> st s i \<noteq> EMBRYO \<Longrightarrow> \<exists>r<NPROC. r \<noteq> i \<and> parent_of s i = Some r \<and> live (st s r)"
    using ok unfolding table_ok_def family_ok_def by blast
  show "family_ok t" unfolding family_ok_def
  proof (rule exI[of _ q], intro conjI allI impI)
    fix i assume i: "i < NPROC" "i \<noteq> q \<and> st t i \<noteq> UNUSED \<and> st t i \<noteq> EMBRYO"
    then obtain r where "r < NPROC" "r \<noteq> i" "parent_of s i = Some r" "live (st s r)" using f[of i] d(5,6)[of i] by auto
    then show "\<exists>r<NPROC. r \<noteq> i \<and> parent_of t i = Some r \<and> live (st t r)" using d(1)[OF i(1)] d(4)[of r] by auto
  qed (use q n d(4) m in \<open>auto simp: same_processes_def\<close>)
  have e: "embryos_ok s" using ok by (simp add: table_ok_def)
  have fk: "(live (st t p) \<and> point (ptable t p) = Forking np) = (live (st s p) \<and> point (ptable s p) = Forking np)" if "p < NPROC" for p np
    using d(4,9)[OF that] by blast
  show "embryos_ok t"
  proof (rule embryosI)
    fix p np assume p: "p < NPROC" and f: "live (st t p)" "point (ptable t p) = Forking np"
    show "np < NPROC \<and> st t np = EMBRYO" using embryosD(1,2)[OF e p, of np] fk[OF p] f d(6) by blast
    fix q assume "q < NPROC" "live (st t q)" "point (ptable t q) = Forking np"
    then show "q = p" using embryosD(3)[OF e p, of np q] fk[OF p] fk[of q] f by blast
  next
    fix np assume "np < NPROC" "st t np = EMBRYO"
    then show "\<exists>p<NPROC. live (st t p) \<and> point (ptable t p) = Forking np" using embryosD(4)[OF e, of np] fk d(6) by blast
  qed
  show "stacks_ok t" using ok d(2,3,4) unfolding table_ok_def stacks_ok_def by simp
qed (fact c w)+

lemma waiters_mono:
  assumes "waiters_ok s" and m: "same_processes s t"
    and "\<And>p. p < NPROC \<Longrightarrow> st t p = SLEEPING \<Longrightarrow> ctx (ptable t p) = In_wait \<Longrightarrow>
           st s p = SLEEPING \<and> ctx (ptable s p) = In_wait \<and> chan (ptable t p) = chan (ptable s p) \<and> killed (ptable t p) = killed (ptable s p)"
  shows "waiters_ok t"
  using assms(1,3) same_processesD(1,7)[OF m] unfolding waiters_ok_def by simp

subsection \<open>Starting and stopping a process\<close>

lemma start_running:
  assumes ok: "table_ok s" and i: "i < NPROC" and r: "st s i = RUNNABLE" and c: "cpu_proc s c = None"
  shows "table_ok (set_state i RUNNING (on_cpu c (Some i) s))"
proof -
  let ?t = "set_state i RUNNING (on_cpu c (Some i) s)"
  have m: "same_processes s ?t" using r by (simp add: same_processes_def set_state_def links_def same_kind_def)
  have c: "cpus_ok ?t"
    unfolding cpus_ok_def
  proof (intro conjI allI impI)
    fix e p assume "cpu_proc ?t e = Some p"
    then show "p < NPROC" "st ?t p = RUNNING" using ok i by (auto simp: table_ok_def cpus_ok_def set_state_def split: if_splits)
    fix d assume "cpu_proc ?t d = Some p"
    with \<open>cpu_proc ?t e = Some p\<close> show "d = e" using ok r by (auto simp: table_ok_def cpus_ok_def set_state_def split: if_splits)
  next
    fix p assume "p < NPROC" "st ?t p = RUNNING"
    then show "\<exists>e. cpu_proc ?t e = Some p" using ok c unfolding table_ok_def cpus_ok_def set_state_def
      by (cases "p = i") (auto, metis option.distinct(1))
  qed
  have "waiters_ok ?t" by (rule waiters_mono[OF _ m]) (use ok in \<open>auto simp: table_ok_def set_state_def split: if_splits\<close>)
  then show ?thesis by (rule same_processes_ok[OF ok m c])
qed

text \<open>A running process changes to another living state and its processor is free.\<close>

lemma stop_running:
  assumes ok: "table_ok s" and c: "cpu_proc s c = Some p"
    and g: "live (state (g (ptable s p)))" "state (g (ptable s p)) \<noteq> RUNNING" "pid (g (ptable s p)) = pid (ptable s p)" "point (g (ptable s p)) = point (ptable s p)"
    and w: "state (g (ptable s p)) = SLEEPING \<Longrightarrow> ctx (g (ptable s p)) = In_wait \<Longrightarrow>
       chan (g (ptable s p)) = Some (Proc_at p) \<and> \<not> killed (g (ptable s p)) \<and> (\<forall>i<NPROC. parent_of s i = Some p \<longrightarrow> st s i \<noteq> ZOMBIE)"
  shows "table_ok (on_cpu c None (upd p g s))"
proof -
  let ?t = "on_cpu c None (upd p g s)"
  have p: "p < NPROC" "st s p = RUNNING" "\<And>d. cpu_proc s d = Some p \<Longrightarrow> d = c" using ok c by (auto simp: table_ok_def cpus_ok_def)
  have m: "same_processes s ?t" using p g by (simp add: same_processes_def links_def same_kind_def)
  have cpus: "cpus_ok ?t"
    unfolding cpus_ok_def
  proof (intro conjI allI impI)
    fix e q assume e: "cpu_proc ?t e = Some q"
    then have "e \<noteq> c" "q \<noteq> p" "cpu_proc s e = Some q" using p by (auto split: if_splits)
    then show "q < NPROC" "st ?t q = RUNNING" using ok by (auto simp: table_ok_def cpus_ok_def)
    fix d assume "cpu_proc ?t d = Some q"
    with \<open>cpu_proc s e = Some q\<close> show "d = e" using ok by (auto simp: table_ok_def cpus_ok_def split: if_splits)
  next
    fix q assume q: "q < NPROC" "st ?t q = RUNNING"
    then have "q \<noteq> p" "st s q = RUNNING" using g by (auto split: if_splits)
    then obtain e where "cpu_proc s e = Some q" using ok q(1) by (auto simp: table_ok_def cpus_ok_def)
    moreover have "e \<noteq> c" using calculation c \<open>q \<noteq> p\<close> by auto
    ultimately show "\<exists>e. cpu_proc ?t e = Some q" by (intro exI[of _ e]) simp
  qed
  have "waiters_ok ?t"
    using ok g w p unfolding table_ok_def waiters_ok_def by auto
  then show ?thesis by (rule same_processes_ok[OF ok m cpus])
qed

lemma running_upd:
  fixes s t :: "'fs system"
  assumes ok: "table_ok s" and r: "st s p = RUNNING" and g: "state (g (ptable s p)) = RUNNING" "pid (g (ptable s p)) = pid (ptable s p)"
    "\<And>np. point (g (ptable s p)) = Forking np \<longleftrightarrow> point (ptable s p) = Forking np"
    "initproc s = Some p \<Longrightarrow> point (g (ptable s p)) = Exiting \<Longrightarrow> point (ptable s p) = Exiting"
    and t: "ptable t = (ptable s)(p := g (ptable s p))" "nextpid t = nextpid s" "initproc t = initproc s" "cpu_proc t = cpu_proc s"
      "\<And>i. links (wld t) i = links (wld s) i"
  shows "table_ok t"
proof -
  have m: "same_processes s t" using assms by (auto simp: same_processes_def same_kind_def)
  have "cpus_ok t" using ok r g t unfolding table_ok_def cpus_ok_def by auto
  moreover have "waiters_ok t" by (rule waiters_mono[OF _ m]) (use ok g t in \<open>auto simp: table_ok_def split: if_splits\<close>)
  ultimately show ?thesis by (rule same_processes_ok[OF ok m])
qed

subsection \<open>Waking and killing\<close>

lemma wakeup1_ok:
  assumes ok: "table_ok s"
  shows "table_ok (wakeup1 ch s)"
proof -
  have m: "same_processes s (wakeup1 ch s)" by (simp add: same_processes_def links_def same_kind_def wakeup1_ptable)
  have "cpus_ok (wakeup1 ch s)" using ok unfolding table_ok_def cpus_ok_def by (auto simp: wakeup1_ptable split: if_splits)
  moreover have "waiters_ok (wakeup1 ch s)"
    by (rule waiters_mono[OF _ m]) (use ok in \<open>auto simp: table_ok_def wakeup1_ptable split: if_splits\<close>)
  ultimately show ?thesis by (rule same_processes_ok[OF ok m])
qed

lemma kill_ok:
  assumes ok: "table_ok s"
  shows "table_ok (snd (kill n s))"
proof (cases "find (\<lambda>i. pid (ptable s i) = n) [0..<NPROC]")
  case None
  then show ?thesis using ok by (simp add: kill_def)
next
  case (Some i)
  let ?t = "snd (kill n s)"
  have t: "?t = upd i (\<lambda>p. p\<lparr>killed := True, state := (if state p = SLEEPING then RUNNABLE else state p)\<rparr>) s"
    using Some by (simp add: kill_def)
  have m: "same_processes s ?t" unfolding t by (simp add: same_processes_def links_def same_kind_def)
  have "cpus_ok ?t" using ok unfolding table_ok_def cpus_ok_def t by (auto split: if_splits)
  moreover have "waiters_ok ?t"
    by (rule waiters_mono[OF _ m]) (use ok in \<open>auto simp: table_ok_def t split: if_splits\<close>)
  ultimately show ?thesis by (rule same_processes_ok[OF ok m])
qed

subsection \<open>Waiting for children\<close>

lemma reap_effect:
  assumes "reap i s = Ret t"
  shows "ptable t = (ptable s)(i := (ptable s i)\<lparr>pid := 0, pname := '''', killed := False, state := UNUSED\<rparr>)"
    "nextpid t = nextpid s" "initproc t = initproc s" "cpu_proc t = cpu_proc s"
    "\<And>j. j \<noteq> i \<Longrightarrow> procs (wld t) j = procs (wld s) j" "parent_of t i = None"
  using assms by (auto simp: reap_def drop_stack_def)

text \<open>A dead process is nobody's parent, so its slot can go.\<close>

lemma reap_ok:
  assumes ok: "table_ok s" and i: "i < NPROC" and z: "st s i = ZOMBIE" and r: "reap i s = Ret t"
  shows "table_ok t"
proof (rule table_okI)
  note e = reap_effect[OF r]
  have stt: "st t j = (if j = i then UNUSED else st s j)" for j using e(1) by simp
  have par: "parent_of t j = (if j = i then None else parent_of s j)" for j using e(5,6) by simp
  note k = ok[unfolded table_ok_def]
  show "cpus_ok t" using k z e(1,4) unfolding cpus_ok_def by auto
  show "pids_ok t" using k e(1,2) unfolding pids_ok_def by auto
  show "family_ok t"
  proof -
    obtain q where q: "q < NPROC" "initproc s = Some q" "live (st s q)" "point (ptable s q) \<noteq> Exiting"
      and f: "\<And>j. j < NPROC \<Longrightarrow> j \<noteq> q \<Longrightarrow> st s j \<noteq> UNUSED \<Longrightarrow> st s j \<noteq> EMBRYO \<Longrightarrow> \<exists>r<NPROC. r \<noteq> j \<and> parent_of s j = Some r \<and> live (st s r)"
      using k unfolding family_ok_def by blast
    have "\<exists>r<NPROC. r \<noteq> j \<and> parent_of t j = Some r \<and> live (st t r)" if j: "j < NPROC" "j \<noteq> q \<and> st t j \<noteq> UNUSED \<and> st t j \<noteq> EMBRYO" for j
    proof -
      have "j \<noteq> i" using j stt by auto
      then obtain r where "r < NPROC" "r \<noteq> j" "parent_of s j = Some r" "live (st s r)" using f[of j] j stt by auto
      moreover have "r \<noteq> i" using calculation z by auto
      ultimately show ?thesis using \<open>j \<noteq> i\<close> par stt by auto
    qed
    moreover have "q \<noteq> i" using q z by auto
    ultimately show ?thesis using q e(1,3) stt unfolding family_ok_def by auto
  qed
  show "embryos_ok t"
  proof (rule embryosI)
    fix p np assume p: "p < NPROC" "live (st t p)" "point (ptable t p) = Forking np"
    then have ps: "live (st s p) \<and> point (ptable s p) = Forking np" using e(1) by (auto split: if_splits)
    show "np < NPROC \<and> st t np = EMBRYO" using embryosD(1,2)[OF _ p(1) ps] k z stt by auto
    fix q assume q: "q < NPROC" "live (st t q)" "point (ptable t q) = Forking np"
    then have "live (st s q) \<and> point (ptable s q) = Forking np" using e(1) by (auto split: if_splits)
    then show "q = p" using embryosD(3)[OF _ p(1) ps q(1)] k by blast
  next
    fix np assume "np < NPROC" "st t np = EMBRYO"
    then obtain p where "p < NPROC" "live (st s p)" "point (ptable s p) = Forking np" using embryosD(4)[of s np] k stt by (auto split: if_splits)
    moreover have "p \<noteq> i" using calculation z by auto
    ultimately show "\<exists>p<NPROC. live (st t p) \<and> point (ptable t p) = Forking np" using e(1) by (intro exI[of _ p]) simp
  qed
  show "waiters_ok t" using k e(1) stt par unfolding waiters_ok_def by auto
  show "stacks_ok t" using k e(1,5) stt unfolding stacks_ok_def by (auto split: if_splits)
qed

lemma wait_scan_cases:
  assumes "wait_scan is p hk s = Ret (r, hk', t)"
  obtains (none) "r = None" "t = s" "\<And>i. i \<in> set is \<Longrightarrow> parent_of s i = Some p \<Longrightarrow> st s i \<noteq> ZOMBIE"
      "hk' \<longleftrightarrow> hk \<or> (\<exists>i\<in>set is. parent_of s i = Some p)"
    | (some) i where "i \<in> set is" "parent_of s i = Some p" "st s i = ZOMBIE" "r = Some (pid (ptable s i))" "reap i s = Ret t"
  using assms
proof (induction "is" p hk s rule: wait_scan.induct)
  case (2 i "is" p hk s)
  show ?case
  proof (cases "parent_of s i \<noteq> Some p")
    case True
    then have w: "wait_scan is p hk s = Ret (r, hk', t)" using "2.prems"(3) by simp
    show ?thesis
    proof (rule "2.IH"(1)[OF True _ _ w])
      assume a: "r = None" "t = s" "\<And>i. i \<in> set is \<Longrightarrow> parent_of s i = Some p \<Longrightarrow> st s i \<noteq> ZOMBIE"
        "hk' \<longleftrightarrow> hk \<or> (\<exists>i\<in>set is. parent_of s i = Some p)"
      show thesis by (rule "2.prems"(1)) (use a True in auto)
    next
      fix j assume "j \<in> set is" "parent_of s j = Some p" "st s j = ZOMBIE" "r = Some (pid (ptable s j))" "reap j s = Ret t"
      then show thesis by (intro "2.prems"(2)[of j]) auto
    qed
  next
    case False
    show ?thesis
    proof (cases "st s i = ZOMBIE")
      case True
      then show ?thesis using False "2.prems"(3) by (intro "2.prems"(2)[of i]) auto
    next
      case nz: False
      then have w: "wait_scan is p True s = Ret (r, hk', t)" using False "2.prems"(3) by simp
      show ?thesis
      proof (rule "2.IH"(2)[OF _ nz _ _ w])
        show "\<not> parent_of s i \<noteq> Some p" by (fact False)
      next
        assume a: "r = None" "t = s" "\<And>i. i \<in> set is \<Longrightarrow> parent_of s i = Some p \<Longrightarrow> st s i \<noteq> ZOMBIE"
          "hk' \<longleftrightarrow> True \<or> (\<exists>i\<in>set is. parent_of s i = Some p)"
        show thesis by (rule "2.prems"(1)) (use a False nz in auto)
      next
        fix j assume "j \<in> set is" "parent_of s j = Some p" "st s j = ZOMBIE" "r = Some (pid (ptable s j))" "reap j s = Ret t"
        then show thesis by (intro "2.prems"(2)[of j]) auto
      qed
    qed
  qed
qed auto

text \<open>A round of \<open>wait\<close>, by the process that runs on processor \<open>c\<close>.\<close>

lemma wait_round_ok:
  assumes ok: "table_ok s" and c: "cpu_proc s c = Some p" and w: "wait_round p s = Ret (r, t)"
  shows "case r of
      Some n \<Rightarrow> table_ok t \<and> cpu_proc t = cpu_proc s
    | None \<Rightarrow> table_ok (on_cpu c None t) \<and> st t p = SLEEPING"
proof -
  obtain r0 hk t0 where ws: "wait_scan [0..<NPROC] p False s = Ret (r0, hk, t0)"
    and rest: "(case r0 of Some n \<Rightarrow> Ret (Some n, t0) | None \<Rightarrow>
        if \<not> hk \<or> killed (ptable t0 p) then Ret (Some (- 1), t0)
        else Ret (None, upd p (\<lambda>q. q\<lparr>chan := Some (Proc_at p), state := SLEEPING, ctx := In_wait\<rparr>) t0)) = Ret (r, t)"
    using w by (auto simp: wait_round_def obind_eq_Ret_iff)
  show ?thesis
  proof (rule wait_scan_cases[OF ws])
    fix i assume i: "i \<in> set [0..<NPROC]" "st s i = ZOMBIE" "r0 = Some (pid (ptable s i))" "reap i s = Ret t0"
    have "table_ok t0" by (rule reap_ok[OF ok _ i(2,4)]) (use i(1) in simp)
    then show ?thesis using rest i(3) reap_effect(4)[OF i(4)] by auto
  next
    assume n: "r0 = None" "t0 = s" "\<And>i. i \<in> set [0..<NPROC] \<Longrightarrow> parent_of s i = Some p \<Longrightarrow> st s i \<noteq> ZOMBIE"
    show ?thesis
    proof (cases "\<not> hk \<or> killed (ptable s p)")
      case True
      then show ?thesis using rest n ok by auto
    next
      case False
      have "table_ok (on_cpu c None (upd p (\<lambda>q. q\<lparr>chan := Some (Proc_at p), state := SLEEPING, ctx := In_wait\<rparr>) s))"
        by (rule stop_running[OF ok c]) (use n(3) False in auto)
      then show ?thesis using rest n(1,2) False by auto
    qed
  qed
qed

end
