(* ===== verification/Proc_Family.thy ===== *)
theory Proc_Family
  imports Proc_Table
begin

text \<open>
  Creation and exit of processes keep the invariant of the process table.
\<close>

subsection \<open>The mapping operations keep the links of every process\<close>

lemma links_set_proc:
  "links (set_proc j q w) i = (if i = j then (parent q, kstack q, pgdir q) else links w i)"
  by (simp add: links_def set_proc_def)

lemma links_procs: "procs w' = procs w \<Longrightarrow> links w' i = links w i"
  by (simp add: links_def)

lemma region_links [simp]:
  "parent (set_region j r p) = parent p" "kstack (set_region j r p) = kstack p" "pgdir (set_region j r p) = pgdir p"
  "parent (upd_region j g p) = parent p" "kstack (upd_region j g p) = kstack p" "pgdir (upd_region j g p) = pgdir p"
  "parent (init_one_mmap j p) = parent p" "kstack (init_one_mmap j p) = kstack p" "pgdir (init_one_mmap j p) = pgdir p"
  by (simp_all add: set_region_def upd_region_def init_one_mmap_def)

lemma fold_init_links:
  "parent (fold init_one_mmap l p) = parent p \<and> kstack (fold init_one_mmap l p) = kstack p \<and> pgdir (fold init_one_mmap l p) = pgdir p"
  by (induction l arbitrary: p) simp_all

lemma init_mmaps_links [simp]:
  "parent (init_mmaps p) = parent p" "kstack (init_mmaps p) = kstack p" "pgdir (init_mmaps p) = pgdir p"
  using fold_init_links by (simp_all add: init_mmaps_def)

lemma unmap_pages_procs: "unmap_pages io d b wb fr va e w = Ret (c, w') \<Longrightarrow> procs w' = procs w"
  by (auto simp: unmap_pages_def)

lemma fileclose_procs: "fileclose io f w = Ret w' \<Longrightarrow> procs w' = procs w"
  by (auto simp: fileclose_def Let_def split: if_splits)

lemma fileclose_opt_procs: "fileclose_opt io f w = Ret w' \<Longrightarrow> procs w' = procs w"
  by (auto simp: fileclose_opt_def fileclose_procs split: option.splits)

lemma filedup_procs: "filedup f w = Ret w' \<Longrightarrow> procs w' = procs w"
  by (auto simp: filedup_def split: if_splits)

lemma parent_deref_links:
  "parent_deref fuel a h p = Ret q \<Longrightarrow> parent q = parent p \<and> kstack q = kstack p \<and> pgdir q = pgdir p"
  by (induction fuel a h p rule: parent_deref.induct) (auto split: if_splits)

text \<open>The rest of a round of \<open>copy_maps\<close>, after the pages of region \<open>r\<close> are copied.\<close>

definition copied_region :: "nat \<Rightarrow> nat \<Rightarrow> nat \<Rightarrow> nat option \<Rightarrow> nat \<Rightarrow> 'fs world \<Rightarrow> 'fs world \<Rightarrow> mmap_region \<Rightarrow> int option \<times> kernel \<Rightarrow> (int \<times> 'fs world) outcome" where
  "copied_region fuel ppid cpid child_prev c w w1 r = (\<lambda>(n, k1).
     case n of
       None \<Rightarrow> Ret (FAILED, set_proc cpid (set_region c (r\<lparr>mm_refcnt := 0, mm_n_loaded := 0, mm_next := None\<rparr>) (procs w cpid)) (w1\<lparr>kern := k1\<rparr>))
     | Some cnt \<Rightarrow>
         let r2 = r\<lparr>mm_refcnt := 0, mm_n_loaded := 0, mm_next := None\<rparr>\<lparr>mm_n_loaded := cnt, mm_refcnt := (if mm_flags r AND MAP_SHARED \<noteq> 0 then 1 else 0)\<rparr>;
             c1 = set_region c r2 (procs w cpid);
             c2 = (if mmap_head c1 = None then c1\<lparr>mmap_head := Some c\<rparr>
                   else upd_region (the child_prev) (\<lambda>q. q\<lparr>mm_next := Some c\<rparr>) c1);
             c3 = c2\<lparr>total_mmaps := total_mmaps c2 + 1\<rparr>
         in copy_maps_loop fuel ppid cpid (Some c) (mm_next r) (set_proc cpid c3 (w1\<lparr>kern := k1\<rparr>)))"

lemma copy_maps_loop_round:
  "copy_maps_loop (Suc fuel) ppid cpid prev (Some j) w =
     (case find_unused_mmap (procs w cpid) of
        None \<Rightarrow> Ret (FAILED, w)
      | Some c \<Rightarrow> obind (filedup_opt (mm_f (mmaps (procs w ppid) ! j)) w) (\<lambda>w1.
          obind ((if mm_flags (mmaps (procs w ppid) ! j) AND MAP_SHARED \<noteq> 0 then share_pages else copy_pages)
             (unat (mm_end (mmaps (procs w ppid) ! j) - mm_addr (mmaps (procs w ppid) ! j)) div 4096 + 2) (pgdir (procs w ppid)) (pgdir (procs w cpid))
             (mm_addr (mmaps (procs w ppid) ! j)) (mm_end (mmaps (procs w ppid) ! j)) 0 (kern w1))
            (copied_region fuel ppid cpid prev c w w1 (mmaps (procs w ppid) ! j))))"
  unfolding copied_region_def copy_maps_loop.simps Let_def ..

lemma copy_maps_loop_links:
  assumes "copy_maps_loop fuel ppid cpid prev h w = Ret (res, w')"
  shows "links w' i = links w i"
  using assms
proof (induction fuel arbitrary: prev h w)
  case 0
  then show ?case by (cases h) auto
next
  case (Suc fuel)
  show ?case
  proof (cases h)
    case h: (Some j)
    show ?thesis
    proof (cases "find_unused_mmap (procs w cpid)")
      case None
      then show ?thesis using Suc.prems h by simp
    next
      case (Some c)
      let ?r = "mmaps (procs w ppid) ! j"
      from Suc.prems h Some obtain w1 n k1 where w1: "filedup_opt (mm_f ?r) w = Ret w1"
        and n: "copied_region fuel ppid cpid prev c w w1 ?r (n, k1) = Ret (res, w')"
        by (auto simp add: copy_maps_loop_round obind_eq_Ret_iff simp del: copy_maps_loop.simps)
      have e: "links (set_proc cpid q (w1\<lparr>kern := k1\<rparr>)) i = links w i"
        if "parent q = parent (procs w cpid)" "kstack q = kstack (procs w cpid)" "pgdir q = pgdir (procs w cpid)" for q
        using that filedup_opt_procs[OF w1] by (simp add: links_set_proc) (simp add: links_def)
      show ?thesis
      proof (cases n)
        case None
        then show ?thesis using n by (auto simp: copied_region_def intro!: e)
      next
        case (Some cnt)
        then show ?thesis using n by (auto simp: copied_region_def Let_def e intro!: trans[OF Suc.IH] split: if_splits)
      qed
    qed
  qed (use Suc.prems in simp)
qed

lemma copy_maps_links: "copy_maps ppid cpid w = Ret (res, w') \<Longrightarrow> links w' i = links w i"
  unfolding copy_maps_def by (rule copy_maps_loop_links)

lemma delete_loop_links:
  assumes "delete_loop fuel io p h w = Ret w'"
  shows "links w' i = links w i"
  using assms
proof (induction fuel arbitrary: h w)
  case 0
  then show ?case by (cases h) auto
next
  case (Suc fuel)
  show ?case
  proof (cases h)
    case (Some j)
    let ?p = "procs w p" and ?r = "mmaps (procs w p) ! j"
    from Suc.prems Some obtain c w1 w2 w3 where
      1: "unmap_pages io (pgdir ?p) (mm_addr ?r) (if mm_refcnt ?r = 0 then wb_file ?r else None) (mm_refcnt ?r = 0) (mm_addr ?r) (mm_end ?r) w = Ret (c, w1)"
      and 2: "(if mm_flags ?r AND MAP_SHARED \<noteq> 0 \<and> mm_refcnt ?r = 1 \<and> parent ?p \<noteq> None
               then obind (parent_deref (Suc MAX_NMMAP) (mm_addr ?r) (mmap_head (procs w1 (the (parent ?p)))) (procs w1 (the (parent ?p))))
                       (\<lambda>q. Ret (set_proc (the (parent ?p)) q w1)) else Ret w1) = Ret w2"
      and 3: "(if mm_refcnt ?r = 0 then fileclose_opt io (mm_f ?r) w2 else Ret w2) = Ret w3"
      and 4: "delete_loop fuel io p (mm_next ?r) (set_proc p (init_one_mmap j (procs w3 p)) w3) = Ret w'"
      by (auto simp: Let_def obind_eq_Ret_iff simp del: mm_end_def)
    have a: "links w1 i = links w i" using unmap_pages_procs[OF 1] by (rule links_procs)
    have b: "links w2 i = links w1 i"
      using 2 parent_deref_links by (fastforce simp: set_proc_def links_def split: if_splits)
    have "procs w3 = procs w2" using 3 fileclose_opt_procs by (auto split: if_splits)
    then have c: "links (set_proc p (init_one_mmap j (procs w3 p)) w3) i = links w2 i" by (simp add: links_set_proc) (simp add: links_def)
    show ?thesis using Suc.IH[OF 4] a b c by simp
  qed (use Suc.prems in simp)
qed

lemma delete_mmaps_links: "delete_mmaps io p w = Ret (res, w') \<Longrightarrow> links w' i = links w i"
  using delete_loop_links by (fastforce simp: delete_mmaps_def obind_eq_Ret_iff links_def set_proc_def)

subsection \<open>Fork\<close>

lemma find_upt_Some: "find P [0..<n] = Some i \<Longrightarrow> i < n \<and> P i"
  by (auto simp: find_Some_iff)

lemma fork_start_ok:
  assumes ok: "table_ok s" and p: "p < NPROC" "st s p = RUNNING" and o: "point (ptable s p) = Outside"
  shows "table_ok (fork_start p s)"
proof (cases "find (\<lambda>i. st s i = UNUSED) [0..<NPROC]")
  case None
  then show ?thesis using ok by (simp add: fork_start_def take_slot_def)
next
  case (Some n)
  let ?t = "fork_start p s"
  have n: "n < NPROC" "st s n = UNUSED" using find_upt_Some[OF Some] by auto
  then have np: "n \<noteq> p" using p by auto
  have t: "ptable ?t = (ptable s)(n := (ptable s n)\<lparr>state := EMBRYO, pid := nextpid s\<rparr>, p := (ptable s p)\<lparr>point := Forking n\<rparr>)"
    "nextpid ?t = nextpid s + 1" "initproc ?t = initproc s" "cpu_proc ?t = cpu_proc s" "wld ?t = wld s"
    using Some np by (auto simp: fork_start_def take_slot_def set_point_def upd_def)
  have stt: "st ?t i = (if i = n then EMBRYO else st s i)" for i using t(1) np by simp
  have ptt: "point (ptable ?t i) = (if i = p then Forking n else point (ptable s i))" for i using t(1) np by simp
  note k = ok[unfolded table_ok_def]
  show ?thesis
  proof (rule table_okI)
    show "cpus_ok ?t" using k n(2) unfolding cpus_ok_def stt t(4) by auto
    show "pids_ok ?t" using k n p np unfolding pids_ok_def t by auto
    obtain q where q: "q < NPROC" "initproc s = Some q" "live (st s q)" "point (ptable s q) \<noteq> Exiting"
      and f: "\<And>j. j < NPROC \<Longrightarrow> j \<noteq> q \<Longrightarrow> st s j \<noteq> UNUSED \<Longrightarrow> st s j \<noteq> EMBRYO \<Longrightarrow> \<exists>r<NPROC. r \<noteq> j \<and> parent_of s j = Some r \<and> live (st s r)"
      using k unfolding family_ok_def by blast
    have "\<exists>r<NPROC. r \<noteq> j \<and> parent_of s j = Some r \<and> live (st ?t r)" if j: "j < NPROC" "j \<noteq> q" "st ?t j \<noteq> UNUSED" "st ?t j \<noteq> EMBRYO" for j
    proof -
      obtain r where "r < NPROC" "r \<noteq> j" "parent_of s j = Some r" "live (st s r)" using f[of j] j stt[of j] n by (cases "j = n") auto
      then show ?thesis using n stt by (intro exI[of _ r]) auto
    qed
    then show "family_ok ?t" unfolding family_ok_def t(3,5) using q n by (intro exI[of _ q]) (auto simp: stt ptt)
    show "embryos_ok ?t"
    proof (rule embryosI)
      fix a b assume a: "a < NPROC" "live (st ?t a)" "point (ptable ?t a) = Forking b"
      then have la: "live (st s a)" "a \<noteq> n" using stt by (auto split: if_splits)
      have old: "b < NPROC \<and> st s b = EMBRYO" if "a \<noteq> p" using embryosD(1,2)[of s a b] k a la that ptt by auto
      show "b < NPROC \<and> st ?t b = EMBRYO" using old a(3) n ptt[of a] stt[of b] by (cases "a = p") auto
      fix d assume d: "d < NPROC" "live (st ?t d)" "point (ptable ?t d) = Forking b"
      then have ld: "live (st s d)" "d \<noteq> n" using stt by (auto split: if_splits)
      have old': "b < NPROC \<and> st s b = EMBRYO" if "d \<noteq> p" using embryosD(1,2)[of s d b] k d ld that ptt by auto
      show "d = a"
      proof (cases "a = p \<or> d = p")
        case True
        then show ?thesis using old old' a d ptt n(2) by (auto split: if_splits)
      next
        case False
        then show ?thesis using embryosD(3)[of s a b d] k a d la ld ptt by auto
      qed
    next
      fix b assume b: "b < NPROC" "st ?t b = EMBRYO"
      show "\<exists>a<NPROC. live (st ?t a) \<and> point (ptable ?t a) = Forking b"
      proof (cases "b = n")
        case True
        then show ?thesis using p np stt ptt by (intro exI[of _ p]) auto
      next
        case False
        then obtain a where a: "a < NPROC" "live (st s a)" "point (ptable s a) = Forking b" using embryosD(4)[of s b] k b stt by auto
        then have "a \<noteq> p" "a \<noteq> n" using o n by auto
        then show ?thesis using a stt ptt by (intro exI[of _ a]) auto
      qed
    qed
    show "waiters_ok ?t" using k n p np unfolding waiters_ok_def t(1,5) by auto
    show "stacks_ok ?t" using k unfolding stacks_ok_def t(5) stt by auto
  qed
qed

lemma dup_files_effect:
  assumes "dup_files is p np s = Ret t" and "p \<noteq> np"
  shows "\<exists>fs. ptable t = (ptable s)(np := (ptable s np)\<lparr>ofile := fs\<rparr>)" "procs (wld t) = procs (wld s)"
    "nextpid t = nextpid s" "initproc t = initproc s" "cpu_proc t = cpu_proc s"
proof -
  have "(\<exists>fs. ptable t = (ptable s)(np := (ptable s np)\<lparr>ofile := fs\<rparr>)) \<and> procs (wld t) = procs (wld s) \<and>
      nextpid t = nextpid s \<and> initproc t = initproc s \<and> cpu_proc t = cpu_proc s"
    using assms
  proof (induction "is" p np s rule: dup_files.induct)
    case (1 p np s)
    have "ptable s = (ptable s)(np := (ptable s np)\<lparr>ofile := ofile (ptable s np)\<rparr>)" by simp
    then show ?case using 1 by (auto intro!: exI[of _ "ofile (ptable s np)"])
  next
    case (2 i "is" p np s)
    show ?case
    proof (cases "ofile (ptable s p) ! i")
      case None
      then show ?thesis using 2 by simp
    next
      case (Some f)
      then obtain w1 where w1: "filedup f (wld s) = Ret w1"
        and r: "dup_files is p np (upd np (\<lambda>q. q\<lparr>ofile := (ofile q)[i := Some f]\<rparr>) (s\<lparr>wld := w1\<rparr>)) = Ret t"
        using "2.prems"(1) by auto
      note ih = "2.IH"(2)[OF Some w1 r "2.prems"(2)]
      then obtain fs where "ptable t = (ptable s)(np := (ptable s np)\<lparr>ofile := fs\<rparr>)" by (auto simp: fun_eq_iff)
      then show ?thesis using ih filedup_procs[OF w1] by simp blast
    qed
  qed
  then show "\<exists>fs. ptable t = (ptable s)(np := (ptable s np)\<lparr>ofile := fs\<rparr>)" "procs (wld t) = procs (wld s)"
    "nextpid t = nextpid s" "initproc t = initproc s" "cpu_proc t = cpu_proc s" by auto
qed

text \<open>
  What \<open>fork_copy\<close> may change: the slot \<open>np\<close> being filled, except for its process number and whether it is killed, and the
  point of the caller \<open>p\<close>.
\<close>

definition only_slot :: "nat \<Rightarrow> nat \<Rightarrow> 'fs system \<Rightarrow> 'fs system \<Rightarrow> bool" where
  "only_slot p np s t \<longleftrightarrow>
     nextpid t = nextpid s \<and> initproc t = initproc s \<and> cpu_proc t = cpu_proc s \<and> pid (ptable t np) = pid (ptable s np) \<and> killed (ptable t np) = killed (ptable s np) \<and>
     (\<forall>i. i \<noteq> np \<longrightarrow> ptable t i = (if i = p then (ptable s p)\<lparr>point := Outside\<rparr> else ptable s i) \<and> links (wld t) i = links (wld s) i)"

lemma only_slot_step:
  assumes "only_slot p np s t" and "nextpid u = nextpid t" "initproc u = initproc t" "cpu_proc u = cpu_proc t"
    "pid (ptable u np) = pid (ptable t np)" "killed (ptable u np) = killed (ptable t np)" "\<And>i. i \<noteq> np \<Longrightarrow> ptable u i = ptable t i" "\<And>i. i \<noteq> np \<Longrightarrow> links (wld u) i = links (wld t) i"
  shows "only_slot p np s u"
  using assms by (simp add: only_slot_def)

lemma drop_stack_effect:
  assumes "drop_stack np s = Ret t"
  shows "ptable t = ptable s" "nextpid t = nextpid s" "initproc t = initproc s" "cpu_proc t = cpu_proc s"
    "\<And>i. i \<noteq> np \<Longrightarrow> links (wld t) i = links (wld s) i"
  using assms by (auto simp: drop_stack_def links_def)

lemma give_stack_effect:
  assumes "give_stack np (set_point p Outside s) = (b, t)" and "p \<noteq> np"
  shows "only_slot p np s t" and "b \<Longrightarrow> kstack (procs (wld t) np) \<noteq> 0 \<and> point (ptable t np) = Outside" and "\<not> b \<Longrightarrow> st t np = UNUSED"
proof -
  obtain ks k1 where k: "kalloc (kern (wld s)) = (ks, k1)" by (metis surj_pair)
  have k': "kalloc (kern (wld (set_point p Outside s))) = (ks, k1)" using k by (simp add: set_point_def)
  note a = assms(1)[unfolded give_stack_def k' Let_def prod.case]
  show "only_slot p np s t" using a assms(2) by (auto simp: only_slot_def set_point_def set_state_def links_def split: if_splits)
  show "kstack (procs (wld t) np) \<noteq> 0 \<and> point (ptable t np) = Outside" if "b" using a that by (auto simp: set_point_def split: if_splits)
  show "st t np = UNUSED" if "\<not> b" using a that by (auto simp: set_point_def set_state_def split: if_splits)
qed

lemma fork_maps_effect:
  assumes f: "fork_maps dio p np s = Ret (r, t)" and pn: "p \<noteq> np" and o: "only_slot p np s0 s"
  shows "only_slot p np s0 t \<and> (st t np = UNUSED \<or> st t np = RUNNABLE \<and> point (ptable t np) = point (ptable s np) \<and> links (wld t) np = links (wld s) np)"
proof -
  from f obtain dir r2 w2 where dir: "cwd (ptable s p) = Some dir"
    and c: "copy_maps p np ((wld s)\<lparr>fsys := idup_op dio (fsys (wld s)) dir\<rparr>) = Ret (r2, w2)"
    and rest: "(let s2 = (upd np (\<lambda>q. q\<lparr>cwd := Some dir, pname := pname (ptable s p)\<rparr>) (s\<lparr>wld := (wld s)\<lparr>fsys := idup_op dio (fsys (wld s)) dir\<rparr>\<rparr>))\<lparr>wld := w2\<rparr> in
               if r2 < 0
               then obind (drop_stack np s2) (\<lambda>s3.
                    obind (freevm (pgdir (procs (wld s3) np)) (kern (wld s3))) (\<lambda>k4.
                      Ret (- 1, set_state np UNUSED (set_kern k4 s3))))
               else Ret (pid (ptable s2 np), set_state np RUNNABLE s2)) = Ret (r, t)"
    by (auto simp: fork_maps_def Let_def obind_eq_Ret_iff split: option.splits)
  let ?s2 = "(upd np (\<lambda>q. q\<lparr>cwd := Some dir, pname := pname (ptable s p)\<rparr>) (s\<lparr>wld := (wld s)\<lparr>fsys := idup_op dio (fsys (wld s)) dir\<rparr>\<rparr>))\<lparr>wld := w2\<rparr>"
  have l: "links w2 i = links (wld s) i" for i using copy_maps_links[OF c, of i] by (simp add: links_def)
  have o2: "only_slot p np s0 ?s2" by (rule only_slot_step[OF o]) (simp_all add: l)
  show ?thesis
  proof (cases "r2 < 0")
    case False
    then have t: "t = set_state np RUNNABLE ?s2" using rest by (simp add: Let_def)
    have "only_slot p np s0 t" by (rule only_slot_step[OF o2]) (simp_all add: t set_state_def)
    then show ?thesis by (simp add: t set_state_def l)
  next
    case True
    then obtain s3 k4 where d: "drop_stack np ?s2 = Ret s3" and t: "t = set_state np UNUSED (set_kern k4 s3)"
      using rest by (auto simp: Let_def)
    have "only_slot p np s0 t"
      by (rule only_slot_step[OF o2]) (use drop_stack_effect[OF d] in \<open>simp_all add: t set_state_def links_def\<close>)
    then show ?thesis by (simp add: t set_state_def)
  qed
qed

lemma fork_fill_effect:
  assumes f: "fork_fill dio p np s = Ret (r, t)" and pn: "p \<noteq> np" and o: "only_slot p np s0 s"
    and n: "kstack (procs (wld s) np) \<noteq> 0" "pgdir (procs (wld s) np) \<noteq> 0" "point (ptable s np) = Outside"
  shows "only_slot p np s0 t \<and> (st t np = UNUSED \<or> (st t np = RUNNABLE \<and> point (ptable t np) = Outside \<and> parent_of t np = Some p \<and>
           kstack (procs (wld t) np) \<noteq> 0 \<and> pgdir (procs (wld t) np) \<noteq> 0))"
proof -
  let ?s1 = "updp np (\<lambda>q. q\<lparr>parent := Some p\<rparr>)
     (upd np (\<lambda>q. q\<lparr>sz := sz (ptable s p), tf := (tf (ptable s p))(Eax := 0)\<rparr>) s)"
  obtain s2 where d: "dup_files [0..<NOFILE] p np ?s1 = Ret s2" and m: "fork_maps dio p np s2 = Ret (r, t)"
    using f unfolding fork_fill_def Let_def by (rule obind_RetE)
  note e = dup_files_effect[OF d pn]
  obtain fs where fs: "ptable s2 = (ptable ?s1)(np := (ptable ?s1 np)\<lparr>ofile := fs\<rparr>)" using e(1) ..
  have "only_slot p np s0 s2"
    by (rule only_slot_step[OF o]) (use e(2-5) fs in \<open>simp_all add: links_def\<close>)
  from fork_maps_effect[OF m pn this] show ?thesis using n e(2) fs by (auto simp: links_def)
qed

lemma fork_copy_effect:
  assumes f: "fork_copy data dio p np s = Ret (r, t)" and pn: "p \<noteq> np"
  shows "only_slot p np s t \<and> (st t np = UNUSED \<or> (st t np = RUNNABLE \<and> point (ptable t np) = Outside \<and> parent_of t np = Some p \<and>
           kstack (procs (wld t) np) \<noteq> 0 \<and> pgdir (procs (wld t) np) \<noteq> 0))"
proof -
  obtain b s1 where g: "give_stack np (set_point p Outside s) = (b, s1)" by (metis surj_pair)
  note g1 = give_stack_effect[OF g pn]
  show ?thesis
  proof (cases b)
    case False
    then show ?thesis using f g g1 by (simp add: fork_copy_def)
  next
    case True
    let ?s2 = "\<lambda>d k. updp np (\<lambda>q. q\<lparr>pgdir := d\<rparr>) (set_kern k s1)"
    from f True g obtain d k1 where
      rest: "(if d = 0 then obind (drop_stack np (?s2 d k1)) (\<lambda>s3. Ret (- 1, set_state np UNUSED s3)) else fork_fill dio p np (?s2 d k1)) = Ret (r, t)"
      by (auto simp: fork_copy_def Let_def)
    have o2: "only_slot p np s (?s2 d k1)" by (rule only_slot_step[OF g1(1)]) (simp_all add: links_def)
    show ?thesis
    proof (cases "d = 0")
      case True
      then obtain s3 where d: "drop_stack np (?s2 d k1) = Ret s3" and t: "t = set_state np UNUSED s3" using rest by auto
      have "only_slot p np s t"
        by (rule only_slot_step[OF o2]) (use drop_stack_effect[OF d] in \<open>simp_all add: t set_state_def links_def\<close>)
      then show ?thesis by (simp add: t set_state_def)
    next
      case False
      then have "fork_fill dio p np (?s2 d k1) = Ret (r, t)" using rest by simp
      then show ?thesis by (rule fork_fill_effect[OF _ pn o2]) (use g1(2)[OF \<open>b\<close>] False in simp_all)
    qed
  qed
qed

text \<open>The slot \<open>np\<close> that the running process \<open>p\<close> was filling is now a new process or free again.\<close>

definition slot_filled :: "nat \<Rightarrow> nat \<Rightarrow> 'fs system \<Rightarrow> 'fs system \<Rightarrow> bool" where
  "slot_filled p np s t \<longleftrightarrow>
     p < NPROC \<and> st s p = RUNNING \<and> point (ptable s p) = Forking np \<and> np < NPROC \<and> st s np = EMBRYO \<and> p \<noteq> np \<and>
     (\<forall>q<NPROC. live (st s q) \<and> point (ptable s q) = Forking np \<longrightarrow> q = p) \<and> only_slot p np s t \<and>
     (st t np = UNUSED \<or> (st t np = RUNNABLE \<and> point (ptable t np) = Outside \<and> parent_of t np = Some p \<and>
           kstack (procs (wld t) np) \<noteq> 0 \<and> pgdir (procs (wld t) np) \<noteq> 0))"

lemma slot_filledD:
  assumes "slot_filled p np s t"
  shows "p < NPROC" "st s p = RUNNING" "point (ptable s p) = Forking np" "np < NPROC" "st s np = EMBRYO" "p \<noteq> np"
    and "q < NPROC \<Longrightarrow> live (st s q) \<Longrightarrow> point (ptable s q) = Forking np \<Longrightarrow> q = p"
    and "nextpid t = nextpid s" "initproc t = initproc s" "cpu_proc t = cpu_proc s" "pid (ptable t i) = pid (ptable s i)"
    and "i \<noteq> np \<Longrightarrow> ptable t i = (if i = p then (ptable s p)\<lparr>point := Outside\<rparr> else ptable s i)"
    and "i \<noteq> np \<Longrightarrow> parent_of t i = parent_of s i \<and> kstack (procs (wld t) i) = kstack (procs (wld s) i) \<and> pgdir (procs (wld t) i) = pgdir (procs (wld s) i)"
    and "i \<noteq> np \<Longrightarrow> st t i = st s i"
    and "st t np = UNUSED \<or> (st t np = RUNNABLE \<and> point (ptable t np) = Outside \<and> parent_of t np = Some p \<and>
           kstack (procs (wld t) np) \<noteq> 0 \<and> pgdir (procs (wld t) np) \<noteq> 0)"
proof -
  note a = assms[unfolded slot_filled_def]
  have o: "only_slot p np s t" using a by blast
  show "i \<noteq> np \<Longrightarrow> ptable t i = (if i = p then (ptable s p)\<lparr>point := Outside\<rparr> else ptable s i)" for i using o unfolding only_slot_def by blast
  then show "i \<noteq> np \<Longrightarrow> st t i = st s i" by simp
  show "pid (ptable t i) = pid (ptable s i)" using o unfolding only_slot_def by (cases "i = np") auto
  show "i \<noteq> np \<Longrightarrow> parent_of t i = parent_of s i \<and> kstack (procs (wld t) i) = kstack (procs (wld s) i) \<and> pgdir (procs (wld t) i) = pgdir (procs (wld s) i)"
    using o unfolding only_slot_def by (intro links_eq) blast
  show "nextpid t = nextpid s" "initproc t = initproc s" "cpu_proc t = cpu_proc s" using o unfolding only_slot_def by blast+
qed (use assms slot_filled_def in \<open>blast+\<close>)

lemma filled_cpus:
  assumes f: "slot_filled p np s t" and k: "cpus_ok s"
  shows "cpus_ok t"
  unfolding cpus_ok_def slot_filledD(10)[OF f]
proof (intro conjI allI impI)
  note d = slot_filledD[OF f]
  fix c q assume c: "cpu_proc s c = Some q"
  then have q: "q < NPROC" "st s q = RUNNING" using k unfolding cpus_ok_def by blast+
  then show "q < NPROC" "st t q = RUNNING" using d(5) d(14)[of q] by (simp, cases "q = np") auto
  fix e assume "cpu_proc s e = Some q"
  then show "e = c" using k c unfolding cpus_ok_def by blast
next
  fix q assume "q < NPROC" "st t q = RUNNING"
  then show "\<exists>c. cpu_proc s c = Some q" using k slot_filledD(14,15)[OF f] unfolding cpus_ok_def by (cases "q = np") auto
qed

lemma filled_pids:
  assumes f: "slot_filled p np s t" and k: "pids_ok s"
  shows "pids_ok t"
proof -
  have "st t i \<noteq> UNUSED \<Longrightarrow> st s i \<noteq> UNUSED" for i using slot_filledD(5)[OF f] slot_filledD(14)[OF f, of i] by (cases "i = np") auto
  then show ?thesis using k unfolding pids_ok_def slot_filledD(8,11)[OF f] by blast
qed

lemma filled_family:
  assumes f: "slot_filled p np s t" and k: "family_ok s"
  shows "family_ok t"
proof -
  note d = slot_filledD[OF f]
  obtain q where q: "q < NPROC" "initproc s = Some q" "live (st s q)" "point (ptable s q) \<noteq> Exiting"
    and par: "\<And>j. j < NPROC \<Longrightarrow> j \<noteq> q \<Longrightarrow> st s j \<noteq> UNUSED \<Longrightarrow> st s j \<noteq> EMBRYO \<Longrightarrow> \<exists>r<NPROC. r \<noteq> j \<and> parent_of s j = Some r \<and> live (st s r)"
    using k unfolding family_ok_def by blast
  have "\<exists>r<NPROC. r \<noteq> j \<and> parent_of t j = Some r \<and> live (st t r)" if j: "j < NPROC" "j \<noteq> q" "st t j \<noteq> UNUSED" "st t j \<noteq> EMBRYO" for j
  proof (cases "j = np")
    case True
    then show ?thesis using d(15) j d(1,2,6) d(14)[OF d(6)] by (intro exI[of _ p]) auto
  next
    case False
    then obtain r where "r < NPROC" "r \<noteq> j" "parent_of s j = Some r" "live (st s r)" using par[of j] j d(14)[of j] by auto
    moreover have "r \<noteq> np" using calculation d(5) by auto
    ultimately show ?thesis using d(13)[OF False] d(14)[of r] by (intro exI[of _ r]) auto
  qed
  moreover have qn: "q \<noteq> np" using q d(5) by auto
  ultimately show "family_ok t" unfolding family_ok_def d(9) using q d(14)[OF qn] d(12)[OF qn] by (intro exI[of _ q]) auto
qed

lemma filled_embryos:
  assumes f: "slot_filled p np s t" and e: "embryos_ok s"
  shows "embryos_ok t"
proof (rule embryosI)
  note d = slot_filledD[OF f]
  have old: "a \<noteq> p \<and> a \<noteq> np \<and> live (st s a) \<and> point (ptable s a) = Forking b" if "live (st t a)" "point (ptable t a) = Forking b" for a b
  proof -
    have n: "a \<noteq> np" using that d(15) by auto
    then show ?thesis using that d(12)[OF n] by (cases "a = p") auto
  qed
  fix a b assume a: "a < NPROC" "live (st t a)" "point (ptable t a) = Forking b"
  note oa = old[OF a(2,3)]
  have b: "b < NPROC" "st s b = EMBRYO" using embryosD(1,2)[OF e a(1), of b] oa by blast+
  have "b \<noteq> np" using d(7)[OF a(1)] oa by blast
  then show "b < NPROC \<and> st t b = EMBRYO" using b d(14)[of b] by simp
  fix c assume c: "c < NPROC" "live (st t c)" "point (ptable t c) = Forking b"
  show "c = a" using embryosD(3)[OF e a(1) _ c(1), of b] oa old[OF c(2,3)] by blast
next
  note d = slot_filledD[OF f]
  fix b assume b: "b < NPROC" "st t b = EMBRYO"
  then have bn: "b \<noteq> np" using d(15) by auto
  then obtain a where a: "a < NPROC" "live (st s a)" "point (ptable s a) = Forking b" using embryosD(4)[OF e b(1)] b d(14)[OF bn] by auto
  have n: "a \<noteq> p" "a \<noteq> np" using a bn d(3,5) by auto
  then show "\<exists>a<NPROC. live (st t a) \<and> point (ptable t a) = Forking b" using a d(12)[OF n(2)] by (intro exI[of _ a]) simp
qed

lemma filled_waiters:
  assumes f: "slot_filled p np s t" and k: "waiters_ok s"
  shows "waiters_ok t"
  unfolding waiters_ok_def
proof (intro allI impI)
  note d = slot_filledD[OF f]
  fix q assume q: "q < NPROC" "st t q = SLEEPING \<and> ctx (ptable t q) = In_wait"
  then have qn: "q \<noteq> np" "q \<noteq> p" using d(15) d(2) d(14)[OF d(6)] by auto
  then have qq: "ptable t q = ptable s q" using d(12) by simp
  have w: "chan (ptable s q) = Some (Proc_at q) \<and> \<not> killed (ptable s q) \<and> (\<forall>i<NPROC. parent_of s i = Some q \<longrightarrow> st s i \<noteq> ZOMBIE)"
    using k q qq unfolding waiters_ok_def by simp
  have "st t i \<noteq> ZOMBIE" if "i < NPROC" "parent_of t i = Some q" for i
    using that w d(13)[of i] d(14)[of i] d(15) by (cases "i = np") auto
  then show "chan (ptable t q) = Some (Proc_at q) \<and> \<not> killed (ptable t q) \<and> (\<forall>i<NPROC. parent_of t i = Some q \<longrightarrow> st t i \<noteq> ZOMBIE)"
    using w qq by simp
qed

lemma filled_stacks:
  assumes f: "slot_filled p np s t" and k: "stacks_ok s"
  shows "stacks_ok t"
  unfolding stacks_ok_def
proof (intro allI impI)
  note d = slot_filledD[OF f]
  fix i assume "i < NPROC" "live (st t i)"
  then show "kstack (procs (wld t) i) \<noteq> 0 \<and> pgdir (procs (wld t) i) \<noteq> 0"
    using k d(13)[of i] d(14)[of i] d(15) unfolding stacks_ok_def by (cases "i = np") auto
qed

lemma fork_copy_ok:
  assumes ok: "table_ok s" and p: "p < NPROC" "st s p = RUNNING" and f: "point (ptable s p) = Forking np"
    and c: "fork_copy data dio p np s = Ret (r, t)"
  shows "table_ok t"
proof -
  note k = ok[unfolded table_ok_def]
  then have e: "embryos_ok s" by blast
  have pf: "live (st s p) \<and> point (ptable s p) = Forking np" using p f by simp
  have np: "np < NPROC" "st s np = EMBRYO" using embryosD(1,2)[OF e p(1) pf] by blast+
  then have pn: "p \<noteq> np" using p by auto
  have "slot_filled p np s t"
    unfolding slot_filled_def
    by (intro conjI allI impI p f np pn embryosD(3)[OF e p(1) pf] fork_copy_effect[OF c pn, THEN conjunct1] fork_copy_effect[OF c pn, THEN conjunct2])
      (elim conjE, assumption)+
  note fl = filled_cpus[OF this] filled_pids[OF this] filled_family[OF this] filled_embryos[OF this] filled_waiters[OF this] filled_stacks[OF this]
  show ?thesis using k fl unfolding table_ok_def by blast
qed

subsection \<open>Exit\<close>

lemma close_files_effect:
  assumes "close_files io fds p s = Ret t"
  shows "(\<exists>fs. ptable t = (ptable s)(p := (ptable s p)\<lparr>ofile := fs\<rparr>)) \<and> procs (wld t) = procs (wld s) \<and>
      nextpid t = nextpid s \<and> initproc t = initproc s \<and> cpu_proc t = cpu_proc s"
  using assms
proof (induction io fds p s rule: close_files.induct)
  case (1 io p s)
  have "ptable s = (ptable s)(p := (ptable s p)\<lparr>ofile := ofile (ptable s p)\<rparr>)" by simp
  then show ?case using 1 by (auto intro!: exI[of _ "ofile (ptable s p)"])
next
  case (2 io fd fds p s)
  show ?case
  proof (cases "ofile (ptable s p) ! fd")
    case None
    then show ?thesis using 2 by simp
  next
    case (Some f)
    then obtain w1 where w1: "fileclose io f (wld s) = Ret w1"
      and r: "close_files io fds p (upd p (\<lambda>q. q\<lparr>ofile := (ofile q)[fd := None]\<rparr>) (s\<lparr>wld := w1\<rparr>)) = Ret t"
      using "2.prems"(1) by auto
    note ih = "2.IH"(2)[OF Some w1 r]
    then obtain fs where "ptable t = (ptable s)(p := (ptable s p)\<lparr>ofile := fs\<rparr>)" by (auto simp: fun_eq_iff)
    then show ?thesis using ih fileclose_procs[OF w1] by simp blast
  qed
qed

lemma exit_start_ok:
  assumes ok: "table_ok s" and r: "st s p = RUNNING" and o: "point (ptable s p) = Outside"
    and e: "exit_start io dio p s = Ret t"
  shows "table_ok t"
proof -
  have ni: "initproc s \<noteq> Some p" using e by (auto simp: exit_start_def)
  from e ni obtain d w1 s2 dir where w1: "delete_mmaps io p (wld s) = Ret (d, w1)"
    and c: "close_files io [0..<NOFILE] p (s\<lparr>wld := w1\<rparr>) = Ret s2" and dir: "cwd (ptable s2 p) = Some dir"
    and t: "t = upd p (\<lambda>q. q\<lparr>cwd := None, point := Exiting\<rparr>) (s2\<lparr>wld := (wld s2)\<lparr>fsys := iput_op dio (fsys (wld s2)) dir\<rparr>\<rparr>)"
    by (auto simp: exit_start_def split: option.splits)
  obtain fs where fs: "ptable s2 = (ptable s)(p := (ptable s p)\<lparr>ofile := fs\<rparr>)"
    and s2: "procs (wld s2) = procs w1" "nextpid s2 = nextpid s" "initproc s2 = initproc s" "cpu_proc s2 = cpu_proc s"
    using close_files_effect[OF c] by auto
  show ?thesis
  proof (rule running_upd[OF ok r])
    show "ptable t = (ptable s)(p := (\<lambda>q. q\<lparr>ofile := fs, cwd := None, point := Exiting\<rparr>) (ptable s p))" by (simp add: t fs)
    show "links (wld t) i = links (wld s) i" for i using delete_mmaps_links[OF w1, of i] s2(1) by (simp add: t links_def)
  qed (simp_all add: r o ni t s2)
qed

lemma wakeup1_idem: "wakeup1 ch (wakeup1 ch s) = wakeup1 ch s"
  by (rule system.equality) (simp_all add: fun_eq_iff wakeup1_ptable)

lemma wakeup1_zombie [simp]: "st (wakeup1 ch s) i = ZOMBIE \<longleftrightarrow> st s i = ZOMBIE"
  by (simp add: wakeup1_ptable)

lemma reparent_frame:
  "nextpid (reparent l p s) = nextpid s \<and> initproc (reparent l p s) = initproc s \<and> cpu_proc (reparent l p s) = cpu_proc s \<and>
   kstack (procs (wld (reparent l p s)) i) = kstack (procs (wld s) i) \<and> pgdir (procs (wld (reparent l p s)) i) = pgdir (procs (wld s) i)"
  by (induction l p s rule: reparent.induct) (simp_all add: Let_def)

lemma reparent_parent:
  "distinct l \<Longrightarrow> parent_of (reparent l p s) i = (if i \<in> set l \<and> parent_of s i = Some p then initproc s else parent_of s i)"
  by (induction l p s rule: reparent.induct) (auto simp add: Let_def)

lemma reparent_ptable:
  "distinct l \<Longrightarrow> ptable (reparent l p s) = (if \<exists>j\<in>set l. parent_of s j = Some p \<and> st s j = ZOMBIE
      then ptable (wakeup1 (map_option Proc_at (initproc s)) s) else ptable s)"
proof (induction l arbitrary: s)
  case (Cons j l)
  let ?s1 = "updp j (\<lambda>q. q\<lparr>parent := initproc s\<rparr>) s"
  let ?s2 = "if st ?s1 j = ZOMBIE then wakeup1 (map_option Proc_at (initproc s)) ?s1 else ?s1"
  have jl: "j \<notin> set l" "distinct l" using Cons.prems by auto
  show ?case
  proof (cases "parent_of s j = Some p")
    case True
    have w: "ptable (wakeup1 ch ?s1) = ptable (wakeup1 ch s)" for ch by (simp add: fun_eq_iff wakeup1_ptable)
    have z: "st ?s2 i = ZOMBIE \<longleftrightarrow> st s i = ZOMBIE" "i \<in> set l \<Longrightarrow> parent_of ?s2 i = parent_of s i" for i using jl by auto
    have b: "(\<exists>i\<in>set l. parent_of ?s2 i = Some p \<and> st ?s2 i = ZOMBIE) \<longleftrightarrow> (\<exists>i\<in>set l. parent_of s i = Some p \<and> st s i = ZOMBIE)"
      using z by auto
    let ?W = "map_option Proc_at (initproc s)"
    have e: "initproc ?s2 = initproc s" by simp
    have pw: "ptable (wakeup1 ?W ?s2) = ptable (wakeup1 ?W s)" by (simp add: w wakeup1_idem)
    have p2: "ptable ?s2 = (if st s j = ZOMBIE then ptable (wakeup1 ?W s) else ptable s)" by (simp add: w)
    have "reparent (j # l) p s = reparent l p ?s2" using True by (simp add: Let_def)
    then have "ptable (reparent (j # l) p s) = (if \<exists>i\<in>set l. parent_of s i = Some p \<and> st s i = ZOMBIE then ptable (wakeup1 ?W s)
        else if st s j = ZOMBIE then ptable (wakeup1 ?W s) else ptable s)"
      using Cons.IH[OF jl(2), of ?s2, unfolded b, unfolded e pw, unfolded p2] by (simp only:)
    then show ?thesis using True by (auto simp del: reparent.simps)
  qed (use Cons.IH[OF jl(2)] in simp)
qed simp

text \<open>The state that a process leaves when it becomes a zombie, before the scheduler goes on.\<close>

definition zombified :: "nat \<Rightarrow> nat \<Rightarrow> 'fs system \<Rightarrow> 'fs system" where
  "zombified c p s =
     on_cpu c None (set_state p ZOMBIE (reparent [0..<NPROC] p (wakeup1 (map_option Proc_at (parent_of s p)) s)))"

lemma zombified_frame:
  "nextpid (zombified c p s) = nextpid s" "initproc (zombified c p s) = initproc s" "cpu_proc (zombified c p s) = (cpu_proc s)(c := None)"
  "kstack (procs (wld (zombified c p s)) i) = kstack (procs (wld s) i)" "pgdir (procs (wld (zombified c p s)) i) = pgdir (procs (wld s) i)"
  "i < NPROC \<Longrightarrow> parent_of (zombified c p s) i = (if parent_of s i = Some p then initproc s else parent_of s i)"
  by (simp_all add: zombified_def set_state_def reparent_frame reparent_parent)

text \<open>Every other slot is as before or was woken up.\<close>

lemma zombified_slot:
  assumes "i \<noteq> p"
  shows "ptable (zombified c p s) i = ptable s i \<or>
    (st s i = SLEEPING \<and> ptable (zombified c p s) i = (ptable s i)\<lparr>state := RUNNABLE\<rparr>)"
  using assms by (auto simp: zombified_def set_state_def reparent_ptable wakeup1_ptable)

lemma zombified_same:
  assumes "i \<noteq> p"
  shows "same_kind (st (zombified c p s) i) (st s i)" "st (zombified c p s) i = RUNNING \<longleftrightarrow> st s i = RUNNING"
    "pid (ptable (zombified c p s) i) = pid (ptable s i)" "point (ptable (zombified c p s) i) = point (ptable s i)"
  using zombified_slot[OF assms, of c s] by (auto simp: same_kind_def)

lemma zombified_self: "ptable (zombified c p s) p = (ptable (zombified c p s) p)\<lparr>state := ZOMBIE\<rparr>"
    "pid (ptable (zombified c p s) p) = pid (ptable s p)"
  by (simp_all add: zombified_def set_state_def reparent_ptable wakeup1_ptable)

text \<open>The parent of the dead process, and the first process when it inherits a zombie, do not sleep in \<open>wait\<close>.\<close>

lemma zombified_parent_awake:
  assumes w: "waiters_ok s" and r: "r < NPROC" "r \<noteq> p" and "parent_of s p = Some r"
  shows "\<not> (st (zombified c p s) r = SLEEPING \<and> ctx (ptable (zombified c p s) r) = In_wait)"
proof
  assume a: "st (zombified c p s) r = SLEEPING \<and> ctx (ptable (zombified c p s) r) = In_wait"
  then have "st s r = SLEEPING \<and> ctx (ptable s r) = In_wait" using zombified_slot[OF r(2), of c s] by auto
  then have "chan (ptable s r) = Some (Proc_at r)" using w r(1) unfolding waiters_ok_def by blast
  then show False using a assms(4) r \<open>st s r = SLEEPING \<and> ctx (ptable s r) = In_wait\<close>
    by (auto simp: zombified_def set_state_def reparent_ptable wakeup1_ptable split: if_splits)
qed

lemma zombified_init_awake:
  assumes w: "waiters_ok s" and q: "q < NPROC" "q \<noteq> p" "initproc s = Some q" and i: "i < NPROC" "parent_of s i = Some p" "st s i = ZOMBIE"
  shows "\<not> (st (zombified c p s) q = SLEEPING \<and> ctx (ptable (zombified c p s) q) = In_wait)"
proof
  assume a: "st (zombified c p s) q = SLEEPING \<and> ctx (ptable (zombified c p s) q) = In_wait"
  then have sq: "st s q = SLEEPING \<and> ctx (ptable s q) = In_wait" using zombified_slot[OF q(2), of c s] by auto
  then have ch: "chan (ptable s q) = Some (Proc_at q)" using w q(1) unfolding waiters_ok_def by blast
  let ?s1 = "wakeup1 (map_option Proc_at (parent_of s p)) s"
  have "i \<in> set [0..<NPROC]" "parent_of ?s1 i = Some p" "st ?s1 i = ZOMBIE" using i by auto
  then have "\<exists>j\<in>set [0..<NPROC]. parent_of ?s1 j = Some p \<and> st ?s1 j = ZOMBIE" by blast
  then have "ptable (zombified c p s) q = ptable (wakeup1 (Some (Proc_at q)) ?s1) q"
    using q by (simp add: zombified_def set_state_def reparent_ptable)
  then show False using a ch q(1) by (auto simp: wakeup1_ptable split: if_splits)
qed

lemma zombified_cpus:
  assumes k: "cpus_ok s" and c: "cpu_proc s c = Some p"
  shows "cpus_ok (zombified c p s)"
  unfolding cpus_ok_def zombified_frame
proof (intro conjI allI impI)
  have pc: "\<And>d. cpu_proc s d = Some p \<Longrightarrow> d = c" using k c unfolding cpus_ok_def by blast
  fix e q assume "((cpu_proc s)(c := None)) e = Some q"
  then have e: "cpu_proc s e = Some q" "e \<noteq> c" by (auto split: if_splits)
  then have q: "q < NPROC" "st s q = RUNNING" "q \<noteq> p" using k pc unfolding cpus_ok_def by blast+
  then show "q < NPROC" "st (zombified c p s) q = RUNNING" using zombified_same(2)[OF q(3), of c s] by auto
  fix d assume "((cpu_proc s)(c := None)) d = Some q"
  then have "cpu_proc s d = Some q" by (auto split: if_splits)
  then show "d = e" using k e(1) unfolding cpus_ok_def by blast
next
  fix q assume q: "q < NPROC" "st (zombified c p s) q = RUNNING"
  have "st (zombified c p s) p = ZOMBIE" by (subst zombified_self) simp
  then have qp: "q \<noteq> p" using q by auto
  then obtain e where e: "cpu_proc s e = Some q" using k q zombified_same(2)[OF qp, of c s] unfolding cpus_ok_def by blast
  then show "\<exists>e. ((cpu_proc s)(c := None)) e = Some q" using c qp by (intro exI[of _ e]) auto
qed

lemma zombified_family:
  assumes k: "family_ok s" and ni: "initproc s \<noteq> Some p" and p: "p < NPROC" "live (st s p)"
  shows "family_ok (zombified c p s)"
proof -
  let ?t = "zombified c p s"
  have zp: "st ?t p = ZOMBIE" by (subst zombified_self) simp
  obtain q where q: "q < NPROC" "initproc s = Some q" "live (st s q)" "point (ptable s q) \<noteq> Exiting"
    and par: "\<And>j. j < NPROC \<Longrightarrow> j \<noteq> q \<Longrightarrow> st s j \<noteq> UNUSED \<Longrightarrow> st s j \<noteq> EMBRYO \<Longrightarrow> \<exists>r<NPROC. r \<noteq> j \<and> parent_of s j = Some r \<and> live (st s r)"
    using k unfolding family_ok_def by blast
  have qp: "q \<noteq> p" using q ni by auto
  note lv = same_kindD[OF zombified_same(1)]
  have "\<exists>r<NPROC. r \<noteq> j \<and> parent_of ?t j = Some r \<and> live (st ?t r)" if j: "j < NPROC" "j \<noteq> q" "st ?t j \<noteq> UNUSED" "st ?t j \<noteq> EMBRYO" for j
  proof -
    have "st s j \<noteq> UNUSED" "st s j \<noteq> EMBRYO" using j lv(2,3)[of j p c s] p by (cases "j = p"; auto)+
    then obtain r where r: "r < NPROC" "r \<noteq> j" "parent_of s j = Some r" "live (st s r)" using par[of j] j by auto
    show ?thesis
    proof (cases "r = p")
      case True
      then show ?thesis using q qp r j lv(1)[OF qp, of c s] zombified_frame(6)[OF j(1), of c p s] by (intro exI[of _ q]) auto
    next
      case False
      then show ?thesis using r lv(1)[OF False, of c s] zombified_frame(6)[OF j(1), of c p s] by (intro exI[of _ r]) auto
    qed
  qed
  then show ?thesis unfolding family_ok_def zombified_frame using q lv(1)[OF qp, of c s] zombified_same(4)[OF qp, of c s] by (intro exI[of _ q]) auto
qed

lemma zombified_embryos:
  assumes e: "embryos_ok s" and p: "p < NPROC" "live (st s p)" "point (ptable s p) = Exiting"
  shows "embryos_ok (zombified c p s)"
proof (rule embryosI)
  let ?t = "zombified c p s"
  have zp: "st ?t p = ZOMBIE" by (subst zombified_self) simp
  have old: "live (st s a) \<and> point (ptable s a) = Forking b" if "live (st ?t a)" "point (ptable ?t a) = Forking b" for a b
  proof -
    have "a \<noteq> p" using that zp by auto
    then show ?thesis using that same_kindD(1)[OF zombified_same(1), of a p c s] zombified_same(4)[of a p c s] by simp
  qed
  have em: "st ?t b = EMBRYO \<longleftrightarrow> st s b = EMBRYO" for b
    using zp p(2) same_kindD(3)[OF zombified_same(1), of b p c s] by (cases "b = p") auto
  fix a b assume a: "a < NPROC" "live (st ?t a)" "point (ptable ?t a) = Forking b"
  show "b < NPROC \<and> st ?t b = EMBRYO" using embryosD(1,2)[OF e a(1) old[OF a(2,3)]] em by blast
  fix d assume d: "d < NPROC" "live (st ?t d)" "point (ptable ?t d) = Forking b"
  show "d = a" by (rule embryosD(3)[OF e a(1) old[OF a(2,3)] d(1) old[OF d(2,3)]])
next
  let ?t = "zombified c p s"
  fix b assume b: "b < NPROC" "st ?t b = EMBRYO"
  have zp: "st ?t p = ZOMBIE" by (subst zombified_self) simp
  then have "b \<noteq> p" using b by auto
  then have "st s b = EMBRYO" using b same_kindD(3)[OF zombified_same(1), of b p c s] by blast
  then obtain a where a: "a < NPROC" "live (st s a)" "point (ptable s a) = Forking b" using embryosD(4)[OF e b(1)] by blast
  then have ap: "a \<noteq> p" using p(3) by auto
  show "\<exists>a<NPROC. live (st ?t a) \<and> point (ptable ?t a) = Forking b"
    using a same_kindD(1)[OF zombified_same(1)[OF ap, of c s]] zombified_same(4)[OF ap, of c s] by (intro exI[of _ a]) simp
qed

lemma zombified_waiters:
  assumes w: "waiters_ok s" and k: "family_ok s" and ni: "initproc s \<noteq> Some p" and p: "p < NPROC" "live (st s p)"
  shows "waiters_ok (zombified c p s)"
  unfolding waiters_ok_def
proof (intro allI impI)
  let ?t = "zombified c p s"
  fix q assume q: "q < NPROC" "st ?t q = SLEEPING \<and> ctx (ptable ?t q) = In_wait"
  have "st ?t p = ZOMBIE" by (subst zombified_self) simp
  then have qp: "q \<noteq> p" using q by auto
  then have same: "ptable ?t q = ptable s q" using zombified_slot[OF qp, of c s] q(2) by auto
  then have old: "chan (ptable s q) = Some (Proc_at q) \<and> \<not> killed (ptable s q) \<and> (\<forall>i<NPROC. parent_of s i = Some q \<longrightarrow> st s i \<noteq> ZOMBIE)"
    using w q unfolding waiters_ok_def by simp
  have "st s p \<noteq> UNUSED" "st s p \<noteq> EMBRYO" using p(2) by auto
  then obtain r where r: "r < NPROC" "r \<noteq> p" "parent_of s p = Some r" using k ni p(1) unfolding family_ok_def by blast
  have "st ?t i \<noteq> ZOMBIE" if i: "i < NPROC" "parent_of ?t i = Some q" for i
  proof (cases "i = p")
    case True
    then have "parent_of s p = Some q" using i zombified_frame(6)[OF i(1), of c p s] r by auto
    then show ?thesis using zombified_parent_awake[OF w q(1) qp, of c] q(2) by blast
  next
    case False
    have z: "st ?t i = ZOMBIE \<longleftrightarrow> st s i = ZOMBIE" by (rule same_kindD(4)[OF zombified_same(1)[OF False]])
    show ?thesis
    proof (cases "parent_of s i = Some p")
      case True
      then have "initproc s = Some q" using i zombified_frame(6)[OF i(1), of c p s] by simp
      then show ?thesis using zombified_init_awake[OF w q(1) qp _ i(1) True, of c] q(2) z by blast
    next
      case False
      then show ?thesis using old i zombified_frame(6)[OF i(1), of c p s] z by simp
    qed
  qed
  then show "chan (ptable ?t q) = Some (Proc_at q) \<and> \<not> killed (ptable ?t q) \<and> (\<forall>i<NPROC. parent_of ?t i = Some q \<longrightarrow> st ?t i \<noteq> ZOMBIE)"
    using old same by simp
qed

lemma zombified_ok:
  assumes ok: "table_ok s" and c: "cpu_proc s c = Some p" and x: "point (ptable s p) = Exiting"
  shows "table_ok (zombified c p s)"
proof -
  note k = ok[unfolded table_ok_def]
  have p: "p < NPROC" "st s p = RUNNING" using k c unfolding cpus_ok_def by blast+
  have ni: "initproc s \<noteq> Some p" using k x unfolding family_ok_def by auto
  have l: "live (st s p)" using p by simp
  have u: "st (zombified c p s) i \<noteq> UNUSED \<Longrightarrow> st s i \<noteq> UNUSED" for i
    using same_kindD(2)[OF zombified_same(1), of i p c s] p by (cases "i = p") auto
  have id: "pid (ptable (zombified c p s) i) = pid (ptable s i)" for i using zombified_same(3) zombified_self(2) by metis
  have "pids_ok (zombified c p s)" using k u unfolding pids_ok_def id zombified_frame by blast
  moreover have "live (st (zombified c p s) i) \<Longrightarrow> live (st s i)" for i
    using same_kindD(1)[OF zombified_same(1), of i p c s] p by (cases "i = p") auto
  then have "stacks_ok (zombified c p s)" using k unfolding stacks_ok_def zombified_frame by blast
  ultimately show ?thesis
    using k zombified_cpus[OF _ c] zombified_family[OF _ ni p(1) l] zombified_embryos[OF _ p(1) l x] zombified_waiters[OF _ _ ni p(1) l]
    unfolding table_ok_def by blast
qed

end
