(* ===== verification/Proc_Steps.thy ===== *)
theory Proc_Steps
  imports Proc_Family
begin

text \<open>
  The processes of all processors, interleaved in any way: the table stays sound, no exit of a child
  and no kill is lost on a process that sleeps in \<open>wait\<close>, and what \<open>wait\<close> and \<open>kill\<close> do.
\<close>

subsection \<open>The scheduler keeps the invariant\<close>

lemma scan_idle:
  "(\<And>j. i \<le> j \<Longrightarrow> j < NPROC \<Longrightarrow> st s j \<noteq> RUNNABLE) \<Longrightarrow> sched_scan c i s = Ret (Nobody, s)"
proof (induction "NPROC - i" arbitrary: i)
  case 0
  then show ?case by (subst sched_scan.simps) simp
next
  case (Suc n)
  have "sched_scan c (Suc i) s = Ret (Nobody, s)" using Suc.hyps(2) by (intro Suc.hyps(1) Suc.prems) auto
  then show ?case using Suc.prems[of i] Suc.hyps(2) by (subst sched_scan.simps) simp
qed

lemma chan_cleared_ok:
  assumes "table_ok s" and "st s p = RUNNING"
  shows "table_ok (upd p (\<lambda>q. q\<lparr>chan := None\<rparr>) s)"
  by (rule running_upd[OF assms]) (simp_all add: assms(2))

lemma scan_ok:
  "table_ok s \<Longrightarrow> cpu_proc s c = None \<Longrightarrow> sched_scan c i s = Ret (r, t) \<Longrightarrow> table_ok t"
proof (induction c i s rule: sched_scan.induct)
  case (1 c i s)
  let ?s1 = "set_state i RUNNING (on_cpu c (Some i) s)"
  show ?case
  proof (cases "i < NPROC \<and> st s i = RUNNABLE")
    case False
    show ?thesis
    proof (cases "i < NPROC")
      case True
      then have "sched_scan c (Suc i) s = Ret (r, t)" using False "1.prems"(3) sched_scan.simps[of c i s] by simp
      then show ?thesis using "1.IH"(1) "1.prems" True False by simp
    qed (use "1.prems"(1,3) sched_scan.simps[of c i s] in simp)
  next
    case True
    then have i: "i < NPROC" "st s i = RUNNABLE" by auto
    have ok1: "table_ok ?s1" by (rule start_running[OF "1.prems"(1) i "1.prems"(2)])
    have run: "st ?s1 i = RUNNING" "cpu_proc ?s1 c = Some i" by (simp_all add: set_state_def)
    let ?s2 = "upd i (\<lambda>p. p\<lparr>chan := None\<rparr>) ?s1"
    have ok2: "table_ok ?s2" by (rule chan_cleared_ok[OF ok1 run(1)])
    have sw: "switchuvm (kstack (procs (wld s) i)) (pgdir (procs (wld s) i)) = Ret ()"
      using "1.prems"(1) i unfolding table_ok_def stacks_ok_def by (simp add: switchuvm_def)
    note sc = "1.prems"(3)[unfolded sched_scan.simps[of c i s], simplified i sw, simplified, unfolded Let_def]
    show ?thesis
    proof (cases "ctx (ptable s i)")
      case In_wait
      then obtain r2 s3 where w: "wait_round i ?s2 = Ret (r2, s3)"
        and rest: "(case r2 of None \<Rightarrow> sched_scan c (Suc i) (on_cpu c None s3) | Some n \<Rightarrow> Ret (From_wait i n, s3)) = Ret (r, t)"
        using sc by auto
      have wo: "case r2 of Some n \<Rightarrow> table_ok s3 \<and> cpu_proc s3 = cpu_proc ?s2 | None \<Rightarrow> table_ok (on_cpu c None s3) \<and> st s3 i = SLEEPING"
        by (rule wait_round_ok[OF ok2 _ w]) (use run in simp)
      show ?thesis
      proof (cases r2)
        case None
        have "sched_scan c (Suc i) (on_cpu c None s3) = Ret (r, t)" using rest None by simp
        then show ?thesis using "1.IH"(2) In_wait i sw w None wo by simp
      next
        case (Some n)
        then show ?thesis using rest wo by simp
      qed
    qed (use sc ok1 ok2 in auto)
  qed
qed

lemma sched_ok:
  assumes "table_ok (on_cpu c None s)" and "sched c p s = Ret (r, t)"
  shows "table_ok t"
  using assms scan_ok[of "on_cpu c None s" c "Suc p" r t] by (simp add: sched_def split: if_splits)

subsection \<open>Steps\<close>

text \<open>
  A step of the system: a processor without a process schedules; a running process gives up its
  processor, sleeps, waits, forks, exits or grows; an interrupt handler or a process wakes up a
  channel or kills a process. \<open>Image\<close> and \<open>Other\<close> stand for the rest of the kernel, which changes the
  memory image of the running process, its files and the file system, but neither the tree of
  processes nor their states.
\<close>

inductive pstep :: "'fs inode_ops \<Rightarrow> 'fs dir_ops \<Rightarrow> u32 \<Rightarrow> 'fs system \<Rightarrow> 'fs system \<Rightarrow> bool" for io dio data where
  Schedule: "cpu_proc s c = None \<Longrightarrow> scheduler c s = Ret (r, t) \<Longrightarrow> pstep io dio data s t"
| Yield: "cpu_proc s c = Some p \<Longrightarrow> yield c p s = Ret (r, t) \<Longrightarrow> pstep io dio data s t"
| Sleep: "cpu_proc s c = Some p \<Longrightarrow> sleep c p ch s = Ret (r, t) \<Longrightarrow> pstep io dio data s t"
| Wait: "cpu_proc s c = Some p \<Longrightarrow> point (ptable s p) = Outside \<Longrightarrow> wait c p s = Ret (r, t) \<Longrightarrow> pstep io dio data s t"
| Wakeup: "pstep io dio data s (wakeup ch s)"
| Kill: "pstep io dio data s (snd (kill n s))"
| Fork_start: "cpu_proc s c = Some p \<Longrightarrow> point (ptable s p) = Outside \<Longrightarrow> pstep io dio data s (fork_start p s)"
| Fork_copy: "cpu_proc s c = Some p \<Longrightarrow> point (ptable s p) = Forking np \<Longrightarrow> fork_copy data dio p np s = Ret (n, t) \<Longrightarrow> pstep io dio data s t"
| Exit_start: "cpu_proc s c = Some p \<Longrightarrow> point (ptable s p) = Outside \<Longrightarrow> exit_start io dio p s = Ret t \<Longrightarrow> pstep io dio data s t"
| Exit_finish: "cpu_proc s c = Some p \<Longrightarrow> point (ptable s p) = Exiting \<Longrightarrow> exit_finish c p s = Ret (r, t) \<Longrightarrow> pstep io dio data s t"
| Grow: "cpu_proc s c = Some p \<Longrightarrow> point (ptable s p) = Outside \<Longrightarrow> growproc p n s = Ret (m, t) \<Longrightarrow> pstep io dio data s t"
| Image: "cpu_proc s c = Some p \<Longrightarrow> d \<noteq> 0 \<Longrightarrow> pstep io dio data s (updp p (\<lambda>q. q\<lparr>pgdir := d\<rparr>) s)"
| Other: "cpu_proc s c = Some p \<Longrightarrow> (\<And>i. links w i = links (wld s) i) \<Longrightarrow>
    pstep io dio data s (upd p (\<lambda>q. q\<lparr>sz := a, tf := b, ofile := f, cwd := e, pname := m\<rparr>) (s\<lparr>wld := w\<rparr>))"

lemma on_cpuD: "table_ok s \<Longrightarrow> cpu_proc s c = Some p \<Longrightarrow> p < NPROC \<and> st s p = RUNNING"
  unfolding table_ok_def cpus_ok_def by blast

lemma growproc_ok:
  assumes ok: "table_ok s" and r: "st s p = RUNNING" and g: "growproc p n s = Ret (m, t)"
  shows "table_ok t"
proof -
  have t: "ptable t = (ptable s)(p := (\<lambda>q. q\<lparr>sz := sz (ptable t p)\<rparr>) (ptable s p)) \<and> nextpid t = nextpid s \<and> initproc t = initproc s \<and>
      cpu_proc t = cpu_proc s \<and> procs (wld t) = procs (wld s)"
    using g by (auto simp: growproc_def Let_def split: if_splits)
  show ?thesis by (rule running_upd[OF ok r, of "\<lambda>q. q\<lparr>sz := sz (ptable t p)\<rparr>"]) (use t r in \<open>simp_all add: links_def\<close>)
qed

lemma image_ok:
  assumes ok: "table_ok s" and d: "d \<noteq> 0"
  shows "table_ok (updp p (\<lambda>q. q\<lparr>pgdir := d\<rparr>) s)"
proof -
  let ?t = "updp p (\<lambda>q. q\<lparr>pgdir := d\<rparr>) s"
  have par: "parent_of ?t i = parent_of s i" for i by simp
  have "cpus_ok ?t = cpus_ok s" "pids_ok ?t = pids_ok s" "embryos_ok ?t = embryos_ok s"
    unfolding cpus_ok_def pids_ok_def embryos_ok_def by (simp_all only: system_upd_simps)
  moreover have "family_ok ?t = family_ok s" "waiters_ok ?t = waiters_ok s"
    unfolding family_ok_def waiters_ok_def par by (simp_all only: system_upd_simps)
  moreover have "stacks_ok ?t" using ok d by (simp add: table_ok_def stacks_ok_def)
  ultimately show ?thesis using ok unfolding table_ok_def by simp
qed

lemma pstep_ok:
  assumes "pstep io dio data s t" and "table_ok s"
  shows "table_ok t"
  using assms
proof (induction rule: pstep.induct)
  case (Schedule s c r t)
  then show ?case by (intro scan_ok[of s c 0 r t]) (simp_all add: scheduler_def)
next
  case (Yield s c p r t)
  have "table_ok (on_cpu c None (upd p (\<lambda>q. q\<lparr>state := RUNNABLE, ctx := In_yield\<rparr>) s))"
    by (rule stop_running[OF Yield(3,1)]) simp_all
  then show ?case by (rule sched_ok) (use Yield(2) in \<open>simp add: yield_def\<close>)
next
  case (Sleep s c p ch r t)
  have "table_ok (on_cpu c None (upd p (\<lambda>q. q\<lparr>chan := ch, state := SLEEPING, ctx := In_sleep\<rparr>) s))"
    by (rule stop_running[OF Sleep(3,1)]) simp_all
  then show ?case by (rule sched_ok) (use Sleep(2) in \<open>simp add: sleep_def\<close>)
next
  case (Wait s c p r t)
  then obtain v s1 where w: "wait_round p s = Ret (v, s1)"
    and rest: "(case v of None \<Rightarrow> sched c p s1 | Some n \<Rightarrow> Ret (From_wait p n, s1)) = Ret (r, t)" by (auto simp: wait_def)
  from wait_round_ok[OF Wait(4,1) w] rest show ?case using sched_ok[of c s1 p r t] by (cases v) auto
next
  case (Wakeup s ch)
  then show ?case by (simp add: wakeup_def wakeup1_ok)
next
  case (Kill s n)
  then show ?case by (rule kill_ok)
next
  case (Fork_start s c p)
  then show ?case using on_cpuD[OF Fork_start(3,1)] by (intro fork_start_ok) auto
next
  case (Fork_copy s c p np n t)
  then show ?case using on_cpuD[OF Fork_copy(4,1)] by (intro fork_copy_ok[OF Fork_copy(4) _ _ Fork_copy(2,3)]) auto
next
  case (Exit_start s c p t)
  then show ?case using on_cpuD[OF Exit_start(4,1)] by (intro exit_start_ok[OF Exit_start(4) _ Exit_start(2,3)]) auto
next
  case (Exit_finish s c p r t)
  have "table_ok (zombified c p s)" by (rule zombified_ok[OF Exit_finish(4,1,2)])
  then show ?case unfolding zombified_def by (rule sched_ok) (use Exit_finish(3) in \<open>simp add: exit_finish_def Let_def\<close>)
next
  case (Grow s c p n m t)
  then show ?case using on_cpuD[OF Grow(4,1)] by (intro growproc_ok[OF Grow(4) _ Grow(3)]) auto
next
  case (Image s c p d)
  then show ?case by (intro image_ok)
next
  case (Other s c p w a b f e m)
  show ?case by (rule running_upd[OF Other(3)]) (use on_cpuD[OF Other(3,1)] Other(2) in simp_all)
qed

lemma psteps_ok: "(pstep io dio data)\<^sup>*\<^sup>* s t \<Longrightarrow> table_ok s \<Longrightarrow> table_ok t"
  by (induction rule: rtranclp_induct) (auto intro: pstep_ok)

subsection \<open>The first process\<close>

lemma find_first:
  assumes "i < n" and "P i" and "\<And>j. j < i \<Longrightarrow> \<not> P j"
  shows "find P [0..<n] = Some i"
  unfolding find_Some_iff using assms by (intro exI[of _ i]) auto

lemma userinit_effect:
  assumes f: "\<forall>i<NPROC. st s i = UNUSED" and u: "userinit data code dio s = Ret t"
  shows "nextpid t = nextpid s + 1" "initproc t = Some 0" "cpu_proc t = cpu_proc s" "\<And>i. i \<noteq> 0 \<Longrightarrow> ptable t i = ptable s i"
    "st t 0 = RUNNABLE" "pid (ptable t 0) = nextpid s" "point (ptable t 0) = Outside" "kstack (procs (wld t) 0) \<noteq> 0" "pgdir (procs (wld t) 0) \<noteq> 0"
proof -
  have sl: "find (\<lambda>i. st s i = UNUSED) [0..<NPROC] = Some 0" by (rule find_first) (use f in auto)
  obtain ks k1 where k: "kalloc (kern (wld s)) = (ks, k1)" by (metis surj_pair)
  have ks: "ks \<noteq> 0" using u by (auto simp: userinit_def allocproc_def take_slot_def sl give_stack_def upd_def k)
  let ?s0 = "(upd 0 (\<lambda>p. p\<lparr>state := EMBRYO, pid := nextpid s\<rparr>) s)\<lparr>nextpid := nextpid s + 1\<rparr>"
  let ?s1 = "updp 0 init_mmaps (upd 0 (\<lambda>p. p\<lparr>ctx := Forkret, point := Outside\<rparr>) (updp 0 (\<lambda>p. p\<lparr>kstack := ks\<rparr>) (set_kern k1 ?s0)))"
  have a: "allocproc s = (Some 0, ?s1)" using k ks by (simp add: allocproc_def take_slot_def sl give_stack_def)
  note u1 = u[unfolded userinit_def a]
  show "nextpid t = nextpid s + 1" "initproc t = Some 0" "cpu_proc t = cpu_proc s" "\<And>i. i \<noteq> 0 \<Longrightarrow> ptable t i = ptable s i"
    "st t 0 = RUNNABLE" "pid (ptable t 0) = nextpid s" "point (ptable t 0) = Outside" "kstack (procs (wld t) 0) \<noteq> 0" "pgdir (procs (wld t) 0) \<noteq> 0"
    using u1 ks by (auto simp: Let_def set_state_def split: if_splits prod.splits)
qed

text \<open>The state after \<open>userinit\<close> at boot is sound.\<close>

lemma userinit_ok:
  assumes f: "\<forall>i<NPROC. st s i = UNUSED" "0 < nextpid s" "\<forall>c. cpu_proc s c = None" and u: "userinit data code dio s = Ret t"
  shows "table_ok t"
proof (rule table_okI)
  note e = userinit_effect[OF f(1) u]
  have stt: "i < NPROC \<Longrightarrow> st t i = (if i = 0 then RUNNABLE else UNUSED)" for i using e(4,5) f(1) by simp
  show "cpus_ok t" using stt f(3) e(3) by (simp add: cpus_ok_def)
  show "pids_ok t" using stt e(1,6) f(2) by (simp add: pids_ok_def)
  show "family_ok t" unfolding family_ok_def e(2) using stt e(7) by (intro exI[of _ 0]) simp
  show "embryos_ok t"
  proof (rule embryosI)
    fix p np assume "p < NPROC" "live (st t p)" "point (ptable t p) = Forking np"
    then have False using stt e(7) by (auto split: if_splits)
    then show "np < NPROC \<and> st t np = EMBRYO" "\<And>q. q = p" by auto
  qed (use stt in \<open>auto split: if_splits\<close>)
  show "waiters_ok t" using stt by (simp add: waiters_ok_def)
  show "stacks_ok t" using stt e(8,9) by (simp add: stacks_ok_def)
qed

subsection \<open>An example\<close>

text \<open>The first process sleeps in \<open>wait\<close>, and its child runs on processor 1 and is about to exit.\<close>

definition demo_slot :: pslot where
  "demo_slot = \<lparr>state = UNUSED, pid = 0, chan = None, killed = False, sz = 0, tf = (\<lambda>_. 0), ofile = replicate 16 None,
     cwd = None, pname = '''', ctx = Forkret, point = Outside\<rparr>"

definition demo_procs :: "nat \<Rightarrow> proc" where
  "demo_procs i = \<lparr>pgdir = 0x80400000, kstack = 0x80401000, parent = (if i = 1 then Some 0 else None), mmaps = [], mmap_head = None, total_mmaps = 0\<rparr>"

definition demo_system :: "unit system" where
  "demo_system = \<lparr>
     wld = \<lparr>kern = \<lparr>memory = (\<lambda>_ _. 0), freelist = 0, use_lock = True, kend = 0x80110000\<rparr>, procs = demo_procs, file_ref = (\<lambda>_. 0), fsys = ()\<rparr>,
     ptable = (\<lambda>i. if i = 0 then demo_slot\<lparr>state := SLEEPING, pid := 1, chan := Some (Proc_at 0), ctx := In_wait\<rparr>
                   else if i = 1 then demo_slot\<lparr>state := RUNNING, pid := 2, point := Exiting\<rparr> else demo_slot),
     nextpid = 3, initproc = Some 0, cpu_proc = (\<lambda>c. if c = 1 then Some 1 else None)\<rparr>"

lemma demo_simps [simp]:
  "st demo_system i = (if i = 0 then SLEEPING else if i = 1 then RUNNING else UNUSED)" "parent_of demo_system i = (if i = 1 then Some 0 else None)"
  "initproc demo_system = Some 0" "nextpid demo_system = 3" "cpu_proc demo_system c = (if c = 1 then Some 1 else None)"
  "pid (ptable demo_system i) = (if i = 0 then 1 else if i = 1 then 2 else 0)" "point (ptable demo_system i) = (if i = 1 then Exiting else Outside)"
  "ctx (ptable demo_system i) = (if i = 0 then In_wait else Forkret)" "chan (ptable demo_system i) = (if i = 0 then Some (Proc_at 0) else None)"
  "killed (ptable demo_system i) = False" "kstack (procs (wld demo_system) i) \<noteq> 0" "pgdir (procs (wld demo_system) i) \<noteq> 0"
  by (simp_all add: demo_system_def demo_slot_def demo_procs_def)

lemma demo_ok: "table_ok demo_system"
proof (rule table_okI)
  show "cpus_ok demo_system" by (simp add: cpus_ok_def)
  show "pids_ok demo_system" by (auto simp: pids_ok_def)
  show "family_ok demo_system" unfolding family_ok_def by (intro exI[of _ 0]) auto
  show "embryos_ok demo_system" by (rule embryosI) (auto split: if_splits)
  show "waiters_ok demo_system" by (simp add: waiters_ok_def)
  show "stacks_ok demo_system" by (simp add: stacks_ok_def)
qed

definition demo_zombie :: "unit system" where
  "demo_zombie = zombified 1 1 demo_system"

lemma demo_zombie_simps [simp]:
  "st demo_zombie i = (if i = 0 then RUNNABLE else if i = 1 then ZOMBIE else UNUSED)"
  "parent_of demo_zombie i = (if i = 1 then Some 0 else None)" "initproc demo_zombie = Some 0"
  by (simp_all add: demo_zombie_def zombified_def set_state_def reparent_ptable reparent_parent reparent_frame wakeup1_ptable)

lemma demo_exits: "exit_finish 1 1 demo_system = Ret (Nobody, demo_zombie)"
proof -
  have "sched 1 1 (set_state 1 ZOMBIE (reparent [0..<NPROC] 1 (wakeup1 (map_option Proc_at (parent_of demo_system 1)) demo_system))) =
      sched_scan 1 2 demo_zombie"
    by (simp add: sched_def demo_zombie_def zombified_def set_state_def numeral_2_eq_2 del: demo_simps)
  moreover have "sched_scan 1 2 demo_zombie = Ret (Nobody, demo_zombie)" by (rule scan_idle) simp
  ultimately show ?thesis by (simp add: exit_finish_def Let_def del: demo_simps)
qed

lemma demo_steps: "(pstep io dio data)\<^sup>*\<^sup>* demo_system demo_zombie"
  by (rule r_into_rtranclp, rule pstep.Exit_finish[OF _ _ demo_exits]) simp_all

subsection \<open>The properties\<close>



text \<open>
  (C7) No wake-up is lost on a process that sleeps in \<open>wait\<close>: in every reachable state it sleeps on its own
  channel, where an exiting child wakes it, it is not killed, and it has no child that has already
  exited.
\<close>

theorem wait_loses_no_exit:
  assumes "table_ok s" and "(pstep io dio data)\<^sup>*\<^sup>* s t" and "p < NPROC" and "st t p = SLEEPING" and "ctx (ptable t p) = In_wait"
  shows "chan (ptable t p) = Some (Proc_at p) \<and> \<not> killed (ptable t p) \<and> (\<forall>i<NPROC. parent_of t i = Some p \<longrightarrow> st t i \<noteq> ZOMBIE)"
  using psteps_ok[OF assms(2,1)] assms(3-5) unfolding table_ok_def waiters_ok_def by blast

theorem wait_loses_no_exit_witness:
  "(pstep \<lparr>iread = \<lambda>_ _ _ _. None, iwrite = \<lambda>fs _ _ _. (- 1, fs), iclose = \<lambda>fs _. fs\<rparr>
      \<lparr>idup_op = \<lambda>fs _. fs, iput_op = \<lambda>fs _. fs, namei_root = \<lambda>fs. (Some 0, fs)\<rparr> 0x80108000)\<^sup>*\<^sup>* demo_system (wakeup (Some (Addr 0)) demo_system) \<and>
   st (wakeup (Some (Addr 0)) demo_system) 0 = SLEEPING \<and> \<not> killed (ptable (wakeup (Some (Addr 0)) demo_system) 0)"
proof -
  let ?t = "wakeup (Some (Addr 0)) demo_system"
  have st: "(pstep io dio data)\<^sup>*\<^sup>* demo_system ?t" for io dio data by (rule r_into_rtranclp, rule pstep.Wakeup)
  have s: "st ?t 0 = SLEEPING" "ctx (ptable ?t 0) = In_wait" by (simp_all add: wakeup_def wakeup1_ptable)
  show ?thesis using st s wait_loses_no_exit[OF demo_ok st _ s] by auto
qed

text \<open>The pass of \<open>wait\<close> over the table.\<close>

lemma wait_scan_first:
  assumes "i \<in> set l" and "parent_of s i = Some p" and "st s i = ZOMBIE" and "sorted l"
    and "\<And>j. j \<in> set l \<Longrightarrow> j < i \<Longrightarrow> \<not> (parent_of s j = Some p \<and> st s j = ZOMBIE)"
  shows "wait_scan l p hk s = obind (reap i s) (\<lambda>t. Ret (Some (pid (ptable s i)), True, t))"
  using assms
proof (induction l arbitrary: hk)
  case (Cons j l)
  show ?case
  proof (cases "j = i")
    case False
    then have "i \<in> set l" "j < i" using Cons.prems(1,4) by (auto simp: le_neq_implies_less)
    moreover have "\<not> (parent_of s j = Some p \<and> st s j = ZOMBIE)" using Cons.prems(5)[of j] \<open>j < i\<close> by simp
    ultimately show ?thesis using Cons.IH Cons.prems by auto
  qed (use Cons.prems in simp)
qed simp

lemma wait_scan_none:
  "(\<And>j. j \<in> set l \<Longrightarrow> parent_of s j = Some p \<Longrightarrow> st s j \<noteq> ZOMBIE) \<Longrightarrow>
   wait_scan l p hk s = Ret (None, hk \<or> (\<exists>j\<in>set l. parent_of s j = Some p), s)"
  by (induction l arbitrary: hk) auto


text \<open>The slot that \<open>fork\<close> fills keeps the caller as its parent, also when copying the mappings fails.\<close>

lemma fork_maps_parent: "fork_maps dio p np s = Ret (r, t) \<Longrightarrow> parent_of t np = parent_of s np"
proof -
  assume f: "fork_maps dio p np s = Ret (r, t)"
  then obtain dir r2 w2 where c: "copy_maps p np ((wld s)\<lparr>fsys := idup_op dio (fsys (wld s)) dir\<rparr>) = Ret (r2, w2)"
    and t: "parent_of t np = parent (procs w2 np)"
    by (auto simp: fork_maps_def Let_def drop_stack_def set_state_def obind_eq_Ret_iff split: option.splits if_splits)
  show ?thesis using copy_maps_links[OF c, of np] t by (simp add: links_def)
qed

lemma fork_fill_parent:
  assumes "fork_fill dio p np s = Ret (r, t)" and "p \<noteq> np"
  shows "parent_of t np = Some p"
proof -
  obtain s2 where d: "dup_files [0..<NOFILE] p np (updp np (\<lambda>q. q\<lparr>parent := Some p\<rparr>)
      (upd np (\<lambda>q. q\<lparr>sz := sz (ptable s p), tf := (tf (ptable s p))(Eax := 0)\<rparr>) s)) = Ret s2" and m: "fork_maps dio p np s2 = Ret (r, t)"
    using assms(1) unfolding fork_fill_def Let_def by (rule obind_RetE)
  show ?thesis using fork_maps_parent[OF m] dup_files_effect(2)[OF d assms(2)] by simp
qed

text \<open>A running first process without children, and a free slot that names it as its parent.\<close>

definition demo_stale :: "unit system" where
  "demo_stale = on_cpu 1 None (on_cpu 0 (Some 0) (updp 1 (\<lambda>q. q\<lparr>parent := Some 0\<rparr>)
     (upd 0 (\<lambda>p. p\<lparr>state := RUNNING\<rparr>) (upd 1 (\<lambda>_. demo_slot) demo_system))))"

lemma demo_stale_simps [simp]:
  "st demo_stale i = (if i = 0 then RUNNING else UNUSED)" "parent_of demo_stale i = (if i = 1 then Some 0 else None)"
  "killed (ptable demo_stale i) = False" "initproc demo_stale = Some 0" "nextpid demo_stale = 3" "cpu_proc demo_stale c = (if c = 0 then Some 0 else None)"
  "pid (ptable demo_stale i) = (if i = 0 then 1 else 0)" "point (ptable demo_stale i) = Outside"
  "kstack (procs (wld demo_stale) i) \<noteq> 0" "pgdir (procs (wld demo_stale) i) \<noteq> 0"
  by (simp_all add: demo_stale_def demo_slot_def)

lemma demo_stale_ok: "table_ok demo_stale"
proof (rule table_okI)
  show "cpus_ok demo_stale" by (simp add: cpus_ok_def)
  show "pids_ok demo_stale" by (auto simp: pids_ok_def)
  show "family_ok demo_stale" unfolding family_ok_def by (intro exI[of _ 0]) auto
  show "embryos_ok demo_stale" by (rule embryosI) (auto split: if_splits)
  show "waiters_ok demo_stale" by (simp add: waiters_ok_def)
  show "stacks_ok demo_stale" by (simp add: stacks_ok_def)
qed


text \<open>
  (C9) \<open>kill(0)\<close> does not fail: the free slots of the table have process number 0, so it succeeds on the
  first of them and marks it as killed. Nothing resets the mark when the slot is given away, so the
  next process that \<open>fork\<close> creates there is killed from the start.
\<close>

theorem kill_zero_hits_free_slot:
  assumes ok: "table_ok s" and i: "find (\<lambda>j. st s j = UNUSED) [0..<NPROC] = Some i" "pid (ptable s i) = 0"
    and p: "p < NPROC" "st s p = RUNNING" "point (ptable s p) = Outside"
  shows "fst (kill 0 s) = 0 \<and> st (snd (kill 0 s)) i = UNUSED \<and>
    point (ptable (fork_start p (snd (kill 0 s))) p) = Forking i \<and> killed (ptable (fork_start p (snd (kill 0 s))) i) \<and>
    (\<forall>n t. fork data dio p (snd (kill 0 s)) = Ret (n, t) \<longrightarrow> killed (ptable t i))"
proof -
  have ui: "i < NPROC" "st s i = UNUSED" using find_upt_Some[OF i(1)] by auto
  have "st s j \<noteq> UNUSED" if "j < i" for j using i(1) that by (auto simp: find_Some_iff)
  then have "pid (ptable s j) \<noteq> 0" if "j < i" for j
    using ok that ui unfolding table_ok_def pids_ok_def by (metis less_irrefl order_less_trans)
  then have "find (\<lambda>j. pid (ptable s j) = 0) [0..<NPROC] = Some i" using ui(1) i(2) by (intro find_first) auto
  then have kl: "kill 0 s = (0, upd i (\<lambda>p. p\<lparr>killed := True, state := (if state p = SLEEPING then RUNNABLE else state p)\<rparr>) s)"
    by (simp add: kill_def)
  let ?t = "snd (kill 0 s)"
  have t: "ptable ?t = (ptable s)(i := (ptable s i)\<lparr>killed := True, state := UNUSED\<rparr>)" using ui(2) by (simp add: kl)
  have "find (\<lambda>j. st ?t j = UNUSED) [0..<NPROC] = find (\<lambda>j. st s j = UNUSED) [0..<NPROC]" by (rule find_cong) (simp_all add: t ui)
  then have ts: "take_slot ?t = (Some i, (upd i (\<lambda>p. p\<lparr>state := EMBRYO, pid := nextpid ?t\<rparr>) ?t)\<lparr>nextpid := nextpid ?t + 1\<rparr>)"
    using i(1) by (simp add: take_slot_def)
  have pi: "p \<noteq> i" using p ui by auto
  have f: "point (ptable (fork_start p ?t) p) = Forking i" "killed (ptable (fork_start p ?t) i)"
    using pi by (simp_all add: fork_start_def ts set_point_def t)
  have "killed (ptable u i)" if "fork data dio p ?t = Ret (n, u)" for n u
  proof -
    have "fork_copy data dio p i (fork_start p ?t) = Ret (n, u)" using that f(1) by (simp add: fork_def Let_def)
    then have "only_slot p i (fork_start p ?t) u" using fork_copy_effect[of data dio p i "fork_start p ?t" n u] pi by blast
    then show ?thesis using f(2) unfolding only_slot_def by blast
  qed
  then show ?thesis using f kl ui(2) t by auto
qed

theorem kill_zero_hits_free_slot_witness:
  "fst (kill 0 demo_stale) = 0 \<and> st (snd (kill 0 demo_stale)) 1 = UNUSED \<and> killed (ptable (fork_start 0 (snd (kill 0 demo_stale))) 1)"
proof -
  have "find (\<lambda>j. st demo_stale j = UNUSED) [0..<NPROC] = Some 1" by (rule find_first) auto
  from kill_zero_hits_free_slot[OF demo_stale_ok this, of 0 0
      "\<lparr>idup_op = \<lambda>fs _. fs, iput_op = \<lambda>fs _. fs, namei_root = \<lambda>fs. (Some 0, fs)\<rparr>"] show ?thesis by simp
qed

end
