(* ===== verification/Bio.thy ===== *)
theory Bio
  imports Prelude
begin

text \<open>
  The buffer cache (bio.c) over the disk driver's contract (\<open>iderw\<close> of ide.c), as one process uses
  it: the buffers by index, the list of buffers from the most to the least recently used, the disk
  by device and block number. Waiting for a lock this process already holds never ends (\<open>Diverge\<close>).
  The list \<open>disk_log\<close> records every write that reached the disk, in order: a crash is a prefix of it.
\<close>

subsection \<open>State\<close>

type_synonym block = "byte list"
type_synonym bkey = "nat \<times> nat"

definition BSIZE :: nat where "BSIZE = 512"
definition NBUF :: nat where "NBUF = 30"

record buf =
  b_valid :: bool
  b_dirty :: bool
  b_key :: bkey
  b_locked :: bool
  b_refcnt :: u32
  b_data :: block

record bcache =
  bufs :: "buf list"
  mru :: "nat list"
  disk :: "bkey \<Rightarrow> block"
  havedisk1 :: bool
  disk_log :: "(bkey \<times> block) list"

subsection \<open>Operations\<close>

definition upd_buf :: "nat \<Rightarrow> (buf \<Rightarrow> buf) \<Rightarrow> bcache \<Rightarrow> bcache" where
  "upd_buf i f c = c\<lparr>bufs := (bufs c)[i := f (bufs c ! i)]\<rparr>"

definition zero_buf :: buf where
  "zero_buf = \<lparr>b_valid = False, b_dirty = False, b_key = (0, 0), b_locked = False, b_refcnt = 0, b_data = replicate BSIZE 0\<rparr>"

text \<open>The list that \<open>binit\<close> builds has the last buffer at its head.\<close>

definition binit :: "(bkey \<Rightarrow> block) \<Rightarrow> bool \<Rightarrow> bcache" where
  "binit d disk1 = \<lparr>bufs = replicate NBUF zero_buf, mru = rev [0..<NBUF], disk = d, havedisk1 = disk1, disk_log = []\<rparr>"

definition acquiresleep :: "nat \<Rightarrow> bcache \<Rightarrow> bcache outcome" where
  "acquiresleep i c = (if b_locked (bufs c ! i) then Diverge else Ret (upd_buf i (\<lambda>b. b\<lparr>b_locked := True\<rparr>) c))"

definition bget :: "bkey \<Rightarrow> bcache \<Rightarrow> (nat \<times> bcache) outcome" where
  "bget k c =
     (case find (\<lambda>i. b_key (bufs c ! i) = k) (mru c) of
        Some i \<Rightarrow> obind (acquiresleep i (upd_buf i (\<lambda>b. b\<lparr>b_refcnt := b_refcnt b + 1\<rparr>) c)) (\<lambda>c. Ret (i, c))
      | None \<Rightarrow>
          (case find (\<lambda>i. b_refcnt (bufs c ! i) = 0 \<and> \<not> b_dirty (bufs c ! i)) (rev (mru c)) of
             Some i \<Rightarrow> obind (acquiresleep i (upd_buf i (\<lambda>b. b\<lparr>b_key := k, b_valid := False, b_dirty := False, b_refcnt := 1\<rparr>) c)) (\<lambda>c. Ret (i, c))
           | None \<Rightarrow> Panic ''bget: no buffers''))"

definition iderw :: "nat \<Rightarrow> bcache \<Rightarrow> bcache outcome" where
  "iderw i c =
     (let b = bufs c ! i in
      if \<not> b_locked b then Panic ''iderw: buf not locked''
      else if b_valid b \<and> \<not> b_dirty b then Panic ''iderw: nothing to do''
      else if fst (b_key b) \<noteq> 0 \<and> \<not> havedisk1 c then Panic ''iderw: ide disk 1 not present''
      else if b_dirty b
      then Ret ((upd_buf i (\<lambda>b. b\<lparr>b_valid := True, b_dirty := False\<rparr>) c)
                  \<lparr>disk := (disk c)(b_key b := b_data b), disk_log := disk_log c @ [(b_key b, b_data b)]\<rparr>)
      else Ret (upd_buf i (\<lambda>b. b\<lparr>b_valid := True, b_data := disk c (b_key b)\<rparr>) c))"

definition bread :: "bkey \<Rightarrow> bcache \<Rightarrow> (nat \<times> bcache) outcome" where
  "bread k c = obind (bget k c) (\<lambda>(i, c). if \<not> b_valid (bufs c ! i) then obind (iderw i c) (\<lambda>c. Ret (i, c)) else Ret (i, c))"

definition bwrite :: "nat \<Rightarrow> bcache \<Rightarrow> bcache outcome" where
  "bwrite i c = (if \<not> b_locked (bufs c ! i) then Panic ''bwrite'' else iderw i (upd_buf i (\<lambda>b. b\<lparr>b_dirty := True\<rparr>) c))"

definition brelse :: "nat \<Rightarrow> bcache \<Rightarrow> bcache outcome" where
  "brelse i c =
     (if \<not> b_locked (bufs c ! i) then Panic ''brelse''
      else let c1 = upd_buf i (\<lambda>b. b\<lparr>b_locked := False, b_refcnt := b_refcnt b - 1\<rparr>) c
           in Ret (if b_refcnt (bufs c1 ! i) = 0 then c1\<lparr>mru := i # remove1 i (mru c1)\<rparr> else c1))"

text \<open>What the code does with \<open>b->data\<close> between \<open>bread\<close> and \<open>brelse\<close>.\<close>

definition set_data :: "nat \<Rightarrow> block \<Rightarrow> bcache \<Rightarrow> bcache" where
  "set_data i d = upd_buf i (\<lambda>b. b\<lparr>b_data := d\<rparr>)"

subsection \<open>The invariant\<close>

text \<open>
  The list holds every buffer once; a buffer of a real device caches a block no other buffer
  caches; a buffer is referenced exactly while it is locked; what is neither dirty nor in use agrees
  with the disk.
\<close>

definition cache_ok :: "bcache \<Rightarrow> bool" where
  "cache_ok c \<longleftrightarrow> length (bufs c) = NBUF \<and> distinct (mru c) \<and> set (mru c) = {..<NBUF}
     \<and> (\<forall>i<NBUF. \<forall>j<NBUF. fst (b_key (bufs c ! i)) \<noteq> 0 \<longrightarrow> b_key (bufs c ! i) = b_key (bufs c ! j) \<longrightarrow> i = j)
     \<and> (\<forall>i<NBUF. b_refcnt (bufs c ! i) = (if b_locked (bufs c ! i) then 1 else 0))
     \<and> (\<forall>i<NBUF. b_dirty (bufs c ! i) \<longrightarrow> b_valid (bufs c ! i) \<and> fst (b_key (bufs c ! i)) \<noteq> 0)
     \<and> (\<forall>i<NBUF. b_valid (bufs c ! i) \<longrightarrow> \<not> b_dirty (bufs c ! i) \<longrightarrow> \<not> b_locked (bufs c ! i) \<longrightarrow> b_data (bufs c ! i) = disk c (b_key (bufs c ! i)))"

definition in_use :: "bcache \<Rightarrow> nat set" where
  "in_use c = {i. i < NBUF \<and> b_locked (bufs c ! i)}"

definition dirty :: "bcache \<Rightarrow> nat set" where
  "dirty c = {i. i < NBUF \<and> b_dirty (bufs c ! i)}"

text \<open>
  What a client knows of the cache: \<open>U\<close>, the blocks it has locked; \<open>P\<close>, the blocks pinned because
  they are dirty; \<open>V\<close>, the contents of the blocks as a reader sees them; the disk and its log.
\<close>

definition shows_block :: "bcache \<Rightarrow> bkey \<Rightarrow> block \<Rightarrow> bool" where
  "shows_block c k x \<longleftrightarrow> (\<forall>i<NBUF. b_key (bufs c ! i) = k \<longrightarrow> b_valid (bufs c ! i) \<longrightarrow> b_data (bufs c ! i) = x)
     \<and> ((\<forall>i<NBUF. b_key (bufs c ! i) = k \<longrightarrow> \<not> b_valid (bufs c ! i)) \<longrightarrow> disk c k = x)"

definition sees :: "bcache \<Rightarrow> bkey set \<Rightarrow> bkey set \<Rightarrow> (bkey \<Rightarrow> block) \<Rightarrow> (bkey \<Rightarrow> block) \<Rightarrow> (bkey \<times> block) list \<Rightarrow> bool" where
  "sees c U P V d L \<longleftrightarrow> cache_ok c \<and> havedisk1 c \<and> (\<lambda>i. b_key (bufs c ! i)) ` in_use c = U \<and> (\<lambda>i. b_key (bufs c ! i)) ` dirty c = P
     \<and> (\<forall>i\<in>in_use c. fst (b_key (bufs c ! i)) \<noteq> 0 \<and> b_valid (bufs c ! i)) \<and> (\<forall>k. fst k \<noteq> 0 \<longrightarrow> shows_block c k (V k)) \<and> disk c = d \<and> disk_log c = L"

definition holds :: "bcache \<Rightarrow> nat \<Rightarrow> bkey \<Rightarrow> bool" where
  "holds c i k \<longleftrightarrow> i \<in> in_use c \<and> b_key (bufs c ! i) = k"

lemma cache_okD:
  assumes "cache_ok c"
  shows "length (bufs c) = NBUF" and "distinct (mru c)" and "set (mru c) = {..<NBUF}"
    and "i < NBUF \<Longrightarrow> j < NBUF \<Longrightarrow> fst (b_key (bufs c ! i)) \<noteq> 0 \<Longrightarrow> b_key (bufs c ! i) = b_key (bufs c ! j) \<Longrightarrow> i = j"
    and "i < NBUF \<Longrightarrow> b_refcnt (bufs c ! i) = (if b_locked (bufs c ! i) then 1 else 0)"
    and "i < NBUF \<Longrightarrow> b_dirty (bufs c ! i) \<Longrightarrow> b_valid (bufs c ! i) \<and> fst (b_key (bufs c ! i)) \<noteq> 0"
    and "i < NBUF \<Longrightarrow> b_valid (bufs c ! i) \<Longrightarrow> \<not> b_dirty (bufs c ! i) \<Longrightarrow> \<not> b_locked (bufs c ! i) \<Longrightarrow> b_data (bufs c ! i) = disk c (b_key (bufs c ! i))"
  using assms unfolding cache_ok_def by blast+

text \<open>Replacing one buffer.\<close>

lemma cache_ok_upd:
  assumes "cache_ok c" and "i < NBUF" and "bufs c' = (bufs c)[i := b]" and "distinct (mru c')" and "set (mru c') = {..<NBUF}"
    and "fst (b_key b) \<noteq> 0 \<Longrightarrow> (\<And>j. j < NBUF \<Longrightarrow> j \<noteq> i \<Longrightarrow> b_key (bufs c ! j) \<noteq> b_key b)"
    and "b_refcnt b = (if b_locked b then 1 else 0)" and "b_dirty b \<Longrightarrow> b_valid b \<and> fst (b_key b) \<noteq> 0"
    and "b_valid b \<Longrightarrow> \<not> b_dirty b \<Longrightarrow> \<not> b_locked b \<Longrightarrow> b_data b = disk c' (b_key b)"
    and "\<And>j. j < NBUF \<Longrightarrow> j \<noteq> i \<Longrightarrow> disk c' (b_key (bufs c ! j)) = disk c (b_key (bufs c ! j))"
  shows "cache_ok c'"
proof -
  note C = cache_okD[OF assms(1)]
  have nth: "bufs c' ! j = (if j = i then b else bufs c ! j)" if "j < NBUF" for j using that C(1) assms(3) by simp
  have uniq: "j = m" if "j < NBUF" "m < NBUF" "fst (b_key (bufs c' ! j)) \<noteq> 0" "b_key (bufs c' ! j) = b_key (bufs c' ! m)" for j m
  proof (cases "j = i \<or> m = i")
    case True
    then show ?thesis using that assms(6)[of m] assms(6)[of j] nth by (metis (full_types))
  next
    case False
    then show ?thesis using that C(4)[of j m] nth by simp
  qed
  have same: "b_data (bufs c' ! j) = disk c' (b_key (bufs c' ! j))"
    if "j < NBUF" "b_valid (bufs c' ! j)" "\<not> b_dirty (bufs c' ! j)" "\<not> b_locked (bufs c' ! j)" for j
    using that nth C(7)[of j] assms(9,10) by (cases "j = i") auto
  have ref: "b_refcnt (bufs c' ! j) = (if b_locked (bufs c' ! j) then 1 else 0)" if "j < NBUF" for j
    using that nth C(5)[of j] assms(7) by (cases "j = i") auto
  have dirt: "b_valid (bufs c' ! j) \<and> fst (b_key (bufs c' ! j)) \<noteq> 0" if "j < NBUF" "b_dirty (bufs c' ! j)" for j
    using that nth C(6)[of j] assms(8) by (cases "j = i") auto
  have len: "length (bufs c') = NBUF" using assms(3) C(1) by simp
  show ?thesis unfolding cache_ok_def using len assms(4,5) uniq ref dirt same by blast
qed

lemma image_update:
  assumes "\<And>j. j \<in> A \<Longrightarrow> j \<noteq> i \<Longrightarrow> g j = f j \<and> f j \<noteq> k" and "i \<in> A \<Longrightarrow> f i = k" and "g i = k" and "A' = (if q then insert i A else A - {i})"
  shows "g ` A' = (if q then insert k (f ` A) else f ` A - {k})"
proof -
  have "g ` (A - {i}) = f ` (A - {i})" using assms(1) by (intro image_cong) auto
  moreover have "f ` A - {k} = f ` (A - {i})" using assms(1,2) by auto
  moreover have "insert k (f ` A) = insert k (f ` (A - {i}))" using assms(2) by auto
  moreover have "g ` insert i A = insert (g i) (g ` (A - {i}))" by auto
  ultimately show ?thesis using assms(3,4) by simp
qed

lemma sees_upd:
  assumes S: "sees c U P V d L" and i: "i < NBUF" and c': "bufs c' = (bufs c)[i := b]" and m: "distinct (mru c')" "set (mru c') = {..<NBUF}" "havedisk1 c'"
    and k: "b_key b = k" "fst k \<noteq> 0" and uniq: "\<And>j. j < NBUF \<Longrightarrow> j \<noteq> i \<Longrightarrow> b_key (bufs c ! j) \<noteq> k"
    and b: "b_refcnt b = (if b_locked b then 1 else 0)" "b_valid b" and old: "b_key (bufs c ! i) = k \<or> \<not> b_locked (bufs c ! i) \<and> \<not> b_dirty (bufs c ! i)"
    and clean: "\<not> b_dirty b \<Longrightarrow> \<not> b_locked b \<Longrightarrow> b_data b = disk c' k" and others: "\<And>m. m \<noteq> k \<Longrightarrow> disk c' m = d m"
  shows "sees c' (if b_locked b then insert k U else U - {k}) (if b_dirty b then insert k P else P - {k}) (V(k := b_data b)) (disk c') (disk_log c')"
proof -
  have C0: "cache_ok c" and U: "(\<lambda>i. b_key (bufs c ! i)) ` in_use c = U" and P: "(\<lambda>i. b_key (bufs c ! i)) ` dirty c = P"
    and use: "\<And>i. i \<in> in_use c \<Longrightarrow> fst (b_key (bufs c ! i)) \<noteq> 0 \<and> b_valid (bufs c ! i)" and V: "\<And>k. fst k \<noteq> 0 \<Longrightarrow> shows_block c k (V k)" and d: "disk c = d"
    using S unfolding sees_def by blast+
  note C = cache_okD[OF C0]
  have nth: "bufs c' ! j = (if j = i then b else bufs c ! j)" if "j < NBUF" for j using that C(1) c' by simp
  have ok: "cache_ok c'" using k b clean uniq others d by (intro cache_ok_upd[OF C0 i c' m(1,2)]) auto
  have iu: "in_use c' = (if b_locked b then insert i (in_use c) else in_use c - {i})"
    and di: "dirty c' = (if b_dirty b then insert i (dirty c) else dirty c - {i})"
    using nth i by (auto simp: in_use_def dirty_def split: if_splits)
  have "(\<lambda>j. b_key (bufs c' ! j)) ` in_use c' = (if b_locked b then insert k U else U - {k})"
    unfolding U[symmetric] by (rule image_update[OF _ _ _ iu]) (use nth uniq old k(1) i in \<open>auto simp: in_use_def\<close>)
  moreover have "(\<lambda>j. b_key (bufs c' ! j)) ` dirty c' = (if b_dirty b then insert k P else P - {k})"
    unfolding P[symmetric] by (rule image_update[OF _ _ _ di]) (use nth uniq old k(1) i in \<open>auto simp: dirty_def\<close>)
  moreover have "fst (b_key (bufs c' ! j)) \<noteq> 0 \<and> b_valid (bufs c' ! j)" if "j \<in> in_use c'" for j
    using that nth use[of j] k b(2) by (cases "j = i") (auto simp: in_use_def)
  moreover have "shows_block c' m ((V(k := b_data b)) m)" if m: "fst m \<noteq> 0" for m
  proof (cases "m = k")
    case True
    then show ?thesis using nth uniq k b(2) i by (auto simp: shows_block_def)
  next
    case mk: False
    have Vm: "shows_block c m (V m)" using V m by blast
    show ?thesis
    proof (cases "b_key (bufs c ! i) = m")
      case True
      then have "\<not> b_locked (bufs c ! i)" "\<not> b_dirty (bufs c ! i)" using old mk by auto
      then have "disk c m = V m" using Vm C(7)[OF i] C(4)[OF i] True i m unfolding shows_block_def by metis
      moreover have "b_key (bufs c' ! j) \<noteq> m" if "j < NBUF" for j using that nth True C(4)[OF i, of j] m mk k by auto
      ultimately show ?thesis using others[OF mk] d mk by (auto simp: shows_block_def)
    next
      case False
      then have "(b_key (bufs c' ! j) = m \<and> b_valid (bufs c' ! j)) = (b_key (bufs c ! j) = m \<and> b_valid (bufs c ! j))"
        "b_key (bufs c ! j) = m \<Longrightarrow> bufs c' ! j = bufs c ! j" if "j < NBUF" for j using that nth[OF that] mk k(1) by auto
      then show ?thesis using Vm others[OF mk] d mk unfolding shows_block_def by (metis fun_upd_other)
    qed
  qed
  ultimately show ?thesis using ok m(3) by (auto simp: sees_def)
qed

subsection \<open>What each operation does\<close>

lemma seesD:
  assumes "sees c U P V d L"
  shows "cache_ok c" and "havedisk1 c" and "disk c = d" and "disk_log c = L" and "length (bufs c) = NBUF" and "distinct (mru c)" and "set (mru c) = {..<NBUF}"
  using assms unfolding sees_def cache_ok_def by blast+

lemma holdsD:
  assumes "sees c U P V d L" and "holds c i k"
  shows "i < NBUF" and "b_locked (bufs c ! i)" and "b_key (bufs c ! i) = k" and "fst k \<noteq> 0" and "b_valid (bufs c ! i)" and "b_refcnt (bufs c ! i) = 1"
    and "b_data (bufs c ! i) = V k" and "j < NBUF \<Longrightarrow> j \<noteq> i \<Longrightarrow> b_key (bufs c ! j) \<noteq> k" and "k \<in> U" and "b_dirty (bufs c ! i) \<longleftrightarrow> k \<in> P"
proof -
  have C0: "cache_ok c" using assms(1) by (simp add: sees_def)
  note C = cache_okD[OF C0]
  show i: "i < NBUF" and l: "b_locked (bufs c ! i)" and k: "b_key (bufs c ! i) = k" using assms(2) by (auto simp: holds_def in_use_def)
  show f: "fst k \<noteq> 0" and v: "b_valid (bufs c ! i)" and "k \<in> U" using assms k unfolding sees_def holds_def by blast+
  show "b_refcnt (bufs c ! i) = 1" using C(5)[OF i] l by simp
  have "shows_block c k (V k)" using assms(1) f unfolding sees_def by blast
  then show "b_data (bufs c ! i) = V k" using i k v by (simp add: shows_block_def)
  show u: "j < NBUF \<Longrightarrow> j \<noteq> i \<Longrightarrow> b_key (bufs c ! j) \<noteq> k" for j using C(4)[OF i, of j] k f by auto
  have "P = (\<lambda>i. b_key (bufs c ! i)) ` dirty c" using assms(1) by (simp add: sees_def)
  then show "b_dirty (bufs c ! i) \<longleftrightarrow> k \<in> P" using i k u unfolding dirty_def by (smt (verit) image_iff mem_Collect_eq)
qed

lemma holds_upd:
  assumes "holds c i k" and "length (bufs c) = NBUF" and "bufs c' = (bufs c)[j := b]" and "i \<noteq> j \<or> b_locked b \<and> b_key b = k"
  shows "holds c' i k"
  using assms by (cases "i = j") (auto simp: holds_def in_use_def)

lemma set_data_ok:
  assumes S: "sees c U P V d L" and h: "holds c i k"
  shows "sees (set_data i x c) U P (V(k := x)) d L" and "holds c j m \<Longrightarrow> holds (set_data i x c) j m"
proof -
  note H = holdsD[OF S h] and D = seesD[OF S]
  have "sees (set_data i x c) (insert k U) (if k \<in> P then insert k P else P - {k}) (V(k := x)) (disk c) (disk_log c)"
    using sees_upd[OF S H(1), of "set_data i x c" "(bufs c ! i)\<lparr>b_data := x\<rparr>" k] H D by (simp add: set_data_def upd_buf_def)
  then show "sees (set_data i x c) U P (V(k := x)) d L" using H(9) D by (simp add: insert_absorb split: if_splits)
  show "holds (set_data i x c) j m" if "holds c j m"
    by (rule holds_upd[OF that, of _ i "(bufs c ! i)\<lparr>b_data := x\<rparr>"]) (use D that H in \<open>auto simp: set_data_def upd_buf_def holds_def\<close>)
qed

lemma mark_dirty_ok:
  assumes S: "sees c U P V d L" and h: "holds c i k"
  shows "sees (upd_buf i (\<lambda>b. b\<lparr>b_dirty := True\<rparr>) c) U (insert k P) V d L" and "holds c j m \<Longrightarrow> holds (upd_buf i (\<lambda>b. b\<lparr>b_dirty := True\<rparr>) c) j m"
proof -
  note H = holdsD[OF S h] and D = seesD[OF S]
  let ?c = "upd_buf i (\<lambda>b. b\<lparr>b_dirty := True\<rparr>) c"
  have "sees ?c (insert k U) (insert k P) (V(k := V k)) (disk c) (disk_log c)"
    using sees_upd[OF S H(1), of ?c "(bufs c ! i)\<lparr>b_dirty := True\<rparr>" k] H D by (simp add: upd_buf_def)
  then show "sees ?c U (insert k P) V d L" using H(9) D by (simp add: insert_absorb)
  show "holds ?c j m" if "holds c j m"
    by (rule holds_upd[OF that, of _ i "(bufs c ! i)\<lparr>b_dirty := True\<rparr>"]) (use D that H in \<open>auto simp: upd_buf_def holds_def\<close>)
qed

lemma bwrite_ok:
  assumes S: "sees c U P V d L" and h: "holds c i k"
  shows "\<exists>c'. bwrite i c = Ret c' \<and> sees c' U (P - {k}) V (d(k := V k)) (L @ [(k, V k)]) \<and> (\<forall>j m. holds c j m \<longrightarrow> holds c' j m)"
proof -
  note H = holdsD[OF S h] and D = seesD[OF S]
  let ?b = "(bufs c ! i)\<lparr>b_valid := True, b_dirty := False\<rparr>"
  let ?c = "c\<lparr>bufs := (bufs c)[i := ?b], disk := (disk c)(k := V k), disk_log := disk_log c @ [(k, V k)]\<rparr>"
  have "bwrite i c = Ret ?c" using H D by (simp add: bwrite_def iderw_def upd_buf_def)
  moreover have "sees ?c (insert k U) (P - {k}) (V(k := V k)) ((disk c)(k := V k)) (disk_log c @ [(k, V k)])"
    using sees_upd[OF S H(1), of ?c ?b k] H D by simp
  then have "sees ?c U (P - {k}) V (d(k := V k)) (L @ [(k, V k)])" using H(9) D by (simp add: insert_absorb)
  moreover have "holds ?c j m" if "holds c j m" for j m
    by (rule holds_upd[OF that, of _ i ?b]) (use D that H in \<open>auto simp: holds_def\<close>)
  ultimately show ?thesis by blast
qed

lemma brelse_ok:
  assumes S: "sees c U P V d L" and h: "holds c i k" and "k \<in> P \<or> V k = d k"
  shows "\<exists>c'. brelse i c = Ret c' \<and> sees c' (U - {k}) P V d L \<and> (\<forall>j m. j \<noteq> i \<longrightarrow> holds c j m \<longrightarrow> holds c' j m)"
proof -
  note H = holdsD[OF S h] and D = seesD[OF S]
  let ?b = "(bufs c ! i)\<lparr>b_locked := False, b_refcnt := 0\<rparr>"
  let ?c = "c\<lparr>bufs := (bufs c)[i := ?b], mru := i # remove1 i (mru c)\<rparr>"
  have m: "distinct (i # remove1 i (mru c))" "set (i # remove1 i (mru c)) = {..<NBUF}" using D(6,7) H(1) by auto
  have "brelse i c = Ret ?c" using H D by (simp add: brelse_def upd_buf_def)
  moreover have "sees ?c (U - {k}) (if k \<in> P then insert k P else P - {k}) (V(k := V k)) (disk ?c) (disk_log ?c)"
    using sees_upd[OF S H(1), of ?c ?b k] H m assms(3) D by auto
  then have "sees ?c (U - {k}) P V d L" using D by (simp add: insert_absorb split: if_splits)
  moreover have "holds ?c j m" if "holds c j m" "j \<noteq> i" for j m
    by (rule holds_upd[OF that(1), of _ i ?b]) (use D that in auto)
  ultimately show ?thesis by blast
qed

text \<open>Enough buffers are neither locked nor pinned.\<close>

lemma free_buf:
  assumes S: "sees c U P V d L" and "card (U \<union> P) < NBUF"
  shows "\<exists>i<NBUF. \<not> b_locked (bufs c ! i) \<and> \<not> b_dirty (bufs c ! i)"
proof (rule ccontr)
  assume "\<not> ?thesis"
  then have all: "in_use c \<union> dirty c = {..<NBUF}" by (auto simp: in_use_def dirty_def)
  have "inj_on (\<lambda>i. b_key (bufs c ! i)) {..<NBUF}"
  proof (rule inj_onI)
    fix i j assume ij: "i \<in> {..<NBUF}" "j \<in> {..<NBUF}" "b_key (bufs c ! i) = b_key (bufs c ! j)"
    have "i \<in> in_use c \<or> i \<in> dirty c" using all ij(1) by blast
    then have "fst (b_key (bufs c ! i)) \<noteq> 0" using S cache_okD(6)[OF seesD(1)[OF S], of i] unfolding sees_def dirty_def by blast
    then show "i = j" using cache_okD(4)[OF seesD(1)[OF S]] ij by simp
  qed
  then have "card ((\<lambda>i. b_key (bufs c ! i)) ` (in_use c \<union> dirty c)) = NBUF" unfolding all by (simp add: card_image)
  moreover have "(\<lambda>i. b_key (bufs c ! i)) ` (in_use c \<union> dirty c) = U \<union> P" using S unfolding sees_def by (simp add: image_Un)
  ultimately show False using assms(2) by simp
qed

lemma find_not_None: "x \<in> set xs \<Longrightarrow> Q x \<Longrightarrow> \<exists>y. find Q xs = Some y"
  by (metis find_None_iff not_Some_eq)

lemma find_SomeD: "find Q xs = Some x \<Longrightarrow> x \<in> set xs \<and> Q x"
  by (metis find_Some_iff nth_mem)

lemma bread_ok:
  assumes S: "sees c U P V d L" and k: "fst k \<noteq> 0" "k \<notin> U" and room: "k \<in> P \<or> card (U \<union> P) < NBUF"
  shows "\<exists>i c'. bread k c = Ret (i, c') \<and> sees c' (insert k U) P V d L \<and> holds c' i k \<and> b_data (bufs c' ! i) = V k
    \<and> (\<forall>j m. holds c j m \<longrightarrow> holds c' j m)"
proof -
  note D = seesD[OF S] and C = cache_okD[OF seesD(1)[OF S]]
  have Vk: "shows_block c k (V k)" using S k unfolding sees_def by blast
  have unl: "\<not> b_locked (bufs c ! i)" if "i < NBUF" "b_key (bufs c ! i) = k" for i
    using that S k(2) unfolding sees_def in_use_def by blast
  have res: "\<exists>i c'. bread k c = Ret (i, c') \<and> sees c' (insert k U) P V d L \<and> holds c' i k \<and> b_data (bufs c' ! i) = V k
    \<and> (\<forall>j m. holds c j m \<longrightarrow> holds c' j m)"
    if i: "i < NBUF" "\<not> b_locked (bufs c ! i)" and u: "\<And>j. j < NBUF \<Longrightarrow> j \<noteq> i \<Longrightarrow> b_key (bufs c ! j) \<noteq> k"
      and b: "b_valid b" "b_key b = k" "b_locked b" "b_refcnt b = 1" "b_data b = V k" "b_dirty b \<longleftrightarrow> k \<in> P"
      and old: "b_key (bufs c ! i) = k \<or> \<not> b_dirty (bufs c ! i)" and r: "bread k c = Ret (i, c\<lparr>bufs := (bufs c)[i := b]\<rparr>)" for i b
  proof -
    let ?c = "c\<lparr>bufs := (bufs c)[i := b]\<rparr>"
    have "sees ?c (insert k U) (if b_dirty b then insert k P else P - {k}) (V(k := b_data b)) (disk ?c) (disk_log ?c)"
      using sees_upd[OF S i(1), of ?c b k] b u k D i(2) old by simp
    then have "sees ?c (insert k U) P V d L" using b(5,6) D by (simp add: insert_absorb split: if_splits)
    moreover have "holds ?c i k" "b_data (bufs ?c ! i) = V k" using b i(1) D(5) by (auto simp: holds_def in_use_def)
    moreover have "holds ?c j m" if "holds c j m" for j m
      by (rule holds_upd[OF that, of _ i b]) (use D(5) that i(2) in \<open>auto simp: holds_def in_use_def\<close>)
    ultimately show ?thesis using r by blast
  qed
  show ?thesis
  proof (cases "find (\<lambda>i. b_key (bufs c ! i) = k) (mru c)")
    case (Some i)
    then have i: "i < NBUF" "b_key (bufs c ! i) = k" using find_SomeD[OF Some] D(7) by auto
    have u: "b_key (bufs c ! j) \<noteq> k" if "j < NBUF" "j \<noteq> i" for j using C(4)[OF i(1), of j] that i(2) k(1) by auto
    have P: "b_dirty (bufs c ! i) \<longleftrightarrow> k \<in> P" using S i u unfolding sees_def dirty_def by (smt (verit) image_iff mem_Collect_eq)
    let ?b = "(bufs c ! i)\<lparr>b_refcnt := 1, b_locked := True, b_valid := True, b_data := V k\<rparr>"
    have "bread k c = Ret (i, c\<lparr>bufs := (bufs c)[i := ?b]\<rparr>)"
    proof (cases "b_valid (bufs c ! i)")
      case True
      then have "b_data (bufs c ! i) = V k" using Vk i by (simp add: shows_block_def)
      then have "?b = (bufs c ! i)\<lparr>b_refcnt := 1, b_locked := True\<rparr>" using True by (intro buf.equality) simp_all
      then show ?thesis using Some i D True unl[OF i] C(5)[OF i(1)] by (simp add: bread_def bget_def acquiresleep_def upd_buf_def)
    next
      case False
      then have "disk c k = V k" "\<not> b_dirty (bufs c ! i)" using Vk i u C(6)[OF i(1)] unfolding shows_block_def by metis+
      then show ?thesis using Some i D False unl[OF i] C(5)[OF i(1)] by (simp add: bread_def bget_def acquiresleep_def upd_buf_def iderw_def)
    qed
    then show ?thesis using res[of i ?b] i u unl[OF i] P by simp
  next
    case None
    then have nk: "b_key (bufs c ! j) \<noteq> k" if "j < NBUF" for j using that D(7) by (auto simp: find_None_iff)
    then have kP: "k \<notin> P" using S unfolding sees_def dirty_def by blast
    then obtain j where "j < NBUF" "\<not> b_locked (bufs c ! j)" "\<not> b_dirty (bufs c ! j)" using free_buf[OF S] room by blast
    then have "j \<in> set (rev (mru c))" "b_refcnt (bufs c ! j) = 0 \<and> \<not> b_dirty (bufs c ! j)" using C(5)[of j] D(7) by simp_all
    from find_not_None[where Q = "\<lambda>i. b_refcnt (bufs c ! i) = 0 \<and> \<not> b_dirty (bufs c ! i)", OF this]
    obtain i where f: "find (\<lambda>i. b_refcnt (bufs c ! i) = 0 \<and> \<not> b_dirty (bufs c ! i)) (rev (mru c)) = Some i" by blast
    then have i: "i < NBUF" "\<not> b_dirty (bufs c ! i)" "\<not> b_locked (bufs c ! i)" using find_SomeD[OF f] D(7) C(5)[of i] by (auto split: if_splits)
    have V: "disk c k = V k" using Vk nk by (simp add: shows_block_def)
    let ?b = "(bufs c ! i)\<lparr>b_key := k, b_dirty := False, b_refcnt := 1, b_locked := True, b_valid := True, b_data := V k\<rparr>"
    have "bread k c = Ret (i, c\<lparr>bufs := (bufs c)[i := ?b]\<rparr>)"
      using None f i D V by (simp add: bread_def bget_def acquiresleep_def upd_buf_def iderw_def)
    then show ?thesis using res[of i ?b] i nk kP by simp
  qed
qed

lemma binit_ok: "sees (binit d True) {} {} d d []"
  unfolding sees_def cache_ok_def binit_def zero_buf_def in_use_def dirty_def shows_block_def by auto

end
