(* ===== verification/Log.thy ===== *)
theory Log
  imports Bio
begin

text \<open>
  The write-ahead log (log.c): system calls bracket their block updates with \<open>begin_op\<close> and
  \<open>end_op\<close>, the last one to end commits all updates through the log, and \<open>initlog\<close> replays a
  committed transaction after a crash. Reading or writing the header past the end of
  \<open>log.lh.block\<close> is the outcome \<open>Panic ''out of bounds''\<close>.
\<close>

subsection \<open>Integers in blocks\<close>

definition get32 :: "block \<Rightarrow> nat \<Rightarrow> u32" where
  "get32 d a = ucast (d ! a) OR push_bit 8 (ucast (d ! (a + 1))) OR push_bit 16 (ucast (d ! (a + 2))) OR push_bit 24 (ucast (d ! (a + 3)))"

definition put32 :: "nat \<Rightarrow> u32 \<Rightarrow> block \<Rightarrow> block" where
  "put32 a v d = d[a := ucast v, a + 1 := ucast (drop_bit 8 v), a + 2 := ucast (drop_bit 16 v), a + 3 := ucast (drop_bit 24 v)]"

lemma length_put32 [simp]: "length (put32 a v d) = length d"
  by (simp add: put32_def)

lemma get32_put32 [simp]: "a + 3 < length d \<Longrightarrow> get32 (put32 a v d) a = v"
proof (rule bit_word_eqI)
  fix n assume a: "a + 3 < length d" and "n < LENGTH(32)"
  then consider "n < 8" | m where "n = 8 + m" "m < 8" | m where "n = 16 + m" "m < 8" | m where "n = 24 + m" "m < 8"
    using le_Suc_ex[of 8 n] le_Suc_ex[of 16 n] le_Suc_ex[of 24 n] by force
  then show "bit (get32 (put32 a v d) a) n = bit v n"
    using a by cases (simp_all add: get32_def put32_def bit_simps)
qed

lemma get32_put32_other [simp]: "a + 3 < b \<or> b + 3 < a \<Longrightarrow> get32 (put32 a v d) b = get32 d b"
  by (auto simp: get32_def put32_def)

subsection \<open>The log in memory\<close>

definition LOGSIZE :: nat where "LOGSIZE = 30"
definition MAXOPBLOCKS :: nat where "MAXOPBLOCKS = 10"

record log =
  l_start :: nat
  l_size :: int
  outstanding :: int
  committing :: bool
  l_dev :: nat
  lh_n :: int
  lh_block :: "u32 list"

definition zero_log :: log where
  "zero_log = \<lparr>l_start = 0, l_size = 0, outstanding = 0, committing = False, l_dev = 0, lh_n = 0, lh_block = replicate LOGSIZE 0\<rparr>"

text \<open>A loop over the indices below a bound.\<close>

fun for_each :: "'i list \<Rightarrow> ('i \<Rightarrow> 's \<Rightarrow> 's outcome) \<Rightarrow> 's \<Rightarrow> 's outcome" where
  "for_each [] f s = Ret s"
| "for_each (i # is) f s = obind (f i s) (for_each is f)"

text \<open>\<open>log.lh.block[i]\<close> as a block of the device.\<close>

definition home_key :: "log \<Rightarrow> nat \<Rightarrow> bkey" where
  "home_key l i = (l_dev l, unat (lh_block l ! i))"

definition log_key :: "log \<Rightarrow> nat \<Rightarrow> bkey" where
  "log_key l tail = (l_dev l, l_start l + tail + 1)"

definition in_bounds :: "log \<Rightarrow> 'a outcome \<Rightarrow> 'a outcome" where
  "in_bounds l r = (if int LOGSIZE < lh_n l then Panic ''out of bounds'' else r)"

definition install_one :: "log \<Rightarrow> nat \<Rightarrow> bcache \<Rightarrow> bcache outcome" where
  "install_one l tail c =
     obind (bread (log_key l tail) c) (\<lambda>(lbuf, c).
     obind (bread (home_key l tail) c) (\<lambda>(dbuf, c).
     obind (bwrite dbuf (set_data dbuf (b_data (bufs c ! lbuf)) c)) (\<lambda>c.
     obind (brelse lbuf c) (\<lambda>c.
     brelse dbuf c))))"

definition install_trans :: "log \<Rightarrow> bcache \<Rightarrow> bcache outcome" where
  "install_trans l c = in_bounds l (for_each [0..<nat (lh_n l)] (install_one l) c)"

definition read_head :: "log \<Rightarrow> bcache \<Rightarrow> (log \<times> bcache) outcome" where
  "read_head l c =
     obind (bread (l_dev l, l_start l) c) (\<lambda>(b, c).
       let d = b_data (bufs c ! b); n = sint (get32 d 0);
           l1 = l\<lparr>lh_n := n, lh_block := foldl (\<lambda>bs i. bs[i := get32 d (4 + 4 * i)]) (lh_block l) [0..<nat n]\<rparr>
       in in_bounds l1 (obind (brelse b c) (\<lambda>c. Ret (l1, c))))"

definition put_head :: "log \<Rightarrow> block \<Rightarrow> block" where
  "put_head l d = foldl (\<lambda>d i. put32 (4 + 4 * i) (lh_block l ! i) d) (put32 0 (word_of_int (lh_n l)) d) [0..<nat (lh_n l)]"

definition write_head :: "log \<Rightarrow> bcache \<Rightarrow> bcache outcome" where
  "write_head l c =
     obind (bread (l_dev l, l_start l) c) (\<lambda>(b, c).
     in_bounds l (obind (bwrite b (set_data b (put_head l (b_data (bufs c ! b))) c)) (\<lambda>c. brelse b c)))"

definition recover_from_log :: "log \<Rightarrow> bcache \<Rightarrow> (log \<times> bcache) outcome" where
  "recover_from_log l c =
     obind (read_head l c) (\<lambda>(l, c).
     obind (install_trans l c) (\<lambda>c.
     let l = l\<lparr>lh_n := 0\<rparr> in
     obind (write_head l c) (\<lambda>c. Ret (l, c))))"

text \<open>\<open>readsb\<close> of fs.c: the number of log blocks and the first one, at their offsets in the super block.\<close>

definition readsb :: "nat \<Rightarrow> bcache \<Rightarrow> ((nat \<times> nat) \<times> bcache) outcome" where
  "readsb dev c =
     obind (bread (dev, 1) c) (\<lambda>(b, c).
       let d = b_data (bufs c ! b)
       in obind (brelse b c) (\<lambda>c. Ret ((unat (get32 d 16), unat (get32 d 12)), c)))"

definition initlog :: "nat \<Rightarrow> bcache \<Rightarrow> (log \<times> bcache) outcome" where
  "initlog dev c =
     (if 4 * (LOGSIZE + 1) \<ge> BSIZE then Panic ''initlog: too big logheader''
      else obind (readsb dev c) (\<lambda>((logstart, nlog), c).
        recover_from_log (zero_log\<lparr>l_start := logstart, l_size := int nlog, l_dev := dev\<rparr>) c))"

subsection \<open>Transactions\<close>

text \<open>\<open>begin_op\<close> passes or has to sleep (\<open>None\<close>).\<close>

definition begin_op :: "log \<Rightarrow> log option" where
  "begin_op l =
     (if committing l then None
      else if lh_n l + (outstanding l + 1) * int MAXOPBLOCKS > int LOGSIZE then None
      else Some (l\<lparr>outstanding := outstanding l + 1\<rparr>))"

definition write_one :: "log \<Rightarrow> nat \<Rightarrow> bcache \<Rightarrow> bcache outcome" where
  "write_one l tail c =
     obind (bread (log_key l tail) c) (\<lambda>(to, c).
     obind (bread (home_key l tail) c) (\<lambda>(fr, c).
     obind (bwrite to (set_data to (b_data (bufs c ! fr)) c)) (\<lambda>c.
     obind (brelse fr c) (\<lambda>c.
     brelse to c))))"

definition write_log :: "log \<Rightarrow> bcache \<Rightarrow> bcache outcome" where
  "write_log l c = in_bounds l (for_each [0..<nat (lh_n l)] (write_one l) c)"

definition commit :: "log \<Rightarrow> bcache \<Rightarrow> (log \<times> bcache) outcome" where
  "commit l c =
     (if lh_n l > 0
      then obind (write_log l c) (\<lambda>c.
           obind (write_head l c) (\<lambda>c.
           obind (install_trans l c) (\<lambda>c.
           let l = l\<lparr>lh_n := 0\<rparr> in
           obind (write_head l c) (\<lambda>c. Ret (l, c)))))
      else Ret (l, c))"

definition end_op :: "log \<Rightarrow> bcache \<Rightarrow> (log \<times> bcache) outcome" where
  "end_op l c =
     (let l = l\<lparr>outstanding := outstanding l - 1\<rparr> in
      if committing l then Panic ''log.committing''
      else if outstanding l = 0
      then obind (commit (l\<lparr>committing := True\<rparr>) c) (\<lambda>(l, c). Ret (l\<lparr>committing := False\<rparr>, c))
      else Ret (l, c))"

definition log_write :: "nat \<Rightarrow> log \<Rightarrow> bcache \<Rightarrow> (log \<times> bcache) outcome" where
  "log_write b l c =
     (if lh_n l \<ge> int LOGSIZE \<or> lh_n l \<ge> l_size l - 1 then Panic ''too big a transaction''
      else if outstanding l < 1 then Panic ''log_write outside of trans''
      else let blockno = word_of_nat (snd (b_key (bufs c ! b)));
               i = (case find (\<lambda>i. lh_block l ! i = blockno) [0..<nat (lh_n l)] of Some i \<Rightarrow> i | None \<Rightarrow> nat (lh_n l))
           in Ret (l\<lparr>lh_block := (lh_block l)[i := blockno], lh_n := (if int i = lh_n l then lh_n l + 1 else lh_n l)\<rparr>,
                   upd_buf b (\<lambda>b. b\<lparr>b_dirty := True\<rparr>) c))"

text \<open>
  What the system calls do with the log, one critical section after the other: a call begins,
  updates a block (\<open>bread\<close>, change the data, \<open>log_write\<close>, \<open>brelse\<close>), ends.
\<close>

datatype fs_ev = Begin | Write u32 block | End

fun fs_step :: "fs_ev \<Rightarrow> log \<times> bcache \<Rightarrow> (log \<times> bcache) outcome" where
  "fs_step Begin (l, c) = (case begin_op l of None \<Rightarrow> Diverge | Some l \<Rightarrow> Ret (l, c))"
| "fs_step (Write bno x) (l, c) =
     obind (bread (l_dev l, unat bno) c) (\<lambda>(b, c).
     obind (log_write b l (set_data b x c)) (\<lambda>(l, c).
     obind (brelse b c) (\<lambda>c. Ret (l, c))))"
| "fs_step End (l, c) = end_op l c"

definition fs_run :: "fs_ev list \<Rightarrow> log \<times> bcache \<Rightarrow> (log \<times> bcache) outcome" where
  "fs_run evs = for_each evs fs_step"

end
