(* ===== verification/Kstring.thy ===== *)
theory Kstring
  imports Prelude
begin

text \<open>
  The memory and string routines of the kernel (string.c) and of the user library (ulib.c), over
  one memory of bytes addressed by 32-bit words: pointers wrap around, and source and destination
  may overlap. A loop that looks for a terminating zero byte need not end; it is a partial function
  and \<open>None\<close> is a run that never returns.
\<close>

type_synonym memory = "u32 \<Rightarrow> byte"

subsection \<open>Filling memory\<close>

text \<open>The string instructions of x86.h: \<open>rep stosb\<close> and \<open>rep stosl\<close>.\<close>

fun stosb :: "u32 \<Rightarrow> u32 \<Rightarrow> nat \<Rightarrow> memory \<Rightarrow> memory" where
  "stosb addr data 0 m = m"
| "stosb addr data (Suc cnt) m = stosb (addr + 1) data cnt (m(addr := ucast data))"

fun stosl :: "u32 \<Rightarrow> u32 \<Rightarrow> nat \<Rightarrow> memory \<Rightarrow> memory" where
  "stosl addr data 0 m = m"
| "stosl addr data (Suc cnt) m =
     stosl (addr + 4) data cnt
       (m(addr := ucast data, addr + 1 := ucast (drop_bit 8 data), addr + 2 := ucast (drop_bit 16 data), addr + 3 := ucast (drop_bit 24 data)))"

definition memset :: "u32 \<Rightarrow> u32 \<Rightarrow> u32 \<Rightarrow> memory \<Rightarrow> u32 \<times> memory" where
  "memset dst c n m =
     (dst, if sint dst smod 4 = 0 \<and> n mod 4 = 0
           then let c = c AND 0xFF in stosl dst (push_bit 24 c OR push_bit 16 c OR push_bit 8 c OR c) (unat (n div 4)) m
           else stosb dst c (unat n) m)"

definition ulib_memset :: "u32 \<Rightarrow> u32 \<Rightarrow> u32 \<Rightarrow> memory \<Rightarrow> u32 \<times> memory" where
  "ulib_memset dst c n m = (dst, stosb dst c (unat n) m)"

subsection \<open>Copying and comparing memory\<close>

fun memcmp_loop :: "nat \<Rightarrow> u32 \<Rightarrow> u32 \<Rightarrow> memory \<Rightarrow> int" where
  "memcmp_loop 0 s1 s2 m = 0"
| "memcmp_loop (Suc n) s1 s2 m = (if m s1 \<noteq> m s2 then uint (m s1) - uint (m s2) else memcmp_loop n (s1 + 1) (s2 + 1) m)"

definition memcmp :: "u32 \<Rightarrow> u32 \<Rightarrow> u32 \<Rightarrow> memory \<Rightarrow> int" where
  "memcmp v1 v2 n m = memcmp_loop (unat n) v1 v2 m"

fun copy_up :: "nat \<Rightarrow> u32 \<Rightarrow> u32 \<Rightarrow> memory \<Rightarrow> memory" where
  "copy_up 0 d s m = m"
| "copy_up (Suc n) d s m = copy_up n (d + 1) (s + 1) (m(d := m s))"

fun copy_down :: "nat \<Rightarrow> u32 \<Rightarrow> u32 \<Rightarrow> memory \<Rightarrow> memory" where
  "copy_down 0 d s m = m"
| "copy_down (Suc n) d s m = copy_down n (d - 1) (s - 1) (m(d - 1 := m (s - 1)))"

definition memmove :: "u32 \<Rightarrow> u32 \<Rightarrow> u32 \<Rightarrow> memory \<Rightarrow> u32 \<times> memory" where
  "memmove dst src n m =
     (dst, if src < dst \<and> src + n > dst then copy_down (unat n) (dst + n) (src + n) m else copy_up (unat n) dst src m)"

definition memcpy :: "u32 \<Rightarrow> u32 \<Rightarrow> u32 \<Rightarrow> memory \<Rightarrow> u32 \<times> memory" where
  "memcpy dst src n m = memmove dst src n m"

text \<open>The user library counts down a signed \<open>n\<close> and always copies upwards.\<close>

definition ulib_memmove :: "u32 \<Rightarrow> u32 \<Rightarrow> u32 \<Rightarrow> memory \<Rightarrow> u32 \<times> memory" where
  "ulib_memmove vdst vsrc n m = (vdst, copy_up (nat (sint n)) vdst vsrc m)"

subsection \<open>Strings\<close>

fun strncmp_loop :: "nat \<Rightarrow> u32 \<Rightarrow> u32 \<Rightarrow> memory \<Rightarrow> int" where
  "strncmp_loop 0 p q m = 0"
| "strncmp_loop (Suc n) p q m =
     (if m p \<noteq> 0 \<and> m p = m q then strncmp_loop n (p + 1) (q + 1) m else uint (m p) - uint (m q))"

definition strncmp :: "u32 \<Rightarrow> u32 \<Rightarrow> u32 \<Rightarrow> memory \<Rightarrow> int" where
  "strncmp p q n m = strncmp_loop (unat n) p q m"

text \<open>
  The copying loop of \<open>strncpy\<close>: the bytes left when it stops, where it stopped, the memory. The
  count that reaches 0 or less is not decremented further here; it only ends both loops.
\<close>

fun strncpy_loop :: "nat \<Rightarrow> u32 \<Rightarrow> u32 \<Rightarrow> memory \<Rightarrow> nat \<times> u32 \<times> memory" where
  "strncpy_loop 0 s t m = (0, s, m)"
| "strncpy_loop (Suc n) s t m =
     (if m t \<noteq> 0 then strncpy_loop n (s + 1) (t + 1) (m(s := m t)) else (n, s + 1, m(s := 0)))"

fun zero_loop :: "nat \<Rightarrow> u32 \<Rightarrow> memory \<Rightarrow> memory" where
  "zero_loop 0 s m = m"
| "zero_loop (Suc n) s m = zero_loop n (s + 1) (m(s := 0))"

definition strncpy :: "u32 \<Rightarrow> u32 \<Rightarrow> int \<Rightarrow> memory \<Rightarrow> u32 \<times> memory" where
  "strncpy s t n m = (let (k, s', m) = strncpy_loop (nat n) s t m in (s, zero_loop k s' m))"

text \<open>The loop of \<open>safestrcpy\<close> decrements before it tests, so it copies at most \<open>n - 1\<close> bytes.\<close>

fun safestrcpy_loop :: "nat \<Rightarrow> u32 \<Rightarrow> u32 \<Rightarrow> memory \<Rightarrow> u32 \<times> memory" where
  "safestrcpy_loop 0 s t m = (s, m)"
| "safestrcpy_loop (Suc n) s t m =
     (if m t \<noteq> 0 then safestrcpy_loop n (s + 1) (t + 1) (m(s := m t)) else (s + 1, m(s := 0)))"

definition safestrcpy :: "u32 \<Rightarrow> u32 \<Rightarrow> int \<Rightarrow> memory \<Rightarrow> u32 \<times> memory" where
  "safestrcpy s t n m =
     (if n \<le> 0 then (s, m)
      else let (s', m) = safestrcpy_loop (nat (n - 1)) s t m in (s, m(s' := 0)))"

partial_function (option) strlen_loop :: "u32 \<Rightarrow> u32 \<Rightarrow> memory \<Rightarrow> u32 option" where
  "strlen_loop n s m = (if m (s + n) \<noteq> 0 then strlen_loop (n + 1) s m else Some n)"

definition strlen :: "u32 \<Rightarrow> memory \<Rightarrow> int option" where
  "strlen s m = map_option sint (strlen_loop 0 s m)"

definition ulib_strlen :: "u32 \<Rightarrow> memory \<Rightarrow> int option" where
  "ulib_strlen s m = map_option uint (strlen_loop 0 s m)"

partial_function (option) strcpy_loop :: "u32 \<Rightarrow> u32 \<Rightarrow> memory \<Rightarrow> memory option" where
  "strcpy_loop s t m = (if m t \<noteq> 0 then strcpy_loop (s + 1) (t + 1) (m(s := m t)) else Some (m(s := 0)))"

definition strcpy :: "u32 \<Rightarrow> u32 \<Rightarrow> memory \<Rightarrow> (u32 \<times> memory) option" where
  "strcpy s t m = map_option (Pair s) (strcpy_loop s t m)"

partial_function (option) strcmp :: "u32 \<Rightarrow> u32 \<Rightarrow> memory \<Rightarrow> int option" where
  "strcmp p q m = (if m p \<noteq> 0 \<and> m p = m q then strcmp (p + 1) (q + 1) m else Some (uint (m p) - uint (m q)))"

partial_function (option) strchr :: "u32 \<Rightarrow> byte \<Rightarrow> memory \<Rightarrow> u32 option" where
  "strchr s c m = (if m s \<noteq> 0 then if m s = c then Some s else strchr (s + 1) c m else Some 0)"

text \<open>\<open>read(0, &c, 1)\<close> takes the first byte of the input, or gives less than 1 at its end.\<close>

function gets_loop :: "int \<Rightarrow> int \<Rightarrow> u32 \<Rightarrow> byte list \<Rightarrow> memory \<Rightarrow> int \<times> byte list \<times> memory" where
  "gets_loop i lim buf inp m =
     (if i + 1 < lim
      then (case inp of
              [] \<Rightarrow> (i, [], m)
            | c # inp \<Rightarrow>
                let m = m(buf + word_of_int i := c)
                in if c = 10 \<or> c = 13 then (i + 1, inp, m) else gets_loop (i + 1) lim buf inp m)
      else (i, inp, m))"
  by pat_completeness auto
termination
  by (relation "measure (\<lambda>(i, lim, _). nat (lim - i))") auto

definition gets :: "u32 \<Rightarrow> int \<Rightarrow> byte list \<Rightarrow> memory \<Rightarrow> u32 \<times> byte list \<times> memory" where
  "gets buf lim inp m = (let (i, inp, m) = gets_loop 0 lim buf inp m in (buf, inp, m(buf + word_of_int i := 0)))"

text \<open>The sum of \<open>atoi\<close> as 32-bit addition; in C it is undefined once it exceeds an \<open>int\<close>.\<close>

partial_function (option) ulib_atoi_loop :: "u32 \<Rightarrow> u32 \<Rightarrow> memory \<Rightarrow> u32 option" where
  "ulib_atoi_loop n s m =
     (if 48 \<le> m s \<and> m s \<le> 57 then ulib_atoi_loop (n * 10 + ucast (m s) - 48) (s + 1) m else Some n)"

definition ulib_atoi :: "u32 \<Rightarrow> memory \<Rightarrow> int option" where
  "ulib_atoi s m = map_option sint (ulib_atoi_loop 0 s m)"

subsection \<open>Filling\<close>

lemma stosl_stosb:
  fixes b :: byte
  assumes "ucast data = b" and "ucast (drop_bit 8 data) = b" and "ucast (drop_bit 16 data) = b" and "ucast (drop_bit 24 data) = b" and "ucast c = b"
  shows "stosl addr data k m = stosb addr c (4 * k) m"
proof (induction k arbitrary: addr m)
  case (Suc k)
  have e: "4 * Suc k = Suc (Suc (Suc (Suc (4 * k))))" by simp
  have a: "addr + 1 + 1 = addr + 2" "addr + 2 + 1 = addr + 3" "addr + 3 + 1 = addr + 4" by simp_all
  show ?case unfolding e stosl.simps stosb.simps a assms by (rule Suc)
qed simp

lemma spread_byte:
  fixes c :: u32
  defines "v \<equiv> push_bit 24 (c AND 0xFF) OR push_bit 16 (c AND 0xFF) OR push_bit 8 (c AND 0xFF) OR (c AND 0xFF)"
  shows "ucast v = (ucast c :: byte)" and "ucast (drop_bit 8 v) = (ucast c :: byte)"
    and "ucast (drop_bit 16 v) = (ucast c :: byte)" and "ucast (drop_bit 24 v) = (ucast c :: byte)"
proof -
  have m: "c AND 0xFF = take_bit 8 c" by (simp add: take_bit_eq_mask mask_eq_exp_minus_1)
  show "ucast v = (ucast c :: byte)" "ucast (drop_bit 8 v) = (ucast c :: byte)"
    "ucast (drop_bit 16 v) = (ucast c :: byte)" "ucast (drop_bit 24 v) = (ucast c :: byte)"
    by (rule bit_word_eqI; auto simp: v_def m bit_simps)+
qed

subsection \<open>Copying\<close>

text \<open>The memory after a copy, by address: nothing outside of the destination changes.\<close>

definition in_span :: "u32 \<Rightarrow> nat \<Rightarrow> u32 \<Rightarrow> bool" where
  "in_span a n x \<longleftrightarrow> unat a \<le> unat x \<and> unat x < unat a + n"

definition copied :: "u32 \<Rightarrow> u32 \<Rightarrow> nat \<Rightarrow> memory \<Rightarrow> memory" where
  "copied d s n m = (\<lambda>x. if in_span d n x then m (s + (x - d)) else m x)"

lemma copied_0 [simp]: "copied d s 0 m = m"
  by (auto simp: copied_def in_span_def fun_eq_iff)

lemma unat_next: "unat (a :: u32) + 1 < 2 ^ 32 \<Longrightarrow> unat (a + 1) = unat a + 1"
  by (simp add: unat_word_ariths)

lemma unat_offset:
  fixes s x d :: u32
  assumes "unat d \<le> unat x" and "unat s + (unat x - unat d) < 2 ^ 32"
  shows "unat (s + (x - d)) = unat s + (unat x - unat d)"
proof -
  have "unat (x - d) = unat x - unat d" using assms(1) by (simp add: unat_sub word_le_nat_alt)
  then show ?thesis using assms(2) by (simp add: unat_word_ariths(1))
qed

lemma copy_up_ok:
  assumes "unat d + n \<le> 2 ^ 32" and "unat s + n \<le> 2 ^ 32" and "unat d \<le> unat s \<or> unat s + n \<le> unat d"
  shows "copy_up n d s m = copied d s n m"
  using assms
proof (induction n arbitrary: d s m)
  case 0
  show ?case by simp
next
  case (Suc n)
  show ?case
  proof (cases "n = 0")
    case True
    have "in_span d (Suc 0) x \<longleftrightarrow> x = d" for x by (auto simp: in_span_def word_unat_eq_iff)
    then show ?thesis using True by (auto simp: copied_def)
  next
    case False
    then have u: "unat (d + 1) = unat d + 1" "unat (s + 1) = unat s + 1" using Suc.prems unat_next[of d] unat_next[of s] by auto
    have "copy_up (Suc n) d s m = copied (d + 1) (s + 1) n (m(d := m s))"
      using Suc.IH[of "d + 1" "s + 1"] Suc.prems u by auto
    also have "\<dots> = copied d s (Suc n) m"
    proof (rule ext)
      fix x
      have in_sp: "in_span d (Suc n) x \<longleftrightarrow> x = d \<or> in_span (d + 1) n x" and nd: "\<not> in_span (d + 1) n d"
        using u by (auto simp: in_span_def word_unat_eq_iff)
      have e: "s + 1 + (x - (d + 1)) = s + (x - d)" by simp
      have ne: "s + (x - d) \<noteq> d" if "in_span (d + 1) n x"
      proof -
        have "unat (s + (x - d)) = unat s + (unat x - unat d)" using that u Suc.prems by (intro unat_offset) (auto simp: in_span_def)
        then have "unat (s + (x - d)) \<noteq> unat d" using that u Suc.prems by (auto simp: in_span_def)
        then show ?thesis by metis
      qed
      show "copied (d + 1) (s + 1) n (m(d := m s)) x = copied d s (Suc n) m x"
        unfolding copied_def e using in_sp nd ne by auto
    qed
    finally show ?thesis .
  qed
qed

lemma copy_down_ok:
  assumes "unat d + n \<le> 2 ^ 32" and "unat s + n \<le> 2 ^ 32" and "unat s \<le> unat d"
  shows "copy_down n (d + word_of_nat n) (s + word_of_nat n) m = copied d s n m"
  using assms
proof (induction n arbitrary: m)
  case 0
  show ?case by simp
next
  case (Suc n)
  let ?D = "d + word_of_nat n" and ?S = "s + word_of_nat n"
  have uD: "unat ?D = unat d + n" "unat ?S = unat s + n" using Suc.prems by (simp_all add: unat_word_ariths(1) unat_of_nat)
  have m1: "d + word_of_nat (Suc n) - 1 = ?D" "s + word_of_nat (Suc n) - 1 = ?S" by simp_all
  have "copy_down (Suc n) (d + word_of_nat (Suc n)) (s + word_of_nat (Suc n)) m = copied d s n (m(?D := m ?S))"
    unfolding copy_down.simps m1 using Suc.IH Suc.prems by simp
  also have "\<dots> = copied d s (Suc n) m"
  proof (rule ext)
    fix x
    have in_sp: "in_span d (Suc n) x \<longleftrightarrow> x = ?D \<or> in_span d n x" and nd: "\<not> in_span d n ?D"
      using uD by (auto simp: in_span_def word_unat_eq_iff)
    have e: "s + (?D - d) = ?S" by simp
    have ne: "s + (x - d) \<noteq> ?D" if "in_span d n x"
    proof -
      have "unat (s + (x - d)) = unat s + (unat x - unat d)" using that Suc.prems by (intro unat_offset) (auto simp: in_span_def)
      then have "unat (s + (x - d)) \<noteq> unat ?D" using that uD Suc.prems by (auto simp: in_span_def)
      then show ?thesis by metis
    qed
    show "copied d s n (m(?D := m ?S)) x = copied d s (Suc n) m x"
      using in_sp nd ne e by (cases "x = ?D") (auto simp: copied_def)
  qed
  finally show ?case .
qed

subsection \<open>Strings\<close>

text \<open>The string at an address, and writing a list of bytes there.\<close>

fun cstring :: "memory \<Rightarrow> u32 \<Rightarrow> byte list \<Rightarrow> bool" where
  "cstring m a [] \<longleftrightarrow> m a = 0"
| "cstring m a (x # xs) \<longleftrightarrow> m a = x \<and> x \<noteq> 0 \<and> cstring m (a + 1) xs"

fun poke_bytes :: "u32 \<Rightarrow> byte list \<Rightarrow> memory \<Rightarrow> memory" where
  "poke_bytes a [] m = m"
| "poke_bytes a (x # xs) m = poke_bytes (a + 1) xs (m(a := x))"

text \<open>The \<open>n\<close> bytes from \<open>s\<close> on are apart from the string at \<open>t\<close> and its end.\<close>

definition apart :: "u32 \<Rightarrow> nat \<Rightarrow> u32 \<Rightarrow> byte list \<Rightarrow> bool" where
  "apart s n t xs \<longleftrightarrow> (\<forall>i<n. \<forall>j\<le>length xs. s + word_of_nat i \<noteq> t + word_of_nat j)"

lemma cstring_upd: "\<forall>j\<le>length xs. a \<noteq> t + word_of_nat j \<Longrightarrow> cstring (m(a := v)) t xs = cstring m t xs"
proof (induction xs arbitrary: t)
  case (Cons x xs)
  have "a \<noteq> t + 1 + word_of_nat j" if "j \<le> length xs" for j using Cons.prems[rule_format, of "Suc j"] that by (simp add: ac_simps)
  moreover have "a \<noteq> t" using Cons.prems[rule_format, of 0] by simp
  ultimately show ?case using Cons.IH by simp
qed simp

lemma apart_step:
  assumes "apart s (Suc n) t (x # xs)"
  shows "apart (s + 1) n (t + 1) xs" and "cstring (m(s := v)) (t + 1) xs = cstring m (t + 1) xs"
proof -
  have a: "s + word_of_nat i \<noteq> t + word_of_nat j" if "i \<le> n" "j \<le> Suc (length xs)" for i j
    using assms that by (simp add: apart_def)
  have "s + 1 + word_of_nat i \<noteq> t + 1 + word_of_nat j" if "i < n" "j \<le> length xs" for i j
    using a[of "Suc i" "Suc j"] that by (simp add: ac_simps)
  then show "apart (s + 1) n (t + 1) xs" by (simp add: apart_def)
  show "cstring (m(s := v)) (t + 1) xs = cstring m (t + 1) xs"
    using a[of 0 "Suc j" for j] by (intro cstring_upd) (simp add: ac_simps)
qed

lemma put_zeros: "zero_loop n s m = poke_bytes s (replicate n 0) m"
  by (induction n arbitrary: s m) simp_all

lemma strncpy_loop_ok:
  "apart s n t xs \<Longrightarrow> cstring m t xs \<Longrightarrow> strncpy_loop n s t m = (k, s', m') \<Longrightarrow> zero_loop k s' m' = poke_bytes s (take n (xs @ replicate n 0)) m"
proof (induction n arbitrary: s t m xs)
  case (Suc n)
  show ?case
  proof (cases xs)
    case Nil
    then show ?thesis using Suc.prems by (simp add: put_zeros)
  next
    case (Cons x ys)
    note a = apart_step[OF Suc.prems(1)[unfolded Cons]]
    have l: "strncpy_loop n (s + 1) (t + 1) (m(s := x)) = (k, s', m')" using Suc.prems(2,3) Cons by simp
    have "cstring (m(s := x)) (t + 1) ys" using a(2) Suc.prems(2) Cons by simp
    moreover have "take (Suc n) (xs @ replicate (Suc n) 0) = x # take n (ys @ replicate n 0)" using Cons by (simp del: replicate_Suc)
    ultimately show ?thesis using Suc.IH[OF a(1) _ l] by (simp only: poke_bytes.simps)
  qed
qed simp

lemma safestrcpy_loop_ok:
  "apart s n t xs \<Longrightarrow> cstring m t xs \<Longrightarrow> safestrcpy_loop n s t m = (s', m') \<Longrightarrow> m'(s' := 0) = poke_bytes s (take n (xs @ [0]) @ [0]) m"
proof (induction n arbitrary: s t m xs)
  case (Suc n)
  show ?case
  proof (cases xs)
    case Nil
    then show ?thesis using Suc.prems by auto
  next
    case (Cons x ys)
    note a = apart_step[OF Suc.prems(1)[unfolded Cons]]
    have l: "safestrcpy_loop n (s + 1) (t + 1) (m(s := x)) = (s', m')" using Suc.prems(2,3) Cons by simp
    have "cstring (m(s := x)) (t + 1) ys" using a(2) Suc.prems(2) Cons by simp
    moreover have "take (Suc n) (xs @ [0]) @ [0] = x # take n (ys @ [0]) @ [0]" using Cons by simp
    ultimately show ?thesis using Suc.IH[OF a(1) _ l] by (simp only: poke_bytes.simps)
  qed
qed simp

lemma poke_bytes_other: "\<forall>i<length ys. x \<noteq> a + word_of_nat i \<Longrightarrow> poke_bytes a ys m x = m x"
proof (induction ys arbitrary: a m)
  case (Cons y ys)
  have "x \<noteq> a + 1 + word_of_nat i" if "i < length ys" for i using Cons.prems[rule_format, of "Suc i"] that by (simp add: ac_simps)
  moreover have "x \<noteq> a" using Cons.prems[rule_format, of 0] by simp
  ultimately show ?case using Cons.IH by simp
qed simp

lemma poke_bytes_first: "length ys < 2 ^ 32 \<Longrightarrow> poke_bytes (a + 1) ys m a = m a"
proof (rule poke_bytes_other, intro allI impI)
  fix i assume l: "length ys < 2 ^ 32" "i < length ys"
  show "a \<noteq> a + 1 + word_of_nat i"
  proof
    assume "a = a + 1 + word_of_nat i"
    then have "word_of_nat (Suc i) = (0 :: u32)" by (metis add.assoc add_cancel_left_right of_nat_Suc)
    then have "unat (word_of_nat (Suc i) :: u32) = 0" by (simp only: unat_0)
    then show False using l by (simp add: unat_of_nat del: of_nat_Suc)
  qed
qed

lemma poke_bytes_nth: "i < length ys \<Longrightarrow> length ys < 2 ^ 32 \<Longrightarrow> poke_bytes a ys m (a + word_of_nat i) = ys ! i"
proof (induction ys arbitrary: a m i)
  case (Cons y ys)
  show ?case
  proof (cases i)
    case 0
    then show ?thesis using poke_bytes_first[of ys a "m(a := y)"] Cons.prems by simp
  next
    case (Suc j)
    have e: "a + word_of_nat (Suc j) = a + 1 + word_of_nat j" by simp
    show ?thesis unfolding Suc e poke_bytes.simps nth_Cons_Suc using Cons.prems Suc by (intro Cons.IH) simp_all
  qed
qed simp

lemma put_cstring: "0 \<notin> set xs \<Longrightarrow> length xs + length zs < 2 ^ 32 \<Longrightarrow> cstring (poke_bytes a (xs @ 0 # zs) m) a xs"
proof (induction xs arbitrary: a m)
  case Nil
  then show ?case using poke_bytes_first[of zs a "m(a := 0)"] by simp
next
  case (Cons x xs)
  then show ?case using poke_bytes_first[of "xs @ 0 # zs" a "m(a := x)"] by auto
qed

lemma cstring_nonzero: "cstring m a xs \<Longrightarrow> 0 \<notin> set xs"
  by (induction xs arbitrary: a) auto

lemma strlen_loop_ok: "cstring m (s + n) xs \<Longrightarrow> strlen_loop n s m = Some (n + word_of_nat (length xs))"
proof (induction xs arbitrary: n)
  case Nil
  then show ?case by (subst strlen_loop.simps) simp
next
  case (Cons x xs)
  then have "strlen_loop (n + 1) s m = Some (n + 1 + word_of_nat (length xs))" by (simp add: add.assoc)
  then show ?case using Cons.prems by (subst strlen_loop.simps) (simp add: ac_simps)
qed

lemma strncmp_ok:
  "cstring m p xs \<Longrightarrow> cstring m q ys \<Longrightarrow>
   (strncmp_loop n p q m = 0 \<longleftrightarrow> take n xs = take n ys) \<and> (strncmp_loop n p q m < 0 \<longleftrightarrow> ord_class.lexordp (take n xs) (take n ys))"
proof (induction n arbitrary: p q xs ys)
  case (Suc n)
  have u: "uint (m p) - uint (m q) = 0 \<longleftrightarrow> m p = m q" "uint (m p) - uint (m q) < 0 \<longleftrightarrow> m p < m q"
    by (simp_all add: word_uint_eq_iff word_less_def)
  have z: "0 < v \<longleftrightarrow> v \<noteq> 0" "\<not> v < 0" for v :: byte by (simp_all add: word_neq_0_conv)
  show ?case
  proof (cases "xs = [] \<or> ys = []")
    case True
    then show ?thesis using Suc.prems u z by (cases xs; cases ys) auto
  next
    case False
    then obtain x xs' y ys' where l: "xs = x # xs'" "ys = y # ys'" by (metis neq_Nil_conv)
    then show ?thesis using Suc.prems u Suc.IH[of "p + 1" xs' "q + 1" ys'] by (cases "x = y") auto
  qed
qed simp

subsection \<open>Properties\<close>

text \<open>
  \<open>memmove\<close> copies also between areas that overlap: as long as neither area runs past the end of
  the address space, the destination afterwards holds what the source held before, and no other byte
  changes.
\<close>

theorem memmove_copies:
  assumes "unat src + unat n \<le> 2 ^ 32" and "unat dst + unat n \<le> 2 ^ 32"
  shows "fst (memmove dst src n m) = dst
    \<and> (\<forall>i<unat n. snd (memmove dst src n m) (dst + word_of_nat i) = m (src + word_of_nat i))
    \<and> (\<forall>a. unat a < unat dst \<or> unat dst + unat n \<le> unat a \<longrightarrow> snd (memmove dst src n m) a = m a)"
proof -
  have "snd (memmove dst src n m) = copied dst src (unat n) m"
  proof (cases "src < dst \<and> src + n > dst")
    case True
    then have "copy_down (unat n) (dst + word_of_nat (unat n)) (src + word_of_nat (unat n)) m = copied dst src (unat n) m"
      using assms by (intro copy_down_ok) (auto simp: word_less_nat_alt)
    then show ?thesis using True by (simp add: memmove_def)
  next
    case False
    have "unat src + unat n \<le> unat dst" if "unat src < unat dst"
    proof (cases "unat n = 0")
      case False
      then have "unat (src + n) = unat src + unat n" using that assms by (simp add: unat_word_ariths(1))
      then show ?thesis using that \<open>\<not> (src < dst \<and> src + n > dst)\<close> by (auto simp: word_less_nat_alt)
    qed (use that in simp)
    then have "copy_up (unat n) dst src m = copied dst src (unat n) m" using assms by (intro copy_up_ok) linarith+
    then show ?thesis using False by (auto simp: memmove_def)
  qed
  moreover have "in_span dst (unat n) (dst + word_of_nat i)" if "i < unat n" for i
    using that assms by (simp add: in_span_def unat_word_ariths(1) unat_of_nat)
  ultimately show ?thesis by (auto simp: copied_def in_span_def memmove_def)
qed

theorem memmove_copies_witness:
  "snd (memmove 2 0 3 (\<lambda>a. ucast a + 7)) (2 + word_of_nat 1) = 8
   \<and> snd (memmove 2 0 3 (\<lambda>a. ucast a + 7)) 5 = 12"
proof -
  have "\<forall>i<unat (3 :: u32). snd (memmove 2 0 3 (\<lambda>a. ucast a + 7)) (2 + word_of_nat i) = (ucast (0 + word_of_nat i :: u32) + 7 :: byte)"
    "\<forall>a. unat a < unat (2 :: u32) \<or> unat (2 :: u32) + unat (3 :: u32) \<le> unat a \<longrightarrow> snd (memmove 2 0 3 (\<lambda>a. ucast a + 7)) a = (ucast a + 7 :: byte)"
    using memmove_copies[of 0 3 2 "\<lambda>a. ucast a + 7"] by simp_all
  from this(1)[rule_format, of 1] this(2)[rule_format, of 5] show ?thesis by simp
qed

text \<open>
  (C39) The kernel's \<open>memset\<close>, which stores whole words when address and length allow it, has exactly
  the effect of the byte by byte \<open>memset\<close> of the user library, for every address, value and length.
\<close>

theorem memset_word_stores: "memset dst c n m = ulib_memset dst c n m"
proof (cases "sint dst smod 4 = 0 \<and> n mod 4 = 0")
  case True
  have "unat (n mod 4) = 0" using True by (simp only: unat_0)
  then have "unat n mod 4 = 0" by (simp add: unat_mod_distrib)
  then have n: "4 * unat (n div 4) = unat n" using mult_div_mod_eq[of 4 "unat n"] by (simp add: unat_div_distrib)
  have "snd (memset dst c n m) = stosb dst c (4 * unat (n div 4)) m"
    unfolding memset_def Let_def using True stosl_stosb[OF spread_byte refl] by simp
  then show ?thesis unfolding n by (simp add: memset_def ulib_memset_def)
qed (auto simp: memset_def ulib_memset_def)

text \<open>
  Copying a string into a buffer of \<open>n\<close> bytes that does not overlap it: \<open>safestrcpy\<close> leaves a
  terminated string, the first \<open>n - 1\<close> bytes of the source at most, whose length \<open>strlen\<close> then finds;
  \<open>strncpy\<close> fills all \<open>n\<close> bytes, with zeros after the end of the source. Neither changes a byte
  outside of the buffer.
\<close>

theorem string_copies:
  assumes "cstring m t xs" and "apart s (nat n) t xs" and "0 < n" and "n < 2 ^ 31"
  shows "cstring (snd (safestrcpy s t n m)) s (take (nat n - 1) xs)
    \<and> strlen s (snd (safestrcpy s t n m)) = Some (min (n - 1) (int (length xs)))
    \<and> snd (strncpy s t n m) = poke_bytes s (take (nat n) (xs @ replicate (nat n) 0)) m
    \<and> (\<forall>a. (\<forall>i<nat n. a \<noteq> s + word_of_nat i) \<longrightarrow> snd (safestrcpy s t n m) a = m a \<and> snd (strncpy s t n m) a = m a)"
proof -
  obtain k where k: "nat n = Suc k" using assms(3) by (cases "nat n") auto
  then have n: "nat (n - 1) = k" "n = int k + 1" by auto
  define ys where "ys = take k (xs @ [0]) @ [0]"
  obtain s' m' where l: "safestrcpy_loop k s t m = (s', m')" by fastforce
  have "apart s k t xs" using assms(2) k by (simp add: apart_def)
  from safestrcpy_loop_ok[OF this assms(1) l] have safe: "snd (safestrcpy s t n m) = poke_bytes s ys m"
    using n l by (simp add: safestrcpy_def ys_def)
  have nz: "0 \<notin> set (take k xs)" using cstring_nonzero[OF assms(1)] by (meson in_set_takeD)
  obtain zs where zs: "ys = take k xs @ 0 # zs" "length (take k xs) + length zs < 2 ^ 32"
  proof (cases "k \<le> length xs")
    case True
    then show ?thesis using that[of "[]"] n assms(4) by (simp add: ys_def)
  next
    case False
    then show ?thesis using that[of "[0]"] n assms(4) by (simp add: ys_def take_Cons')
  qed
  have str: "cstring (poke_bytes s ys m) s (take k xs)" unfolding zs(1) by (rule put_cstring[OF nz zs(2)])
  have len: "strlen s (poke_bytes s ys m) = Some (min (n - 1) (int (length xs)))"
    using strlen_loop_ok[of "poke_bytes s ys m" s 0 "take k xs"] str n assms(4)
    by (simp add: strlen_def of_nat_min signed_of_nat signed_take_bit_int_eq_self min.commute)
  obtain j u m2 where c: "strncpy_loop (nat n) s t m = (j, u, m2)" by (metis prod_cases3)
  have pad: "snd (strncpy s t n m) = poke_bytes s (take (nat n) (xs @ replicate (nat n) 0)) m"
    using strncpy_loop_ok[OF assms(2,1) c] c by (simp add: strncpy_def)
  have "length ys \<le> nat n" using k by (simp add: ys_def)
  then have "poke_bytes s ys m a = m a \<and> poke_bytes s (take (nat n) (xs @ replicate (nat n) 0)) m a = m a" if "\<forall>i<nat n. a \<noteq> s + word_of_nat i" for a
    using that poke_bytes_other[of ys a s m] poke_bytes_other[of "take (nat n) (xs @ replicate (nat n) 0)" a s m] by simp
  then show ?thesis using safe str len pad k by simp
qed

theorem string_copies_witness:
  "strlen 100 (snd (safestrcpy 100 0 3 ((\<lambda>_. 0)(0 := 65, 1 := 66, 2 := 67)))) = Some 2"
proof -
  have "cstring ((\<lambda>_. 0)(0 := 65, 1 := 66, 2 := 67)) 0 [65, 66, 67]" by simp
  moreover have "100 + word_of_nat i \<noteq> (0 + word_of_nat j :: u32)" if "i < 3" "j \<le> 3" for i j :: nat
  proof -
    have "unat (100 + word_of_nat i :: u32) = 100 + i" "unat (0 + word_of_nat j :: u32) = j" using that by (simp_all add: unat_word_ariths(1) unat_of_nat)
    then have "unat (100 + word_of_nat i :: u32) \<noteq> unat (0 + word_of_nat j :: u32)" using that by linarith
    then show ?thesis by metis
  qed
  then have "apart 100 (nat 3) 0 [65, 66, 67]" by (simp add: apart_def)
  ultimately show ?thesis using string_copies[of _ 0 "[65, 66, 67]" 100 3] by simp
qed

end
