(* ===== verification/Fs.thy ===== *)
theory Fs
  imports Log Kstring
begin

text \<open>
  The file system (fs.c) on top of the log and the buffer cache: block allocator, inodes and their
  cache, file contents, directories and path names, as the calls of one process run them. Inodes of
  the cache are named by their index; a sleep lock this process already holds is a wait that never
  ends (\<open>Diverge\<close>). Block and inode numbers are natural numbers where the code adds or divides
  them: a file system has fewer than \<open>2 ^ 31\<close> blocks. The device table \<open>devsw\<close> is a parameter of
  \<open>readi\<close> and \<open>writei\<close>.
\<close>

subsection \<open>State\<close>

definition NDIRECT :: nat where "NDIRECT = 12"
definition NINDIRECT :: nat where "NINDIRECT = BSIZE div 4"
definition MAXFILE :: nat where "MAXFILE = NDIRECT + NINDIRECT"
definition IPB :: nat where "IPB = BSIZE div 64"
definition BPB :: nat where "BPB = BSIZE * 8"
definition DIRSIZ :: nat where "DIRSIZ = 14"
definition NINODE :: nat where "NINODE = 50"
definition NDEV :: nat where "NDEV = 10"

type_synonym u16 = "16 word"

definition T_DIR :: u16 where "T_DIR = 1"
definition T_FILE :: u16 where "T_FILE = 2"
definition T_DEV :: u16 where "T_DEV = 3"

record superblock =
  sb_size :: nat
  sb_nblocks :: nat
  sb_ninodes :: nat
  sb_nlog :: nat
  sb_logstart :: nat
  sb_inodestart :: nat
  sb_bmapstart :: nat

definition IBLOCK :: "nat \<Rightarrow> superblock \<Rightarrow> nat" where "IBLOCK i sb = i div IPB + sb_inodestart sb"
definition BBLOCK :: "nat \<Rightarrow> superblock \<Rightarrow> nat" where "BBLOCK b sb = b div BPB + sb_bmapstart sb"

record dinode =
  di_type :: u16
  di_major :: u16
  di_minor :: u16
  di_nlink :: u16
  di_size :: u32
  di_addrs :: "u32 list"

record inode =
  i_dev :: nat
  i_inum :: nat
  i_ref :: int
  i_locked :: bool
  i_valid :: bool
  i_d :: dinode

record fs =
  fs_log :: log
  fs_cache :: bcache
  fs_sb :: superblock
  icache :: "inode list"

subsection \<open>Blocks of the disk\<close>

definition fbread :: "nat \<Rightarrow> nat \<Rightarrow> fs \<Rightarrow> (nat \<times> fs) outcome" where
  "fbread dev b s = obind (bread (dev, b) (fs_cache s)) (\<lambda>(i, c). Ret (i, s\<lparr>fs_cache := c\<rparr>))"

definition fbrelse :: "nat \<Rightarrow> fs \<Rightarrow> fs outcome" where
  "fbrelse i s = obind (brelse i (fs_cache s)) (\<lambda>c. Ret (s\<lparr>fs_cache := c\<rparr>))"

definition flog_write :: "nat \<Rightarrow> fs \<Rightarrow> fs outcome" where
  "flog_write i s = obind (log_write i (fs_log s) (fs_cache s)) (\<lambda>(l, c). Ret (s\<lparr>fs_log := l, fs_cache := c\<rparr>))"

text \<open>\<open>bp->data\<close>, read and changed.\<close>

definition fdata :: "nat \<Rightarrow> fs \<Rightarrow> block" where
  "fdata i s = b_data (bufs (fs_cache s) ! i)"

definition fput :: "nat \<Rightarrow> block \<Rightarrow> fs \<Rightarrow> fs" where
  "fput i d s = s\<lparr>fs_cache := set_data i d (fs_cache s)\<rparr>"

definition bzero :: "nat \<Rightarrow> nat \<Rightarrow> fs \<Rightarrow> fs outcome" where
  "bzero dev bno s =
     obind (fbread dev bno s) (\<lambda>(bp, s).
     obind (flog_write bp (fput bp (replicate BSIZE 0) s)) (fbrelse bp))"

text \<open>The bit of a block in its block of the free map.\<close>

definition bit_mask :: "nat \<Rightarrow> byte" where "bit_mask bi = push_bit (bi mod 8) 1"

definition bit_clear :: "block \<Rightarrow> nat \<Rightarrow> bool" where
  "bit_clear d bi \<longleftrightarrow> d ! (bi div 8) AND bit_mask bi = 0"

definition bit_on :: "nat \<Rightarrow> block \<Rightarrow> block" where
  "bit_on bi d = d[bi div 8 := d ! (bi div 8) OR bit_mask bi]"

definition bit_off :: "nat \<Rightarrow> block \<Rightarrow> block" where
  "bit_off bi d = d[bi div 8 := d ! (bi div 8) AND NOT (bit_mask bi)]"

text \<open>\<open>balloc\<close>: the outer loop runs over \<open>b = 0, BPB, 2 * BPB, \<dots>\<close> below the size.\<close>

fun balloc_loop :: "nat \<Rightarrow> nat list \<Rightarrow> fs \<Rightarrow> (nat \<times> fs) outcome" where
  "balloc_loop dev [] s = Panic ''balloc: out of blocks''"
| "balloc_loop dev (b # bs) s =
     obind (fbread dev (BBLOCK b (fs_sb s)) s) (\<lambda>(bp, s).
       case find (bit_clear (fdata bp s)) [0..<min BPB (sb_size (fs_sb s) - b)] of
         Some bi \<Rightarrow>
           obind (flog_write bp (fput bp (bit_on bi (fdata bp s)) s)) (\<lambda>s.
           obind (fbrelse bp s) (\<lambda>s.
           obind (bzero dev (b + bi) s) (\<lambda>s. Ret (b + bi, s))))
       | None \<Rightarrow> obind (fbrelse bp s) (balloc_loop dev bs))"

definition balloc :: "nat \<Rightarrow> fs \<Rightarrow> (nat \<times> fs) outcome" where
  "balloc dev s = balloc_loop dev (map (\<lambda>i. i * BPB) [0..<(sb_size (fs_sb s) + BPB - 1) div BPB]) s"

definition bfree :: "nat \<Rightarrow> nat \<Rightarrow> fs \<Rightarrow> fs outcome" where
  "bfree dev b s =
     obind (fbread dev (BBLOCK b (fs_sb s)) s) (\<lambda>(bp, s).
     let bi = b mod BPB in
     if bit_clear (fdata bp s) bi then Panic ''freeing free block''
     else obind (flog_write bp (fput bp (bit_off bi (fdata bp s)) s)) (fbrelse bp))"

subsection \<open>Inodes on disk and in the cache\<close>

definition get16 :: "block \<Rightarrow> nat \<Rightarrow> u16" where
  "get16 d a = ucast (d ! a) OR push_bit 8 (ucast (d ! (a + 1)))"

definition put16 :: "nat \<Rightarrow> u16 \<Rightarrow> block \<Rightarrow> block" where
  "put16 a v d = d[a := ucast v, a + 1 := ucast (drop_bit 8 v)]"

text \<open>The inode at offset \<open>a\<close> of a block: 64 bytes.\<close>

definition get_dinode :: "block \<Rightarrow> nat \<Rightarrow> dinode" where
  "get_dinode d a =
     \<lparr>di_type = get16 d a, di_major = get16 d (a + 2), di_minor = get16 d (a + 4), di_nlink = get16 d (a + 6),
      di_size = get32 d (a + 8), di_addrs = map (\<lambda>i. get32 d (a + 12 + 4 * i)) [0..<NDIRECT + 1]\<rparr>"

definition put_dinode :: "nat \<Rightarrow> dinode \<Rightarrow> block \<Rightarrow> block" where
  "put_dinode a di d =
     foldl (\<lambda>d i. put32 (a + 12 + 4 * i) (di_addrs di ! i) d)
       (put32 (a + 8) (di_size di) (put16 (a + 6) (di_nlink di) (put16 (a + 4) (di_minor di)
         (put16 (a + 2) (di_major di) (put16 a (di_type di) d)))))
       [0..<NDIRECT + 1]"

definition zero_dinode :: dinode where
  "zero_dinode = \<lparr>di_type = 0, di_major = 0, di_minor = 0, di_nlink = 0, di_size = 0, di_addrs = replicate (NDIRECT + 1) 0\<rparr>"

definition dip :: "nat \<Rightarrow> nat" where "dip inum = 64 * (inum mod IPB)"

definition upd_inode :: "nat \<Rightarrow> (inode \<Rightarrow> inode) \<Rightarrow> fs \<Rightarrow> fs" where
  "upd_inode ip f s = s\<lparr>icache := (icache s)[ip := f (icache s ! ip)]\<rparr>"

definition upd_d :: "nat \<Rightarrow> (dinode \<Rightarrow> dinode) \<Rightarrow> fs \<Rightarrow> fs" where
  "upd_d ip f = upd_inode ip (\<lambda>x. x\<lparr>i_d := f (i_d x)\<rparr>)"

definition node :: "fs \<Rightarrow> nat \<Rightarrow> inode" where "node s ip = icache s ! ip"

text \<open>\<open>readsb\<close> with all fields of the super block, and \<open>iinit\<close>.\<close>

definition readsb_all :: "nat \<Rightarrow> fs \<Rightarrow> (superblock \<times> fs) outcome" where
  "readsb_all dev s =
     obind (fbread dev 1 s) (\<lambda>(bp, s).
       let f = (\<lambda>i. unat (get32 (fdata bp s) (4 * i)))
       in obind (fbrelse bp s) (\<lambda>s. Ret (\<lparr>sb_size = f 0, sb_nblocks = f 1, sb_ninodes = f 2, sb_nlog = f 3,
                                          sb_logstart = f 4, sb_inodestart = f 5, sb_bmapstart = f 6\<rparr>, s)))"

definition iinit :: "nat \<Rightarrow> fs \<Rightarrow> fs outcome" where
  "iinit dev s =
     obind (readsb_all dev (s\<lparr>icache := map (\<lambda>x. x\<lparr>i_locked := False\<rparr>) (icache s)\<rparr>)) (\<lambda>(sb, s). Ret (s\<lparr>fs_sb := sb\<rparr>))"

definition iget :: "nat \<Rightarrow> nat \<Rightarrow> fs \<Rightarrow> (nat \<times> fs) outcome" where
  "iget dev inum s =
     (case find (\<lambda>ip. i_ref (node s ip) > 0 \<and> i_dev (node s ip) = dev \<and> i_inum (node s ip) = inum) [0..<NINODE] of
        Some ip \<Rightarrow> Ret (ip, upd_inode ip (\<lambda>x. x\<lparr>i_ref := i_ref x + 1\<rparr>) s)
      | None \<Rightarrow>
          (case find (\<lambda>ip. i_ref (node s ip) = 0) [0..<NINODE] of
             None \<Rightarrow> Panic ''iget: no inodes''
           | Some ip \<Rightarrow> Ret (ip, upd_inode ip (\<lambda>x. x\<lparr>i_dev := dev, i_inum := inum, i_ref := 1, i_valid := False\<rparr>) s)))"

fun ialloc_loop :: "nat \<Rightarrow> u16 \<Rightarrow> nat list \<Rightarrow> fs \<Rightarrow> (nat \<times> fs) outcome" where
  "ialloc_loop dev type [] s = Panic ''ialloc: no inodes''"
| "ialloc_loop dev type (inum # is) s =
     obind (fbread dev (IBLOCK inum (fs_sb s)) s) (\<lambda>(bp, s).
       if di_type (get_dinode (fdata bp s) (dip inum)) = 0
       then obind (flog_write bp (fput bp (put_dinode (dip inum) (zero_dinode\<lparr>di_type := type\<rparr>) (fdata bp s)) s)) (\<lambda>s.
            obind (fbrelse bp s) (iget dev inum))
       else obind (fbrelse bp s) (ialloc_loop dev type is))"

definition ialloc :: "nat \<Rightarrow> u16 \<Rightarrow> fs \<Rightarrow> (nat \<times> fs) outcome" where
  "ialloc dev type s = ialloc_loop dev type [1..<sb_ninodes (fs_sb s)] s"

definition iupdate :: "nat \<Rightarrow> fs \<Rightarrow> fs outcome" where
  "iupdate ip s =
     obind (fbread (i_dev (node s ip)) (IBLOCK (i_inum (node s ip)) (fs_sb s)) s) (\<lambda>(bp, s).
     obind (flog_write bp (fput bp (put_dinode (dip (i_inum (node s ip))) (i_d (node s ip)) (fdata bp s)) s)) (fbrelse bp))"

definition idup :: "nat \<Rightarrow> fs \<Rightarrow> nat \<times> fs" where
  "idup ip s = (ip, upd_inode ip (\<lambda>x. x\<lparr>i_ref := i_ref x + 1\<rparr>) s)"

definition iacquire :: "nat \<Rightarrow> fs \<Rightarrow> fs outcome" where
  "iacquire ip s = (if i_locked (node s ip) then Diverge else Ret (upd_inode ip (\<lambda>x. x\<lparr>i_locked := True\<rparr>) s))"

definition irelease :: "nat \<Rightarrow> fs \<Rightarrow> fs" where
  "irelease ip = upd_inode ip (\<lambda>x. x\<lparr>i_locked := False\<rparr>)"

definition ilock :: "nat \<Rightarrow> fs \<Rightarrow> fs outcome" where
  "ilock ip s =
     (if i_ref (node s ip) < 1 then Panic ''ilock''
      else obind (iacquire ip s) (\<lambda>s.
        if \<not> i_valid (node s ip)
        then obind (fbread (i_dev (node s ip)) (IBLOCK (i_inum (node s ip)) (fs_sb s)) s) (\<lambda>(bp, s).
             let s = upd_d ip (\<lambda>_. get_dinode (fdata bp s) (dip (i_inum (node s ip)))) s
             in obind (fbrelse bp s) (\<lambda>s.
                let s = upd_inode ip (\<lambda>x. x\<lparr>i_valid := True\<rparr>) s
                in if di_type (i_d (node s ip)) = 0 then Panic ''ilock: no type'' else Ret s))
        else Ret s))"

definition iunlock :: "nat \<Rightarrow> fs \<Rightarrow> fs outcome" where
  "iunlock ip s = (if \<not> i_locked (node s ip) \<or> i_ref (node s ip) < 1 then Panic ''iunlock'' else Ret (irelease ip s))"

subsection \<open>The contents of an inode\<close>

definition set_addr :: "nat \<Rightarrow> nat \<Rightarrow> u32 \<Rightarrow> fs \<Rightarrow> fs" where
  "set_addr ip i a = upd_d ip (\<lambda>d. d\<lparr>di_addrs := (di_addrs d)[i := a]\<rparr>)"

text \<open>\<open>ip->addrs[i]\<close>, allocated if there is none.\<close>

definition addr_or_alloc :: "nat \<Rightarrow> nat \<Rightarrow> fs \<Rightarrow> (u32 \<times> fs) outcome" where
  "addr_or_alloc ip i s =
     (let addr = di_addrs (i_d (node s ip)) ! i in
      if addr = 0
      then obind (balloc (i_dev (node s ip)) s) (\<lambda>(b, s). Ret (word_of_nat b, set_addr ip i (word_of_nat b) s))
      else Ret (addr, s))"

definition bmap :: "nat \<Rightarrow> nat \<Rightarrow> fs \<Rightarrow> (u32 \<times> fs) outcome" where
  "bmap ip bn s =
     (if bn < NDIRECT then addr_or_alloc ip bn s
      else let bn = bn - NDIRECT in
        if bn < NINDIRECT
        then obind (addr_or_alloc ip NDIRECT s) (\<lambda>(addr, s).
             obind (fbread (i_dev (node s ip)) (unat addr) s) (\<lambda>(bp, s).
             let addr = get32 (fdata bp s) (4 * bn) in
             if addr = 0
             then obind (balloc (i_dev (node s ip)) s) (\<lambda>(b, s).
                  obind (flog_write bp (fput bp (put32 (4 * bn) (word_of_nat b) (fdata bp s)) s)) (\<lambda>s.
                  obind (fbrelse bp s) (\<lambda>s. Ret (word_of_nat b, s))))
             else obind (fbrelse bp s) (\<lambda>s. Ret (addr, s))))
        else Panic ''bmap: out of range'')"

definition trunc_direct :: "nat \<Rightarrow> nat \<Rightarrow> fs \<Rightarrow> fs outcome" where
  "trunc_direct ip i s =
     (let a = di_addrs (i_d (node s ip)) ! i in
      if a \<noteq> 0 then obind (bfree (i_dev (node s ip)) (unat a) s) (\<lambda>s. Ret (set_addr ip i 0 s)) else Ret s)"

definition trunc_indirect :: "nat \<Rightarrow> nat \<Rightarrow> nat \<Rightarrow> fs \<Rightarrow> fs outcome" where
  "trunc_indirect ip bp j s =
     (let a = get32 (fdata bp s) (4 * j) in
      if a \<noteq> 0 then bfree (i_dev (node s ip)) (unat a) s else Ret s)"

definition itrunc :: "nat \<Rightarrow> fs \<Rightarrow> fs outcome" where
  "itrunc ip s =
     obind (for_each [0..<NDIRECT] (trunc_direct ip) s) (\<lambda>s.
     obind
       (let a = di_addrs (i_d (node s ip)) ! NDIRECT in
        if a \<noteq> 0
        then obind (fbread (i_dev (node s ip)) (unat a) s) (\<lambda>(bp, s).
             obind (for_each [0..<NINDIRECT] (trunc_indirect ip bp) s) (\<lambda>s.
             obind (fbrelse bp s) (\<lambda>s.
             obind (bfree (i_dev (node s ip)) (unat a) s) (\<lambda>s. Ret (set_addr ip NDIRECT 0 s)))))
        else Ret s)
       (\<lambda>s. iupdate ip (upd_d ip (\<lambda>d. d\<lparr>di_size := 0\<rparr>) s)))"

definition iput :: "nat \<Rightarrow> fs \<Rightarrow> fs outcome" where
  "iput ip s =
     obind (iacquire ip s) (\<lambda>s.
     obind
       (if i_valid (node s ip) \<and> di_nlink (i_d (node s ip)) = 0 \<and> i_ref (node s ip) = 1
        then obind (itrunc ip s) (\<lambda>s.
             obind (iupdate ip (upd_d ip (\<lambda>d. d\<lparr>di_type := 0\<rparr>) s)) (\<lambda>s.
             Ret (upd_inode ip (\<lambda>x. x\<lparr>i_valid := False\<rparr>) s)))
        else Ret s)
       (\<lambda>s. Ret (upd_inode ip (\<lambda>x. x\<lparr>i_ref := i_ref x - 1\<rparr>) (irelease ip s))))"

definition iunlockput :: "nat \<Rightarrow> fs \<Rightarrow> fs outcome" where
  "iunlockput ip s = obind (iunlock ip s) (iput ip)"

record stat =
  st_dev :: nat
  st_ino :: nat
  st_type :: u16
  st_nlink :: u16
  st_size :: u32

definition stati :: "nat \<Rightarrow> fs \<Rightarrow> stat" where
  "stati ip s = \<lparr>st_dev = i_dev (node s ip), st_ino = i_inum (node s ip), st_type = di_type (i_d (node s ip)),
                 st_nlink = di_nlink (i_d (node s ip)), st_size = di_size (i_d (node s ip))\<rparr>"

text \<open>
  The functions of \<open>devsw\<close> by major device number, if there are any: \<open>read\<close> gets the inode and the
  number of bytes and gives the result and the bytes it stored, \<open>write\<close> gets the inode and the bytes.
\<close>

record devfuns =
  dev_read :: "int \<Rightarrow> (nat \<Rightarrow> u32 \<Rightarrow> fs \<Rightarrow> ((int \<times> byte list) \<times> fs) outcome) option"
  dev_write :: "int \<Rightarrow> (nat \<Rightarrow> byte list \<Rightarrow> fs \<Rightarrow> (int \<times> fs) outcome) option"

definition dev_fun :: "(int \<Rightarrow> 'f option) \<Rightarrow> int \<Rightarrow> 'f option" where
  "dev_fun tab major = (if major < 0 \<or> major \<ge> int NDEV then None else tab major)"

text \<open>The loops of \<open>readi\<close> and \<open>writei\<close>, with the number of bytes left.\<close>

definition chunk :: "nat \<Rightarrow> nat \<Rightarrow> nat" where
  "chunk off n = min n (BSIZE - off mod BSIZE)"

lemma chunk_pos: "0 < n \<Longrightarrow> 0 < chunk off n"
  by (simp add: chunk_def BSIZE_def)

function readi_loop :: "nat \<Rightarrow> nat \<Rightarrow> nat \<Rightarrow> fs \<Rightarrow> (byte list \<times> fs) outcome" where
  "readi_loop ip off n s =
     (if n = 0 then Ret ([], s)
      else let m = chunk off n in
        obind (bmap ip (off div BSIZE) s) (\<lambda>(a, s).
        obind (fbread (i_dev (node s ip)) (unat a) s) (\<lambda>(bp, s).
        let d = take m (drop (off mod BSIZE) (fdata bp s)) in
        obind (fbrelse bp s) (\<lambda>s.
        obind (readi_loop ip (off + m) (n - m) s) (\<lambda>(ds, s). Ret (d @ ds, s))))))"
  by pat_completeness auto
termination
  by (relation "measure (\<lambda>(ip, off, n, s). n)") (simp_all add: chunk_pos)

definition readi :: "devfuns \<Rightarrow> nat \<Rightarrow> u32 \<Rightarrow> u32 \<Rightarrow> fs \<Rightarrow> ((int \<times> byte list) \<times> fs) outcome" where
  "readi dv ip off n s =
     (let di = i_d (node s ip) in
      if di_type di = T_DEV
      then (case dev_fun (dev_read dv) (sint (di_major di)) of None \<Rightarrow> Ret ((- 1, []), s) | Some f \<Rightarrow> f ip n s)
      else if off > di_size di \<or> off + n < off then Ret ((- 1, []), s)
      else let n = (if off + n > di_size di then di_size di - off else n)
           in obind (readi_loop ip (unat off) (unat n) s) (\<lambda>(ds, s). Ret ((sint n, ds), s)))"

function writei_loop :: "nat \<Rightarrow> byte list \<Rightarrow> nat \<Rightarrow> nat \<Rightarrow> fs \<Rightarrow> fs outcome" where
  "writei_loop ip src off n s =
     (if n = 0 then Ret s
      else let m = chunk off n in
        obind (bmap ip (off div BSIZE) s) (\<lambda>(a, s).
        obind (fbread (i_dev (node s ip)) (unat a) s) (\<lambda>(bp, s).
        let d = fdata bp s; at = off mod BSIZE in
        obind (flog_write bp (fput bp (take at d @ take m src @ drop (at + m) d) s)) (\<lambda>s.
        obind (fbrelse bp s) (\<lambda>s.
        writei_loop ip (drop m src) (off + m) (n - m) s)))))"
  by pat_completeness auto
termination
  by (relation "measure (\<lambda>(ip, src, off, n, s). n)") (simp_all add: chunk_pos)

definition writei :: "devfuns \<Rightarrow> nat \<Rightarrow> byte list \<Rightarrow> u32 \<Rightarrow> u32 \<Rightarrow> fs \<Rightarrow> (int \<times> fs) outcome" where
  "writei dv ip src off n s =
     (let di = i_d (node s ip) in
      if di_type di = T_DEV
      then (case dev_fun (dev_write dv) (sint (di_major di)) of None \<Rightarrow> Ret (- 1, s) | Some f \<Rightarrow> f ip (take (unat n) src) s)
      else if off > di_size di \<or> off + n < off then Ret (- 1, s)
      else if off + n > word_of_nat (MAXFILE * BSIZE) then Ret (- 1, s)
      else obind (writei_loop ip src (unat off) (unat n) s) (\<lambda>s.
           if n > 0 \<and> off + n > di_size (i_d (node s ip))
           then obind (iupdate ip (upd_d ip (\<lambda>d. d\<lparr>di_size := off + n\<rparr>) s)) (\<lambda>s. Ret (sint n, s))
           else Ret (sint n, s)))"

subsection \<open>Directories\<close>

text \<open>Two strings, or character arrays, in one memory for the string routines; after their end come zeros.\<close>

definition two_strings :: "byte list \<Rightarrow> byte list \<Rightarrow> memory" where
  "two_strings s t a =
     (let xs = (if a < 0x80000000 then s else t); i = (if a < 0x80000000 then unat a else unat (a - 0x80000000))
      in if i < length xs then xs ! i else 0)"

definition namecmp :: "byte list \<Rightarrow> byte list \<Rightarrow> int" where
  "namecmp s t = strncmp 0 0x80000000 (word_of_nat DIRSIZ) (two_strings s t)"

record dirent =
  de_inum :: u16
  de_name :: "byte list"

definition get_dirent :: "byte list \<Rightarrow> dirent" where
  "get_dirent d = \<lparr>de_inum = get16 d 0, de_name = take DIRSIZ (drop 2 d)\<rparr>"

definition put_dirent :: "dirent \<Rightarrow> byte list" where
  "put_dirent de = [ucast (de_inum de), ucast (drop_bit 8 (de_inum de))] @ de_name de"

text \<open>The offsets \<open>0, 16, 32, \<dots>\<close> below the size of the directory.\<close>

definition dir_offs :: "u32 \<Rightarrow> u32 list" where
  "dir_offs sz = map (\<lambda>i. word_of_nat (16 * i)) [0..<(unat sz + 15) div 16]"

fun dirlookup_loop :: "devfuns \<Rightarrow> nat \<Rightarrow> byte list \<Rightarrow> u32 list \<Rightarrow> fs \<Rightarrow> ((nat \<times> u32) option \<times> fs) outcome" where
  "dirlookup_loop dv dp name [] s = Ret (None, s)"
| "dirlookup_loop dv dp name (off # offs) s =
     obind (readi dv dp off 16 s) (\<lambda>((r, d), s).
       if r \<noteq> 16 then Panic ''dirlookup read''
       else let de = get_dirent d in
         if de_inum de = 0 then dirlookup_loop dv dp name offs s
         else if namecmp name (de_name de) = 0
         then obind (iget (i_dev (node s dp)) (unat (de_inum de)) s) (\<lambda>(ip, s). Ret (Some (ip, off), s))
         else dirlookup_loop dv dp name offs s)"

definition dirlookup :: "devfuns \<Rightarrow> nat \<Rightarrow> byte list \<Rightarrow> fs \<Rightarrow> ((nat \<times> u32) option \<times> fs) outcome" where
  "dirlookup dv dp name s =
     (if di_type (i_d (node s dp)) \<noteq> T_DIR then Panic ''dirlookup not DIR''
      else dirlookup_loop dv dp name (dir_offs (di_size (i_d (node s dp)))) s)"

text \<open>The first empty entry, or the end of the directory.\<close>

fun dirlink_loop :: "devfuns \<Rightarrow> nat \<Rightarrow> u32 list \<Rightarrow> u32 \<Rightarrow> fs \<Rightarrow> (u32 \<times> fs) outcome" where
  "dirlink_loop dv dp [] end_off s = Ret (end_off, s)"
| "dirlink_loop dv dp (off # offs) end_off s =
     obind (readi dv dp off 16 s) (\<lambda>((r, d), s).
       if r \<noteq> 16 then Panic ''dirlink read''
       else if de_inum (get_dirent d) = 0 then Ret (off, s) else dirlink_loop dv dp offs end_off s)"

definition copy_name :: "byte list \<Rightarrow> byte list" where
  "copy_name name =
     (let m = snd (strncpy 0 0x80000000 (int DIRSIZ) (two_strings (replicate DIRSIZ 0) name))
      in map (\<lambda>i. m (word_of_nat i)) [0..<DIRSIZ])"

definition dirlink :: "devfuns \<Rightarrow> nat \<Rightarrow> byte list \<Rightarrow> u32 \<Rightarrow> fs \<Rightarrow> (int \<times> fs) outcome" where
  "dirlink dv dp name inum s =
     obind (dirlookup dv dp name s) (\<lambda>(found, s).
       case found of
         Some (ip, _) \<Rightarrow> obind (iput ip s) (\<lambda>s. Ret (- 1, s))
       | None \<Rightarrow>
           let offs = dir_offs (di_size (i_d (node s dp))) in
           obind (dirlink_loop dv dp offs (word_of_nat (16 * length offs)) s) (\<lambda>(off, s).
           obind (writei dv dp (put_dirent \<lparr>de_inum = ucast inum, de_name = copy_name name\<rparr>) off 16 s) (\<lambda>(r, s).
             if r \<noteq> 16 then Panic ''dirlink'' else Ret (0, s))))"

subsection \<open>Paths\<close>

text \<open>
  A path is the bytes before its zero byte. \<open>skipelem\<close> gives the rest of the path and the new
  contents of the 14 bytes of \<open>name\<close>, which it terminates only when there is room.
\<close>

definition skipelem :: "byte list \<Rightarrow> byte list \<Rightarrow> (byte list \<times> byte list) option" where
  "skipelem path name =
     (let path = dropWhile (\<lambda>c. c = 47) path in
      if path = [] then None
      else let s = takeWhile (\<lambda>c. c \<noteq> 47) path; path = dropWhile (\<lambda>c. c \<noteq> 47) path; len = length s;
               name = (if len \<ge> DIRSIZ then take DIRSIZ s else s @ 0 # drop (len + 1) name)
           in Some (dropWhile (\<lambda>c. c = 47) path, name))"

lemma skipelem_shorter: "skipelem path name = Some (path', name') \<Longrightarrow> length path' < length path"
proof -
  assume sk: "skipelem path name = Some (path', name')"
  let ?p = "dropWhile (\<lambda>c. c = 47) path"
  have p: "?p \<noteq> []" "path' = dropWhile (\<lambda>c. c = 47) (dropWhile (\<lambda>c. c \<noteq> 47) ?p)" using sk by (auto simp: skipelem_def Let_def split: if_splits)
  then obtain c cs where c0: "?p = c # cs" by (cases ?p) auto
  then have c: "?p = c # cs" "c \<noteq> 47" using hd_dropWhile[OF p(1)] by simp_all
  have "length path' \<le> length (dropWhile (\<lambda>c. c \<noteq> 47) ?p)" using p(2) by (simp add: length_dropWhile_le)
  also have "\<dots> \<le> length cs" using c by (simp add: length_dropWhile_le)
  also have "\<dots> < length path" using c(1) length_dropWhile_le[of "\<lambda>c. c = 47" path] by simp
  finally show ?thesis .
qed

function namex_loop :: "devfuns \<Rightarrow> bool \<Rightarrow> byte list \<Rightarrow> byte list \<Rightarrow> nat \<Rightarrow> fs \<Rightarrow> ((nat option \<times> byte list) \<times> fs) outcome" where
  "namex_loop dv nameiparent path name ip s =
     (case skipelem path name of
        None \<Rightarrow>
          if nameiparent then obind (iput ip s) (\<lambda>s. Ret ((None, name), s)) else Ret ((Some ip, name), s)
      | Some (path', name') \<Rightarrow>
          obind (ilock ip s) (\<lambda>s.
            if di_type (i_d (node s ip)) \<noteq> T_DIR then obind (iunlockput ip s) (\<lambda>s. Ret ((None, name'), s))
            else if nameiparent \<and> path' = [] then obind (iunlock ip s) (\<lambda>s. Ret ((Some ip, name'), s))
            else obind (dirlookup dv ip name' s) (\<lambda>(found, s).
                   case found of
                     None \<Rightarrow> obind (iunlockput ip s) (\<lambda>s. Ret ((None, name'), s))
                   | Some (nxt, _) \<Rightarrow>
                       obind (iunlockput ip s) (\<lambda>s. namex_loop dv nameiparent path' name' nxt s))))"
  by pat_completeness auto
termination
  by (relation "measure (\<lambda>(dv, np, path, name, ip, s). length path)") (auto intro: skipelem_shorter)

definition namex :: "devfuns \<Rightarrow> nat \<Rightarrow> byte list \<Rightarrow> bool \<Rightarrow> byte list \<Rightarrow> fs \<Rightarrow> ((nat option \<times> byte list) \<times> fs) outcome" where
  "namex dv cwd path nameiparent name s =
     (if path \<noteq> [] \<and> hd path = 47
      then obind (iget 1 1 s) (\<lambda>(ip, s). namex_loop dv nameiparent path name ip s)
      else let (ip, s) = idup cwd s in namex_loop dv nameiparent path name ip s)"

definition namei :: "devfuns \<Rightarrow> nat \<Rightarrow> byte list \<Rightarrow> fs \<Rightarrow> (nat option \<times> fs) outcome" where
  "namei dv cwd path s = obind (namex dv cwd path False (replicate DIRSIZ 0) s) (\<lambda>((ip, _), s). Ret (ip, s))"

definition nameiparent :: "devfuns \<Rightarrow> nat \<Rightarrow> byte list \<Rightarrow> byte list \<Rightarrow> fs \<Rightarrow> ((nat option \<times> byte list) \<times> fs) outcome" where
  "nameiparent dv cwd path name s = namex dv cwd path True name s"

end
