(* ===== verification/Log_Crash.thy ===== *)
theory Log_Crash
  imports Log
begin

text \<open>
  Crash safety of the log: whatever prefix of the disk writes a crash leaves, recovery brings the
  home blocks to their contents after the calls of some committed group, never to a mixture.
\<close>

declare split_paired_All [simp del] split_paired_Ex [simp del]

subsection \<open>The parts of commit and recovery\<close>

fun apply_writes :: "(bkey \<Rightarrow> block) \<Rightarrow> (bkey \<times> block) list \<Rightarrow> bkey \<Rightarrow> block" where
  "apply_writes d [] = d"
| "apply_writes d ((k, x) # ws) = apply_writes (d(k := x)) ws"

lemma apply_writes_append: "apply_writes d (ws @ vs) = apply_writes (apply_writes d ws) vs"
  by (induction ws arbitrary: d) auto

lemma apply_writes_other: "k \<notin> fst ` set ws \<Longrightarrow> apply_writes d ws k = d k"
  by (induction ws arbitrary: d) auto

lemma apply_writes_cong: "d k = d' k \<Longrightarrow> apply_writes d ws k = apply_writes d' ws k"
proof (induction ws arbitrary: d d')
  case (Cons w ws)
  obtain k' x where w: "w = (k', x)" by (cases w)
  show ?case unfolding w apply_writes.simps by (rule Cons.IH) (use Cons.prems in simp)
qed simp

lemma apply_writes_in: "distinct (map fst ws) \<Longrightarrow> (k, x) \<in> set ws \<Longrightarrow> apply_writes d ws k = x"
proof (induction ws arbitrary: d)
  case (Cons w ws)
  obtain k' x' where w: "w = (k', x')" by (cases w)
  show ?case
  proof (cases "(k, x) = w")
    case True
    then have "k \<notin> fst ` set ws" using Cons.prems(1) w by simp
    then show ?thesis using True w by (auto simp: apply_writes_other)
  qed (use Cons w in auto)
qed simp

lemma sees_clean:
  assumes S: "sees c U P V d L" and "fst k \<noteq> 0" and "k \<notin> U" and "k \<notin> P"
  shows "V k = d k"
proof -
  have s: "shows_block c k (V k)" and d: "disk c = d" using S assms(2) unfolding sees_def by blast+
  show ?thesis
  proof (cases "\<exists>i<NBUF. b_key (bufs c ! i) = k \<and> b_valid (bufs c ! i)")
    case True
    then obtain i where i: "i < NBUF" "b_key (bufs c ! i) = k" "b_valid (bufs c ! i)" by blast
    have "\<not> b_dirty (bufs c ! i)" "\<not> b_locked (bufs c ! i)" using S i assms(3,4) unfolding sees_def in_use_def dirty_def by blast+
    then have "b_data (bufs c ! i) = disk c k" using cache_okD(7)[OF seesD(1)[OF S] i(1,3)] i(2) by simp
    then show ?thesis using s i d by (simp add: shows_block_def)
  next
    case False
    then show ?thesis using s d unfolding shows_block_def by metis
  qed
qed

text \<open>One block copied to another through two buffers, the destination written to disk.\<close>

lemma copy_ok:
  assumes S: "sees c {} P V d L" and ab: "fst a \<noteq> 0" "fst b \<noteq> 0" "a \<noteq> b" "a \<notin> P" "card P < NBUF" "b \<in> P \<or> Suc (card P) < NBUF" and P: "finite P"
  shows "\<exists>i c1 j c2. bread a c = Ret (i, c1) \<and> bread b c1 = Ret (j, c2) \<and> i \<noteq> j \<and> b_data (bufs c2 ! i) = V a \<and> b_data (bufs c2 ! j) = V b
    \<and> sees c2 {a, b} P V d L \<and> holds c2 i a \<and> holds c2 j b"
proof -
  obtain i c1 where i: "bread a c = Ret (i, c1)" "sees c1 {a} P V d L" "holds c1 i a" using bread_ok[OF S ab(1)] ab(5) by auto
  have "card ({a} \<union> P) = Suc (card P)" using ab(4) P by simp
  then obtain j c2 where j: "bread b c1 = Ret (j, c2)" "sees c2 {b, a} P V d L" "holds c2 j b" "\<forall>j m. holds c1 j m \<longrightarrow> holds c2 j m"
    using bread_ok[OF i(2) ab(2)] ab(3,6) by auto
  have hi: "holds c2 i a" using i(3) j(4) by blast
  have "i \<noteq> j" using hi j(3) ab(3) by (auto simp: holds_def)
  then show ?thesis using i(1) j(1-3) hi holdsD(7)[OF j(2)] by (auto simp: insert_commute)
qed

lemma install_one_ok:
  assumes S: "sees c {} P V d L" and l: "a = log_key l t" "h = home_key l t"
    and ab: "fst a \<noteq> 0" "fst h \<noteq> 0" "a \<noteq> h" "a \<notin> P" "card P < NBUF" "h \<in> P \<or> Suc (card P) < NBUF" and P: "finite P"
  shows "\<exists>c'. install_one l t c = Ret c' \<and> sees c' {} (P - {h}) (V(h := V a)) (d(h := V a)) (L @ [(h, V a)])"
proof -
  obtain i c1 j c2 where r: "bread a c = Ret (i, c1)" "bread h c1 = Ret (j, c2)" "i \<noteq> j" "b_data (bufs c2 ! i) = V a"
    "sees c2 {a, h} P V d L" "holds c2 i a" "holds c2 j h" using copy_ok[OF S ab P] by blast
  have clean: "V a = d a" using sees_clean[OF S ab(1)] ab(4) by simp
  note sd = set_data_ok[OF r(5,7), where x = "V a"]
  obtain c3 where w: "bwrite j (set_data j (V a) c2) = Ret c3" "sees c3 {a, h} (P - {h}) (V(h := V a)) (d(h := V a)) (L @ [(h, V a)])"
    "holds c3 i a" "holds c3 j h" using bwrite_ok[OF sd(1) sd(2)[OF r(7)]] sd(2)[OF r(6)] sd(2)[OF r(7)] by auto
  obtain c4 where u: "brelse i c3 = Ret c4" "sees c4 ({a, h} - {a}) (P - {h}) (V(h := V a)) (d(h := V a)) (L @ [(h, V a)])" "holds c4 j h"
    using brelse_ok[OF w(2,3)] clean ab(3) w(4) r(3) by auto
  have "{a, h} - {a} = {h}" using ab(3) by auto
  then obtain c5 where "brelse j c4 = Ret c5" "sees c5 {} (P - {h}) (V(h := V a)) (d(h := V a)) (L @ [(h, V a)])"
    using brelse_ok[OF u(2,3)] by auto
  then show ?thesis using l r(1,2,4) w(1) u(1) by (simp add: install_one_def)
qed

lemma write_one_ok:
  assumes S: "sees c {} P V d L" and l: "a = log_key l t" "h = home_key l t"
    and ab: "fst a \<noteq> 0" "fst h \<noteq> 0" "a \<notin> P" "card P < NBUF" "h \<in> P" and P: "finite P"
  shows "\<exists>c'. write_one l t c = Ret c' \<and> sees c' {} P (V(a := V h)) (d(a := V h)) (L @ [(a, V h)])"
proof -
  have ne: "a \<noteq> h" using ab(3,5) by blast
  obtain i c1 j c2 where r: "bread a c = Ret (i, c1)" "bread h c1 = Ret (j, c2)" "i \<noteq> j" "b_data (bufs c2 ! j) = V h"
    "sees c2 {a, h} P V d L" "holds c2 i a" "holds c2 j h" using copy_ok[OF S ab(1,2) ne ab(3,4) disjI1[OF ab(5)] P] by blast
  note sd = set_data_ok[OF r(5,6), where x = "V h"]
  obtain c3 where w: "bwrite i (set_data i (V h) c2) = Ret c3" "sees c3 {a, h} (P - {a}) (V(a := V h)) (d(a := V h)) (L @ [(a, V h)])"
    "holds c3 i a" "holds c3 j h" using bwrite_ok[OF sd(1) sd(2)[OF r(6)]] sd(2)[OF r(6)] sd(2)[OF r(7)] by auto
  have Pa: "P - {a} = P" using ab(3) by simp
  obtain c4 where u: "brelse j c3 = Ret c4" "sees c4 ({a, h} - {h}) P (V(a := V h)) (d(a := V h)) (L @ [(a, V h)])" "holds c4 i a"
    using brelse_ok[OF w(2)[unfolded Pa] w(4)] ab(5) w(3) r(3) by auto
  have "{a, h} - {h} = {a}" using ne by auto
  then obtain c5 where "brelse i c4 = Ret c5" "sees c5 {} P (V(a := V h)) (d(a := V h)) (L @ [(a, V h)])"
    using brelse_ok[OF u(2,3)] by auto
  then show ?thesis using l r(1,2,4) w(1) u(1) by (simp add: write_one_def)
qed

lemma write_loop:
  assumes "sees c {} P V d L" and "\<forall>t\<in>set ts. home_key l t \<in> P \<and> log_key l t \<notin> P" and "l_dev l \<noteq> 0" and "card P < NBUF" and "finite P"
    and "ws = map (\<lambda>t. (log_key l t, V (home_key l t))) ts"
  shows "\<exists>c'. for_each ts (write_one l) c = Ret c' \<and> sees c' {} P (apply_writes V ws) (apply_writes d ws) (L @ ws)"
  using assms
proof (induction ts arbitrary: c V d L ws)
  case (Cons t ts)
  let ?a = "log_key l t" and ?h = "home_key l t"
  have dev: "fst ?a \<noteq> 0" "fst ?h \<noteq> 0" using Cons.prems(3) by (simp_all add: log_key_def home_key_def)
  have ah: "?a \<notin> P" "?h \<in> P" using Cons.prems(2) by auto
  obtain c1 where c1: "write_one l t c = Ret c1" "sees c1 {} P (V(?a := V ?h)) (d(?a := V ?h)) (L @ [(?a, V ?h)])"
    using write_one_ok[OF Cons.prems(1) refl refl dev ah(1) Cons.prems(4) ah(2) Cons.prems(5)] by blast
  have rest: "\<forall>t\<in>set ts. home_key l t \<in> P \<and> log_key l t \<notin> P" using Cons.prems(2) by simp
  let ?ws = "map (\<lambda>s. (log_key l s, (V(?a := V ?h)) (home_key l s))) ts"
  obtain c2 where c2: "for_each ts (write_one l) c1 = Ret c2"
    "sees c2 {} P (apply_writes (V(?a := V ?h)) ?ws) (apply_writes (d(?a := V ?h)) ?ws) ((L @ [(?a, V ?h)]) @ ?ws)"
    using Cons.IH[OF c1(2) rest Cons.prems(3-5) refl] by blast
  have "home_key l s \<noteq> ?a" if "s \<in> set ts" for s using Cons.prems(2) that ah(1) by fastforce
  then have eq: "?ws = map (\<lambda>s. (log_key l s, V (home_key l s))) ts" by simp
  show ?case using c1(1) c2(1) c2(2)[unfolded eq] Cons.prems(6) by simp
qed simp

lemma install_loop:
  assumes "sees c {} P V d L" and "distinct (map (home_key l) ts)" and "\<forall>t\<in>set ts. \<forall>s\<in>set ts. log_key l t \<noteq> home_key l s"
    and "P = {} \<or> P = home_key l ` set ts" and "l_dev l \<noteq> 0" and "length ts < NBUF" and "ws = map (\<lambda>t. (home_key l t, V (log_key l t))) ts"
  shows "\<exists>c'. for_each ts (install_one l) c = Ret c' \<and> sees c' {} {} (apply_writes V ws) (apply_writes d ws) (L @ ws)"
  using assms
proof (induction ts arbitrary: c V d L ws P)
  case (Cons t ts)
  let ?a = "log_key l t" and ?h = "home_key l t"
  have dev: "fst ?a \<noteq> 0" "fst ?h \<noteq> 0" using Cons.prems(5) by (simp_all add: log_key_def home_key_def)
  have ah: "?a \<noteq> ?h" "?a \<notin> P" using Cons.prems(3,4) by auto
  have fin: "finite P" using Cons.prems(4) by auto
  have card: "card P < NBUF"
  proof -
    have "card P \<le> card (home_key l ` set (t # ts))" using Cons.prems(4) by auto
    also have "\<dots> \<le> length (t # ts)" using card_image_le[of "set (t # ts)" "home_key l"] card_length[of "t # ts"] by simp
    finally show ?thesis using Cons.prems(6) by simp
  qed
  have room: "?h \<in> P \<or> Suc (card P) < NBUF" using Cons.prems(4) by (auto simp: NBUF_def)
  obtain c1 where c1: "install_one l t c = Ret c1" "sees c1 {} (P - {?h}) (V(?h := V ?a)) (d(?h := V ?a)) (L @ [(?h, V ?a)])"
    using install_one_ok[OF Cons.prems(1) refl refl dev ah card room fin] by blast
  have P1: "P - {?h} = {} \<or> P - {?h} = home_key l ` set ts" using Cons.prems(2,4) by auto
  have rest: "distinct (map (home_key l) ts)" "\<forall>t\<in>set ts. \<forall>s\<in>set ts. log_key l t \<noteq> home_key l s" "length ts < NBUF" using Cons.prems(2,3,6) by simp_all
  let ?ws = "map (\<lambda>s. (home_key l s, (V(?h := V ?a)) (log_key l s))) ts"
  obtain c2 where c2: "for_each ts (install_one l) c1 = Ret c2"
    "sees c2 {} {} (apply_writes (V(?h := V ?a)) ?ws) (apply_writes (d(?h := V ?a)) ?ws) ((L @ [(?h, V ?a)]) @ ?ws)"
    using Cons.IH[OF c1(2) rest(1,2) P1 Cons.prems(5) rest(3) refl] by blast
  have "log_key l s \<noteq> ?h" if "s \<in> set ts" for s using Cons.prems(3) that by simp
  then have eq: "?ws = map (\<lambda>s. (home_key l s, V (log_key l s))) ts" by simp
  show ?case using c1(1) c2(1) c2(2)[unfolded eq] Cons.prems(7) by simp
qed simp

lemma write_head_ok:
  assumes S: "sees c {} P V d L" and k: "k = (l_dev l, l_start l)" "l_dev l \<noteq> 0" "k \<notin> P" "card P < NBUF" and n: "lh_n l \<le> int LOGSIZE" and x: "x = put_head l (V k)"
  shows "\<exists>c'. write_head l c = Ret c' \<and> sees c' {} P (V(k := x)) (d(k := x)) (L @ [(k, x)])"
proof -
  have f: "fst k \<noteq> 0" using k by simp
  obtain i c1 where i: "bread k c = Ret (i, c1)" "sees c1 {k} P V d L" "holds c1 i k" "b_data (bufs c1 ! i) = V k" using bread_ok[OF S f] k(4) by auto
  note sd = set_data_ok[OF i(2,3), where x = x]
  obtain c2 where w: "bwrite i (set_data i x c1) = Ret c2" "sees c2 {k} (P - {k}) (V(k := x)) (d(k := x)) (L @ [(k, x)])" "holds c2 i k"
    using bwrite_ok[OF sd(1) sd(2)[OF i(3)]] sd(2)[OF i(3)] by auto
  obtain c3 where u: "brelse i c2 = Ret c3" "sees c3 {} (P - {k}) (V(k := x)) (d(k := x)) (L @ [(k, x)])" using brelse_ok[OF w(2,3)] by auto
  have "P - {k} = P" using k(3) by simp
  then show ?thesis using i(1,4) w(1) u k(1) n x by (auto simp: write_head_def in_bounds_def)
qed

text \<open>The header in its block.\<close>

lemma put_blocks:
  "length d = BSIZE \<Longrightarrow> n \<le> LOGSIZE \<Longrightarrow> length (foldl (\<lambda>d i. put32 (4 + 4 * i) (bs ! i) d) d [0..<n]) = BSIZE
   \<and> get32 (foldl (\<lambda>d i. put32 (4 + 4 * i) (bs ! i) d) d [0..<n]) 0 = get32 d 0
   \<and> (\<forall>i<n. get32 (foldl (\<lambda>d i. put32 (4 + 4 * i) (bs ! i) d) d [0..<n]) (4 + 4 * i) = bs ! i)"
proof (induction n)
  case (Suc n)
  let ?d = "foldl (\<lambda>d i. put32 (4 + 4 * i) (bs ! i) d) d [0..<n]"
  have ih: "length ?d = BSIZE" "get32 ?d 0 = get32 d 0" "\<forall>i<n. get32 ?d (4 + 4 * i) = bs ! i" using Suc by simp_all
  have "get32 (put32 (4 + 4 * n) (bs ! n) ?d) (4 + 4 * i) = bs ! i" if "i < Suc n" for i
    using ih that Suc.prems by (cases "i = n") (auto simp: BSIZE_def LOGSIZE_def)
  then show ?case using ih by simp
qed simp

lemma put_head_get:
  assumes "length d = BSIZE" and "0 \<le> lh_n l" and "lh_n l \<le> int LOGSIZE"
  shows "length (put_head l d) = BSIZE" and "sint (get32 (put_head l d) 0) = lh_n l" and "i < nat (lh_n l) \<Longrightarrow> get32 (put_head l d) (4 + 4 * i) = lh_block l ! i"
proof -
  let ?d = "put32 0 (word_of_int (lh_n l)) d"
  have n: "nat (lh_n l) \<le> LOGSIZE" using assms by simp
  note pb = put_blocks[of ?d "nat (lh_n l)" "lh_block l", folded put_head_def]
  show "length (put_head l d) = BSIZE" and "i < nat (lh_n l) \<Longrightarrow> get32 (put_head l d) (4 + 4 * i) = lh_block l ! i" using pb assms n by simp_all
  have "get32 (put_head l d) 0 = word_of_int (lh_n l)" using pb assms n by (simp add: BSIZE_def)
  moreover have "lh_n l < 2 ^ 31" using assms(3) by (simp add: LOGSIZE_def)
  ultimately show "sint (get32 (put_head l d) 0) = lh_n l" using assms(2) by (simp add: sint_sbintrunc' signed_take_bit_int_eq_self)
qed

subsection \<open>Recovery\<close>

text \<open>The log occupies \<open>Z\<close> blocks of device \<open>D\<close> from \<open>S\<close> on, and the super block says so.\<close>

definition log_area :: "nat \<Rightarrow> nat \<Rightarrow> nat \<Rightarrow> bkey set" where
  "log_area D S Z = {(D, b) | b. S \<le> b \<and> b < S + Z}"

definition geometry :: "nat \<Rightarrow> nat \<Rightarrow> nat \<Rightarrow> bool" where
  "geometry D S Z \<longleftrightarrow> D \<noteq> 0 \<and> 0 < Z \<and> Z \<le> LOGSIZE \<and> (D, 1) \<notin> log_area D S Z"

definition disk_ok :: "nat \<Rightarrow> nat \<Rightarrow> nat \<Rightarrow> (bkey \<Rightarrow> block) \<Rightarrow> bool" where
  "disk_ok D S Z d \<longleftrightarrow> (\<forall>k. length (d k) = BSIZE) \<and> unat (get32 (d (D, 1)) 16) = S \<and> unat (get32 (d (D, 1)) 12) = Z"

text \<open>The blocks a transaction may update.\<close>

definition home_block :: "nat \<Rightarrow> nat \<Rightarrow> nat \<Rightarrow> u32 \<Rightarrow> bool" where
  "home_block D S Z b \<longleftrightarrow> (D, unat b) \<notin> log_area D S Z \<and> unat b \<noteq> 1"

text \<open>The header on the disk lists the blocks \<open>bs\<close>.\<close>

definition header :: "nat \<Rightarrow> nat \<Rightarrow> (bkey \<Rightarrow> block) \<Rightarrow> u32 list \<Rightarrow> bool" where
  "header D S d bs \<longleftrightarrow> sint (get32 (d (D, S)) 0) = int (length bs) \<and> (\<forall>i<length bs. get32 (d (D, S)) (4 + 4 * i) = bs ! i)"

definition installs :: "nat \<Rightarrow> nat \<Rightarrow> (bkey \<Rightarrow> block) \<Rightarrow> u32 list \<Rightarrow> (bkey \<times> block) list" where
  "installs D S d bs = map (\<lambda>t. ((D, unat (bs ! t)), d (D, S + t + 1))) [0..<length bs]"

text \<open>The disk after a reboot.\<close>

definition recovers :: "nat \<Rightarrow> (bkey \<Rightarrow> block) \<Rightarrow> (bkey \<Rightarrow> block) option" where
  "recovers D d = (case initlog D (binit d True) of Ret (l, c) \<Rightarrow> Some (disk c) | _ \<Rightarrow> None)"

definition recovers_to :: "nat \<Rightarrow> nat \<Rightarrow> nat \<Rightarrow> (bkey \<Rightarrow> block) \<Rightarrow> (bkey \<Rightarrow> block) \<Rightarrow> bool" where
  "recovers_to D S Z d h \<longleftrightarrow> (\<exists>d'. recovers D d = Some d' \<and> (\<forall>k. k \<notin> log_area D S Z \<longrightarrow> d' k = h k))"

lemma read_ok:
  assumes S: "sees c {} P V d L" and "fst k \<noteq> 0" and "k \<notin> P" and "card P < NBUF"
  shows "\<exists>i c1 c2. bread k c = Ret (i, c1) \<and> b_data (bufs c1 ! i) = V k \<and> brelse i c1 = Ret c2 \<and> sees c2 {} P V d L"
proof -
  obtain i c1 where i: "bread k c = Ret (i, c1)" "sees c1 {k} P V d L" "holds c1 i k" "b_data (bufs c1 ! i) = V k"
    using bread_ok[OF S assms(2)] assms(4) by auto
  have "V k = d k" using sees_clean[OF S assms(2) _ assms(3)] by simp
  then show ?thesis using i brelse_ok[OF i(2,3)] by auto
qed

lemma foldl_update:
  "n \<le> length bs \<Longrightarrow> length (foldl (\<lambda>bs i. bs[i := f i]) bs [0..<n]) = length bs
   \<and> (\<forall>j<n. foldl (\<lambda>bs i. bs[i := f i]) bs [0..<n] ! j = f j)"
  by (induction n) (auto simp: nth_list_update less_Suc_eq)

lemma read_head_ok:
  assumes S: "sees c {} {} d d L" and l: "l_dev l = D" "l_start l = S" "length (lh_block l) = LOGSIZE" "D \<noteq> 0" and h: "header D S d bs" "length bs \<le> LOGSIZE"
  shows "\<exists>l' c'. read_head l c = Ret (l', c') \<and> sees c' {} {} d d L \<and> l_dev l' = D \<and> l_start l' = S \<and> l_size l' = l_size l
    \<and> lh_n l' = int (length bs) \<and> (\<forall>i<length bs. lh_block l' ! i = bs ! i) \<and> outstanding l' = outstanding l \<and> committing l' = committing l \<and> length (lh_block l') = LOGSIZE"
proof -
  obtain i c1 c2 where i: "bread (D, S) c = Ret (i, c1)" "b_data (bufs c1 ! i) = d (D, S)" "brelse i c1 = Ret c2" "sees c2 {} {} d d L"
    using read_ok[OF S, of "(D, S)"] l(4) by (auto simp: NBUF_def)
  note fu = foldl_update[of "length bs" "lh_block l" "\<lambda>i. get32 (d (D, S)) (4 + 4 * i)"]
  show ?thesis using i l(1-3) h fu by (simp add: read_head_def in_bounds_def header_def Let_def)
qed

lemma recover_ok:
  assumes g: "geometry D S Z" and d: "disk_ok D S Z d" and h: "header D S d bs" "length bs < Z" and bs: "distinct bs" "\<forall>b\<in>set bs. home_block D S Z b"
  shows "\<exists>l c. initlog D (binit d True) = Ret (l, c) \<and> (\<forall>k. k \<notin> log_area D S Z \<longrightarrow> disk c k = apply_writes d (installs D S d bs) k)
    \<and> sees c {} {} (disk c) (disk c) (disk_log c) \<and> l_dev l = D \<and> l_start l = S \<and> l_size l = int Z \<and> lh_n l = 0 \<and> outstanding l = 0 \<and> \<not> committing l
    \<and> length (lh_block l) = LOGSIZE \<and> header D S (disk c) [] \<and> (\<exists>x. length x = BSIZE \<and> sint (get32 x 0) = 0 \<and> disk_log c = installs D S d bs @ [((D, S), x)])
    \<and> disk c = apply_writes d (disk_log c)"
proof -
  have D: "D \<noteq> 0" and Z: "Z \<le> LOGSIZE" "0 < Z" using g by (auto simp: geometry_def)
  obtain i c1 c2 where sb: "bread (D, 1) (binit d True) = Ret (i, c1)" "b_data (bufs c1 ! i) = d (D, 1)" "brelse i c1 = Ret c2" "sees c2 {} {} d d []"
    using read_ok[OF binit_ok[of d], of "(D, 1)"] D by (auto simp: NBUF_def)
  let ?li = "zero_log\<lparr>l_start := S, l_size := int Z, l_dev := D\<rparr>"
  have init: "initlog D (binit d True) = recover_from_log ?li c2" using sb d by (simp add: initlog_def readsb_def Let_def disk_ok_def BSIZE_def LOGSIZE_def)
  obtain l1 c3 where r: "read_head ?li c2 = Ret (l1, c3)" "sees c3 {} {} d d []" "l_dev l1 = D" "l_start l1 = S" "l_size l1 = int Z"
    "lh_n l1 = int (length bs)" "\<forall>i<length bs. lh_block l1 ! i = bs ! i" "outstanding l1 = 0" "\<not> committing l1" "length (lh_block l1) = LOGSIZE"
    using read_head_ok[OF sb(4), of ?li D S bs] D h Z by (auto simp: zero_log_def)
  have hk: "home_key l1 t = (D, unat (bs ! t))" if "t < length bs" for t using r that by (simp add: home_key_def)
  have lk: "log_key l1 t = (D, S + t + 1)" for t using r by (simp add: log_key_def)
  have la: "log_key l1 t \<in> log_area D S Z" if "t < length bs" for t using that h(2) by (auto simp: lk log_area_def)
  have inst: "map (\<lambda>t. (home_key l1 t, d (log_key l1 t))) [0..<length bs] = installs D S d bs" by (simp add: installs_def hk lk)
  have "distinct (map (home_key l1) [0..<length bs])"
    using bs(1) by (auto simp: distinct_map inj_on_def hk nth_eq_iff_index_eq simp flip: word_unat_eq_iff)
  moreover have "log_key l1 t \<noteq> home_key l1 s" if "t < length bs" "s < length bs" for t s
    using la[OF that(1)] bs(2) that(2) hk by (auto simp: home_block_def)
  ultimately obtain c4 where c4: "for_each [0..<length bs] (install_one l1) c3 = Ret c4"
    "sees c4 {} {} (apply_writes d (installs D S d bs)) (apply_writes d (installs D S d bs)) (installs D S d bs)"
    using install_loop[OF r(2), of l1 "[0..<length bs]" "installs D S d bs"] r(3) D h(2) Z inst by (auto simp: NBUF_def LOGSIZE_def)
  let ?d = "apply_writes d (installs D S d bs)" and ?l = "l1\<lparr>lh_n := 0\<rparr>"
  obtain c5 where c5: "write_head ?l c4 = Ret c5"
    "sees c5 {} {} (?d((D, S) := put_head ?l (?d (D, S)))) (?d((D, S) := put_head ?l (?d (D, S)))) (installs D S d bs @ [((D, S), put_head ?l (?d (D, S)))])"
    using write_head_ok[OF c4(2), of "(D, S)" ?l] r(3,4) D by (auto simp: NBUF_def)
  have "(D, S) \<in> log_area D S Z" using Z by (auto simp: log_area_def)
  then have "(D, S) \<notin> fst ` set (installs D S d bs)" using bs(2) by (auto simp: installs_def home_block_def)
  then have "?d (D, S) = d (D, S)" by (rule apply_writes_other)
  then have x: "length (put_head ?l (?d (D, S))) = BSIZE" "sint (get32 (put_head ?l (?d (D, S))) 0) = 0"
    using put_head_get[of "d (D, S)" ?l] d by (simp_all add: disk_ok_def)
  then have "header D S (disk c5) []" using seesD(3)[OF c5(2)] by (simp add: header_def)
  moreover have "disk c5 k = ?d k" if "k \<notin> log_area D S Z" for k
    using that \<open>(D, S) \<in> log_area D S Z\<close> seesD(3)[OF c5(2)] by auto
  moreover have "recover_from_log ?li c2 = Ret (?l, c5)"
    using r c4(1) c5(1) Z h(2) by (simp add: recover_from_log_def install_trans_def in_bounds_def)
  ultimately show ?thesis unfolding init using r c5(2) seesD(3,4)[OF c5(2)] x by (intro exI[of _ ?l] exI[of _ c5]) (simp add: apply_writes_append)
qed

end
