(* ===== verification/Log_Commit.thy ===== *)
theory Log_Commit
  imports Log_Crash
begin

text \<open>
  The commit of a transaction, the state of the disk at every point of it, and what recovery makes
  of each.
\<close>

declare split_paired_All [simp del] split_paired_Ex [simp del]

subsection \<open>What a reboot makes of a crashed disk\<close>

lemma apply_writes_same: "k \<in> fst ` set ws \<Longrightarrow> apply_writes d ws k = apply_writes d' ws k"
proof (induction ws arbitrary: d d')
  case (Cons w ws)
  obtain k' x where w: "w = (k', x)" by (cases w)
  show ?case
  proof (cases "k \<in> fst ` set ws")
    case False
    then have "k = k'" using Cons.prems w by simp
    then show ?thesis unfolding w apply_writes.simps by (intro apply_writes_cong) simp
  qed (use Cons.IH w in simp)
qed simp

lemma apply_writes_keep:
  "(\<And>k x. (k, x) \<in> set ws \<Longrightarrow> Q x) \<Longrightarrow> Q (d k) \<Longrightarrow> Q (apply_writes d ws k)"
proof (induction ws arbitrary: d)
  case (Cons w ws)
  obtain k' x where w: "w = (k', x)" by (cases w)
  show ?case unfolding w apply_writes.simps by (rule Cons.IH) (use Cons.prems Cons.prems(1)[of k' x] w in auto)
qed simp

lemma recovers_old:
  assumes "geometry D S Z" and "disk_ok D S Z d" and "header D S d []" and "\<And>k. k \<notin> log_area D S Z \<Longrightarrow> d k = h k"
  shows "recovers_to D S Z d h"
proof -
  have "0 < Z" using assms(1) by (simp add: geometry_def)
  then show ?thesis using recover_ok[OF assms(1-3)] assms(4) by (auto simp: recovers_to_def recovers_def installs_def)
qed

lemma recovers_new:
  assumes "geometry D S Z" and "disk_ok D S Z d" and "header D S d bs" and "length bs < Z" and "distinct bs" and "\<forall>b\<in>set bs. home_block D S Z b"
    and hs: "hs = map (\<lambda>t. ((D, unat (bs ! t)), y t)) [0..<length bs]" and "\<And>t. t < length bs \<Longrightarrow> d (D, S + t + 1) = y t"
    and "\<And>k. k \<notin> log_area D S Z \<Longrightarrow> k \<notin> fst ` set hs \<Longrightarrow> d k = d0 k"
  shows "recovers_to D S Z d (apply_writes d0 hs)"
proof -
  have "installs D S d bs = hs" unfolding installs_def hs using assms(8) by simp
  moreover have "apply_writes d hs k = apply_writes d0 hs k" if "k \<notin> log_area D S Z" for k
  proof (cases "k \<in> fst ` set hs")
    case False
    then show ?thesis using assms(9) that by (simp add: apply_writes_other)
  qed (rule apply_writes_same)
  ultimately show ?thesis using recover_ok[OF assms(1-6)] by (auto simp: recovers_to_def recovers_def)
qed

subsection \<open>The disk during a commit\<close>

text \<open>
  The writes of a commit: the log blocks, the header with the list of blocks, the home blocks, the
  empty header. Here \<open>y\<close> are the new contents, \<open>x1\<close> and \<open>x2\<close> the two header blocks.
\<close>

definition log_writes :: "nat \<Rightarrow> nat \<Rightarrow> nat \<Rightarrow> (nat \<Rightarrow> block) \<Rightarrow> (bkey \<times> block) list" where
  "log_writes D S n y = map (\<lambda>t. ((D, S + t + 1), y t)) [0..<n]"

definition home_writes :: "nat \<Rightarrow> u32 list \<Rightarrow> (nat \<Rightarrow> block) \<Rightarrow> (bkey \<times> block) list" where
  "home_writes D bs y = map (\<lambda>t. ((D, unat (bs ! t)), y t)) [0..<length bs]"

definition commit_writes :: "nat \<Rightarrow> nat \<Rightarrow> u32 list \<Rightarrow> (nat \<Rightarrow> block) \<Rightarrow> block \<Rightarrow> block \<Rightarrow> (bkey \<times> block) list" where
  "commit_writes D S bs y x1 x2 = (log_writes D S (length bs) y @ [((D, S), x1)]) @ home_writes D bs y @ [((D, S), x2)]"

lemma disk_ok_writes:
  assumes "disk_ok D S Z d" and "\<And>k x. (k, x) \<in> set ws \<Longrightarrow> length x = BSIZE \<and> k \<noteq> (D, 1)"
  shows "disk_ok D S Z (apply_writes d ws)"
proof -
  have "(D, 1) \<notin> fst ` set ws" using assms(2) by fastforce
  moreover have "length (apply_writes d ws k) = BSIZE" for k
    by (rule apply_writes_keep[where Q = "\<lambda>x. length x = BSIZE"]) (use assms in \<open>auto simp: disk_ok_def\<close>)
  ultimately show ?thesis using assms(1) by (simp add: disk_ok_def apply_writes_other)
qed

lemma take_prefix_cases:
  obtains (first) p' where "take p (A @ [e] @ B @ [f]) = take p' A" | (middle) q where "take p (A @ [e] @ B @ [f]) = A @ [e] @ take q B"
    | (full) "take p (A @ [e] @ B @ [f]) = A @ [e] @ B @ [f]"
proof -
  consider "p \<le> length A" | q where "p = length A + 1 + q" "q \<le> length B" | "length A + 1 + length B < p"
    using le_Suc_ex[of "length A + 1" p] by force
  then show thesis
  proof cases
    case 1
    then show thesis using first by simp
  next
    case 2
    then show thesis using middle[of q] by simp
  next
    case 3
    then show thesis using full by simp
  qed
qed

lemma commit_crash:
  assumes g: "geometry D S Z" and d: "disk_ok D S Z d" "header D S d []" and bs: "length bs < Z" "distinct bs" "\<forall>b\<in>set bs. home_block D S Z b"
    and y: "\<forall>t<length bs. length (y t) = BSIZE" and x: "length x1 = BSIZE" "length x2 = BSIZE"
    and x1: "sint (get32 x1 0) = int (length bs)" "\<forall>i<length bs. get32 x1 (4 + 4 * i) = bs ! i" and x2: "sint (get32 x2 0) = 0"
    and W: "W = commit_writes D S bs y x1 x2" and h: "h = apply_writes d (home_writes D bs y)"
  shows "recovers_to D S Z (apply_writes d (take p W)) d \<or> recovers_to D S Z (apply_writes d (take p W)) h"
    and "disk_ok D S Z (apply_writes d W)" and "header D S (apply_writes d W) []" and "k \<notin> log_area D S Z \<Longrightarrow> apply_writes d W k = h k"
proof -
  let ?A = "log_writes D S (length bs) y" and ?B = "home_writes D bs y" and ?e = "((D, S), x1)" and ?f = "((D, S), x2)"
  have Z: "0 < Z" using g by (simp add: geometry_def)
  have WW: "W = ?A @ [?e] @ ?B @ [?f]" by (simp add: W commit_writes_def)
  have S: "(D, S) \<in> log_area D S Z" using Z by (auto simp: log_area_def)
  have A: "fst ` set ?A \<subseteq> log_area D S Z" "(D, S) \<notin> fst ` set ?A" using bs(1) by (auto simp: log_writes_def log_area_def)
  have B: "fst ` set ?B \<inter> log_area D S Z = {}" "(D, 1) \<notin> fst ` set ?B" using bs(3) by (auto simp: home_writes_def home_block_def)
  have sb: "(D, 1) \<notin> log_area D S Z" using g by (simp add: geometry_def)
  have in_W: "length x = BSIZE \<and> k \<noteq> (D, 1)" if "(k, x) \<in> set W" for k x
  proof
    show "length x = BSIZE" using that y x by (auto simp: WW log_writes_def home_writes_def)
    have "k \<in> fst ` set ?A \<or> k = (D, S) \<or> k \<in> fst ` set ?B" using that by (force simp: WW)
    then show "k \<noteq> (D, 1)" using A(1) B(2) S sb by blast
  qed
  have ok: "disk_ok D S Z (apply_writes d (take q W))" for q using disk_ok_writes[OF d(1)] in_W by (meson in_set_takeD)
  show "disk_ok D S Z (apply_writes d W)" using ok[of "length W"] by simp
  have last: "apply_writes d W = (apply_writes d (?A @ [?e] @ ?B))((D, S) := x2)"
    unfolding WW by (simp add: apply_writes_append)
  show hd: "header D S (apply_writes d W) []" using x2 by (simp add: last header_def)
  have AB: "apply_writes d (?A @ [?e] @ ?B) k = h k" if "k \<notin> log_area D S Z" for k
  proof -
    have "apply_writes d (?A @ [?e]) k = d k" using that A(1) S by (intro apply_writes_other) auto
    then show ?thesis unfolding h using apply_writes_cong[of "apply_writes d (?A @ [?e])" k d ?B] apply_writes_append[of d "?A @ [?e]" ?B] by simp
  qed
  show fin: "apply_writes d W k = h k" if "k \<notin> log_area D S Z" for k
    using AB[OF that] that S unfolding last by (metis fun_upd_other)
  show "recovers_to D S Z (apply_writes d (take p W)) d \<or> recovers_to D S Z (apply_writes d (take p W)) h"
  proof (rule take_prefix_cases[of p ?A ?e ?B ?f, folded WW])
    fix p' assume p: "take p W = take p' ?A"
    have sub: "fst ` set (take p W) \<subseteq> fst ` set ?A" unfolding p using set_take_subset by fast
    then have "apply_writes d (take p W) (D, S) = d (D, S)" using A(2) by (intro apply_writes_other) blast
    moreover have "apply_writes d (take p W) k = d k" if "k \<notin> log_area D S Z" for k using that A(1) sub by (intro apply_writes_other) blast
    ultimately show ?thesis using recovers_old[OF g ok[of p]] d(2) by (auto simp: header_def)
  next
    fix q assume p: "take p W = ?A @ [?e] @ take q ?B"
    let ?d = "apply_writes d (take p W)"
    have sub: "fst ` set (take q ?B) \<subseteq> fst ` set ?B" using set_take_subset by fast
    have dA: "?d k = apply_writes d (?A @ [?e]) k" if "k \<notin> fst ` set (take q ?B)" for k
      unfolding p using that apply_writes_append[of d "?A @ [?e]" "take q ?B"] by (simp add: apply_writes_other)
    have inA: "?d k = apply_writes d (?A @ [?e]) k" if "k \<in> log_area D S Z" for k using that B(1) sub by (intro dA) blast
    have "?d (D, S) = x1" using inA[OF S] by (simp add: apply_writes_append)
    then have "header D S ?d bs" using x1 by (simp add: header_def)
    moreover have "?d (D, S + t + 1) = y t" if "t < length bs" for t
    proof -
      have "distinct (map fst ?A)" by (simp add: log_writes_def comp_def distinct_map inj_on_def)
      then have "apply_writes d ?A (D, S + t + 1) = y t" using that by (intro apply_writes_in) (auto simp: log_writes_def)
      moreover have "(D, S + t + 1) \<in> log_area D S Z" using that bs(1) by (auto simp: log_area_def)
      ultimately show ?thesis using inA[of "(D, S + t + 1)"] by (simp add: apply_writes_append)
    qed
    moreover have "?d k = d k" if "k \<notin> log_area D S Z" "k \<notin> fst ` set ?B" for k
    proof -
      have "k \<notin> fst ` set (?A @ [?e] @ take q ?B)" using that A(1) S sub by auto
      then show ?thesis unfolding p by (rule apply_writes_other)
    qed
    ultimately show ?thesis using recovers_new[OF g ok[of p] _ bs, of ?B y d] unfolding h by (simp add: home_writes_def)
  next
    assume "take p W = W"
    then show ?thesis using recovers_old[OF g ok[of p]] hd fin by simp
  qed
qed

subsection \<open>The code of commit\<close>

definition keys :: "nat \<Rightarrow> u32 list \<Rightarrow> bkey set" where
  "keys D bs = (\<lambda>b. (D, unat b)) ` set bs"

definition lists :: "log \<Rightarrow> u32 list \<Rightarrow> bool" where
  "lists l bs \<longleftrightarrow> lh_n l = int (length bs) \<and> (\<forall>i<length bs. lh_block l ! i = bs ! i) \<and> length (lh_block l) = LOGSIZE"

lemma card_keys: "card (keys D bs) \<le> length bs"
  unfolding keys_def using card_image_le[of "set bs"] card_length[of bs] le_trans by blast

lemma length_put_blocks: "length (foldl (\<lambda>d i. put32 (4 + 4 * i) (bs ! i) d) d is) = length d"
  by (induction "is" arbitrary: d) simp_all

lemma commit_ok:
  assumes Se: "sees c {} (keys D bs) V d L" and g: "geometry D S Z" and l: "l_dev l = D" "l_start l = S" "lists l bs"
    and bs: "length bs < Z" "distinct bs" "\<forall>b\<in>set bs. home_block D S Z b" "bs \<noteq> []" and len: "\<And>k. fst k \<noteq> 0 \<Longrightarrow> length (V k) = BSIZE"
  shows "\<exists>c' x1 x2. commit l c = Ret (l\<lparr>lh_n := 0\<rparr>, c') \<and> length x1 = BSIZE \<and> length x2 = BSIZE \<and> sint (get32 x1 0) = int (length bs)
    \<and> (\<forall>i<length bs. get32 x1 (4 + 4 * i) = bs ! i) \<and> sint (get32 x2 0) = 0
    \<and> (let W = commit_writes D S bs (\<lambda>t. V (D, unat (bs ! t))) x1 x2 in sees c' {} {} (apply_writes V W) (apply_writes d W) (L @ W))"
proof -
  have D: "D \<noteq> 0" and Z: "Z \<le> LOGSIZE" "0 < Z" using g by (auto simp: geometry_def)
  let ?n = "length bs" and ?y = "\<lambda>t. V (D, unat (bs ! t))"
  have hk: "home_key l t = (D, unat (bs ! t))" if "t < ?n" for t using l that by (simp add: home_key_def lists_def)
  have lk: "log_key l t = (D, S + t + 1)" for t using l by (simp add: log_key_def)
  have la: "log_key l t \<in> log_area D S Z" if "t < ?n" for t using that bs(1) by (auto simp: lk log_area_def)
  have Sa: "(D, S) \<in> log_area D S Z" using Z by (auto simp: log_area_def)
  have out: "keys D bs \<inter> log_area D S Z = {}" using bs(3) by (auto simp: keys_def home_block_def)
  have hin: "home_key l t \<in> keys D bs" if "t < ?n" for t using hk[OF that] that by (auto simp: keys_def)
  have card: "card (keys D bs) < NBUF" using card_keys[of D bs] bs(1) Z by (simp add: NBUF_def LOGSIZE_def)
  have nb: "int LOGSIZE \<ge> lh_n l" "nat (lh_n l) = ?n" using l bs(1) Z by (auto simp: lists_def)
  let ?A = "log_writes D S ?n ?y" and ?B = "home_writes D bs ?y"
  have "map (\<lambda>t. (log_key l t, V (home_key l t))) [0..<?n] = ?A" by (simp add: log_writes_def lk hk)
  moreover have "\<forall>t\<in>set [0..<?n]. home_key l t \<in> keys D bs \<and> log_key l t \<notin> keys D bs"
  proof
    fix t assume "t \<in> set [0..<?n]"
    then have "t < ?n" by simp
    then show "home_key l t \<in> keys D bs \<and> log_key l t \<notin> keys D bs" using hin la out by blast
  qed
  ultimately obtain c1 where c1: "for_each [0..<?n] (write_one l) c = Ret c1" "sees c1 {} (keys D bs) (apply_writes V ?A) (apply_writes d ?A) (L @ ?A)"
    using write_loop[OF Se, of "[0..<?n]" l ?A] l(1) D card by (auto simp: keys_def)
  let ?V1 = "apply_writes V ?A" and ?d1 = "apply_writes d ?A"
  define x1 where "x1 = put_head l (?V1 (D, S))"
  have SP: "(D, S) \<notin> keys D bs" using Sa out by blast
  obtain c2 where c2: "write_head l c1 = Ret c2" "sees c2 {} (keys D bs) (?V1((D, S) := x1)) (?d1((D, S) := x1)) ((L @ ?A) @ [((D, S), x1)])"
    using write_head_ok[OF c1(2), of "(D, S)" l x1] l D SP card nb x1_def by auto
  let ?V2 = "?V1((D, S) := x1)" and ?d2 = "?d1((D, S) := x1)"
  have V2: "?V2 (log_key l t) = ?y t" if "t < ?n" for t
  proof -
    have "distinct (map fst ?A)" by (simp add: log_writes_def comp_def distinct_map inj_on_def)
    then have "?V1 (D, S + t + 1) = ?y t" using that by (intro apply_writes_in) (auto simp: log_writes_def)
    then show ?thesis by (simp add: lk)
  qed
  have B: "map (\<lambda>t. (home_key l t, ?V2 (log_key l t))) [0..<?n] = ?B" unfolding home_writes_def using V2 hk by (intro map_cong) auto
  have dis: "distinct (map (home_key l) [0..<?n])"
    using bs(2) by (auto simp: distinct_map inj_on_def hk nth_eq_iff_index_eq simp flip: word_unat_eq_iff)
  have apart: "\<forall>t\<in>set [0..<?n]. \<forall>s\<in>set [0..<?n]. log_key l t \<noteq> home_key l s" using la hin out by fastforce
  have img: "home_key l ` set [0..<?n] = keys D bs"
  proof
    show "home_key l ` set [0..<?n] \<subseteq> keys D bs" using hin by auto
    show "keys D bs \<subseteq> home_key l ` set [0..<?n]" using hk by (force simp: keys_def in_set_conv_nth)
  qed
  have pin: "keys D bs = {} \<or> keys D bs = home_key l ` set [0..<?n]" and dv: "l_dev l \<noteq> 0" and ln: "length [0..<?n] < NBUF"
    using img l(1) D bs(1) Z by (simp_all add: NBUF_def LOGSIZE_def)
  obtain c3 where c3: "for_each [0..<?n] (install_one l) c2 = Ret c3" "sees c3 {} {} (apply_writes ?V2 ?B) (apply_writes ?d2 ?B) ((L @ ?A) @ [((D, S), x1)] @ ?B)"
    using install_loop[OF c2(2) dis apart pin dv ln refl] unfolding B by auto
  let ?l = "l\<lparr>lh_n := 0\<rparr>"
  define x2 where "x2 = put_head ?l (apply_writes ?V2 ?B (D, S))"
  let ?W = "commit_writes D S bs ?y x1 x2"
  have "apply_writes u ?W = (apply_writes ((apply_writes u ?A)((D, S) := x1)) ?B)((D, S) := x2)" for u by (simp add: commit_writes_def apply_writes_append)
  then obtain c4 where c4: "write_head ?l c3 = Ret c4" "sees c4 {} {} (apply_writes V ?W) (apply_writes d ?W) (L @ ?W)"
    using write_head_ok[OF c3(2), of "(D, S)" ?l x2] l D x2_def by (auto simp: NBUF_def commit_writes_def)
  have "commit l c = Ret (?l, c4)" using c1(1) c2(1) c3(1) c4(1) nb bs(4) l(3)
    by (simp add: commit_def write_log_def install_trans_def in_bounds_def lists_def)
  moreover have lV: "length (apply_writes V ?A (D, S)) = BSIZE"
    using apply_writes_keep[of ?A "\<lambda>x. length x = BSIZE" V "(D, S)"] len D by (force simp: log_writes_def)
  then have "length x1 = BSIZE" "sint (get32 x1 0) = int ?n" "\<forall>i<?n. get32 x1 (4 + 4 * i) = bs ! i"
    using put_head_get[OF lV, of l] nb l(3) unfolding x1_def by (simp_all add: lists_def)
  moreover have "(D, S) \<notin> fst ` set ?B" using bs(3) Sa by (auto simp: home_writes_def home_block_def)
  then have "apply_writes ?V2 ?B (D, S) = x1" by (simp add: apply_writes_other)
  then have "length x2 = BSIZE" "sint (get32 x2 0) = 0" using put_head_get[of x1 ?l] \<open>length x1 = BSIZE\<close> by (simp_all add: x2_def)
  ultimately show ?thesis using c4(2) unfolding Let_def by blast
qed

end
