(* ===== verification/Log_Atomic.thy ===== *)
theory Log_Atomic
  imports Log_Commit
begin

text \<open>
  The log under any sequence of system calls: the disk, after a crash at any point and recovery,
  holds the updates of a prefix of the calls that ends when no call was running.
\<close>

declare split_paired_All [simp del] split_paired_Ex [simp del]

subsection \<open>The abstract disk\<close>

fun fs_write :: "nat \<Rightarrow> fs_ev \<Rightarrow> (bkey \<Rightarrow> block) \<Rightarrow> bkey \<Rightarrow> block" where
  "fs_write D (Write b x) d = d((D, unat b) := x)"
| "fs_write D _ d = d"

definition fs_spec :: "nat \<Rightarrow> (bkey \<Rightarrow> block) \<Rightarrow> fs_ev list \<Rightarrow> bkey \<Rightarrow> block" where
  "fs_spec D d evs = fold (fs_write D) evs d"

fun op_count :: "fs_ev \<Rightarrow> int" where
  "op_count Begin = 1"
| "op_count End = - 1"
| "op_count (Write b x) = 0"

text \<open>The number of calls that have begun and not ended.\<close>

definition open_ops :: "fs_ev list \<Rightarrow> int" where
  "open_ops evs = sum_list (map op_count evs)"

fun home_ev :: "nat \<Rightarrow> nat \<Rightarrow> nat \<Rightarrow> fs_ev \<Rightarrow> bool" where
  "home_ev D S Z (Write b x) \<longleftrightarrow> home_block D S Z b \<and> length x = BSIZE"
| "home_ev D S Z _ \<longleftrightarrow> True"

lemma fs_spec_snoc: "fs_spec D d (evs @ [e]) = fs_write D e (fs_spec D d evs)"
  by (simp add: fs_spec_def)

lemma open_ops_snoc: "open_ops (evs @ [e]) = open_ops evs + op_count e"
  by (simp add: open_ops_def)

subsection \<open>The invariant\<close>

text \<open>A disk that recovery takes to the updates of a group of finished calls.\<close>

definition consistent :: "nat \<Rightarrow> nat \<Rightarrow> nat \<Rightarrow> (bkey \<Rightarrow> block) \<Rightarrow> fs_ev list \<Rightarrow> (bkey \<Rightarrow> block) \<Rightarrow> bool" where
  "consistent D S Z d0 evs d \<longleftrightarrow> (\<exists>m\<le>length evs. open_ops (take m evs) = 0 \<and> recovers_to D S Z d (fs_spec D d0 (take m evs)))"

definition between :: "nat \<Rightarrow> nat \<Rightarrow> nat \<Rightarrow> (bkey \<Rightarrow> block) \<Rightarrow> fs_ev list \<Rightarrow> (bkey \<Rightarrow> block) \<Rightarrow> bool" where
  "between D S Z d0 evs d \<longleftrightarrow> (\<exists>m\<le>length evs. open_ops (take m evs) = 0 \<and> (\<forall>k. k \<notin> log_area D S Z \<longrightarrow> d k = fs_spec D d0 (take m evs) k))"

definition log_state :: "nat \<Rightarrow> nat \<Rightarrow> nat \<Rightarrow> log \<Rightarrow> u32 list \<Rightarrow> int \<Rightarrow> bool" where
  "log_state D S Z l bs n \<longleftrightarrow> l_dev l = D \<and> l_start l = S \<and> l_size l = int Z \<and> \<not> committing l \<and> lists l bs \<and> outstanding l = n
     \<and> length bs < Z \<and> distinct bs \<and> (\<forall>b\<in>set bs. home_block D S Z b) \<and> (n \<le> 0 \<longrightarrow> bs = [])"

definition log_inv :: "nat \<Rightarrow> nat \<Rightarrow> nat \<Rightarrow> (bkey \<Rightarrow> block) \<Rightarrow> fs_ev list \<Rightarrow> log \<times> bcache \<Rightarrow> bool" where
  "log_inv D S Z d0 evs = (\<lambda>(l, c). \<exists>V d L bs. sees c {} (keys D bs) V d L \<and> d = apply_writes d0 L \<and> disk_ok D S Z d \<and> header D S d []
     \<and> log_state D S Z l bs (open_ops evs) \<and> (\<forall>k. fst k \<noteq> 0 \<longrightarrow> length (V k) = BSIZE)
     \<and> (\<forall>k. fst k \<noteq> 0 \<longrightarrow> k \<notin> log_area D S Z \<longrightarrow> V k = fs_spec D d0 evs k) \<and> between D S Z d0 evs d
     \<and> (open_ops evs \<le> 0 \<longrightarrow> (\<forall>k. k \<notin> log_area D S Z \<longrightarrow> d k = fs_spec D d0 evs k))
     \<and> (\<forall>p. consistent D S Z d0 evs (apply_writes d0 (take p L))))"

lemma log_invI:
  assumes "sees c {} (keys D bs) V d L" and "d = apply_writes d0 L" and "disk_ok D S Z d" and "header D S d []" and "log_state D S Z l bs (open_ops evs)"
    and "\<And>k. fst k \<noteq> 0 \<Longrightarrow> length (V k) = BSIZE" and "\<And>k. fst k \<noteq> 0 \<Longrightarrow> k \<notin> log_area D S Z \<Longrightarrow> V k = fs_spec D d0 evs k"
    and "between D S Z d0 evs d" and "\<And>k. open_ops evs \<le> 0 \<Longrightarrow> k \<notin> log_area D S Z \<Longrightarrow> d k = fs_spec D d0 evs k"
    and "\<And>p. consistent D S Z d0 evs (apply_writes d0 (take p L))"
  shows "log_inv D S Z d0 evs (l, c)"
  unfolding log_inv_def prod.case using assms by blast

lemma log_invE:
  assumes "log_inv D S Z d0 evs (l, c)"
  obtains V d L bs where "sees c {} (keys D bs) V d L" and "d = apply_writes d0 L" and "disk_ok D S Z d" and "header D S d []"
    and "log_state D S Z l bs (open_ops evs)" and "\<And>k. fst k \<noteq> 0 \<Longrightarrow> length (V k) = BSIZE"
    and "\<And>k. fst k \<noteq> 0 \<Longrightarrow> k \<notin> log_area D S Z \<Longrightarrow> V k = fs_spec D d0 evs k" and "between D S Z d0 evs d"
    and "\<And>k. open_ops evs \<le> 0 \<Longrightarrow> k \<notin> log_area D S Z \<Longrightarrow> d k = fs_spec D d0 evs k"
    and "\<And>p. consistent D S Z d0 evs (apply_writes d0 (take p L))"
  using assms unfolding log_inv_def prod.case by blast

lemma prefix_mono:
  shows "consistent D S Z d0 evs d \<Longrightarrow> consistent D S Z d0 (evs @ [e]) d" and "between D S Z d0 evs d \<Longrightarrow> between D S Z d0 (evs @ [e]) d"
  unfolding consistent_def between_def by (metis (no_types) append_Nil2 diff_is_0_eq le_SucI length_append_singleton take0 take_append)+

lemma fs_spec_other: "fst k \<noteq> D \<Longrightarrow> fs_spec D d evs k = d k"
proof (induction evs rule: rev_induct)
  case (snoc e evs)
  then show ?case by (cases e) (auto simp: fs_spec_snoc)
qed (simp add: fs_spec_def)

lemma log_area_mem: "k \<in> log_area D S Z \<Longrightarrow> fst k = D"
  by (auto simp: log_area_def)

lemma between_other: "between D S Z d0 evs d \<Longrightarrow> fst k \<noteq> D \<Longrightarrow> d k = fs_spec D d0 evs k"
  unfolding between_def by (metis (mono_tags, lifting) fs_spec_other log_area_mem)

lemma between_now: "open_ops evs = 0 \<Longrightarrow> (\<And>k. k \<notin> log_area D S Z \<Longrightarrow> d k = fs_spec D d0 evs k) \<Longrightarrow> between D S Z d0 evs d"
  by (auto simp: between_def intro!: exI[of _ "length evs"])

lemma consistent_now: "open_ops evs = 0 \<Longrightarrow> recovers_to D S Z d h \<Longrightarrow> (\<And>k. k \<notin> log_area D S Z \<Longrightarrow> h k = fs_spec D d0 evs k) \<Longrightarrow> consistent D S Z d0 evs d"
  by (auto simp: consistent_def recovers_to_def intro!: exI[of _ "length evs"])

lemma between_consistent: "between D S Z d0 evs d' \<Longrightarrow> recovers_to D S Z d d' \<Longrightarrow> consistent D S Z d0 evs d"
  unfolding between_def consistent_def recovers_to_def by metis

text \<open>The new contents of the home blocks are those a reader saw before the commit.\<close>

lemma home_writes_spec:
  assumes S: "sees c {} (keys D bs) V d L" and "D \<noteq> 0" and "distinct bs" and V: "\<And>k. fst k \<noteq> 0 \<Longrightarrow> k \<notin> log_area D S Z \<Longrightarrow> V k = fs_spec D d0 evs k"
    and b: "between D S Z d0 evs d" and k: "k \<notin> log_area D S Z"
  shows "apply_writes d (home_writes D bs (\<lambda>t. V (D, unat (bs ! t)))) k = fs_spec D d0 evs k"
proof (cases "k \<in> keys D bs")
  case True
  let ?ws = "home_writes D bs (\<lambda>t. V (D, unat (bs ! t)))"
  obtain t where t: "t < length bs" "k = (D, unat (bs ! t))" using True by (auto simp: keys_def in_set_conv_nth)
  have "distinct (map fst ?ws)"
    using assms(3) by (auto simp: home_writes_def comp_def distinct_map inj_on_def nth_eq_iff_index_eq simp flip: word_unat_eq_iff)
  moreover have "(k, V k) \<in> set ?ws" using t by (auto simp: home_writes_def)
  ultimately have "apply_writes d ?ws k = V k" by (rule apply_writes_in)
  then show ?thesis using V k assms(2) t by simp
next
  case False
  then have "k \<notin> fst ` set (home_writes D bs (\<lambda>t. V (D, unat (bs ! t))))" by (auto simp: home_writes_def keys_def)
  then have d: "apply_writes d (home_writes D bs (\<lambda>t. V (D, unat (bs ! t)))) k = d k" by (rule apply_writes_other)
  show ?thesis
  proof (cases "fst k = D")
    case True
    then show ?thesis using d sees_clean[OF S _ _ False] V k assms(2) by simp
  qed (use d between_other[OF b] in simp)
qed

lemma begin_step:
  assumes "log_inv D S Z d0 evs (l, c)" and "fs_step Begin (l, c) = Ret s"
  shows "log_inv D S Z d0 (evs @ [Begin]) s"
proof -
  obtain V d L bs where I: "sees c {} (keys D bs) V d L" "d = apply_writes d0 L" "disk_ok D S Z d" "header D S d []" "log_state D S Z l bs (open_ops evs)"
    "\<And>k. fst k \<noteq> 0 \<Longrightarrow> length (V k) = BSIZE" "\<And>k. fst k \<noteq> 0 \<Longrightarrow> k \<notin> log_area D S Z \<Longrightarrow> V k = fs_spec D d0 evs k" "between D S Z d0 evs d"
    "\<And>k. open_ops evs \<le> 0 \<Longrightarrow> k \<notin> log_area D S Z \<Longrightarrow> d k = fs_spec D d0 evs k" "\<And>p. consistent D S Z d0 evs (apply_writes d0 (take p L))"
    by (rule log_invE[OF assms(1)]) (rule that; assumption)
  have s: "s = (l\<lparr>outstanding := outstanding l + 1\<rparr>, c)" using assms(2) by (auto simp: begin_op_def split: if_splits)
  show ?thesis unfolding s
  proof (rule log_invI[OF I(1-4) _ I(6) _ prefix_mono(2)[OF I(8)] _ prefix_mono(1)[OF I(10)]])
    show "log_state D S Z (l\<lparr>outstanding := outstanding l + 1\<rparr>) bs (open_ops (evs @ [Begin]))"
      using I(5) by (auto simp: log_state_def lists_def open_ops_snoc)
  qed (use I(7,9) in \<open>auto simp: fs_spec_snoc open_ops_snoc\<close>)
qed

lemma end_step:
  assumes g: "geometry D S Z" and "log_inv D S Z d0 evs (l, c)" and "fs_step End (l, c) = Ret s"
  shows "log_inv D S Z d0 (evs @ [End]) s"
proof -
  obtain V d L bs where I: "sees c {} (keys D bs) V d L" "d = apply_writes d0 L" "disk_ok D S Z d" "header D S d []" "log_state D S Z l bs (open_ops evs)"
    "\<And>k. fst k \<noteq> 0 \<Longrightarrow> length (V k) = BSIZE" "\<And>k. fst k \<noteq> 0 \<Longrightarrow> k \<notin> log_area D S Z \<Longrightarrow> V k = fs_spec D d0 evs k" "between D S Z d0 evs d"
    "\<And>k. open_ops evs \<le> 0 \<Longrightarrow> k \<notin> log_area D S Z \<Longrightarrow> d k = fs_spec D d0 evs k" "\<And>p. consistent D S Z d0 evs (apply_writes d0 (take p L))"
    by (rule log_invE[OF assms(2)]) (rule that; assumption)
  note st = I(5)[unfolded log_state_def]
  have spec: "fs_spec D d0 (evs @ [End]) = fs_spec D d0 evs" by (simp add: fs_spec_snoc)
  have D: "D \<noteq> 0" using g by (simp add: geometry_def)
  let ?l = "l\<lparr>outstanding := outstanding l - 1, committing := True\<rparr>"
  show ?thesis
  proof (cases "outstanding l = 1")
    case False
    then have s: "s = (l\<lparr>outstanding := outstanding l - 1\<rparr>, c)" using assms(3) st by (auto simp: end_op_def Let_def)
    show ?thesis unfolding s
    proof (rule log_invI[OF I(1-4) _ I(6) _ prefix_mono(2)[OF I(8)] _ prefix_mono(1)[OF I(10)]])
      show "log_state D S Z (l\<lparr>outstanding := outstanding l - 1\<rparr>) bs (open_ops (evs @ [End]))"
        using I(5) False by (auto simp: log_state_def lists_def open_ops_snoc)
    qed (use I(7,9) False st in \<open>auto simp: spec open_ops_snoc\<close>)
  next
    case True
    have open0: "open_ops (evs @ [End]) = 0" using True st by (simp add: open_ops_snoc)
    have home: "k \<in> keys D bs \<Longrightarrow> k \<notin> log_area D S Z \<and> fst k \<noteq> 0" for k using st D by (auto simp: keys_def home_block_def)
    show ?thesis
    proof (cases "bs = []")
      case nil: True
      then have s: "s = (l\<lparr>outstanding := 0\<rparr>, c)" using assms(3) True st by (auto simp: end_op_def Let_def commit_def lists_def)
      have now: "d k = fs_spec D d0 evs k" if "k \<notin> log_area D S Z" for k
        using home_writes_spec[OF I(1) D _ I(7,8) that] nil by (simp add: home_writes_def)
      show ?thesis unfolding s
      proof (rule log_invI[OF I(1-4) _ I(6) _ prefix_mono(2)[OF I(8)] _ prefix_mono(1)[OF I(10)]])
        show "log_state D S Z (l\<lparr>outstanding := 0\<rparr>) bs (open_ops (evs @ [End]))" using I(5) nil open0 by (auto simp: log_state_def lists_def)
      qed (use I(7) now in \<open>auto simp: spec\<close>)
    next
      case False
      have lst: "lists ?l bs" "l_dev ?l = D" "l_start ?l = S" using st by (auto simp: lists_def)
      let ?y = "\<lambda>t. V (D, unat (bs ! t))"
      obtain c' x1 x2 where c': "commit ?l c = Ret (?l\<lparr>lh_n := 0\<rparr>, c')" and x: "length x1 = BSIZE" "length x2 = BSIZE" "sint (get32 x1 0) = int (length bs)"
        "\<forall>i<length bs. get32 x1 (4 + 4 * i) = bs ! i" "sint (get32 x2 0) = 0"
        and se: "sees c' {} {} (apply_writes V (commit_writes D S bs ?y x1 x2)) (apply_writes d (commit_writes D S bs ?y x1 x2)) (L @ commit_writes D S bs ?y x1 x2)"
        using commit_ok[OF I(1) g lst(2,3,1)] st False I(6) unfolding Let_def by blast
      let ?W = "commit_writes D S bs ?y x1 x2" and ?h = "apply_writes d (home_writes D bs ?y)"
      have s: "s = (l\<lparr>outstanding := 0, lh_n := 0\<rparr>, c')" using assms(3) True st c' by (auto simp: end_op_def Let_def)
      have hspec: "?h k = fs_spec D d0 (evs @ [End]) k" if "k \<notin> log_area D S Z" for k
        using home_writes_spec[OF I(1) D _ I(7,8) that] st spec by simp
      have ly: "\<forall>t<length bs. length (?y t) = BSIZE" using I(6) D by simp
      have bb: "length bs < Z" "distinct bs" "\<forall>b\<in>set bs. home_block D S Z b" using st by auto
      note cc = commit_crash[where y = ?y, OF g I(3,4) bb ly x refl refl]
      have fin: "apply_writes d ?W k = fs_spec D d0 (evs @ [End]) k" if "k \<notin> log_area D S Z" for k using cc(4)[OF that] hspec[OF that] by simp
      have clean: "apply_writes V ?W k = apply_writes d ?W k" if "fst k \<noteq> 0" for k using sees_clean[OF se that] by simp
      have se0: "sees c' {} (keys D []) (apply_writes V ?W) (apply_writes d ?W) (L @ ?W)" using se by (simp add: keys_def)
      show ?thesis unfolding s
      proof (rule log_invI[OF se0])
        show "apply_writes d ?W = apply_writes d0 (L @ ?W)" using I(2) by (simp add: apply_writes_append)
        show "disk_ok D S Z (apply_writes d ?W)" "header D S (apply_writes d ?W) []" by (rule cc(2), rule cc(3))
        show "log_state D S Z (l\<lparr>outstanding := 0, lh_n := 0\<rparr>) [] (open_ops (evs @ [End]))" using I(5) open0 by (auto simp: log_state_def lists_def)
        show "between D S Z d0 (evs @ [End]) (apply_writes d ?W)" by (rule between_now[OF open0 fin])
        show "length (apply_writes V ?W k) = BSIZE" if "fst k \<noteq> 0" for k using clean[OF that] cc(2) by (simp add: disk_ok_def)
        show "apply_writes V ?W k = fs_spec D d0 (evs @ [End]) k" if "fst k \<noteq> 0" "k \<notin> log_area D S Z" for k using clean fin that by simp
        show "apply_writes d ?W k = fs_spec D d0 (evs @ [End]) k" if "k \<notin> log_area D S Z" for k using fin that .
        fix p
        show "consistent D S Z d0 (evs @ [End]) (apply_writes d0 (take p (L @ ?W)))"
        proof (cases "p \<le> length L")
          case True
          then show ?thesis using prefix_mono(1)[OF I(10)] by simp
        next
          case False
          then have pr: "apply_writes d0 (take p (L @ ?W)) = apply_writes d (take (p - length L) ?W)" using I(2) by (simp add: apply_writes_append)
          consider "recovers_to D S Z (apply_writes d (take (p - length L) ?W)) d" | "recovers_to D S Z (apply_writes d (take (p - length L) ?W)) ?h"
            using cc(1)[of "p - length L"] by blast
          then show ?thesis
          proof cases
            case 1
            then show ?thesis unfolding pr using between_consistent[OF prefix_mono(2)[OF I(8)]] by blast
          next
            case 2
            then show ?thesis unfolding pr using consistent_now[OF open0 _ hspec] by blast
          qed
        qed
      qed
    qed
  qed
qed

subsection \<open>Updates\<close>

lemma log_write_ok:
  assumes st: "log_state D S Z l bs n" and b: "home_block D S Z bno" "b_key (bufs c ! i) = (D, unat bno)" and g: "geometry D S Z"
    and r: "log_write i l c = Ret (l', c')"
  shows "c' = upd_buf i (\<lambda>b. b\<lparr>b_dirty := True\<rparr>) c" and "log_state D S Z l' (if bno \<in> set bs then bs else bs @ [bno]) n"
proof -
  note s = st[unfolded log_state_def lists_def]
  have n: "lh_n l < int LOGSIZE" "lh_n l < int Z - 1" "1 \<le> outstanding l" using r s by (auto simp: log_write_def split: if_splits)
  let ?Q = "\<lambda>i. lh_block l ! i = bno"
  show "c' = upd_buf i (\<lambda>b. b\<lparr>b_dirty := True\<rparr>) c" using r by (auto simp: log_write_def Let_def split: if_splits)
  have nn: "nat (lh_n l) = length bs" using s by simp
  show "log_state D S Z l' (if bno \<in> set bs then bs else bs @ [bno]) n"
  proof (cases "find ?Q [0..<length bs]")
    case None
    then have ni: "bno \<notin> set bs" using s by (auto simp: find_None_iff in_set_conv_nth)
    have "l' = l\<lparr>lh_block := (lh_block l)[length bs := bno], lh_n := lh_n l + 1\<rparr>"
      using r n None b(2) s nn by (auto simp: log_write_def Let_def)
    then show ?thesis using s ni b(1) n by (auto simp: log_state_def lists_def nth_append nth_list_update)
  next
    case (Some j)
    then have j: "j < length bs" "lh_block l ! j = bno" using find_SomeD[OF Some] by auto
    then have "bno \<in> set bs" using s by (metis nth_mem)
    moreover have "l' = l\<lparr>lh_block := (lh_block l)[j := bno], lh_n := lh_n l\<rparr>"
      using r n Some b(2) s nn j by (auto simp: log_write_def Let_def)
    moreover have "(lh_block l)[j := bno] = lh_block l" using j(2) list_update_id[of "lh_block l" j] by simp
    ultimately show ?thesis using st by simp
  qed
qed

lemma write_step:
  assumes g: "geometry D S Z" and "log_inv D S Z d0 evs (l, c)" and "fs_step (Write bno x) (l, c) = Ret s" and ev: "home_ev D S Z (Write bno x)"
  shows "log_inv D S Z d0 (evs @ [Write bno x]) s"
proof -
  obtain V d L bs where I: "sees c {} (keys D bs) V d L" "d = apply_writes d0 L" "disk_ok D S Z d" "header D S d []" "log_state D S Z l bs (open_ops evs)"
    "\<And>k. fst k \<noteq> 0 \<Longrightarrow> length (V k) = BSIZE" "\<And>k. fst k \<noteq> 0 \<Longrightarrow> k \<notin> log_area D S Z \<Longrightarrow> V k = fs_spec D d0 evs k" "between D S Z d0 evs d"
    "\<And>k. open_ops evs \<le> 0 \<Longrightarrow> k \<notin> log_area D S Z \<Longrightarrow> d k = fs_spec D d0 evs k" "\<And>p. consistent D S Z d0 evs (apply_writes d0 (take p L))"
    by (rule log_invE[OF assms(2)]) (rule that; assumption)
  note st = I(5)[unfolded log_state_def]
  have D: "D \<noteq> 0" and Z: "Z \<le> LOGSIZE" using g by (auto simp: geometry_def)
  let ?k = "(D, unat bno)" and ?bs = "if bno \<in> set bs then bs else bs @ [bno]"
  have "card (keys D bs) < NBUF" using card_keys[of D bs] st Z by (simp add: NBUF_def LOGSIZE_def)
  then obtain i c1 where i: "bread ?k c = Ret (i, c1)" "sees c1 {?k} (keys D bs) V d L" "holds c1 i ?k" using bread_ok[OF I(1), of ?k] D by auto
  note sd = set_data_ok[OF i(2,3), where x = x]
  obtain l' c3 where lw: "log_write i l (set_data i x c1) = Ret (l', c3)" using assms(3) i(1) st by (cases "log_write i l (set_data i x c1)") auto
  note H = holdsD[OF sd(1) sd(2)[OF i(3)]] and lo = log_write_ok[OF I(5) _ holdsD(3)[OF sd(1) sd(2)[OF i(3)]] g lw]
  note md = mark_dirty_ok[OF sd(1) sd(2)[OF i(3)]]
  have ins: "insert ?k (keys D bs) = keys D ?bs" by (auto simp: keys_def)
  have kin: "?k \<in> keys D ?bs" by (auto simp: keys_def)
  obtain c4 where c4: "brelse i c3 = Ret c4" "sees c4 {} (keys D ?bs) (V(?k := x)) d L"
    using brelse_ok[OF md(1) md(2)[OF sd(2)[OF i(3)]]] lo(1) ev kin by (auto simp: ins)
  have s: "s = (l', c4)" using assms(3) i(1) lw c4(1) st by simp
  have open1: "open_ops (evs @ [Write bno x]) = open_ops evs" "1 \<le> open_ops evs"
    using lw st by (auto simp: open_ops_snoc log_write_def split: if_splits)
  show ?thesis unfolding s
  proof (rule log_invI[OF c4(2) I(2-4) _ _ _ prefix_mono(2)[OF I(8)] _ prefix_mono(1)[OF I(10)]])
    show "log_state D S Z l' ?bs (open_ops (evs @ [Write bno x]))" using lo(2) ev open1 by simp
    show "length ((V(?k := x)) k) = BSIZE" if "fst k \<noteq> 0" for k using I(6)[OF that] ev by simp
    show "(V(?k := x)) k = fs_spec D d0 (evs @ [Write bno x]) k" if "fst k \<noteq> 0" "k \<notin> log_area D S Z" for k
      using I(7)[OF that] by (simp add: fs_spec_snoc)
  qed (use open1 in simp)
qed

lemma run_inv:
  assumes g: "geometry D S Z"
  shows "log_inv D S Z d0 evs0 s \<Longrightarrow> fs_run evs s = Ret s' \<Longrightarrow> \<forall>e\<in>set evs. home_ev D S Z e \<Longrightarrow> log_inv D S Z d0 (evs0 @ evs) s'"
proof (induction evs arbitrary: evs0 s)
  case (Cons e evs)
  obtain l c where s: "s = (l, c)" by (cases s)
  obtain s1 where s1: "fs_step e (l, c) = Ret s1" "fs_run evs s1 = Ret s'" using Cons.prems(2) s by (auto simp: fs_run_def)
  have "log_inv D S Z d0 (evs0 @ [e]) s1"
    using begin_step[of D S Z d0 evs0 l c s1] end_step[OF g, of d0 evs0 l c s1] write_step[OF g, of d0 evs0 l c _ _ s1] Cons.prems(1,3) s1(1) s by (cases e) auto
  then show ?case using Cons.IH[OF _ s1(2), of "evs0 @ [e]"] Cons.prems(3) by simp
qed (simp add: fs_run_def)

end
