(* ===== verification/Log_Props.thy ===== *)
theory Log_Props
  imports Log_Atomic
begin

text \<open>
  The log from boot on: crash atomicity and durability of the calls, recovery that survives a crash
  of its own, and when a call can run to its end.
\<close>

declare split_paired_All [simp del] split_paired_Ex [simp del]

subsection \<open>Boot\<close>

lemma recover_log:
  assumes "geometry D S Z" and "disk_ok D S Z d" and "header D S d bs" and "length bs < Z" and "distinct bs" and "\<forall>b\<in>set bs. home_block D S Z b"
    and "initlog D (binit d True) = Ret (l, c)"
  shows "\<exists>x. length x = BSIZE \<and> sint (get32 x 0) = 0 \<and> disk_log c = installs D S d bs @ [((D, S), x)]" and "disk c = apply_writes d (disk_log c)"
  using recover_ok[OF assms(1-6)] assms(7) by auto

lemma boot_inv:
  assumes g: "geometry D S Z" and d: "disk_ok D S Z d0" "header D S d0 []" and i: "initlog D (binit d0 True) = Ret s"
  shows "log_inv D S Z d0 [] s"
proof -
  have Z: "0 < Z" using g by (simp add: geometry_def)
  obtain l c where s: "s = (l, c)" by (cases s)
  have r: "sees c {} {} (disk c) (disk c) (disk_log c)" "l_dev l = D" "l_start l = S" "l_size l = int Z" "lh_n l = 0" "outstanding l = 0" "\<not> committing l"
    "length (lh_block l) = LOGSIZE" "header D S (disk c) []" "disk c = apply_writes d0 (disk_log c)"
    using recover_ok[OF g d, simplified] i s Z by auto
  obtain x where x: "length x = BSIZE" "sint (get32 x 0) = 0" "disk_log c = [((D, S), x)]"
    using recover_log(1)[OF g d, of l c] i s Z by (auto simp: installs_def)
  have S: "(D, S) \<in> log_area D S Z" using Z by (auto simp: log_area_def)
  have ok: "disk_ok D S Z (apply_writes d0 (take p (disk_log c)))" for p
    using g S x by (intro disk_ok_writes[OF d(1)]) (auto simp: geometry_def dest: in_set_takeD)
  have home: "apply_writes d0 (take p (disk_log c)) k = d0 k" if "k \<notin> log_area D S Z" for p k
    using that S x by (intro apply_writes_other) (auto dest: in_set_takeD)
  have hd: "header D S (apply_writes d0 (take p (disk_log c))) []" for p using d(2) x by (cases p) (simp_all add: header_def)
  have o0: "open_ops [] = 0" "fs_spec D d0 [] = d0" by (simp_all add: open_ops_def fs_spec_def)
  have dk: "disk c k = d0 k" if "k \<notin> log_area D S Z" for k using home[OF that, of "length (disk_log c)"] r(10) by simp
  have okc: "disk_ok D S Z (disk c)" using ok[of "length (disk_log c)"] r(10) by simp
  have se: "sees c {} (keys D []) (disk c) (disk c) (disk_log c)" using r(1) by (simp add: keys_def)
  show ?thesis unfolding s
  proof (rule log_invI[OF se r(10) okc r(9)])
    show "log_state D S Z l [] (open_ops [])" using r Z by (simp add: log_state_def lists_def o0)
    show "between D S Z d0 [] (disk c)" by (rule between_now) (simp_all add: o0 dk)
    show "length (disk c k) = BSIZE" for k using okc by (simp add: disk_ok_def)
    show "consistent D S Z d0 [] (apply_writes d0 (take p (disk_log c)))" for p
      by (rule consistent_now[OF o0(1) recovers_old[OF g ok hd home]]) (simp_all add: o0)
  qed (simp_all add: dk o0)
qed


subsection \<open>Progress\<close>

definition logged :: "log \<Rightarrow> u32 set" where
  "logged l = set (take (nat (lh_n l)) (lh_block l))"

lemma logged_lists: "lists l bs \<Longrightarrow> length bs \<le> LOGSIZE \<Longrightarrow> logged l = set bs"
proof -
  assume l: "lists l bs" "length bs \<le> LOGSIZE"
  then have "take (nat (lh_n l)) (lh_block l) = bs" by (intro nth_equalityI) (auto simp: lists_def)
  then show ?thesis by (simp add: logged_def)
qed

lemma write_progress:
  assumes g: "geometry D S Z" and inv: "log_inv D S Z d0 evs (l, c)" and ev: "home_ev D S Z (Write bno x)" and op: "1 \<le> open_ops evs" and "finite (logged l)" and n: "card (logged l) < Z - 1"
  shows "\<exists>l' c'. fs_step (Write bno x) (l, c) = Ret (l', c') \<and> logged l' = insert bno (logged l)"
proof -
  obtain V d L bs where I: "sees c {} (keys D bs) V d L" "log_state D S Z l bs (open_ops evs)"
    by (rule log_invE[OF inv]) (rule that; assumption)
  note st = I(2)[unfolded log_state_def]
  have D: "D \<noteq> 0" and Z: "Z \<le> LOGSIZE" using g by (auto simp: geometry_def)
  have lg: "logged l = set bs" using logged_lists st Z by auto
  then have lb: "length bs < Z - 1" using n st by (simp add: distinct_card)
  let ?k = "(D, unat bno)" and ?bs = "if bno \<in> set bs then bs else bs @ [bno]"
  have "card (keys D bs) < NBUF" using card_keys[of D bs] st Z by (simp add: NBUF_def LOGSIZE_def)
  then obtain i c1 where i: "bread ?k c = Ret (i, c1)" "sees c1 {?k} (keys D bs) V d L" "holds c1 i ?k" using bread_ok[OF I(1), of ?k] D by auto
  note sd = set_data_ok[OF i(2,3), where x = x]
  have "\<not> (lh_n l \<ge> int LOGSIZE \<or> lh_n l \<ge> l_size l - 1)" "\<not> outstanding l < 1" using st lb Z op by (auto simp: lists_def)
  then obtain l' c3 where lw: "log_write i l (set_data i x c1) = Ret (l', c3)" by (simp add: log_write_def Let_def)
  have "home_block D S Z bno" using ev by simp
  note lo = log_write_ok[OF I(2) this holdsD(3)[OF sd(1) sd(2)[OF i(3)]] g lw]
  note md = mark_dirty_ok[OF sd(1) sd(2)[OF i(3)]]
  obtain c4 where "brelse i c3 = Ret c4" using brelse_ok[OF md(1) md(2)[OF sd(2)[OF i(3)]]] lo(1) by auto
  then have "fs_step (Write bno x) (l, c) = Ret (l', c4)" using i(1) lw st by simp
  moreover have "lists l' ?bs" "length ?bs \<le> LOGSIZE" using lo(2) Z unfolding log_state_def by auto
  then have "logged l' = set ?bs" by (rule logged_lists)
  ultimately show ?thesis using lg by auto
qed

lemma writes_progress:
  assumes g: "geometry D S Z"
  shows "log_inv D S Z d0 evs (l, c) \<Longrightarrow> \<forall>e\<in>set us. home_ev D S Z (Write (fst e) (snd e)) \<Longrightarrow> 1 \<le> open_ops evs \<Longrightarrow>
    (us \<noteq> [] \<longrightarrow> card (logged l \<union> fst ` set (butlast us)) < Z - 1) \<Longrightarrow>
    \<exists>l' c'. fs_run (map (\<lambda>e. Write (fst e) (snd e)) us) (l, c) = Ret (l', c') \<and> logged l' = logged l \<union> fst ` set us"
proof (induction us arbitrary: evs l c)
  case (Cons u us)
  let ?e = "Write (fst u) (snd u)"
  have fin: "finite (logged l)" by (simp add: logged_def)
  have "card (logged l) \<le> card (logged l \<union> fst ` set (butlast (u # us)))" using fin by (intro card_mono) auto
  then have n: "card (logged l) < Z - 1" using Cons.prems(4) by simp
  have ev: "home_ev D S Z ?e" using Cons.prems(2) by simp
  obtain l1 c1 where s1: "fs_step ?e (l, c) = Ret (l1, c1)" "logged l1 = insert (fst u) (logged l)"
    using write_progress[OF g Cons.prems(1) ev Cons.prems(3) fin n] by blast
  have inv: "log_inv D S Z d0 (evs @ [?e]) (l1, c1)" using write_step[OF g Cons.prems(1) s1(1) ev] .
  have "us \<noteq> [] \<longrightarrow> card (logged l1 \<union> fst ` set (butlast us)) < Z - 1" using Cons.prems(4) s1(2) by auto
  then show ?case using Cons.IH[OF inv] Cons.prems(2,3) s1 by (auto simp: fs_run_def open_ops_snoc)
qed (simp add: fs_run_def)

lemma begin_progress:
  assumes "log_inv D S Z d0 evs (l, c)" and "0 \<le> open_ops evs" and "lh_n l + (open_ops evs + 1) * int MAXOPBLOCKS \<le> int LOGSIZE"
  shows "fs_step Begin (l, c) = Ret (l\<lparr>outstanding := outstanding l + 1\<rparr>, c)"
proof -
  have "\<not> committing l" "outstanding l = open_ops evs" using assms(1) unfolding log_inv_def log_state_def by auto
  then show ?thesis using assms(3) by (simp add: begin_op_def)
qed

lemma end_progress:
  assumes g: "geometry D S Z" and inv: "log_inv D S Z d0 evs (l, c)"
  shows "\<exists>s. fs_step End (l, c) = Ret s"
proof -
  obtain V d L bs where I: "sees c {} (keys D bs) V d L" "log_state D S Z l bs (open_ops evs)" "\<And>k. fst k \<noteq> 0 \<Longrightarrow> length (V k) = BSIZE"
    by (rule log_invE[OF inv]) (rule that; assumption)
  note st = I(2)[unfolded log_state_def]
  let ?l = "l\<lparr>outstanding := outstanding l - 1, committing := True\<rparr>"
  have lst: "l_dev ?l = D" "l_start ?l = S" "lists ?l bs" using st by (auto simp: lists_def)
  have "\<exists>s. commit ?l c = Ret s"
  proof (cases "bs = []")
    case True
    then show ?thesis using lst(3) by (simp add: commit_def lists_def)
  next
    case False
    then show ?thesis using commit_ok[OF I(1) g lst] st I(3) by blast
  qed
  then show ?thesis using st by (auto simp: end_op_def Let_def)
qed

text \<open>Boot from the disk \<open>d\<close>, then the calls \<open>evs\<close>.\<close>

definition boot_run :: "nat \<Rightarrow> (bkey \<Rightarrow> block) \<Rightarrow> fs_ev list \<Rightarrow> (log \<times> bcache) outcome" where
  "boot_run D d evs = obind (initlog D (binit d True)) (fs_run evs)"

lemma boot_run_inv:
  assumes "geometry D S Z" and "disk_ok D S Z d0" and "header D S d0 []" and "\<forall>e\<in>set evs. home_ev D S Z e" and "boot_run D d0 evs = Ret s"
  shows "log_inv D S Z d0 evs s"
proof -
  obtain s0 where "initlog D (binit d0 True) = Ret s0" "fs_run evs s0 = Ret s" using assms(5) by (auto simp: boot_run_def)
  then show ?thesis using run_inv[OF assms(1) boot_inv[OF assms(1-3)], of s0 evs s] assms(4) by simp
qed

lemma for_each_append: "for_each (xs @ ys) f s = obind (for_each xs f s) (for_each ys f)"
  by (induction xs arbitrary: s) (auto simp: obind_assoc intro!: obind_cong)

lemma fs_run_simps: "fs_run [] s = Ret s" "fs_run (e # es) s = obind (fs_step e s) (fs_run es)" "fs_run (es @ es') s = obind (fs_run es s) (fs_run es')"
  by (simp_all add: fs_run_def for_each_append)

lemma idle_log:
  assumes "log_inv D S Z d0 evs (l, c)" and "open_ops evs = 0"
  shows "lh_n l = 0" and "logged l = {}"
proof -
  show "lh_n l = 0" using assms unfolding log_inv_def log_state_def lists_def by auto
  then show "logged l = {}" by (simp add: logged_def)
qed

lemma logged_outstanding [simp]: "logged (l\<lparr>outstanding := n\<rparr>) = logged l"
  by (simp add: logged_def)

lemma butlast_subset: "set (butlast xs) \<subseteq> set xs"
  by (auto dest: in_set_butlastD)

lemma full_log_panics:
  assumes g: "geometry D S Z" and inv: "log_inv D S Z d0 evs (l, c)" and n: "card (logged l) = Z - 1" and ev: "home_ev D S Z (Write b x)"
  shows "fs_step (Write b x) (l, c) = Panic ''too big a transaction''"
proof -
  obtain V d L bs where I: "sees c {} (keys D bs) V d L" "log_state D S Z l bs (open_ops evs)"
    by (rule log_invE[OF inv]) (rule that; assumption)
  note st = I(2)[unfolded log_state_def]
  have D: "D \<noteq> 0" and Z: "Z \<le> LOGSIZE" using g by (auto simp: geometry_def)
  have "logged l = set bs" using logged_lists st Z by auto
  then have "length bs = Z - 1" using n st by (simp add: distinct_card)
  then have full: "lh_n l \<ge> l_size l - 1" using st by (auto simp: lists_def)
  have "card (keys D bs) < NBUF" using card_keys[of D bs] st Z by (simp add: NBUF_def LOGSIZE_def)
  then obtain i c1 where "bread (D, unat b) c = Ret (i, c1)" using bread_ok[OF I(1), of "(D, unat b)"] D by auto
  then show ?thesis using full st by (simp add: log_write_def)
qed

subsection \<open>A concrete disk\<close>

text \<open>An empty disk with a log of 30 blocks from block 2 on, and one with a committed update of block 40.\<close>

definition demo_disk :: "bkey \<Rightarrow> block" where
  "demo_disk k = (if k = (1, 1) then put32 12 30 (put32 16 2 (replicate BSIZE 0)) else replicate BSIZE 0)"

definition demo_committed :: "bkey \<Rightarrow> block" where
  "demo_committed = demo_disk((1, 2) := put32 0 1 (put32 4 40 (replicate BSIZE 0)), (1, 3) := replicate BSIZE 7)"

definition demo_calls :: "fs_ev list" where
  "demo_calls = Begin # map (\<lambda>u. Write (fst u) (snd u)) [(40, replicate BSIZE 7)] @ [End]"

lemma get32_zero: "a + 3 < n \<Longrightarrow> get32 (replicate n 0) a = 0"
  by (simp add: get32_def)

lemma demo_geometry: "geometry 1 2 30"
  by (simp add: geometry_def log_area_def LOGSIZE_def)

lemma demo_disk_ok: "disk_ok 1 2 30 demo_disk" "header 1 2 demo_disk []"
  by (simp_all add: disk_ok_def header_def demo_disk_def BSIZE_def get32_zero)

lemma demo_committed_ok: "disk_ok 1 2 30 demo_committed" "header 1 2 demo_committed [40]"
  by (simp_all add: disk_ok_def header_def demo_committed_def demo_disk_def BSIZE_def get32_zero)

lemma demo_home: "home_block (Suc 0) 2 30 40"
  by (simp add: home_block_def log_area_def)

lemma demo_evs: "\<forall>e\<in>set demo_calls. home_ev 1 2 30 e" "open_ops demo_calls = 0"
  by (simp_all add: demo_calls_def demo_home open_ops_def)

lemma demo_boot: "\<exists>s. boot_run 1 demo_disk [] = Ret s"
  using recover_ok[OF demo_geometry demo_disk_ok] by (auto simp: boot_run_def fs_run_def)

lemma demo_run: "\<exists>l c. boot_run 1 demo_disk demo_calls = Ret (l, c)"
proof -
  obtain l c where s: "boot_run 1 demo_disk [] = Ret (l, c)" using demo_boot by auto
  have o: "open_ops [] = 0" by (simp add: open_ops_def)
  have inv: "log_inv 1 2 30 demo_disk [] (l, c)" using boot_run_inv[OF demo_geometry demo_disk_ok _ s] by simp
  let ?l = "l\<lparr>outstanding := outstanding l + 1\<rparr>" and ?us = "[(40 :: u32, replicate BSIZE 7 :: block)]"
  have b: "fs_step Begin (l, c) = Ret (?l, c)" by (rule begin_progress[OF inv]) (simp_all add: o idle_log[OF inv o] MAXOPBLOCKS_def LOGSIZE_def)
  have inv1: "log_inv 1 2 30 demo_disk [Begin] (?l, c)" using begin_step[OF inv b] by simp
  obtain l' c' where w: "fs_run (map (\<lambda>u. Write (fst u) (snd u)) ?us) (?l, c) = Ret (l', c')"
    using writes_progress[OF demo_geometry inv1, of ?us] idle_log(2)[OF inv o] demo_home by (auto simp: open_ops_def)
  have "log_inv 1 2 30 demo_disk ([Begin] @ map (\<lambda>u. Write (fst u) (snd u)) ?us) (l', c')" using run_inv[OF demo_geometry inv1 w] demo_home by simp
  then obtain s' where "fs_step End (l', c') = Ret s'" using end_progress[OF demo_geometry] by blast
  then have "fs_run demo_calls (l, c) = Ret s'" unfolding demo_calls_def using b w by (simp only: fs_run_simps obind.simps)
  then have "boot_run 1 demo_disk demo_calls = Ret s'" using s by (auto simp: boot_run_def fs_run_def)
  then show ?thesis by (cases s') auto
qed

subsection \<open>Properties\<close>

text \<open>
  (C15) Crash atomicity: boot on a disk with an empty log and run any sequence of calls, begun, ended
  and updating blocks in any interleaving. Whatever prefix of the disk writes a crash leaves, at any
  point, the next boot recovers exactly the updates of a prefix of the calls after which none was
  running: all the updates of a group of calls or none.
\<close>

theorem log_crash_atomic:
  assumes "geometry D S Z" and "disk_ok D S Z d0" and "header D S d0 []" and "\<forall>e\<in>set evs. home_ev D S Z e" and "boot_run D d0 evs = Ret (l, c)"
  shows "\<exists>m\<le>length evs. open_ops (take m evs) = 0 \<and> recovers_to D S Z (apply_writes d0 (take p (disk_log c))) (fs_spec D d0 (take m evs))"
proof -
  obtain L where L: "disk_log c = L" "\<And>p. consistent D S Z d0 evs (apply_writes d0 (take p L))"
    by (rule log_invE[OF boot_run_inv[OF assms]]) (rule that; (rule seesD(4))?; assumption)
  then show ?thesis unfolding consistent_def by blast
qed

theorem log_crash_atomic_witness:
  "\<exists>l c. boot_run 1 demo_disk demo_calls = Ret (l, c) \<and>
     (\<exists>m\<le>length demo_calls. open_ops (take m demo_calls) = 0 \<and> recovers_to 1 2 30 (apply_writes demo_disk (take 3 (disk_log c))) (fs_spec 1 demo_disk (take m demo_calls)))"
proof -
  obtain l c where r: "boot_run 1 demo_disk demo_calls = Ret (l, c)" using demo_run by blast
  show ?thesis using r log_crash_atomic[OF demo_geometry demo_disk_ok demo_evs(1) r, of 3] by blast
qed

text \<open>
  (C16) Durability: when every call that has begun has ended, the disk holds all their updates, and
  a crash then loses none of them.
\<close>

theorem log_durable:
  assumes "geometry D S Z" and "disk_ok D S Z d0" and "header D S d0 []" and "\<forall>e\<in>set evs. home_ev D S Z e" and "boot_run D d0 evs = Ret (l, c)" and "open_ops evs = 0"
  shows "(\<forall>k. k \<notin> log_area D S Z \<longrightarrow> disk c k = fs_spec D d0 evs k) \<and> recovers_to D S Z (disk c) (fs_spec D d0 evs)"
proof -
  obtain d where d: "disk c = d" "disk_ok D S Z d" "header D S d []" "\<And>k. open_ops evs \<le> 0 \<Longrightarrow> k \<notin> log_area D S Z \<Longrightarrow> d k = fs_spec D d0 evs k"
    by (rule log_invE[OF boot_run_inv[OF assms(1-5)]]) (rule that; (rule seesD(3))?; assumption)
  then show ?thesis using recovers_old[OF assms(1) d(2,3)] assms(6) by simp
qed

theorem log_durable_witness:
  "\<exists>l c. boot_run 1 demo_disk demo_calls = Ret (l, c) \<and> disk c (1, 40) = fs_spec 1 demo_disk demo_calls (1, 40)
     \<and> recovers_to 1 2 30 (disk c) (fs_spec 1 demo_disk demo_calls)"
proof -
  obtain l c where r: "boot_run 1 demo_disk demo_calls = Ret (l, c)" using demo_run by blast
  have "(1, 40) \<notin> log_area 1 2 30" by (simp add: log_area_def)
  then show ?thesis using r log_durable[OF demo_geometry demo_disk_ok demo_evs(1) r demo_evs(2)] by blast
qed

text \<open>
  (C17) Recovery may crash and be run again: after any prefix of its own disk writes, the next boot
  recovers the same contents.
\<close>

theorem recovery_idempotent:
  assumes g: "geometry D S Z" and d: "disk_ok D S Z d" "header D S d bs" and bs: "length bs < Z" "distinct bs" "\<forall>b\<in>set bs. home_block D S Z b"
    and i: "initlog D (binit d True) = Ret (l, c)"
  shows "recovers_to D S Z (apply_writes d (take p (disk_log c))) (disk c)"
proof -
  obtain x where x: "length x = BSIZE" "sint (get32 x 0) = 0" "disk_log c = installs D S d bs @ [((D, S), x)]"
    using recover_log(1)[OF g d bs i] by blast
  have fin: "disk c = apply_writes d (disk_log c)" using recover_log(2)[OF g d bs i] .
  let ?I = "installs D S d bs" and ?d = "apply_writes d (take p (disk_log c))"
  have S: "(D, S) \<in> log_area D S Z" using g by (auto simp: log_area_def geometry_def)
  have I: "fst ` set ?I \<inter> log_area D S Z = {}" "(D, 1) \<notin> fst ` set ?I" using bs(3) by (auto simp: installs_def home_block_def)
  have ok: "disk_ok D S Z ?d"
  proof (rule disk_ok_writes[OF d(1)])
    fix k y assume "(k, y) \<in> set (take p (disk_log c))"
    then have "(k, y) \<in> set ?I \<or> (k, y) = ((D, S), x)" using x(3) by (auto dest: in_set_takeD)
    then show "length y = BSIZE \<and> k \<noteq> (D, 1)" using d(1) x(1) I(2) S g by (force simp: disk_ok_def geometry_def installs_def)
  qed
  show ?thesis
  proof (cases "p \<le> length ?I")
    case True
    then have tp: "take p (disk_log c) = take p ?I" using x(3) by simp
    have sub: "fst ` set (take p ?I) \<subseteq> fst ` set ?I" using set_take_subset by fast
    have keep: "?d k = d k" if "k \<in> log_area D S Z" for k unfolding tp using that I(1) sub by (intro apply_writes_other) blast
    have out: "?d k = d k" if "k \<notin> fst ` set ?I" for k unfolding tp using that sub by (intro apply_writes_other) blast
    have "header D S ?d bs" using d(2) keep[OF S] by (simp add: header_def)
    moreover have "?d (D, S + t + 1) = d (D, S + t + 1)" if "t < length bs" for t using that bs(1) by (intro keep) (auto simp: log_area_def)
    ultimately have "recovers_to D S Z ?d (apply_writes d ?I)"
      using out by (intro recovers_new[OF g ok _ bs, where y = "\<lambda>t. d (D, S + t + 1)"]) (simp_all add: installs_def)
    moreover have "apply_writes d ?I k = disk c k" if "k \<notin> log_area D S Z" for k
      using that S fin x(3) by (auto simp: apply_writes_append)
    ultimately show ?thesis unfolding recovers_to_def by metis
  next
    case False
    then have "take p (disk_log c) = disk_log c" using x(3) by simp
    moreover have "header D S (disk c) []" using fin x by (simp add: apply_writes_append header_def)
    ultimately show ?thesis using recovers_old[OF g ok] fin by simp
  qed
qed

theorem recovery_idempotent_witness:
  "\<exists>l c. initlog 1 (binit demo_committed True) = Ret (l, c) \<and> recovers_to 1 2 30 (apply_writes demo_committed (take 1 (disk_log c))) (disk c)"
proof -
  have b: "length [40 :: u32] < 30" "distinct [40 :: u32]" "\<forall>b\<in>set [40]. home_block 1 2 30 b" using demo_home by simp_all
  obtain l c where i: "initlog 1 (binit demo_committed True) = Ret (l, c)" using recover_ok[OF demo_geometry demo_committed_ok b] by blast
  show ?thesis using i recovery_idempotent[OF demo_geometry demo_committed_ok b i, of 1] by blast
qed



text \<open>
  (C19) The reservation of \<open>begin_op\<close> is one block too generous for a log of \<open>LOGSIZE\<close> blocks, the size
  mkfs gives it: three calls are admitted, and when together they update 30 blocks, ten each,
  \<open>log_write\<close> panics.
\<close>

theorem begin_op_overcommits:
  assumes g: "geometry D S LOGSIZE" and "disk_ok D S LOGSIZE d0" and "header D S d0 []" and "boot_run D d0 [] = Ret s"
    and bs: "distinct bs" "length bs = 3 * MAXOPBLOCKS" "\<forall>b\<in>set bs. home_block D S LOGSIZE b" and x: "length x = BSIZE"
  shows "fs_run ([Begin, Begin, Begin] @ map (\<lambda>b. Write b x) bs) s = Panic ''too big a transaction''"
proof -
  obtain l c where s: "s = (l, c)" by (cases s)
  have inv: "log_inv D S LOGSIZE d0 [] (l, c)" using boot_run_inv[OF assms(1-3) _ assms(4)] s by simp
  have o: "open_ops [] = 0" "open_ops [Begin] = 1" "open_ops [Begin, Begin] = 2" "open_ops [Begin, Begin, Begin] = 3" by (simp_all add: open_ops_def)
  note idle = idle_log[OF inv o(1)]
  let ?l = "\<lambda>n. l\<lparr>outstanding := outstanding l + n\<rparr>"
  have b1: "fs_step Begin (l, c) = Ret (?l 1, c)" by (rule begin_progress[OF inv]) (simp_all add: o idle MAXOPBLOCKS_def LOGSIZE_def)
  have i1: "log_inv D S LOGSIZE d0 [Begin] (?l 1, c)" using begin_step[OF inv b1] by simp
  have b2: "fs_step Begin (?l 1, c) = Ret (?l 2, c)" using begin_progress[OF i1] by (simp add: o idle MAXOPBLOCKS_def LOGSIZE_def)
  have i2: "log_inv D S LOGSIZE d0 [Begin, Begin] (?l 2, c)" using begin_step[OF i1 b2] by simp
  have b3: "fs_step Begin (?l 2, c) = Ret (?l 3, c)" using begin_progress[OF i2] by (simp add: o idle MAXOPBLOCKS_def LOGSIZE_def)
  have i3: "log_inv D S LOGSIZE d0 [Begin, Begin, Begin] (?l 3, c)" using begin_step[OF i2 b3] by simp
  obtain bs' b where b: "bs = bs' @ [b]" "length bs' = 29" using bs(2) by (cases bs rule: rev_cases) (auto simp: MAXOPBLOCKS_def)
  let ?us = "map (\<lambda>b. (b, x)) bs'"
  have ev: "\<forall>u\<in>set ?us. home_ev D S LOGSIZE (Write (fst u) (snd u))" "home_ev D S LOGSIZE (Write b x)" using bs(3) x b by auto
  have d29: "distinct bs'" using bs(1) b by simp
  have "fst ` set (butlast ?us) = set (butlast bs')" by (simp add: map_butlast[symmetric] image_image)
  moreover have "card (set (butlast bs')) = 28" using d29 b(2) by (simp add: distinct_card distinct_butlast)
  ultimately obtain l' c' where w: "fs_run (map (\<lambda>u. Write (fst u) (snd u)) ?us) (?l 3, c) = Ret (l', c')" "logged l' = set bs'"
    using writes_progress[OF g i3 ev(1)] idle(2) by (auto simp: o LOGSIZE_def image_image)
  have w': "fs_run (map (\<lambda>b. Write b x) bs') (?l 3, c) = Ret (l', c')" using w(1) by (simp add: comp_def)
  have "log_inv D S LOGSIZE d0 ([Begin, Begin, Begin] @ map (\<lambda>b. Write b x) bs') (l', c')" using run_inv[OF g i3 w'] ev(1) by auto
  then have "fs_step (Write b x) (l', c') = Panic ''too big a transaction''"
    by (rule full_log_panics[OF g _ _ ev(2)]) (use w(2) d29 b(2) in \<open>simp add: distinct_card LOGSIZE_def\<close>)
  then show ?thesis using b1 b2 b3 w' s b(1) by (simp add: fs_run_simps)
qed

theorem begin_op_overcommits_witness:
  "\<exists>s. boot_run 1 demo_disk [] = Ret s \<and>
     fs_run ([Begin, Begin, Begin] @ map (\<lambda>b. Write b (replicate BSIZE 7)) (map word_of_nat [40..<70])) s = Panic ''too big a transaction''"
proof -
  obtain s where s: "boot_run 1 demo_disk [] = Ret s" using demo_boot by blast
  have g: "geometry 1 2 LOGSIZE" "disk_ok 1 2 LOGSIZE demo_disk" using demo_geometry demo_disk_ok by (simp_all add: LOGSIZE_def)
  have u: "unat (word_of_nat n :: u32) = n" if "n < 70" for n using that by (simp add: unsigned_of_nat take_bit_nat_eq_self)
  have "inj_on (word_of_nat :: nat \<Rightarrow> u32) (set [40..<70])" by (rule inj_onI) (metis atLeastLessThan_iff set_upt u)
  then have d: "distinct (map (word_of_nat :: nat \<Rightarrow> u32) [40..<70])" by (simp add: distinct_map)
  have h: "\<forall>b\<in>set (map word_of_nat [40..<70]). home_block 1 2 LOGSIZE b" using u by (auto simp: home_block_def log_area_def LOGSIZE_def)
  have "fs_run ([Begin, Begin, Begin] @ map (\<lambda>b. Write b (replicate BSIZE 7)) (map word_of_nat [40..<70])) s = Panic ''too big a transaction''"
    by (rule begin_op_overcommits[OF g demo_disk_ok(2) s d _ h]) (simp_all add: MAXOPBLOCKS_def)
  then show ?thesis using s by blast
qed

end
