(* ===== verification/Fs_Blocks.thy ===== *)
theory Fs_Blocks
  imports Fs Log_Props
begin

text \<open>
  The block layer of the file system inside a transaction: what a reader sees of the blocks of the
  device, which blocks the transaction has logged, and the block allocator over the free map.
\<close>

subsection \<open>Inside a transaction\<close>

text \<open>
  \<open>U\<close> are the blocks this call has locked, \<open>V\<close> the contents of every block of the device, \<open>W\<close> the
  blocks in the log. What is not in the log is as on the disk.
\<close>

definition tx :: "nat \<Rightarrow> nat \<Rightarrow> nat \<Rightarrow> fs \<Rightarrow> nat set \<Rightarrow> (nat \<Rightarrow> block) \<Rightarrow> nat set \<Rightarrow> bool" where
  "tx D S Z s U V W \<longleftrightarrow> geometry D S Z \<and> finite U \<and>
     (\<exists>V' d L bs n. sees (fs_cache s) (Pair D ` U) (keys D bs) V' d L \<and> log_state D S Z (fs_log s) bs n \<and> 1 \<le> n
       \<and> W = unat ` set bs \<and> (\<forall>b. V b = V' (D, b)) \<and> (\<forall>b. length (V b) = BSIZE) \<and> (\<forall>b. b \<notin> W \<longrightarrow> V b = d (D, b)))"

text \<open>A block of the device that may be logged.\<close>

definition home :: "nat \<Rightarrow> nat \<Rightarrow> nat \<Rightarrow> bool" where
  "home S Z b \<longleftrightarrow> b < 2 ^ 32 \<and> b \<noteq> 1 \<and> (b < S \<or> S + Z \<le> b)"

definition fholds :: "nat \<Rightarrow> fs \<Rightarrow> nat \<Rightarrow> nat \<Rightarrow> bool" where
  "fholds D s i b \<longleftrightarrow> holds (fs_cache s) i (D, b)"

definition same_nodes :: "fs \<Rightarrow> fs \<Rightarrow> bool" where
  "same_nodes s s' \<longleftrightarrow> fs_sb s' = fs_sb s \<and> icache s' = icache s"

lemma same_nodes_refl [simp]: "same_nodes s s"
  by (simp add: same_nodes_def)

lemma same_nodes_trans [trans]: "same_nodes s t \<Longrightarrow> same_nodes t u \<Longrightarrow> same_nodes s u"
  by (simp add: same_nodes_def)

lemma same_nodesD: "same_nodes s s' \<Longrightarrow> fs_sb s' = fs_sb s" "same_nodes s s' \<Longrightarrow> node s' = node s"
  by (auto simp: same_nodes_def node_def fun_eq_iff)

lemma txI:
  assumes "geometry D S Z" and "finite U" and "sees (fs_cache s) (Pair D ` U) (keys D bs) V' d L" and "log_state D S Z (fs_log s) bs n" and "1 \<le> n"
    and "W = unat ` set bs" and "\<And>b. V b = V' (D, b)" and "\<And>b. length (V b) = BSIZE" and "\<And>b. b \<notin> W \<Longrightarrow> V b = d (D, b)"
  shows "tx D S Z s U V W"
  using assms unfolding tx_def by blast

lemma tx_logged:
  assumes "tx D S Z s U V W"
  shows "finite W" and "card W < Z" and "Z \<le> LOGSIZE" and "finite U" and "D \<noteq> 0" and "length (V b) = BSIZE"
proof -
  obtain bs n where bs: "log_state D S Z (fs_log s) bs n" "W = unat ` set bs" and g: "geometry D S Z" using assms unfolding tx_def by blast
  then show "finite W" by simp
  have "card W \<le> length bs" using bs(2) card_image_le[of "set bs" unat] card_length[of bs] by simp
  then show "card W < Z" using bs(1) by (simp add: log_state_def)
  show "Z \<le> LOGSIZE" "D \<noteq> 0" using g by (simp_all add: geometry_def)
  show "finite U" "length (V b) = BSIZE" using assms unfolding tx_def by blast+
qed

lemma tx_bread:
  assumes "tx D S Z s U V W" and "b \<notin> U" and "b \<in> W \<or> card (U \<union> W) < NBUF"
  shows "\<exists>i s'. fbread D b s = Ret (i, s') \<and> tx D S Z s' (insert b U) V W \<and> fholds D s' i b \<and> fdata i s' = V b
    \<and> (\<forall>j m. fholds D s j m \<longrightarrow> fholds D s' j m) \<and> same_nodes s s'"
proof -
  obtain V' d L bs n where t: "geometry D S Z" "finite U" "sees (fs_cache s) (Pair D ` U) (keys D bs) V' d L" "log_state D S Z (fs_log s) bs n" "1 \<le> n"
    "W = unat ` set bs" "\<forall>b. V b = V' (D, b)" "\<forall>b. length (V b) = BSIZE" "\<forall>b. b \<notin> W \<longrightarrow> V b = d (D, b)" using assms(1) unfolding tx_def by blast
  have k: "keys D bs = Pair D ` W" using t(6) by (auto simp: keys_def)
  have "card (Pair D ` U \<union> keys D bs) = card (U \<union> W)" unfolding k image_Un[symmetric] by (intro card_image) (simp add: inj_on_def)
  moreover have "(D, b) \<notin> Pair D ` U" "D \<noteq> 0" using assms(2) t(1) by (auto simp: geometry_def)
  ultimately obtain i c where r: "bread (D, b) (fs_cache s) = Ret (i, c)" "sees c (insert (D, b) (Pair D ` U)) (keys D bs) V' d L" "holds c i (D, b)"
    "b_data (bufs c ! i) = V' (D, b)" "\<And>j m. holds (fs_cache s) j m \<Longrightarrow> holds c j m"
    using bread_ok[OF t(3), of "(D, b)"] assms(3) k by auto
  have "tx D S Z (s\<lparr>fs_cache := c\<rparr>) (insert b U) V W"
    by - (rule txI[OF t(1) _ _ _ t(5,6)]; use t r(2) in simp)
  then show ?thesis using r t(7) by (simp add: fbread_def fholds_def fdata_def same_nodes_def)
qed

lemma tx_brelse:
  assumes "tx D S Z s U V W" and "fholds D s i b"
  shows "\<exists>s'. fbrelse i s = Ret s' \<and> tx D S Z s' (U - {b}) V W \<and> (\<forall>j m. j \<noteq> i \<longrightarrow> fholds D s j m \<longrightarrow> fholds D s' j m) \<and> same_nodes s s'"
proof -
  obtain V' d L bs n where t: "geometry D S Z" "finite U" "sees (fs_cache s) (Pair D ` U) (keys D bs) V' d L" "log_state D S Z (fs_log s) bs n" "1 \<le> n"
    "W = unat ` set bs" "\<forall>b. V b = V' (D, b)" "\<forall>b. length (V b) = BSIZE" "\<forall>b. b \<notin> W \<longrightarrow> V b = d (D, b)" using assms(1) unfolding tx_def by blast
  have k: "keys D bs = Pair D ` W" using t(6) by (auto simp: keys_def)
  have "(D, b) \<in> keys D bs \<or> V' (D, b) = d (D, b)" using t(7,9) k by (metis image_eqI)
  then obtain c where r: "brelse i (fs_cache s) = Ret c" "sees c (Pair D ` U - {(D, b)}) (keys D bs) V' d L" "\<And>j m. j \<noteq> i \<Longrightarrow> holds (fs_cache s) j m \<Longrightarrow> holds c j m"
    using brelse_ok[OF t(3) assms(2)[unfolded fholds_def]] by blast
  have "Pair D ` U - {(D, b)} = Pair D ` (U - {b})" by auto
  then have "tx D S Z (s\<lparr>fs_cache := c\<rparr>) (U - {b}) V W"
    by - (rule txI[OF t(1) _ _ _ t(5,6)]; use t r(2) in simp)
  then show ?thesis using r by (simp add: fbrelse_def fholds_def same_nodes_def)
qed

lemma tx_write:
  assumes "tx D S Z s U V W" and "fholds D s i b" and "home S Z b" and "length x = BSIZE" and "card W < Z - 1"
  shows "\<exists>s'. flog_write i (fput i x s) = Ret s' \<and> tx D S Z s' U (V(b := x)) (insert b W) \<and> (\<forall>j m. fholds D s j m \<longrightarrow> fholds D s' j m) \<and> same_nodes s s'"
proof -
  obtain V' d L bs n where t: "geometry D S Z" "finite U" "sees (fs_cache s) (Pair D ` U) (keys D bs) V' d L" "log_state D S Z (fs_log s) bs n" "1 \<le> n"
    "W = unat ` set bs" "\<forall>b. V b = V' (D, b)" "\<forall>b. length (V b) = BSIZE" "\<forall>b. b \<notin> W \<longrightarrow> V b = d (D, b)" using assms(1) unfolding tx_def by blast
  define w :: u32 where "w = word_of_nat b"
  have w: "unat w = b" using assms(3) by (simp add: w_def home_def unat_of_nat)
  note st = t(4)[unfolded log_state_def] and sd = set_data_ok[OF t(3) assms(2)[unfolded fholds_def], where x = x]
  have "card W = length bs" using t(6) st by (metis card_image distinct_card inj_on_def word_unat_eq_iff)
  then have "\<not> (lh_n (fs_log s) \<ge> int LOGSIZE \<or> lh_n (fs_log s) \<ge> l_size (fs_log s) - 1)" "\<not> outstanding (fs_log s) < 1"
    using st assms(5) t(1,5) by (auto simp: lists_def geometry_def)
  then obtain l c where lw: "log_write i (fs_log s) (set_data i x (fs_cache s)) = Ret (l, c)" by (simp add: log_write_def Let_def)
  have hb: "home_block D S Z w" using assms(3) w by (auto simp: home_block_def home_def log_area_def)
  have "b_key (bufs (set_data i x (fs_cache s)) ! i) = (D, unat w)" using holdsD(3)[OF sd(1) sd(2)[OF assms(2)[unfolded fholds_def]]] w by simp
  note lo = log_write_ok[OF t(4) hb this t(1) lw] and md = mark_dirty_ok[OF sd(1) sd(2)[OF assms(2)[unfolded fholds_def]]]
  let ?bs = "if w \<in> set bs then bs else bs @ [w]"
  have kw: "insert (D, b) (keys D bs) = keys D ?bs" "insert b W = unat ` set ?bs" using w t(6) by (auto simp: keys_def)
  let ?s = "s\<lparr>fs_log := l, fs_cache := c\<rparr>"
  have "sees (fs_cache ?s) (Pair D ` U) (keys D ?bs) (V'((D, b) := x)) d L" using md(1) lo(1) kw by simp
  then have "tx D S Z ?s U (V(b := x)) (insert b W)"
    by (rule txI[OF t(1,2)]) (use lo(2) t kw assms(4) in auto)
  moreover have "fholds D ?s j m" if "fholds D s j m" for j m using md(2) sd(2) that lo(1) by (simp add: fholds_def)
  ultimately show ?thesis using lw by (simp add: flog_write_def fput_def same_nodes_def)
qed

subsection \<open>The free map\<close>

lemma bit_mask_exp: "bit_mask bi = 2 ^ (bi mod 8)"
  by (simp add: bit_mask_def push_bit_eq_mult)

lemma bit_clear_bit: "bit_clear d bi \<longleftrightarrow> \<not> bit (d ! (bi div 8)) (bi mod 8)"
  by (simp add: bit_clear_def bit_mask_exp and_exp_eq_0_iff_not_bit)

lemma length_bit [simp]: "length (bit_on bi d) = length d" "length (bit_off bi d) = length d"
  by (simp_all add: bit_on_def bit_off_def)

lemma same_bit: "bi div 8 = bj div 8 \<Longrightarrow> bi mod 8 = bj mod 8 \<Longrightarrow> bi = (bj :: nat)"
  by (metis mult_div_mod_eq)

lemma bit_on_clear:
  assumes "bi < 8 * length d"
  shows "bit_clear (bit_on bi d) bj \<longleftrightarrow> bj \<noteq> bi \<and> bit_clear d bj"
proof -
  have i: "bi div 8 < length d" using assms by (simp add: div_less_iff_less_mult mult.commute)
  have "bi mod 8 < 8" by simp
  then show ?thesis using same_bit[of bi bj] i
    by (cases "bj div 8 = bi div 8") (auto simp: bit_clear_bit bit_on_def bit_mask_exp bit_or_iff bit_exp_iff)
qed

lemma bit_off_clear:
  assumes "bi < 8 * length d"
  shows "bit_clear (bit_off bi d) bj \<longleftrightarrow> bj = bi \<or> bit_clear d bj"
proof -
  have i: "bi div 8 < length d" using assms by (simp add: div_less_iff_less_mult mult.commute)
  have "bi mod 8 < 8" "bj mod 8 < 8" by simp_all
  then show ?thesis using same_bit[of bi bj] i
    by (cases "bj div 8 = bi div 8") (auto simp: bit_clear_bit bit_off_def bit_mask_exp bit_and_iff bit_not_iff bit_exp_iff)
qed

lemma bit_off_on: "bi < 8 * length d \<Longrightarrow> bit_clear d bi \<Longrightarrow> bit_off bi (bit_on bi d) = d"
proof -
  assume a: "bi < 8 * length d" "bit_clear d bi"
  then have i: "bi div 8 < length d" by (simp add: div_less_iff_less_mult mult.commute)
  have "(d ! (bi div 8) OR 2 ^ (bi mod 8)) AND NOT (2 ^ (bi mod 8)) = d ! (bi div 8)"
    using a(2) by (intro bit_word_eqI) (auto simp: bit_clear_bit bit_and_iff bit_or_iff bit_not_iff bit_exp_iff)
  then show ?thesis using i by (simp add: bit_off_def bit_on_def bit_mask_exp)
qed

text \<open>A block of the file system is free when its bit in the free map is clear.\<close>

definition free_block :: "superblock \<Rightarrow> (nat \<Rightarrow> block) \<Rightarrow> nat \<Rightarrow> bool" where
  "free_block sb V b \<longleftrightarrow> b < sb_size sb \<and> bit_clear (V (BBLOCK b sb)) (b mod BPB)"

text \<open>
  The layout \<open>mkfs\<close> makes: the blocks of the free map can be logged and so can every free block, and
  no free block is one of the free map.
\<close>

definition map_block :: "superblock \<Rightarrow> nat \<Rightarrow> bool" where
  "map_block sb x \<longleftrightarrow> (\<exists>b < sb_size sb. x = BBLOCK b sb)"

definition layout :: "nat \<Rightarrow> nat \<Rightarrow> superblock \<Rightarrow> (nat \<Rightarrow> block) \<Rightarrow> bool" where
  "layout S Z sb V \<longleftrightarrow> sb_size sb < 2 ^ 31 \<and> (\<forall>x. map_block sb x \<longrightarrow> home S Z x) \<and> (\<forall>b. free_block sb V b \<longrightarrow> home S Z b \<and> \<not> map_block sb b \<and> b \<noteq> 0)"

text \<open>The scan of \<open>balloc\<close> over the chunks of the free map finds the first free block.\<close>

fun first_free :: "superblock \<Rightarrow> (nat \<Rightarrow> block) \<Rightarrow> nat list \<Rightarrow> nat option" where
  "first_free sb V [] = None"
| "first_free sb V (b # bs) =
     (case find (bit_clear (V (BBLOCK b sb))) [0..<min BPB (sb_size sb - b)] of Some bi \<Rightarrow> Some (b + bi) | None \<Rightarrow> first_free sb V bs)"

lemma find_append: "find P (xs @ ys) = (case find P xs of Some x \<Rightarrow> Some x | None \<Rightarrow> find P ys)"
  by (induction xs) auto

lemma first_free_append: "first_free sb V (bs @ cs) = (case first_free sb V bs of Some x \<Rightarrow> Some x | None \<Rightarrow> first_free sb V cs)"
  by (induction bs) (auto split: option.split)

lemma find_shift: "find P [0..<m] = (case find Q [b..<b + m] of Some x \<Rightarrow> Some (x - b) | None \<Rightarrow> None)"
  if "\<And>i. i < m \<Longrightarrow> Q (b + i) = P i" for P Q :: "nat \<Rightarrow> bool"
  using that by (induction m) (auto simp: find_append split: option.split)

lemma chunk_scan:
  "find (bit_clear (V (BBLOCK (i * BPB) sb))) [0..<min BPB (sb_size sb - i * BPB)]
   = (case find (free_block sb V) [i * BPB..<min (Suc i * BPB) (sb_size sb)] of Some x \<Rightarrow> Some (x - i * BPB) | None \<Rightarrow> None)"
proof (cases "i * BPB \<le> sb_size sb")
  case True
  let ?m = "min BPB (sb_size sb - i * BPB)"
  have e: "min (Suc i * BPB) (sb_size sb) = i * BPB + ?m" using True by (auto simp: min_def)
  have "free_block sb V (i * BPB + j) = bit_clear (V (BBLOCK (i * BPB) sb)) j" if "j < ?m" for j
  proof -
    have "(i * BPB + j) div BPB = i" "(i * BPB + j) mod BPB = j" "i * BPB div BPB = i" using that by (simp_all add: BPB_def BSIZE_def)
    moreover have "i * BPB + j < sb_size sb" using that by linarith
    ultimately show ?thesis by (simp add: free_block_def BBLOCK_def)
  qed
  then show ?thesis unfolding e by (rule find_shift)
qed (simp add: min_def)

lemma first_free_chunks: "first_free sb V (map (\<lambda>i. i * BPB) [0..<k]) = find (free_block sb V) [0..<min (k * BPB) (sb_size sb)]"
proof (induction k)
  case (Suc k)
  let ?a = "min (k * BPB) (sb_size sb)" and ?b = "min (Suc k * BPB) (sb_size sb)"
  have "?a \<le> ?b" by (auto simp: min_def)
  then have "[0..<?b] = [0..<?a] @ [?a..<?b]" by (metis add_0 le_Suc_ex upt_add_eq_append zero_le)
  moreover have "find (free_block sb V) [?a..<?b] = find (free_block sb V) [k * BPB..<?b]" by (auto simp: min_def)
  moreover have "k * BPB \<le> x" if "find (free_block sb V) [k * BPB..<?b] = Some x" for x using find_SomeD[OF that] by simp
  ultimately show ?case using Suc by (auto simp: first_free_append find_append chunk_scan split: option.splits)
qed simp

definition lowest_free :: "superblock \<Rightarrow> (nat \<Rightarrow> block) \<Rightarrow> nat option" where
  "lowest_free sb V = find (free_block sb V) [0..<sb_size sb]"

lemma first_free_all: "first_free sb V (map (\<lambda>i. i * BPB) [0..<(sb_size sb + BPB - 1) div BPB]) = lowest_free sb V"
proof -
  have "sb_size sb \<le> (sb_size sb + BPB - 1) div BPB * BPB"
    using mult_div_mod_eq[of BPB "sb_size sb + BPB - 1"] mod_less_divisor[of BPB "sb_size sb + BPB - 1"] by (simp add: BPB_def BSIZE_def)
  then show ?thesis unfolding first_free_chunks lowest_free_def by (simp add: min_def)
qed

lemma lowest_freeD:
  assumes "lowest_free sb V = Some b"
  shows "free_block sb V b" and "c < b \<Longrightarrow> \<not> free_block sb V c"
proof -
  obtain i where i: "i < length [0..<sb_size sb]" "free_block sb V ([0..<sb_size sb] ! i)" "b = [0..<sb_size sb] ! i" "\<forall>j<i. \<not> free_block sb V ([0..<sb_size sb] ! j)"
    using assms unfolding lowest_free_def find_Some_iff by blast
  then show "free_block sb V b" by simp
  show "\<not> free_block sb V c" if "c < b" using i that by simp
qed

lemma lowest_free_None: "lowest_free sb V = None \<longleftrightarrow> (\<forall>b. \<not> free_block sb V b)"
  by (auto simp: lowest_free_def find_None_iff free_block_def)

subsection \<open>The allocator\<close>

text \<open>A piece of code that ends with the locks it began with: the new contents and the new log.\<close>

definition txstep :: "nat \<Rightarrow> nat \<Rightarrow> nat \<Rightarrow> nat set \<Rightarrow> fs \<Rightarrow> (nat \<Rightarrow> block) \<Rightarrow> nat set \<Rightarrow> fs \<Rightarrow> bool" where
  "txstep D S Z U s V W s' \<longleftrightarrow> tx D S Z s' U V W \<and> (\<forall>j m. fholds D s j m \<longrightarrow> fholds D s' j m) \<and> same_nodes s s'"

lemma txstep_refl: "tx D S Z s U V W \<Longrightarrow> txstep D S Z U s V W s"
  by (simp add: txstep_def)

lemma txstep_trans: "txstep D S Z U s V W t \<Longrightarrow> txstep D S Z U t V' W' u \<Longrightarrow> txstep D S Z U s V' W' u"
  unfolding txstep_def by (meson same_nodes_trans)

lemma txstepD:
  assumes "txstep D S Z U s V W s'"
  shows "tx D S Z s' U V W" and "fholds D s j m \<Longrightarrow> fholds D s' j m" and "fs_sb s' = fs_sb s" and "node s' = node s" and "icache s' = icache s"
  using assms by (simp_all add: txstep_def same_nodes_def node_def fun_eq_iff)

lemma fholds_locked: "tx D S Z s U V W \<Longrightarrow> fholds D s i b \<Longrightarrow> b \<in> U"
  unfolding tx_def fholds_def by (auto dest!: holdsD(9))

lemma fholds_same: "fholds D s i b \<Longrightarrow> fholds D s i c \<Longrightarrow> b = c"
  by (simp add: fholds_def holds_def)

lemma fholds_data: "tx D S Z s U V W \<Longrightarrow> fholds D s i b \<Longrightarrow> fdata i s = V b"
  unfolding tx_def fholds_def fdata_def by (auto dest: holdsD(7))

lemma room:
  assumes "tx D S Z s U V W" and "card U \<le> 1" and "card W < Z - 1"
  shows "card (U \<union> W) < NBUF"
  using card_Un_le[of U W] tx_logged(3)[OF assms(1)] assms(2,3) by (simp add: NBUF_def LOGSIZE_def)

text \<open>Locking a block, using it, unlocking it.\<close>

lemma tx_bread_step:
  assumes "tx D S Z s U V W" and "b \<notin> U" and "b \<in> W \<or> card (U \<union> W) < NBUF"
  obtains i s1 where "fbread D b s = Ret (i, s1)" and "tx D S Z s1 (insert b U) V W" and "fholds D s1 i b" and "fdata i s1 = V b"
    and "\<And>j m. fholds D s j m \<Longrightarrow> fholds D s1 j m \<and> j \<noteq> i" and "same_nodes s s1"
proof -
  obtain i s1 where r: "fbread D b s = Ret (i, s1)" "tx D S Z s1 (insert b U) V W" "fholds D s1 i b" "fdata i s1 = V b"
    "\<And>j m. fholds D s j m \<Longrightarrow> fholds D s1 j m" "same_nodes s s1" using tx_bread[OF assms] by blast
  have "j \<noteq> i" if "fholds D s j m" for j m using that r(3,5) fholds_same fholds_locked[OF assms(1) that] assms(2) by blast
  then show thesis using that r by blast
qed

lemma tx_done:
  assumes "tx D S Z s1 (insert b U) V W" and "fholds D s1 i b" and "b \<notin> U" and "\<And>j m. fholds D s j m \<Longrightarrow> fholds D s1 j m \<and> j \<noteq> i" and "same_nodes s s1"
  obtains s2 where "fbrelse i s1 = Ret s2" and "txstep D S Z U s V W s2"
proof -
  obtain s2 where r: "fbrelse i s1 = Ret s2" "tx D S Z s2 (insert b U - {b}) V W" "\<And>j m. j \<noteq> i \<Longrightarrow> fholds D s1 j m \<Longrightarrow> fholds D s2 j m" "same_nodes s1 s2"
    using tx_brelse[OF assms(1,2)] by blast
  have "insert b U - {b} = U" using assms(3) by auto
  then have "txstep D S Z U s V W s2" using r assms(4,5) same_nodes_trans unfolding txstep_def by metis
  then show thesis using that r(1) by blast
qed

lemma tx_edit_end:
  assumes t: "tx D S Z s1 (insert b U) V W" "fholds D s1 i b" "b \<notin> U" and h: "\<And>j m. fholds D s j m \<Longrightarrow> fholds D s1 j m \<and> j \<noteq> i" "same_nodes s s1"
    and b: "home S Z b" "length x = BSIZE" "card W < Z - 1"
  obtains s2 s3 where "flog_write i (fput i x s1) = Ret s2" and "fbrelse i s2 = Ret s3" and "txstep D S Z U s (V(b := x)) (insert b W) s3"
proof -
  obtain s2 where w: "flog_write i (fput i x s1) = Ret s2" "tx D S Z s2 (insert b U) (V(b := x)) (insert b W)" "\<And>j m. fholds D s1 j m \<Longrightarrow> fholds D s2 j m" "same_nodes s1 s2"
    using tx_write[OF t(1,2) b] by blast
  have "same_nodes s s2" using same_nodes_trans[OF h(2) w(4)] .
  from tx_done[OF w(2) w(3)[OF t(2)] t(3) _ this] h(1) w(3) obtain s3 where "fbrelse i s2 = Ret s3" "txstep D S Z U s (V(b := x)) (insert b W) s3" by metis
  then show thesis using that w(1) by blast
qed

lemma bzero_ok:
  assumes "tx D S Z s U V W" and "b \<notin> U" and "card U \<le> 1" and "home S Z b" and "card W < Z - 1"
  shows "\<exists>s'. bzero D b s = Ret s' \<and> txstep D S Z U s (V(b := replicate BSIZE 0)) (insert b W) s'"
proof -
  obtain i s1 where r: "fbread D b s = Ret (i, s1)" "tx D S Z s1 (insert b U) V W" "fholds D s1 i b" "fdata i s1 = V b"
    "\<And>j m. fholds D s j m \<Longrightarrow> fholds D s1 j m \<and> j \<noteq> i" "same_nodes s s1"
    using tx_bread_step[OF assms(1,2)] room[OF assms(1,3,5)] by metis
  obtain s2 s3 where "flog_write i (fput i (replicate BSIZE 0) s1) = Ret s2" "fbrelse i s2 = Ret s3" "txstep D S Z U s (V(b := replicate BSIZE 0)) (insert b W) s3"
    using tx_edit_end[OF r(2,3) assms(2) r(5,6) assms(4) _ assms(5)] by (metis length_replicate)
  then show ?thesis using r(1) by (simp add: bzero_def)
qed

text \<open>\<open>balloc\<close> over a list of chunks of the free map.\<close>

definition after_balloc :: "superblock \<Rightarrow> (nat \<Rightarrow> block) \<Rightarrow> nat \<Rightarrow> nat \<Rightarrow> block" where
  "after_balloc sb V b = V(BBLOCK b sb := bit_on (b mod BPB) (V (BBLOCK b sb)), b := replicate BSIZE 0)"

lemma balloc_loop_ok:
  assumes "tx D S Z s U V W" and "card U \<le> 1" and "card W + 2 < Z" and "layout S Z sb V" and "fs_sb s = sb"
    and "\<forall>x\<in>U. \<not> map_block sb x \<and> \<not> free_block sb V x" and "\<forall>b\<in>set bs. b mod BPB = 0 \<and> b < sb_size sb"
  shows "case first_free sb V bs of
      Some b \<Rightarrow> \<exists>s'. balloc_loop D bs s = Ret (b, s') \<and> txstep D S Z U s (after_balloc sb V b) (insert b (insert (BBLOCK b sb) W)) s'
    | None \<Rightarrow> balloc_loop D bs s = Panic ''balloc: out of blocks''"
  using assms
proof (induction bs arbitrary: s)
  case (Cons c bs)
  let ?x = "BBLOCK c sb"
  have mx: "map_block sb ?x" using Cons.prems(7) by (auto simp: map_block_def)
  then have x: "?x \<notin> U" "home S Z ?x" using Cons.prems(4,6) unfolding layout_def by blast+
  have W: "card W < Z - 1" using Cons.prems(3) by simp
  obtain i s1 where r: "fbread D ?x s = Ret (i, s1)" "tx D S Z s1 (insert ?x U) V W" "fholds D s1 i ?x" "fdata i s1 = V ?x"
    "\<And>j m. fholds D s j m \<Longrightarrow> fholds D s1 j m \<and> j \<noteq> i" "same_nodes s s1"
    using tx_bread_step[OF Cons.prems(1) x(1)] room[OF Cons.prems(1,2) W] by metis
  have sb: "fs_sb s1 = sb" using same_nodesD(1)[OF r(6)] Cons.prems(5) by simp
  let ?f = "find (bit_clear (V ?x)) [0..<min BPB (sb_size sb - c)]"
  show ?case
  proof (cases ?f)
    case None
    obtain s2 where s2: "fbrelse i s1 = Ret s2" "txstep D S Z U s V W s2" using tx_done[OF r(2,3) x(1) r(5,6)] by metis
    have step: "balloc_loop D (c # bs) s = balloc_loop D bs s2" using r(1,4) sb s2(1) None Cons.prems(5) by simp
    have ih: "case first_free sb V bs of
      Some b \<Rightarrow> \<exists>s'. balloc_loop D bs s2 = Ret (b, s') \<and> txstep D S Z U s2 (after_balloc sb V b) (insert b (insert (BBLOCK b sb) W)) s'
    | None \<Rightarrow> balloc_loop D bs s2 = Panic ''balloc: out of blocks''"
      using Cons.IH[OF txstepD(1)[OF s2(2)] Cons.prems(2-4) _ Cons.prems(6)] Cons.prems(5,7) txstepD(3)[OF s2(2)] by simp
    show ?thesis using ih txstep_trans[OF s2(2)] unfolding step using None by (auto split: option.splits)
  next
    case (Some bi)
    have bi: "bi < BPB" "c + bi < sb_size sb" "bit_clear (V ?x) bi" using find_SomeD[OF Some] by auto
    have c: "c mod BPB = 0" using Cons.prems(7) by simp
    then obtain q where q: "c = q * BPB" by (metis mod_0_imp_dvd dvd_div_mult_self)
    have B: "0 < BPB" by (simp add: BPB_def BSIZE_def)
    have "(q * BPB + bi) div BPB = q" "(q * BPB + bi) mod BPB = bi" "q * BPB div BPB = q" using bi(1) B by simp_all
    then have m: "(c + bi) mod BPB = bi" "BBLOCK (c + bi) sb = ?x" using q by (simp_all add: BBLOCK_def)
    have fb: "free_block sb V (c + bi)" using bi m by (simp add: free_block_def)
    then have h: "home S Z (c + bi)" "c + bi \<notin> U" "c + bi \<noteq> ?x" using Cons.prems(4,6) mx unfolding layout_def by metis+
    let ?d = "bit_on bi (V ?x)"
    have ld: "length ?d = BSIZE" using tx_logged(6)[OF Cons.prems(1)] by simp
    obtain s2 s3 where w: "flog_write i (fput i ?d s1) = Ret s2" "fbrelse i s2 = Ret s3" "txstep D S Z U s (V(?x := ?d)) (insert ?x W) s3"
      using tx_edit_end[OF r(2,3) x(1) r(5,6) x(2) ld W] by metis
    have "card (insert ?x W) < Z - 1" using Cons.prems(3) tx_logged(1)[OF Cons.prems(1)] by (auto simp: card_insert_if)
    from bzero_ok[OF txstepD(1)[OF w(3)] h(2) Cons.prems(2) h(1) this] obtain s4 where z: "bzero D (c + bi) s3 = Ret s4"
      "txstep D S Z U s3 ((V(?x := ?d))(c + bi := replicate BSIZE 0)) (insert (c + bi) (insert ?x W)) s4" by blast
    have "balloc_loop D (c # bs) s = Ret (c + bi, s4)" using r(1,4) sb Some w(1,2) z(1) Cons.prems(5) by simp
    moreover have "txstep D S Z U s (after_balloc sb V (c + bi)) (insert (c + bi) (insert ?x W)) s4"
      using txstep_trans[OF w(3) z(2)] m by (simp add: after_balloc_def)
    ultimately show ?thesis using Some m by simp
  qed
qed simp

lemma balloc_ok:
  assumes "tx D S Z s U V W" and "card U \<le> 1" and "card W + 2 < Z" and "layout S Z (fs_sb s) V" and "\<forall>x\<in>U. \<not> map_block (fs_sb s) x \<and> \<not> free_block (fs_sb s) V x"
  shows "case lowest_free (fs_sb s) V of
      Some b \<Rightarrow> \<exists>s'. balloc D s = Ret (b, s') \<and> txstep D S Z U s (after_balloc (fs_sb s) V b) (insert b (insert (BBLOCK b (fs_sb s)) W)) s'
    | None \<Rightarrow> balloc D s = Panic ''balloc: out of blocks''"
proof -
  have B: "0 < BPB" by (simp add: BPB_def BSIZE_def)
  have "i * BPB < n" if "i < (n + BPB - 1) div BPB" for i n
  proof -
    have "Suc i * BPB \<le> (n + BPB - 1) div BPB * BPB" using that by (intro mult_le_mono1) simp
    also have "\<dots> \<le> n + BPB - 1" by (simp add: div_times_less_eq_dividend)
    finally show ?thesis using B by simp
  qed
  then have "\<forall>b\<in>set (map (\<lambda>i. i * BPB) [0..<(sb_size (fs_sb s) + BPB - 1) div BPB]). b mod BPB = 0 \<and> b < sb_size (fs_sb s)" by auto
  from balloc_loop_ok[OF assms(1-4) refl assms(5) this] show ?thesis unfolding first_free_all balloc_def .
qed

lemma free_after_balloc:
  assumes "layout S Z sb V" and "free_block sb V b" and "\<And>x. length (V x) = BSIZE"
  shows "free_block sb (after_balloc sb V b) c \<longleftrightarrow> c \<noteq> b \<and> free_block sb V c"
proof (cases "c < sb_size sb")
  case True
  have nb: "BBLOCK c sb \<noteq> b" using assms(1,2) True unfolding layout_def map_block_def by blast
  have l: "b mod BPB < 8 * length (V (BBLOCK b sb))" using assms(3) by (simp add: BPB_def BSIZE_def)
  show ?thesis
  proof (cases "BBLOCK c sb = BBLOCK b sb")
    case eq: True
    then have "c div BPB = b div BPB" by (simp add: BBLOCK_def)
    then have "c mod BPB = b mod BPB \<longleftrightarrow> c = b" by (metis mult_div_mod_eq)
    then show ?thesis using True eq nb bit_on_clear[OF l] by (auto simp: free_block_def after_balloc_def)
  next
    case False
    then show ?thesis using True nb by (auto simp: free_block_def after_balloc_def)
  qed
qed (use assms(2) in \<open>auto simp: free_block_def\<close>)

lemma layout_after_balloc:
  assumes "layout S Z sb V" and "free_block sb V b" and "\<And>x. length (V x) = BSIZE"
  shows "layout S Z sb (after_balloc sb V b)"
  using assms(1) free_after_balloc[OF assms] by (simp add: layout_def)

lemma bfree_ok:
  assumes "tx D S Z s U V W" and "card U \<le> 1" and "card W < Z - 1" and "map_block (fs_sb s) (BBLOCK b (fs_sb s))" and "home S Z (BBLOCK b (fs_sb s))" and "BBLOCK b (fs_sb s) \<notin> U"
  shows "if bit_clear (V (BBLOCK b (fs_sb s))) (b mod BPB) then bfree D b s = Panic ''freeing free block''
    else \<exists>s'. bfree D b s = Ret s' \<and> txstep D S Z U s (V(BBLOCK b (fs_sb s) := bit_off (b mod BPB) (V (BBLOCK b (fs_sb s))))) (insert (BBLOCK b (fs_sb s)) W) s'"
proof -
  let ?x = "BBLOCK b (fs_sb s)"
  obtain i s1 where r: "fbread D ?x s = Ret (i, s1)" "tx D S Z s1 (insert ?x U) V W" "fholds D s1 i ?x" "fdata i s1 = V ?x"
    "\<And>j m. fholds D s j m \<Longrightarrow> fholds D s1 j m \<and> j \<noteq> i" "same_nodes s s1"
    using tx_bread_step[OF assms(1,6)] room[OF assms(1-3)] by metis
  have l: "length (bit_off (b mod BPB) (V ?x)) = BSIZE" using tx_logged(6)[OF assms(1)] by simp
  obtain s2 s3 where "flog_write i (fput i (bit_off (b mod BPB) (V ?x)) s1) = Ret s2" "fbrelse i s2 = Ret s3" "txstep D S Z U s (V(?x := bit_off (b mod BPB) (V ?x))) (insert ?x W) s3"
    using tx_edit_end[OF r(2,3) assms(6) r(5,6) assms(5) l assms(3)] by metis
  then show ?thesis using r(1,4) by (simp add: bfree_def Let_def)
qed

end
