(* ===== verification/Fs_Map.thy ===== *)
theory Fs_Map
  imports Fs_Blocks
begin

text \<open>
  Which blocks an inode owns, and what \<open>bmap\<close> does: it returns the block of the file, or gives the
  file a new one without changing its bytes or any other block in use.
\<close>

subsection \<open>The blocks of a file\<close>

text \<open>
  The block numbers in an inode: slot \<open>i\<close> below \<open>MAXFILE\<close> is the \<open>i\<close>-th block of the file, slot
  \<open>MAXFILE\<close> the indirect block; 0 is none.
\<close>

definition slot :: "(nat \<Rightarrow> block) \<Rightarrow> dinode \<Rightarrow> nat \<Rightarrow> nat" where
  "slot V di i =
     (let ind = unat (di_addrs di ! NDIRECT) in
      if i < NDIRECT then unat (di_addrs di ! i)
      else if i = MAXFILE then ind
      else if ind = 0 then 0
      else unat (get32 (V ind) (4 * (i - NDIRECT))))"

definition owned :: "(nat \<Rightarrow> block) \<Rightarrow> dinode \<Rightarrow> nat set" where
  "owned V di = slot V di ` {..MAXFILE} - {0}"

text \<open>A block that is in use for data.\<close>

definition used_block :: "nat \<Rightarrow> nat \<Rightarrow> superblock \<Rightarrow> (nat \<Rightarrow> block) \<Rightarrow> nat \<Rightarrow> bool" where
  "used_block S Z sb V b \<longleftrightarrow> home S Z b \<and> \<not> map_block sb b \<and> \<not> free_block sb V b"

definition file_ok :: "nat \<Rightarrow> nat \<Rightarrow> superblock \<Rightarrow> (nat \<Rightarrow> block) \<Rightarrow> dinode \<Rightarrow> bool" where
  "file_ok S Z sb V di \<longleftrightarrow> length (di_addrs di) = NDIRECT + 1
     \<and> (\<forall>i\<le>MAXFILE. slot V di i \<noteq> 0 \<longrightarrow> used_block S Z sb V (slot V di i))
     \<and> (\<forall>i\<le>MAXFILE. \<forall>j\<le>MAXFILE. slot V di i \<noteq> 0 \<longrightarrow> slot V di i = slot V di j \<longrightarrow> i = j)"

text \<open>The bytes of a file; where it has no block it reads as zero.\<close>

definition fbyte :: "(nat \<Rightarrow> block) \<Rightarrow> dinode \<Rightarrow> nat \<Rightarrow> byte" where
  "fbyte V di i = (let a = slot V di (i div BSIZE) in if a = 0 then 0 else V a ! (i mod BSIZE))"

lemmas fs_sizes = NDIRECT_def NINDIRECT_def MAXFILE_def BSIZE_def

lemma slot_direct: "i < NDIRECT \<Longrightarrow> slot V di i = unat (di_addrs di ! i)"
  by (simp add: slot_def)

lemma slot_indirect: "slot V di MAXFILE = unat (di_addrs di ! NDIRECT)"
  by (simp add: slot_def fs_sizes)

lemma slot_second: "NDIRECT \<le> i \<Longrightarrow> i < MAXFILE \<Longrightarrow> slot V di i = (if slot V di MAXFILE = 0 then 0 else unat (get32 (V (slot V di MAXFILE)) (4 * (i - NDIRECT))))"
  by (simp add: slot_def slot_indirect Let_def fs_sizes)

lemma file_okD:
  assumes "file_ok S Z sb V di"
  shows "length (di_addrs di) = NDIRECT + 1" and "i \<le> MAXFILE \<Longrightarrow> slot V di i \<noteq> 0 \<Longrightarrow> used_block S Z sb V (slot V di i)"
    and "i \<le> MAXFILE \<Longrightarrow> j \<le> MAXFILE \<Longrightarrow> slot V di i \<noteq> 0 \<Longrightarrow> slot V di i = slot V di j \<Longrightarrow> i = j"
  using assms unfolding file_ok_def by blast+

text \<open>Giving a file one more block: slot \<open>i\<close> was empty and is now the block \<open>b\<close> that was free.\<close>

definition gains :: "superblock \<Rightarrow> (nat \<Rightarrow> block) \<Rightarrow> dinode \<Rightarrow> nat \<Rightarrow> nat \<Rightarrow> (nat \<Rightarrow> block) \<Rightarrow> dinode \<Rightarrow> bool" where
  "gains sb V di i b V' di' \<longleftrightarrow> i \<le> MAXFILE \<and> slot V di i = 0 \<and> free_block sb V b
     \<and> (\<forall>c. free_block sb V' c \<longleftrightarrow> c \<noteq> b \<and> free_block sb V c)
     \<and> (\<forall>j\<le>MAXFILE. slot V' di' j = (if j = i then b else slot V di j)) \<and> V' b = replicate BSIZE 0
     \<and> (\<forall>x. x \<noteq> b \<longrightarrow> \<not> map_block sb x \<longrightarrow> x = 0 \<or> x \<noteq> slot V di MAXFILE \<longrightarrow> V' x = V x) \<and> (\<exists>as. length as = length (di_addrs di) \<and> di' = di\<lparr>di_addrs := as\<rparr>)"

lemma gains_file_ok:
  assumes ok: "file_ok S Z sb V di" and L: "layout S Z sb V" and g: "gains sb V di i b V' di'"
  shows "file_ok S Z sb V' di'" and "layout S Z sb V'"
proof -
  note K = file_okD[OF ok]
  have b: "home S Z b" "\<not> map_block sb b" "b \<noteq> 0" using g L unfolding gains_def layout_def by blast+
  have sl: "slot V' di' j = (if j = i then b else slot V di j)" if "j \<le> MAXFILE" for j using g that by (simp add: gains_def)
  have fr: "free_block sb V' c \<longleftrightarrow> c \<noteq> b \<and> free_block sb V c" for c using g by (simp add: gains_def)
  have nb: "slot V di j \<noteq> b" if "j \<le> MAXFILE" for j
  proof
    assume "slot V di j = b"
    then show False using K(2)[OF that] b(3) g unfolding gains_def used_block_def by blast
  qed
  have "used_block S Z sb V' (slot V' di' j)" if "j \<le> MAXFILE" "slot V' di' j \<noteq> 0" for j
    using that sl[OF that(1)] K(2)[OF that(1)] fr b unfolding used_block_def by (cases "j = i") simp_all
  moreover have "j = k" if "j \<le> MAXFILE" "k \<le> MAXFILE" "slot V' di' j \<noteq> 0" "slot V' di' j = slot V' di' k" for j k
    using that sl nb K(3)[OF that(1,2)] by (metis (full_types))
  moreover have "length (di_addrs di') = NDIRECT + 1" using g K(1) by (auto simp: gains_def)
  ultimately show "file_ok S Z sb V' di'" unfolding file_ok_def by blast
  show "layout S Z sb V'" using L fr by (simp add: layout_def)
qed

lemma gains_fbyte:
  assumes ok: "file_ok S Z sb V di" and L: "layout S Z sb V" and g: "gains sb V di i b V' di'" and n: "n < MAXFILE * BSIZE"
  shows "fbyte V' di' n = fbyte V di n"
proof -
  note K = file_okD[OF ok]
  let ?j = "n div BSIZE"
  have j: "?j < MAXFILE" using n by (simp add: fs_sizes)
  have b: "b \<noteq> 0" using g L unfolding gains_def layout_def by blast
  have sl: "slot V' di' ?j = (if ?j = i then b else slot V di ?j)" using g j by (simp add: gains_def)
  show ?thesis
  proof (cases "?j = i \<or> slot V di ?j = 0")
    case True
    then have "slot V di ?j = 0" using g by (auto simp: gains_def)
    moreover have "V' b = replicate BSIZE 0" using g by (simp add: gains_def)
    ultimately show ?thesis using sl True b by (auto simp: fbyte_def BSIZE_def)
  next
    case False
    let ?x = "slot V di ?j"
    have "?x \<noteq> slot V di MAXFILE" using K(3)[of ?j MAXFILE] j False by auto
    moreover have "used_block S Z sb V ?x" using K(2)[of ?j] j False by simp
    then have "\<not> map_block sb ?x" "?x \<noteq> b" using g unfolding used_block_def gains_def by blast+
    ultimately have "V' ?x = V ?x" using g unfolding gains_def by blast
    then show ?thesis using sl False by (simp add: fbyte_def)
  qed
qed

text \<open>The three ways \<open>bmap\<close> gives a file a block.\<close>

lemma get32_zeros: "a + 3 < n \<Longrightarrow> get32 (replicate n 0) a = 0"
  by (simp add: get32_def)

lemma after_balloc_facts:
  assumes "layout S Z sb V" and "free_block sb V b" and "\<And>x. length (V x) = BSIZE"
  shows "after_balloc sb V b b = replicate BSIZE 0" and "x \<noteq> b \<Longrightarrow> \<not> map_block sb x \<Longrightarrow> after_balloc sb V b x = V x" and "length (after_balloc sb V b x) = BSIZE" and "b < 2 ^ 32" and "b \<noteq> 0"
proof -
  have "map_block sb (BBLOCK b sb)" using assms(2) by (auto simp: map_block_def free_block_def)
  then show "x \<noteq> b \<Longrightarrow> \<not> map_block sb x \<Longrightarrow> after_balloc sb V b x = V x" by (auto simp: after_balloc_def)
  show "after_balloc sb V b b = replicate BSIZE 0" "length (after_balloc sb V b x) = BSIZE" using assms(3) by (simp_all add: after_balloc_def)
  show "b < 2 ^ 32" "b \<noteq> 0" using assms(1,2) unfolding layout_def home_def by blast+
qed

lemma gain_slot:
  assumes ok: "file_ok S Z sb V di" and L: "layout S Z sb V" and b: "free_block sb V b" and len: "\<And>x. length (V x) = BSIZE"
    and i: "i \<le> NDIRECT" "di_addrs di ! i = 0"
  shows "gains sb V di (if i < NDIRECT then i else MAXFILE) b (after_balloc sb V b) (di\<lparr>di_addrs := (di_addrs di)[i := word_of_nat b]\<rparr>)"
proof -
  note A = after_balloc_facts[OF L b len] and K = file_okD[OF ok]
  let ?V = "after_balloc sb V b" and ?di = "di\<lparr>di_addrs := (di_addrs di)[i := word_of_nat b]\<rparr>" and ?i = "if i < NDIRECT then i else MAXFILE"
  have w: "unat (word_of_nat b :: u32) = b" using A(4) by (simp add: unat_of_nat)
  have z: "slot V di ?i = 0" using i by (auto simp: slot_direct slot_indirect)
  have ind: "slot ?V ?di MAXFILE = (if i = NDIRECT then b else slot V di MAXFILE)" using K(1) i(1) w by (auto simp: slot_indirect)
  have sl: "slot ?V ?di j = (if j = ?i then b else slot V di j)" if j: "j \<le> MAXFILE" for j
  proof (cases "j < NDIRECT \<or> j = MAXFILE")
    case True
    then show ?thesis using ind K(1) i w by (auto simp: slot_direct fs_sizes)
  next
    case False
    then have s: "NDIRECT \<le> j" "j < MAXFILE" using j by auto
    have "4 * (j - NDIRECT) + 3 < BSIZE" using s by (auto simp: fs_sizes)
    then have zz: "get32 (replicate BSIZE 0) (4 * (j - NDIRECT)) = 0" by (rule get32_zeros)
    show ?thesis
    proof (cases "i = NDIRECT")
      case True
      then show ?thesis using slot_second[OF s] ind A(1,5) zz z False by auto
    next
      case ni: False
      have "?V (slot V di MAXFILE) = V (slot V di MAXFILE)" if "slot V di MAXFILE \<noteq> 0"
        using A(2) K(2)[OF order_refl that] b unfolding used_block_def by metis
      then show ?thesis using slot_second[OF s] ind ni s i by auto
    qed
  qed
  have "?i \<le> MAXFILE" by (auto simp: fs_sizes)
  moreover have "?V x = V x" if "x \<noteq> b" "\<not> map_block sb x" for x using A(2) that by blast
  moreover have "\<exists>as. length as = length (di_addrs di) \<and> ?di = di\<lparr>di_addrs := as\<rparr>" by (rule exI[of _ "(di_addrs di)[i := word_of_nat b]"]) simp
  ultimately show ?thesis unfolding gains_def using z b free_after_balloc[OF L b len] sl A(1) by blast
qed

lemma gain_entry:
  assumes ok: "file_ok S Z sb V di" and L: "layout S Z sb V" and b: "free_block sb V b" and len: "\<And>x. length (V x) = BSIZE"
    and i: "NDIRECT \<le> i" "i < MAXFILE" "slot V di i = 0" and ind: "slot V di MAXFILE = a" "a \<noteq> 0"
  shows "gains sb V di i b ((after_balloc sb V b)(a := put32 (4 * (i - NDIRECT)) (word_of_nat b) (V a))) di"
proof -
  note A = after_balloc_facts[OF L b len] and K = file_okD[OF ok]
  let ?V = "(after_balloc sb V b)(a := put32 (4 * (i - NDIRECT)) (word_of_nat b) (V a))"
  have w: "unat (word_of_nat b :: u32) = b" using A(4) by (simp add: unat_of_nat)
  have u: "used_block S Z sb V a" using K(2)[of MAXFILE] ind by simp
  then have ab: "a \<noteq> b" "\<not> map_block sb a" using b unfolding used_block_def by blast+
  have sl: "slot ?V di j = (if j = i then b else slot V di j)" if j: "j \<le> MAXFILE" for j
  proof (cases "j < NDIRECT \<or> j = MAXFILE")
    case True
    then show ?thesis using i by (auto simp: slot_direct slot_indirect)
  next
    case False
    then have s: "NDIRECT \<le> j" "j < MAXFILE" using j by auto
    have ind': "slot ?V di MAXFILE = a" using ind(1) by (simp add: slot_indirect)
    have "4 * (i - NDIRECT) + 3 < BSIZE" using i by (auto simp: fs_sizes)
    then have "get32 (put32 (4 * (i - NDIRECT)) (word_of_nat b) (V a)) (4 * (j - NDIRECT)) = (if j = i then word_of_nat b else get32 (V a) (4 * (j - NDIRECT)))"
    proof (cases "j = i")
      case False
      then have "4 * (i - NDIRECT) + 3 < 4 * (j - NDIRECT) \<or> 4 * (j - NDIRECT) + 3 < 4 * (i - NDIRECT)" using s(1) i(1) by linarith
      then show ?thesis using False by simp
    qed (use len[of a] in simp)
    then show ?thesis using slot_second[OF s] ind ind' w by simp
  qed
  have fr: "free_block sb ?V c \<longleftrightarrow> c \<noteq> b \<and> free_block sb V c" for c
  proof -
    have "BBLOCK c sb \<noteq> a" if "c < sb_size sb" using ab(2) that by (auto simp: map_block_def)
    then have "free_block sb ?V c \<longleftrightarrow> free_block sb (after_balloc sb V b) c" by (auto simp: free_block_def)
    then show ?thesis using free_after_balloc[OF L b len] by simp
  qed
  have "?V x = V x" if "x \<noteq> b" "\<not> map_block sb x" "x = 0 \<or> x \<noteq> slot V di MAXFILE" for x using A(2) that ind by auto
  moreover have "?V b = replicate BSIZE 0" using ab A(1) by simp
  moreover have "\<exists>as. length as = length (di_addrs di) \<and> di = di\<lparr>di_addrs := as\<rparr>" by (rule exI[of _ "di_addrs di"]) simp
  ultimately show ?thesis unfolding gains_def using i b fr sl by simp
qed

subsection \<open>Growing a file\<close>

text \<open>Nothing but the file's own blocks, free blocks and the free map changes; the file keeps the blocks it has.\<close>

definition evolves :: "superblock \<Rightarrow> (nat \<Rightarrow> block) \<Rightarrow> dinode \<Rightarrow> (nat \<Rightarrow> block) \<Rightarrow> dinode \<Rightarrow> bool" where
  "evolves sb V di V' di' \<longleftrightarrow>
     (\<forall>x. \<not> free_block sb V x \<longrightarrow> \<not> map_block sb x \<longrightarrow> x \<notin> owned V di \<longrightarrow> V' x = V x) \<and> (\<forall>c. free_block sb V' c \<longrightarrow> free_block sb V c)
     \<and> owned V' di' \<subseteq> owned V di \<union> {x. free_block sb V x} \<and> (\<forall>j\<le>MAXFILE. slot V di j \<noteq> 0 \<longrightarrow> slot V' di' j = slot V di j)
     \<and> (\<exists>as. length as = length (di_addrs di) \<and> di' = di\<lparr>di_addrs := as\<rparr>)"

lemma evolves_refl: "evolves sb V di V di"
  unfolding evolves_def by (auto intro: exI[of _ "di_addrs di"])

lemma evolves_trans:
  assumes a: "evolves sb V di V' di'" and b: "evolves sb V' di' V'' di''"
  shows "evolves sb V di V'' di''"
proof -
  have "V'' x = V x" if "\<not> free_block sb V x" "\<not> map_block sb x" "x \<notin> owned V di" for x
  proof -
    have "\<not> free_block sb V' x" "x \<notin> owned V' di'" "V' x = V x" using that a unfolding evolves_def by blast+
    moreover from this have "V'' x = V' x" using that(2) b unfolding evolves_def by blast
    ultimately show ?thesis by simp
  qed
  moreover have "\<exists>as. length as = length (di_addrs di) \<and> di'' = di\<lparr>di_addrs := as\<rparr>" using a b unfolding evolves_def by auto
  moreover have "owned V'' di'' \<subseteq> owned V di \<union> {x. free_block sb V x}" using a b unfolding evolves_def by blast
  moreover have "\<forall>j\<le>MAXFILE. slot V di j \<noteq> 0 \<longrightarrow> slot V'' di'' j = slot V di j" using a b unfolding evolves_def by simp
  moreover have "\<forall>c. free_block sb V'' c \<longrightarrow> free_block sb V c" using a b unfolding evolves_def by simp
  ultimately show ?thesis unfolding evolves_def by blast
qed

definition grows :: "superblock \<Rightarrow> (nat \<Rightarrow> block) \<Rightarrow> dinode \<Rightarrow> (nat \<Rightarrow> block) \<Rightarrow> dinode \<Rightarrow> bool" where
  "grows sb V di V' di' \<longleftrightarrow> (\<forall>n<MAXFILE * BSIZE. fbyte V' di' n = fbyte V di n) \<and> evolves sb V di V' di'"

lemma grows_refl: "grows sb V di V di"
  by (simp add: grows_def evolves_refl)

lemma grows_trans: "grows sb V di V' di' \<Longrightarrow> grows sb V' di' V'' di'' \<Longrightarrow> grows sb V di V'' di''"
  unfolding grows_def by (auto intro: evolves_trans)

lemma gains_grows:
  assumes "file_ok S Z sb V di" and "layout S Z sb V" and g: "gains sb V di i b V' di'"
  shows "grows sb V di V' di'"
proof -
  have b: "b \<noteq> 0" "free_block sb V b" using g assms(2) unfolding gains_def layout_def by blast+
  have sl: "slot V' di' j = (if j = i then b else slot V di j)" if "j \<le> MAXFILE" for j using g that by (simp add: gains_def)
  have own: "owned V' di' \<subseteq> owned V di \<union> {x. free_block sb V x}" using sl b(2) by (auto simp: owned_def)
  have fr: "V' x = V x" if "\<not> free_block sb V x" "\<not> map_block sb x" "x \<notin> owned V di" for x
  proof -
    have "x = 0 \<or> x \<noteq> slot V di MAXFILE" using that(3) by (auto simp: owned_def)
    moreover have "x \<noteq> b" using that(1) b(2) by blast
    ultimately show ?thesis using g that(2) unfolding gains_def by blast
  qed
  have "\<forall>j\<le>MAXFILE. slot V di j \<noteq> 0 \<longrightarrow> slot V' di' j = slot V di j" using sl g unfolding gains_def by auto
  then show ?thesis using gains_fbyte[OF assms] own fr g unfolding grows_def evolves_def gains_def by blast
qed

text \<open>
  The state of a call on the inode \<open>ip\<close>; the number of free blocks; what the transaction may still
  have to log for the indirect block and its bit in the free map.
\<close>

definition fstate :: "nat \<Rightarrow> nat \<Rightarrow> nat \<Rightarrow> nat \<Rightarrow> fs \<Rightarrow> (nat \<Rightarrow> block) \<Rightarrow> nat set \<Rightarrow> dinode \<Rightarrow> bool" where
  "fstate D S Z ip s V W di \<longleftrightarrow> tx D S Z s {} V W \<and> layout S Z (fs_sb s) V \<and> ip < length (icache s) \<and> i_dev (node s ip) = D
     \<and> i_d (node s ip) = di \<and> file_ok S Z (fs_sb s) V di"

definition nfree :: "superblock \<Rightarrow> (nat \<Rightarrow> block) \<Rightarrow> nat" where
  "nfree sb V = card {b. free_block sb V b}"

definition cost :: "(nat \<Rightarrow> block) \<Rightarrow> dinode \<Rightarrow> nat set \<Rightarrow> nat" where
  "cost V di W = card W + (if slot V di MAXFILE = 0 \<or> slot V di MAXFILE \<notin> W then 2 else 0)"

definition need :: "bool \<Rightarrow> (nat \<Rightarrow> block) \<Rightarrow> dinode \<Rightarrow> nat" where
  "need hi V di = (if hi \<and> slot V di MAXFILE = 0 then 1 else 0)"

text \<open>The state differs in the block numbers of one inode only.\<close>

definition set_di :: "nat \<Rightarrow> dinode \<Rightarrow> fs \<Rightarrow> inode list" where
  "set_di ip di s = (icache s)[ip := (node s ip)\<lparr>i_d := di\<rparr>]"

definition only_di :: "nat \<Rightarrow> dinode \<Rightarrow> fs \<Rightarrow> fs \<Rightarrow> bool" where
  "only_di ip di s s' \<longleftrightarrow> fs_sb s' = fs_sb s \<and> icache s' = set_di ip di s"

lemma only_di_trans: "ip < length (icache s) \<Longrightarrow> only_di ip di s s' \<Longrightarrow> only_di ip di' s' s'' \<Longrightarrow> only_di ip di' s s''"
  by (simp add: only_di_def set_di_def node_def)

lemma only_di_same: "ip < length (icache s) \<Longrightarrow> i_d (node s ip) = di \<Longrightarrow> same_nodes s s' \<Longrightarrow> only_di ip di s s'"
  by (auto simp: only_di_def set_di_def same_nodes_def node_def)

lemma tx_icache [simp]: "tx D S Z (s\<lparr>icache := x\<rparr>) U V W = tx D S Z s U V W"
  by (simp add: tx_def)

lemma finite_free [simp]: "finite {b. free_block sb V b}"
  by (rule finite_subset[of _ "{..<sb_size sb}"]) (auto simp: free_block_def)

lemma gains_nfree: "gains sb V di i b V' di' \<Longrightarrow> nfree sb V = Suc (nfree sb V')"
proof -
  assume g: "gains sb V di i b V' di'"
  have "{b. free_block sb V b} = insert b {b. free_block sb V' b}" "b \<notin> {b. free_block sb V' b}" using g by (auto simp: gains_def)
  then show ?thesis unfolding nfree_def by simp
qed

lemma nfree_lowest: "0 < nfree sb V \<Longrightarrow> \<exists>b. lowest_free sb V = Some b \<and> free_block sb V b"
proof -
  assume "0 < nfree sb V"
  then obtain b where "free_block sb V b" unfolding nfree_def by (metis (mono_tags, lifting) card_gt_0_iff empty_Collect_eq)
  then obtain c where "lowest_free sb V = Some c" using lowest_free_None[of sb V] by (cases "lowest_free sb V") auto
  then show ?thesis using lowest_freeD(1) by blast
qed

lemma fstateD:
  assumes "fstate D S Z ip s V W di"
  shows "tx D S Z s {} V W" and "layout S Z (fs_sb s) V" and "ip < length (icache s)" and "i_dev (node s ip) = D" and "i_d (node s ip) = di"
    and "file_ok S Z (fs_sb s) V di" and "length (V x) = BSIZE" and "finite W" and "card W < Z" and "card ({} \<union> W) < NBUF"
  using assms tx_logged[of D S Z s "{}" V W] by (auto simp: fstate_def LOGSIZE_def NBUF_def)

lemma addr_or_alloc_ok:
  assumes f: "fstate D S Z ip s V W di" and i: "i \<le> NDIRECT" "di_addrs di ! i = 0" and W: "card W + 2 < Z" and n: "0 < nfree (fs_sb s) V"
  shows "\<exists>b V' s' di'. addr_or_alloc ip i s = Ret (word_of_nat b, s') \<and> fstate D S Z ip s' V' (insert b (insert (BBLOCK b (fs_sb s)) W)) di'
    \<and> gains (fs_sb s) V di (if i < NDIRECT then i else MAXFILE) b V' di' \<and> only_di ip di' s s'"
proof -
  note F = fstateD[OF f]
  obtain b where b: "lowest_free (fs_sb s) V = Some b" "free_block (fs_sb s) V b" using nfree_lowest[OF n] by blast
  obtain s1 where s1: "balloc D s = Ret (b, s1)" "txstep D S Z {} s (after_balloc (fs_sb s) V b) (insert b (insert (BBLOCK b (fs_sb s)) W)) s1"
    using balloc_ok[OF F(1) _ W F(2)] b(1) by auto
  note T = txstepD[OF s1(2)]
  let ?di = "di\<lparr>di_addrs := (di_addrs di)[i := word_of_nat b]\<rparr>" and ?s = "set_addr ip i (word_of_nat b) s1"
  have r: "addr_or_alloc ip i s = Ret (word_of_nat b, ?s)" using i(2) F(4,5) s1(1) by (simp add: addr_or_alloc_def)
  have ic: "icache ?s = set_di ip ?di s" "fs_sb ?s = fs_sb s" "tx D S Z ?s {} (after_balloc (fs_sb s) V b) (insert b (insert (BBLOCK b (fs_sb s)) W))"
    using T(1,3,5) F(5) by (simp_all add: set_addr_def upd_d_def upd_inode_def set_di_def node_def)
  have g: "gains (fs_sb s) V di (if i < NDIRECT then i else MAXFILE) b (after_balloc (fs_sb s) V b) ?di" by (rule gain_slot[OF F(6,2) b(2) F(7) i])
  have nd: "node ?s ip = (node s ip)\<lparr>i_d := ?di\<rparr>" using F(3) ic(1) by (simp add: node_def set_di_def)
  have "fstate D S Z ip ?s (after_balloc (fs_sb s) V b) (insert b (insert (BBLOCK b (fs_sb s)) W)) ?di"
    unfolding fstate_def using ic nd gains_file_ok[OF F(6,2) g] F(3,4) by (simp add: set_di_def)
  moreover have "only_di ip ?di s ?s" using ic by (simp add: only_di_def)
  ultimately show ?thesis using r g by blast
qed

lemma bmap_mapped:
  assumes f: "fstate D S Z ip s V W di" and bn: "bn < MAXFILE" "slot V di bn \<noteq> 0"
  shows "\<exists>s'. bmap ip bn s = Ret (word_of_nat (slot V di bn), s') \<and> fstate D S Z ip s' V W di \<and> same_nodes s s'"
proof (cases "bn < NDIRECT")
  case True
  then show ?thesis using f bn fstateD(5)[OF f] by (simp add: bmap_def addr_or_alloc_def slot_direct unat_eq_0)
next
  case False
  note F = fstateD[OF f]
  let ?a = "slot V di MAXFILE"
  have a: "?a \<noteq> 0" "slot V di bn = unat (get32 (V ?a) (4 * (bn - NDIRECT)))" using slot_second[of bn V di] False bn by (auto split: if_splits)
  have w: "di_addrs di ! NDIRECT \<noteq> 0" "?a = unat (di_addrs di ! NDIRECT)" using a(1) by (auto simp: slot_indirect)
  obtain i s1 where r: "fbread D ?a s = Ret (i, s1)" "tx D S Z s1 {?a} V W" "fholds D s1 i ?a" "fdata i s1 = V ?a"
    "\<And>j m. fholds D s j m \<Longrightarrow> fholds D s1 j m \<and> j \<noteq> i" "same_nodes s s1"
    using tx_bread_step[OF F(1), of ?a] F(10) by auto
  obtain s2 where s2: "fbrelse i s1 = Ret s2" "txstep D S Z {} s V W s2" using tx_done[OF r(2,3) _ r(5,6)] by blast
  have e: "get32 (V ?a) (4 * (bn - NDIRECT)) \<noteq> 0" "word_of_nat (slot V di bn) = get32 (V ?a) (4 * (bn - NDIRECT))" using bn(2) a(2) by auto
  have "bmap ip bn s = Ret (word_of_nat (slot V di bn), s2)"
    using False bn(1) r(1,4) s2(1) w e F(4,5) by (simp add: bmap_def addr_or_alloc_def Let_def MAXFILE_def less_diff_conv2)
  moreover have "fstate D S Z ip s2 V W di" using f txstepD[OF s2(2)] by (simp add: fstate_def)
  ultimately show ?thesis using s2(2) by (auto simp: txstep_def)
qed

text \<open>The second half of \<open>bmap\<close>: an entry of the indirect block \<open>a\<close>.\<close>

lemma bmap_entry:
  assumes f: "fstate D S Z ip s V W di" and bn: "NDIRECT \<le> bn" "bn < MAXFILE" "slot V di bn = 0" and a: "slot V di MAXFILE = a" "a \<noteq> 0"
    and W: "card W + 3 < Z" and n: "0 < nfree (fs_sb s) V"
  shows "\<exists>b V' s'. bmap ip bn s = Ret (word_of_nat b, s') \<and> fstate D S Z ip s' V' (insert a (insert b (insert (BBLOCK b (fs_sb s)) W))) di
    \<and> gains (fs_sb s) V di bn b V' di \<and> same_nodes s s'"
proof -
  note F = fstateD[OF f]
  obtain b where b: "lowest_free (fs_sb s) V = Some b" "free_block (fs_sb s) V b" using nfree_lowest[OF n] by blast
  have w: "di_addrs di ! NDIRECT \<noteq> 0" "a = unat (di_addrs di ! NDIRECT)" using a by (auto simp: slot_indirect)
  have ua: "used_block S Z (fs_sb s) V a" using file_okD(2)[OF F(6), of MAXFILE] a by simp
  obtain i s1 where r: "fbread D a s = Ret (i, s1)" "tx D S Z s1 {a} V W" "fholds D s1 i a" "fdata i s1 = V a"
    "\<And>j m. fholds D s j m \<Longrightarrow> fholds D s1 j m \<and> j \<noteq> i" "same_nodes s s1"
    using tx_bread_step[OF F(1), of a] F(10) by auto
  have sb1: "fs_sb s1 = fs_sb s" "node s1 = node s" using same_nodesD[OF r(6)] by auto
  let ?V = "after_balloc (fs_sb s) V b" and ?W = "insert b (insert (BBLOCK b (fs_sb s)) W)"
  obtain s2 where s2: "balloc D s1 = Ret (b, s2)" "txstep D S Z {a} s1 ?V ?W s2"
    using balloc_ok[OF r(2)] b(1) W F(2) sb1 ua unfolding used_block_def by auto
  note T = txstepD[OF s2(2)] and A = after_balloc_facts[OF F(2) b(2) F(7)]
  have ab: "a \<noteq> b" "?V a = V a" using ua b(2) A(2) unfolding used_block_def by metis+
  have h2: "fholds D s2 i a" "fdata i s2 = V a" using T(2)[OF r(3)] fholds_data[OF T(1)] ab by auto
  let ?x = "put32 (4 * (bn - NDIRECT)) (word_of_nat b) (V a)"
  have "card ?W \<le> card W + 2" using F(8) by (simp add: card_insert_if)
  then have W': "card ?W < Z - 1" using W by simp
  have sn: "same_nodes s s2" using same_nodes_trans[OF r(6)] s2(2) by (auto simp: txstep_def)
  have hs: "\<And>j m. fholds D s j m \<Longrightarrow> fholds D s2 j m \<and> j \<noteq> i" using r(5) T(2) by blast
  obtain s3 s4 where s4: "flog_write i (fput i ?x s2) = Ret s3" "fbrelse i s3 = Ret s4" "txstep D S Z {} s (?V(a := ?x)) (insert a ?W) s4"
    using tx_edit_end[OF T(1) h2(1) _ hs sn _ _ W', of ?x] ua F(7) unfolding used_block_def by auto
  have z: "get32 (V a) (4 * (bn - NDIRECT)) = 0" using slot_second[OF bn(1,2), of V di] bn(3) a by (simp add: unat_eq_0)
  have "bmap ip bn s = Ret (word_of_nat b, s4)"
    using bn(1,2) r(1,4) sb1 s2(1) s4(1,2) h2(2) w z F(4,5) T(4) by (simp add: bmap_def addr_or_alloc_def Let_def MAXFILE_def less_diff_conv2)
  moreover have g: "gains (fs_sb s) V di bn b (?V(a := ?x)) di" by (rule gain_entry[OF F(6,2) b(2) F(7) bn a])
  have "fstate D S Z ip s4 (?V(a := ?x)) (insert a ?W) di" unfolding fstate_def using gains_file_ok[OF F(6,2) g] txstepD[OF s4(3)] F by simp
  ultimately show ?thesis using g s4(3) unfolding txstep_def by blast
qed

text \<open>All of \<open>bmap\<close>: a call costs at most two more blocks in the log and one free block, those of the indirect block apart.\<close>

definition mapped :: "nat \<Rightarrow> nat \<Rightarrow> nat \<Rightarrow> nat \<Rightarrow> bool \<Rightarrow> fs \<Rightarrow> (nat \<Rightarrow> block) \<Rightarrow> nat set \<Rightarrow> dinode \<Rightarrow> nat \<Rightarrow> fs \<Rightarrow> (nat \<Rightarrow> block) \<Rightarrow> nat set \<Rightarrow> dinode \<Rightarrow> bool" where
  "mapped D S Z ip hi s V W di bn s' V' W' di' \<longleftrightarrow> fstate D S Z ip s' V' W' di' \<and> slot V' di' bn \<noteq> 0 \<and> grows (fs_sb s) V di V' di'
     \<and> only_di ip di' s s' \<and> W \<subseteq> W' \<and> cost V' di' (insert (slot V' di' bn) W') \<le> cost V di W + 2
     \<and> (if slot V di bn = 0 then nfree (fs_sb s) V + need hi V' di' \<le> nfree (fs_sb s) V' + 1 + need hi V di else V' = V \<and> W' = W \<and> di' = di)"

lemma cost_insert: "finite W \<Longrightarrow> cost V di (insert b W) \<le> cost V di W + 1"
  by (auto simp: cost_def card_insert_if)

lemma bmap_second:
  assumes "addr_or_alloc ip NDIRECT s = Ret (a, s1)" and "a \<noteq> 0" and "di_addrs (i_d (node s1 ip)) ! NDIRECT = a" and "NDIRECT \<le> bn"
  shows "bmap ip bn s = bmap ip bn s1"
  using assms by (simp add: bmap_def addr_or_alloc_def[of ip NDIRECT s1] Let_def)

lemma bmap_alloc_direct:
  assumes f: "fstate D S Z ip s V W di" and bn: "bn < NDIRECT" "slot V di bn = 0" and c: "cost V di W + 3 < Z" and n: "1 \<le> nfree (fs_sb s) V"
  shows "\<exists>s' V' W' di'. bmap ip bn s = Ret (word_of_nat (slot V' di' bn), s') \<and> mapped D S Z ip hi s V W di bn s' V' W' di'"
proof -
  note F = fstateD[OF f]
  let ?W = "\<lambda>b. insert b (insert (BBLOCK b (fs_sb s)) W)"
  have W: "card W + 2 < Z" using c by (simp add: cost_def)
  have z: "di_addrs di ! bn = 0" using bn by (simp add: slot_direct unat_eq_0)
  from addr_or_alloc_ok[OF f _ z W] bn n obtain b V' s' di' where r: "addr_or_alloc ip bn s = Ret (word_of_nat b, s')" "fstate D S Z ip s' V' (?W b) di'"
    "gains (fs_sb s) V di bn b V' di'" "only_di ip di' s s'" by auto
  have sl: "slot V' di' bn = b" "slot V' di' MAXFILE = slot V di MAXFILE" "b \<noteq> 0" using r(3) bn(1) F(2) unfolding gains_def layout_def by (auto simp: fs_sizes)
  have "card (?W b) \<le> card W + 2" using F(8) by (simp add: card_insert_if)
  then have "cost V' di' (insert b (?W b)) \<le> cost V di W + 2" using sl by (auto simp: cost_def)
  then have "mapped D S Z ip hi s V W di bn s' V' (?W b) di'"
    unfolding mapped_def using r sl bn gains_grows[OF F(6,2) r(3)] gains_nfree[OF r(3)] by (auto simp: need_def)
  then show ?thesis using r(1) sl bn(1) by (auto simp: bmap_def)
qed

lemma bmap_alloc_entry:
  assumes f: "fstate D S Z ip s V W di" and bn: "NDIRECT \<le> bn" "bn < MAXFILE" "slot V di bn = 0" and c: "cost V di W + 3 < Z"
    and n: "1 \<le> nfree (fs_sb s) V" and a: "slot V di MAXFILE \<noteq> 0"
  shows "\<exists>s' V' W' di'. bmap ip bn s = Ret (word_of_nat (slot V' di' bn), s') \<and> mapped D S Z ip hi s V W di bn s' V' W' di'"
proof -
  note F = fstateD[OF f]
  let ?a = "slot V di MAXFILE" and ?W = "\<lambda>b. insert (slot V di MAXFILE) (insert b (insert (BBLOCK b (fs_sb s)) W))"
  have W: "card W + 3 < Z" using c by (simp add: cost_def)
  obtain b V' s' where r: "bmap ip bn s = Ret (word_of_nat b, s')" "fstate D S Z ip s' V' (?W b) di" "gains (fs_sb s) V di bn b V' di" "same_nodes s s'"
    using bmap_entry[OF f bn refl a W] n by auto
  have sl: "slot V' di bn = b" "slot V' di MAXFILE = ?a" "b \<noteq> 0" using r(3) bn F(2) unfolding gains_def layout_def by (auto simp: fs_sizes)
  have "card (?W b) \<le> card W + 2 + (if ?a \<in> W then 0 else 1)" using F(8) by (auto simp: card_insert_if)
  then have "cost V' di (insert b (?W b)) \<le> cost V di W + 2" using sl a by (auto simp: cost_def insert_absorb split: if_splits)
  then have "mapped D S Z ip hi s V W di bn s' V' (?W b) di"
    unfolding mapped_def using r sl bn gains_grows[OF F(6,2) r(3)] gains_nfree[OF r(3)] only_di_same[OF F(3,5) r(4)] a by (auto simp: need_def)
  then show ?thesis using r(1) sl by auto
qed

lemma bmap_alloc_both:
  assumes f: "fstate D S Z ip s V W di" and bn: "NDIRECT \<le> bn" "bn < MAXFILE" and c: "cost V di W + 3 < Z"
    and n: "2 \<le> nfree (fs_sb s) V" and a: "slot V di MAXFILE = 0"
  shows "\<exists>s' V' W' di'. bmap ip bn s = Ret (word_of_nat (slot V' di' bn), s') \<and> mapped D S Z ip True s V W di bn s' V' W' di'"
proof -
  note F = fstateD[OF f]
  let ?W = "\<lambda>b. insert b (insert (BBLOCK b (fs_sb s)) W)"
  have W: "card W + 2 + 3 < Z" using c a by (simp add: cost_def)
  have z: "di_addrs di ! NDIRECT = 0" using a by (simp add: slot_indirect unat_eq_0)
  from addr_or_alloc_ok[OF f order_refl z] W n obtain b V1 s1 di1 where r: "addr_or_alloc ip NDIRECT s = Ret (word_of_nat b, s1)" "fstate D S Z ip s1 V1 (?W b) di1"
    "gains (fs_sb s) V di MAXFILE b V1 di1" "only_di ip di1 s s1" by auto
  have zero: "slot V di bn = 0" using slot_second[OF bn] a by simp
  have b: "b \<noteq> 0" "b < 2 ^ 32" using r(3) F(2) unfolding gains_def layout_def home_def by blast+
  have sl: "slot V1 di1 bn = 0" "slot V1 di1 MAXFILE = b" using r(3) bn zero by (auto simp: gains_def)
  note F1 = fstateD[OF r(2)]
  have sb: "fs_sb s1 = fs_sb s" using r(4) by (simp add: only_di_def)
  have cW: "card (?W b) \<le> card W + 2" using F(8) by (simp add: card_insert_if)
  have "di_addrs (i_d (node s1 ip)) ! NDIRECT = word_of_nat b" using sl(2)[symmetric] F1(5) unfolding slot_indirect by simp
  moreover have "unat (word_of_nat b :: u32) \<noteq> 0" using b by (simp add: unat_of_nat)
  then have "word_of_nat b \<noteq> (0 :: u32)" by (metis unat_0)
  ultimately have e: "bmap ip bn s = bmap ip bn s1" using bmap_second[OF r(1)] bn(1) by blast
  have "nfree (fs_sb s1) V1 \<ge> 1" using gains_nfree[OF r(3)] n sb by simp
  moreover have "cost V1 di1 (?W b) \<le> card W + 2" using sl(2) b(1) cW by (simp add: cost_def)
  ultimately obtain s' V' W' di' where m: "bmap ip bn s1 = Ret (word_of_nat (slot V' di' bn), s')" "mapped D S Z ip True s1 V1 (?W b) di1 bn s' V' W' di'"
    using bmap_alloc_entry[OF r(2) bn sl(1), where hi = True] sl(2) b(1) W by auto
  have "mapped D S Z ip True s V W di bn s' V' W' di'"
    using m(2) sl zero b(1) a cW sb gains_nfree[OF r(3)] grows_trans[OF gains_grows[OF F(6,2) r(3)]] only_di_trans[OF F(3) r(4)]
    unfolding mapped_def by (auto simp: cost_def need_def)
  then show ?thesis using e m(1) by auto
qed

lemma bmap_ok:
  assumes f: "fstate D S Z ip s V W di" and bn: "bn < MAXFILE" and c: "cost V di W + 3 < Z"
    and n: "slot V di bn = 0 \<Longrightarrow> need hi V di + 1 \<le> nfree (fs_sb s) V" and hi: "NDIRECT \<le> bn \<Longrightarrow> hi"
  shows "\<exists>s' V' W' di'. bmap ip bn s = Ret (word_of_nat (slot V' di' bn), s') \<and> mapped D S Z ip hi s V W di bn s' V' W' di'"
proof (cases "slot V di bn = 0")
  case False
  then obtain s' where s': "bmap ip bn s = Ret (word_of_nat (slot V di bn), s')" "fstate D S Z ip s' V W di" "same_nodes s s'" using bmap_mapped[OF f bn] by blast
  have "mapped D S Z ip hi s V W di bn s' V W di"
    unfolding mapped_def using False s' grows_refl only_di_same[OF fstateD(3,5)[OF f] s'(3)] cost_insert[OF fstateD(8)[OF f], of V di "slot V di bn"] by simp
  then show ?thesis using s'(1) by blast
next
  case True
  show ?thesis
  proof (cases "bn < NDIRECT")
    case d: True
    then show ?thesis using bmap_alloc_direct[OF f d True c] n[OF True] by simp
  next
    case False
    then have h: "NDIRECT \<le> bn" "hi" using hi by simp_all
    show ?thesis
    proof (cases "slot V di MAXFILE = 0")
      case a: True
      then show ?thesis using bmap_alloc_both[OF f h(1) bn c _ a] n[OF True] h(2) by (simp add: need_def)
    next
      case a: False
      then show ?thesis using bmap_alloc_entry[OF f h(1) bn True c _ a] n[OF True] by simp
    qed
  qed
qed

end
