(* ===== verification/Fs_Files.thy ===== *)
theory Fs_Files
  imports Fs_Map
begin

text \<open>
  The contents of files: \<open>readi\<close> returns a part of the bytes of a file, \<open>writei\<close> replaces a part of
  them and may make the file longer, and the inode on the disk follows.
\<close>

subsection \<open>Reading\<close>

declare readi_loop.simps [simp del] writei_loop.simps [simp del]

lemma chunk_bounds: "off mod BSIZE + chunk off n \<le> BSIZE" "chunk off n \<le> n"
  by (auto simp: chunk_def BSIZE_def)

lemma chunk_index: "j < chunk off n \<Longrightarrow> (off + j) div BSIZE = off div BSIZE \<and> (off + j) mod BSIZE = off mod BSIZE + j"
proof -
  assume "j < chunk off n"
  then have l: "off mod BSIZE + j < BSIZE" using chunk_bounds(1)[of off n] by linarith
  have e: "off + j = (off mod BSIZE + j) + off div BSIZE * BSIZE" using div_mult_mod_eq[of off BSIZE] by linarith
  have "(r + q * B) div B = q \<and> (r + q * B) mod B = r" if "r < B" for r q B :: nat using that by simp
  from this[OF l, of "off div BSIZE"] show ?thesis unfolding e[symmetric] .
qed

lemma chunk_bytes:
  assumes "slot V di (off div BSIZE) = a" and "a \<noteq> 0" and "length (V a) = BSIZE"
  shows "take (chunk off n) (drop (off mod BSIZE) (V a)) = map (fbyte V di) [off..<off + chunk off n]"
proof (rule nth_equalityI)
  show "length (take (chunk off n) (drop (off mod BSIZE) (V a))) = length (map (fbyte V di) [off..<off + chunk off n])"
    using chunk_bounds(1)[of off n] assms(3) by simp
  fix j assume "j < length (take (chunk off n) (drop (off mod BSIZE) (V a)))"
  then have j: "j < chunk off n" by simp
  then show "take (chunk off n) (drop (off mod BSIZE) (V a)) ! j = map (fbyte V di) [off..<off + chunk off n] ! j"
    using chunk_index[OF j] chunk_bounds(1)[of off n] assms by (simp add: fbyte_def)
qed

lemma chunk_div: "0 < n \<Longrightarrow> off + n \<le> MAXFILE * BSIZE \<Longrightarrow> off div BSIZE < MAXFILE"
  by (simp add: fs_sizes)

lemma readi_loop_ok:
  assumes "fstate D S Z ip s V W di" and "off + n \<le> MAXFILE * BSIZE" and "\<And>i. off \<le> i \<Longrightarrow> i < off + n \<Longrightarrow> slot V di (i div BSIZE) \<noteq> 0"
  shows "\<exists>s'. readi_loop ip off n s = Ret (map (fbyte V di) [off..<off + n], s') \<and> fstate D S Z ip s' V W di \<and> same_nodes s s'"
  using assms
proof (induction n arbitrary: off s rule: less_induct)
  case (less n)
  show ?case
  proof (cases "n = 0")
    case False
    let ?bn = "off div BSIZE" and ?m = "chunk off n"
    let ?a = "slot V di ?bn"
    have bn: "?bn < MAXFILE" "?a \<noteq> 0" using chunk_div[of n off] less.prems(2) less.prems(3)[of off] False by simp_all
    obtain s1 where s1: "bmap ip ?bn s = Ret (word_of_nat ?a, s1)" "fstate D S Z ip s1 V W di" "same_nodes s s1" using bmap_mapped[OF less.prems(1) bn] by blast
    note F = fstateD[OF s1(2)]
    have w: "unat (word_of_nat ?a :: u32) = ?a" using file_okD(2)[OF F(6), of ?bn] bn by (simp add: used_block_def home_def unat_of_nat)
    obtain i s2 where r: "fbread D ?a s1 = Ret (i, s2)" "tx D S Z s2 {?a} V W" "fholds D s2 i ?a" "fdata i s2 = V ?a"
      "\<And>j m. fholds D s1 j m \<Longrightarrow> fholds D s2 j m \<and> j \<noteq> i" "same_nodes s1 s2"
      using tx_bread_step[OF F(1), of ?a] F(10) by auto
    obtain s3 where s3: "fbrelse i s2 = Ret s3" "txstep D S Z {} s1 V W s3" using tx_done[OF r(2,3) _ r(5,6)] by blast
    have f3: "fstate D S Z ip s3 V W di" using s1(2) txstepD[OF s3(2)] by (simp add: fstate_def)
    have m: "0 < ?m" "?m \<le> n" using chunk_pos chunk_bounds(2) False by simp_all
    obtain s4 where s4: "readi_loop ip (off + ?m) (n - ?m) s3 = Ret (map (fbyte V di) [off + ?m..<off + ?m + (n - ?m)], s4)" "fstate D S Z ip s4 V W di" "same_nodes s3 s4"
      using less.IH[of "n - ?m" s3 "off + ?m"] f3 less.prems(2,3) m by auto
    have "[off..<off + n] = [off..<off + ?m] @ [off + ?m..<off + n]" using m by (metis add_le_cancel_left le_add1 le_add_diff_inverse upt_add_eq_append)
    then have "readi_loop ip off n s = Ret (map (fbyte V di) [off..<off + n], s4)"
      using False s1(1) r(1,4) s3(1) s4(1) F(4) w m chunk_bytes[OF refl bn(2) F(7), where n = n] by (subst readi_loop.simps) (simp add: Let_def)
    moreover have "same_nodes s s4" using same_nodes_trans[OF same_nodes_trans[OF s1(3)]] s3(2) s4(3) unfolding txstep_def by blast
    ultimately show ?thesis using s4(2) by blast
  qed (use less.prems(1) in \<open>simp add: readi_loop.simps\<close>)
qed

subsection \<open>Writing\<close>

text \<open>Writing one of its blocks changes those bytes of a file and nothing else.\<close>

lemma write_block:
  assumes ok: "file_ok S Z sb V di" and L: "layout S Z sb V" and bn: "bn < MAXFILE" "slot V di bn = a" "a \<noteq> 0"
  shows "slot (V(a := x)) di j = slot V di j" and "free_block sb (V(a := x)) c = free_block sb V c" and "file_ok S Z sb (V(a := x)) di" and "layout S Z sb (V(a := x))"
    and "evolves sb V di (V(a := x)) di" and "n < MAXFILE * BSIZE \<Longrightarrow> fbyte (V(a := x)) di n = (if n div BSIZE = bn then x ! (n mod BSIZE) else fbyte V di n)"
proof -
  note K = file_okD[OF ok]
  have u: "used_block S Z sb V a" using K(2)[of bn] bn by simp
  have ind: "slot V di MAXFILE \<noteq> a" using K(3)[of bn MAXFILE] bn by auto
  show sl: "slot (V(a := x)) di j = slot V di j" for j using ind unfolding slot_indirect by (simp add: slot_def Let_def)
  show fr: "free_block sb (V(a := x)) c = free_block sb V c" for c
  proof -
    have "BBLOCK c sb \<noteq> a" if "c < sb_size sb" using u that by (auto simp: used_block_def map_block_def)
    then show ?thesis by (auto simp: free_block_def)
  qed
  show "layout S Z sb (V(a := x))" "file_ok S Z sb (V(a := x)) di" using L ok by (simp_all add: layout_def file_ok_def used_block_def fr sl)
  have own: "a \<in> owned V di" "owned (V(a := x)) di = owned V di" using bn sl by (auto simp: owned_def)
  then show "evolves sb V di (V(a := x)) di" using fr sl unfolding evolves_def by (auto intro: exI[of _ "di_addrs di"])
  show "fbyte (V(a := x)) di n = (if n div BSIZE = bn then x ! (n mod BSIZE) else fbyte V di n)" if n: "n < MAXFILE * BSIZE"
  proof -
    have "n div BSIZE < MAXFILE" using n by (simp add: fs_sizes)
    then have "slot V di (n div BSIZE) \<noteq> a" if "n div BSIZE \<noteq> bn" using that K(3)[of bn "n div BSIZE"] bn by auto
    then show ?thesis using bn by (auto simp: fbyte_def Let_def sl)
  qed
qed

text \<open>The number of blocks that \<open>n\<close> bytes from \<open>off\<close> on lie in.\<close>

definition nblocks :: "nat \<Rightarrow> nat \<Rightarrow> nat" where
  "nblocks off n = (if n = 0 then 0 else (off + n - 1) div BSIZE - off div BSIZE + 1)"

lemma nblocks_step: "0 < n \<Longrightarrow> nblocks off n = nblocks (off + chunk off n) (n - chunk off n) + 1"
proof -
  assume n: "0 < n"
  show ?thesis
  proof (cases "chunk off n = n")
    case True
    have "(off + (n - 1)) div BSIZE = off div BSIZE" using chunk_index[of "n - 1" off n] True n by simp
    then show ?thesis using n True by (simp add: nblocks_def)
  next
    case False
    then have m: "chunk off n = BSIZE - off mod BSIZE" "chunk off n < n" by (auto simp: chunk_def min_def)
    have "off + chunk off n = Suc (off div BSIZE) * BSIZE"
    proof -
      have "off mod BSIZE < BSIZE" by (simp add: BSIZE_def)
      moreover have "off = off div BSIZE * BSIZE + off mod BSIZE" by simp
      ultimately show ?thesis unfolding m(1) mult_Suc by linarith
    qed
    then have d: "(off + chunk off n) div BSIZE = Suc (off div BSIZE)" by (simp add: BSIZE_def)
    moreover have "(off + chunk off n) div BSIZE \<le> (off + n - 1) div BSIZE" using m(2) by (intro div_le_mono) simp
    ultimately show ?thesis using m(2) n by (auto simp: nblocks_def)
  qed
qed

text \<open>What a run of the loop of \<open>writei\<close> leaves: \<open>n\<close> bytes of \<open>src\<close> from \<open>off\<close> on, every one in a block.\<close>

definition wrote :: "nat \<Rightarrow> nat \<Rightarrow> nat \<Rightarrow> nat \<Rightarrow> fs \<Rightarrow> (nat \<Rightarrow> block) \<Rightarrow> nat set \<Rightarrow> dinode \<Rightarrow> byte list \<Rightarrow> nat \<Rightarrow> nat \<Rightarrow> fs \<Rightarrow> (nat \<Rightarrow> block) \<Rightarrow> nat set \<Rightarrow> dinode \<Rightarrow> bool" where
  "wrote D S Z ip s V W di src off n s' V' W' di' \<longleftrightarrow> fstate D S Z ip s' V' W' di' \<and> evolves (fs_sb s) V di V' di' \<and> only_di ip di' s s' \<and> W \<subseteq> W'
     \<and> cost V' di' W' \<le> cost V di W + 2 * nblocks off n
     \<and> (\<forall>i<MAXFILE * BSIZE. fbyte V' di' i = (if off \<le> i \<and> i < off + n then src ! (i - off) else fbyte V di i))
     \<and> (\<forall>i. off \<le> i \<longrightarrow> i < off + n \<longrightarrow> slot V' di' (i div BSIZE) \<noteq> 0)
     \<and> ((\<forall>i. off \<le> i \<longrightarrow> i < off + n \<longrightarrow> slot V di (i div BSIZE) \<noteq> 0) \<longrightarrow> di' = di)"

text \<open>The log and the free blocks are enough for that.\<close>

definition fits :: "nat \<Rightarrow> superblock \<Rightarrow> (nat \<Rightarrow> block) \<Rightarrow> nat set \<Rightarrow> dinode \<Rightarrow> nat \<Rightarrow> nat \<Rightarrow> bool \<Rightarrow> bool" where
  "fits Z sb V W di off n hi \<longleftrightarrow> cost V di W + 2 * nblocks off n + 1 < Z
     \<and> ((\<exists>i\<ge>off. i < off + n \<and> slot V di (i div BSIZE) = 0) \<longrightarrow> need hi V di + nblocks off n \<le> nfree sb V)
     \<and> (\<forall>i\<ge>off. i < off + n \<longrightarrow> NDIRECT \<le> i div BSIZE \<longrightarrow> hi)"

lemma patch_bytes:
  assumes ok: "file_ok S Z sb V di" and L: "layout S Z sb V" and bn: "off div BSIZE < MAXFILE" "slot V di (off div BSIZE) = a" "a \<noteq> 0" and len: "length (V a) = BSIZE"
    and m: "chunk off n = m" "m \<le> length src" and k: "k < MAXFILE * BSIZE"
  shows "fbyte (V(a := take (off mod BSIZE) (V a) @ take m src @ drop (off mod BSIZE + m) (V a))) di k = (if off \<le> k \<and> k < off + m then src ! (k - off) else fbyte V di k)"
proof -
  let ?bn = "off div BSIZE" and ?o = "off mod BSIZE"
  let ?x = "take ?o (V a) @ take m src @ drop (?o + m) (V a)"
  note B = write_block(6)[OF ok L bn k, of ?x]
  have om: "?o + m \<le> BSIZE" using chunk_bounds(1)[of off n] m(1) by simp
  show ?thesis
  proof (cases "off \<le> k \<and> k < off + m")
    case True
    then obtain j where j: "k = off + j" "j < m" using le_Suc_ex by fastforce
    then have "?x ! (?o + j) = src ! j" using om m(2) len by (simp add: nth_append)
    then show ?thesis using chunk_index[of j off n] B j m(1) by simp
  next
    case False
    have "?x ! (k mod BSIZE) = V a ! (k mod BSIZE)" if d: "k div BSIZE = ?bn"
    proof -
      have lt: "k mod BSIZE < BSIZE" by (simp add: BSIZE_def)
      have "k = ?bn * BSIZE + k mod BSIZE" "off = ?bn * BSIZE + ?o" using d div_mult_mod_eq[of k BSIZE] div_mult_mod_eq[of off BSIZE] by simp_all
      then have "k mod BSIZE < ?o \<or> ?o + m \<le> k mod BSIZE" using False by linarith
      moreover have "min (length src) m = m" "min BSIZE ?o = ?o" using om m(2) by simp_all
      ultimately show ?thesis using lt len by (auto simp: nth_append)
    qed
    then show ?thesis using B False bn by (auto simp: fbyte_def)
  qed
qed

lemma fits_next:
  assumes fit: "fits Z (fs_sb s) V W di off n hi" and n: "0 < n" "off + n \<le> MAXFILE * BSIZE" and M: "mapped D S Z ip hi s V W di (off div BSIZE) s1 V1 W1 di1"
    and V': "\<And>j. slot V' di1 j = slot V1 di1 j" "nfree (fs_sb s) V' = nfree (fs_sb s) V1" and c: "cost V' di1 W' \<le> cost V di W + 2"
  shows "fits Z (fs_sb s) V' W' di1 (off + chunk off n) (n - chunk off n) hi"
proof -
  let ?m = "chunk off n"
  have m: "0 < ?m" "?m \<le> n" using chunk_pos[OF n(1)] chunk_bounds(2) by simp_all
  have st: "nblocks off n = nblocks (off + ?m) (n - ?m) + 1" by (rule nblocks_step[OF n(1)])
  have ev: "evolves (fs_sb s) V di V1 di1" using M by (simp add: mapped_def grows_def)
  have span: "off \<le> k \<and> k < off + n" if "off + ?m \<le> k" "k < off + ?m + (n - ?m)" for k using that m by linarith
  have "need hi V' di1 + nblocks (off + ?m) (n - ?m) \<le> nfree (fs_sb s) V'"
    if k: "off + ?m \<le> k" "k < off + ?m + (n - ?m)" "slot V' di1 (k div BSIZE) = 0" for k
  proof -
    have "k div BSIZE < MAXFILE" using k(2) m n(2) by (simp add: fs_sizes)
    then have z: "slot V di (k div BSIZE) = 0" using k(3) V'(1) ev unfolding evolves_def by (metis less_imp_le)
    have "need hi V di + nblocks off n \<le> nfree (fs_sb s) V" using fit z span[OF k(1,2)] unfolding fits_def by blast
    moreover have "need hi V' di1 = need hi V1 di1" by (simp add: need_def V'(1))
    ultimately show ?thesis using M st V'(2) unfolding mapped_def by (auto split: if_splits)
  qed
  moreover have "cost V' di1 W' + 2 * nblocks (off + ?m) (n - ?m) + 1 < Z" using fit st c unfolding fits_def by linarith
  ultimately show ?thesis using fit span unfolding fits_def by blast
qed

lemma one_block:
  assumes f: "fstate D S Z ip s V W di" and n: "0 < n" "off + n \<le> MAXFILE * BSIZE" and fit: "fits Z (fs_sb s) V W di off n hi" and src: "n \<le> length src"
  shows "\<exists>a s1 i s2 s3 s4 V' W' di'. bmap ip (off div BSIZE) s = Ret (a, s1) \<and> fbread (i_dev (node s1 ip)) (unat a) s1 = Ret (i, s2)
    \<and> flog_write i (fput i (take (off mod BSIZE) (fdata i s2) @ take (chunk off n) src @ drop (off mod BSIZE + chunk off n) (fdata i s2)) s2) = Ret s3
    \<and> fbrelse i s3 = Ret s4 \<and> wrote D S Z ip s V W di src off (chunk off n) s4 V' W' di' \<and> fits Z (fs_sb s) V' W' di' (off + chunk off n) (n - chunk off n) hi"
proof -
  let ?bn = "off div BSIZE" and ?m = "chunk off n" and ?o = "off mod BSIZE"
  have bn: "?bn < MAXFILE" using chunk_div[OF n] .
  have m: "0 < ?m" "?m \<le> n" using chunk_pos[OF n(1)] chunk_bounds(2) by simp_all
  have c: "cost V di W + 3 < Z" using fit nblocks_step[OF n(1), of off] unfolding fits_def by linarith
  have nf: "slot V di ?bn = 0 \<Longrightarrow> need hi V di + 1 \<le> nfree (fs_sb s) V" "NDIRECT \<le> ?bn \<Longrightarrow> hi"
    using fit n(1) nblocks_step[OF n(1), of off] unfolding fits_def by force+
  obtain s1 V1 W1 di1 where b: "bmap ip ?bn s = Ret (word_of_nat (slot V1 di1 ?bn), s1)" "mapped D S Z ip hi s V W di ?bn s1 V1 W1 di1"
    using bmap_ok[OF f bn c nf] by blast
  note M = b(2)[unfolded mapped_def]
  then have f1: "fstate D S Z ip s1 V1 W1 di1" and sb1: "fs_sb s1 = fs_sb s" by (auto simp: only_di_def)
  note F = fstateD[OF f1]
  let ?a = "slot V1 di1 ?bn"
  have a0: "?a \<noteq> 0" using M by blast
  have u: "used_block S Z (fs_sb s1) V1 ?a" using file_okD(2)[OF F(6), of ?bn] bn a0 by simp
  then have w: "unat (word_of_nat ?a :: u32) = ?a" "home S Z ?a" by (auto simp: used_block_def home_def unat_of_nat)
  obtain i s2 where r: "fbread D ?a s1 = Ret (i, s2)" "tx D S Z s2 {?a} V1 W1" "fholds D s2 i ?a" "fdata i s2 = V1 ?a"
    "\<And>j m. fholds D s1 j m \<Longrightarrow> fholds D s2 j m \<and> j \<noteq> i" "same_nodes s1 s2"
    using tx_bread_step[OF F(1), of ?a] F(10) by auto
  let ?x = "take ?o (V1 ?a) @ take ?m src @ drop (?o + ?m) (V1 ?a)"
  have lx: "length ?x = BSIZE" using chunk_bounds(1)[of off n] F(7) m src by simp
  have cW: "card W1 \<le> card (insert ?a W1)" "card (insert ?a W1) \<le> cost V1 di1 (insert ?a W1)" using F(8) by (auto simp: card_insert_if cost_def)
  then have W1: "card W1 < Z - 1" using M c by linarith
  obtain s3 s4 where s4: "flog_write i (fput i ?x s2) = Ret s3" "fbrelse i s3 = Ret s4" "txstep D S Z {} s1 (V1(?a := ?x)) (insert ?a W1) s4"
    using tx_edit_end[OF r(2,3) _ r(5,6) w(2) lx W1] by blast
  note T = txstepD[OF s4(3)] and B = write_block[OF F(6,2) bn refl a0, where x = ?x]
  let ?V = "V1(?a := ?x)" and ?W = "insert ?a W1"
  have f4: "fstate D S Z ip s4 ?V ?W di1" unfolding fstate_def using T F B(3,4) by simp
  have ev: "evolves (fs_sb s) V di ?V di1" using evolves_trans[of "fs_sb s" V di V1 di1] M B(5) sb1 unfolding grows_def by simp
  have od: "only_di ip di1 s s4" using M T(3,5) by (auto simp: only_di_def)
  have cost: "cost ?V di1 ?W \<le> cost V di W + 2" using M B(1)[of MAXFILE] by (simp add: cost_def)
  have bytes: "fbyte ?V di1 k = (if off \<le> k \<and> k < off + ?m then src ! (k - off) else fbyte V di k)" if k: "k < MAXFILE * BSIZE" for k
    using patch_bytes[OF F(6,2) bn refl a0 F(7) refl _ k] m src M k unfolding grows_def by (simp add: mapped_def grows_def)
  have nz: "slot ?V di1 (k div BSIZE) \<noteq> 0" if "off \<le> k" "k < off + ?m" for k
  proof -
    have "k - off < ?m" "off + (k - off) = k" using that by simp_all
    then show ?thesis using chunk_index[of "k - off" off n] B(1) a0 by simp
  qed
  have nb: "nblocks off ?m = 1"
  proof -
    have "(off + (?m - 1)) div BSIZE = ?bn" using chunk_index[of "?m - 1" off n] m by simp
    then show ?thesis using m by (simp add: nblocks_def)
  qed
  have "di1 = di" if "\<forall>k. off \<le> k \<longrightarrow> k < off + ?m \<longrightarrow> slot V di (k div BSIZE) \<noteq> 0"
    using that m(1) M by (metis le_refl less_add_same_cancel1)
  then have "wrote D S Z ip s V W di src off ?m s4 ?V ?W di1" unfolding wrote_def using f4 ev od cost bytes nz M nb by auto
  moreover have "fits Z (fs_sb s) ?V ?W di1 (off + ?m) (n - ?m) hi"
    using B(2) sb1 by (intro fits_next[OF fit n b(2) B(1) _ cost]) (simp add: nfree_def)
  moreover have "fbread (i_dev (node s1 ip)) (unat (word_of_nat ?a :: u32)) s1 = Ret (i, s2)" using r(1) F(4) w(1) by simp
  ultimately show ?thesis using b(1) s4(1,2) r(4) by metis
qed

lemma wrote_refl: "fstate D S Z ip s V W di \<Longrightarrow> wrote D S Z ip s V W di src off 0 s V W di"
proof -
  assume f: "fstate D S Z ip s V W di"
  have "only_di ip di s s" by (rule only_di_same[OF fstateD(3,5)[OF f]]) simp
  then show ?thesis using f by (auto simp: wrote_def evolves_refl nblocks_def)
qed

lemma wrote_trans:
  assumes a: "wrote D S Z ip s V W di src off m s1 V1 W1 di1" and b: "wrote D S Z ip s1 V1 W1 di1 (drop m src) (off + m) k s2 V2 W2 di2"
    and l: "m + k \<le> length src" and n: "nblocks off (m + k) = nblocks off m + nblocks (off + m) k" and ip: "ip < length (icache s)" and e: "off + (m + k) \<le> MAXFILE * BSIZE"
  shows "wrote D S Z ip s V W di src off (m + k) s2 V2 W2 di2"
proof -
  have sb: "fs_sb s1 = fs_sb s" using a by (simp add: wrote_def only_di_def)
  have "fbyte V2 di2 i = (if off \<le> i \<and> i < off + (m + k) then src ! (i - off) else fbyte V di i)" if i: "i < MAXFILE * BSIZE" for i
  proof -
    have "fbyte V2 di2 i = (if off + m \<le> i \<and> i < off + m + k then drop m src ! (i - (off + m)) else fbyte V1 di1 i)" using b i by (simp add: wrote_def)
    moreover have "fbyte V1 di1 i = (if off \<le> i \<and> i < off + m then src ! (i - off) else fbyte V di i)" using a i by (simp add: wrote_def)
    ultimately show ?thesis using l by auto
  qed
  moreover have "slot V2 di2 (i div BSIZE) \<noteq> 0" if i: "off \<le> i" "i < off + (m + k)" for i
  proof (cases "i < off + m")
    case True
    have "i div BSIZE < MAXFILE" using i(2) e by (simp add: fs_sizes)
    moreover have "slot V1 di1 (i div BSIZE) \<noteq> 0" using a i(1) True by (simp add: wrote_def)
    moreover have "\<forall>j\<le>MAXFILE. slot V1 di1 j \<noteq> 0 \<longrightarrow> slot V2 di2 j = slot V1 di1 j" using b unfolding wrote_def evolves_def by blast
    ultimately show ?thesis by simp
  next
    case False
    then show ?thesis using b i by (simp add: wrote_def)
  qed
  moreover have "evolves (fs_sb s) V di V2 di2" using a b sb evolves_trans[of "fs_sb s" V di V1 di1 V2 di2] by (simp add: wrote_def)
  moreover have "only_di ip di2 s s2" using a b only_di_trans[OF ip, of di1 s1 di2 s2] by (simp add: wrote_def)
  moreover have "di2 = di" if z: "\<forall>i. off \<le> i \<longrightarrow> i < off + (m + k) \<longrightarrow> slot V di (i div BSIZE) \<noteq> 0"
  proof -
    have "di1 = di" using a z by (simp add: wrote_def)
    moreover have "slot V1 di1 (i div BSIZE) \<noteq> 0" if i: "off + m \<le> i" "i < off + m + k" for i
    proof -
      have "i div BSIZE < MAXFILE" using i(2) e by (simp add: fs_sizes)
      moreover have "slot V di (i div BSIZE) \<noteq> 0" using z i by simp
      moreover have "\<forall>j\<le>MAXFILE. slot V di j \<noteq> 0 \<longrightarrow> slot V1 di1 j = slot V di j" using a unfolding wrote_def evolves_def by blast
      ultimately show ?thesis by simp
    qed
    ultimately show ?thesis using b by (simp add: wrote_def)
  qed
  ultimately show ?thesis using a b n unfolding wrote_def by auto
qed

lemma writei_loop_ok:
  assumes "fstate D S Z ip s V W di" and "off + n \<le> MAXFILE * BSIZE" and "fits Z (fs_sb s) V W di off n hi" and "n \<le> length src"
  shows "\<exists>s' V' W' di'. writei_loop ip src off n s = Ret s' \<and> wrote D S Z ip s V W di src off n s' V' W' di'"
  using assms
proof (induction n arbitrary: off s V W di src rule: less_induct)
  case (less n)
  show ?case
  proof (cases "n = 0")
    case True
    then show ?thesis using wrote_refl[OF less.prems(1)] by (subst writei_loop.simps) (simp, blast)
  next
    case False
    let ?m = "chunk off n"
    have m: "0 < ?m" "?m \<le> n" using chunk_pos chunk_bounds(2) False by simp_all
    obtain a s1 i s2 s3 s4 V' W' di' where o: "bmap ip (off div BSIZE) s = Ret (a, s1)" "fbread (i_dev (node s1 ip)) (unat a) s1 = Ret (i, s2)"
      "flog_write i (fput i (take (off mod BSIZE) (fdata i s2) @ take ?m src @ drop (off mod BSIZE + ?m) (fdata i s2)) s2) = Ret s3" "fbrelse i s3 = Ret s4"
      "wrote D S Z ip s V W di src off ?m s4 V' W' di'" "fits Z (fs_sb s) V' W' di' (off + ?m) (n - ?m) hi"
      using one_block[OF less.prems(1) _ less.prems(2-4)] False by blast
    have st: "writei_loop ip src off n s = writei_loop ip (drop ?m src) (off + ?m) (n - ?m) s4"
      using False o(1-4) by (subst writei_loop.simps) (simp add: Let_def)
    have "fs_sb s4 = fs_sb s" "fstate D S Z ip s4 V' W' di'" using o(5) by (simp_all add: wrote_def only_di_def)
    moreover have "n - ?m < n" "off + ?m + (n - ?m) \<le> MAXFILE * BSIZE" "n - ?m \<le> length (drop ?m src)" using m less.prems(2,4) by simp_all
    ultimately obtain s' V'' W'' di'' where r: "writei_loop ip (drop ?m src) (off + ?m) (n - ?m) s4 = Ret s'" "wrote D S Z ip s4 V' W' di' (drop ?m src) (off + ?m) (n - ?m) s' V'' W'' di''"
      using less.IH[of "n - ?m" s4 V' W' di' "off + ?m" "drop ?m src"] o(6) by metis
    have "nblocks off ?m = 1"
      using nblocks_step[OF m(1), of off] m(1) by (simp add: nblocks_def chunk_def)
    then have "nblocks off (?m + (n - ?m)) = nblocks off ?m + nblocks (off + ?m) (n - ?m)" using nblocks_step[of n off] False m by simp
    from wrote_trans[OF o(5) r(2) _ this fstateD(3)[OF less.prems(1)]] have "wrote D S Z ip s V W di src off n s' V'' W'' di''" using m less.prems(2,4) by simp
    then show ?thesis using st r(1) by auto
  qed
qed

end
