(* ===== verification/Fs_Props.thy ===== *)
theory Fs_Props
  imports Fs_Files
begin

text \<open>
  The inode on the disk and the properties of the file system: the block allocator, reading and
  writing files.
\<close>

subsection \<open>Inodes in their block\<close>

lemma length_put16 [simp]: "length (put16 a v d) = length d"
  by (simp add: put16_def)

lemma get16_put16 [simp]: "a + 1 < length d \<Longrightarrow> get16 (put16 a v d) a = v"
proof (rule bit_word_eqI)
  fix n assume a: "a + 1 < length d" and "n < LENGTH(16)"
  then consider "n < 8" | m where "n = 8 + m" "m < 8" using le_Suc_ex[of 8 n] by force
  then show "bit (get16 (put16 a v d) a) n = bit v n" using a by cases (simp_all add: get16_def put16_def bit_simps)
qed

lemma get16_put16_other: "a + 1 < b \<or> b + 1 < a \<Longrightarrow> get16 (put16 a v d) b = get16 d b"
  by (auto simp: get16_def put16_def)

lemma get16_put32_other: "a + 3 < b \<or> b + 1 < a \<Longrightarrow> get16 (put32 a v d) b = get16 d b"
  by (auto simp: get16_def put32_def)

lemma get32_put16_other: "a + 1 < b \<or> b + 3 < a \<Longrightarrow> get32 (put16 a v d) b = get32 d b"
  by (auto simp: get32_def put16_def)

lemmas put_other = get16_put16_other get16_put32_other get32_put16_other get32_put32_other

lemma put_addrs:
  "length (foldl (\<lambda>d i. put32 (c + 4 * i) (f i) d) d [0..<k]) = length d"
  "b + 1 < c \<or> c + 4 * k \<le> b \<Longrightarrow> get16 (foldl (\<lambda>d i. put32 (c + 4 * i) (f i) d) d [0..<k]) b = get16 d b"
  "b + 3 < c \<or> c + 4 * k \<le> b \<Longrightarrow> get32 (foldl (\<lambda>d i. put32 (c + 4 * i) (f i) d) d [0..<k]) b = get32 d b"
  by (induction k) (auto simp: put_other)

lemma get_addrs: "j < k \<Longrightarrow> c + 4 * k \<le> length d \<Longrightarrow> get32 (foldl (\<lambda>d i. put32 (c + 4 * i) (f i) d) d [0..<k]) (c + 4 * j) = f j"
proof (induction k)
  case (Suc k)
  show ?case
  proof (cases "j = k")
    case True
    then show ?thesis using Suc.prems put_addrs(1)[of c f d k] by simp
  next
    case False
    then have "j < k" using Suc.prems by simp
    then show ?thesis using Suc by (simp add: get32_put32_other)
  qed
qed simp

lemma length_put_dinode [simp]: "length (put_dinode a di d) = length d"
  by (simp add: put_dinode_def put_addrs(1))

lemma get_put_dinode:
  assumes "length (di_addrs di) = NDIRECT + 1" and "a + 64 \<le> length d"
  shows "get_dinode (put_dinode a di d) a = di"
proof -
  have "map (\<lambda>i. di_addrs di ! i) [0..<NDIRECT + 1] = di_addrs di" using map_nth[of "di_addrs di"] assms(1) by simp
  moreover have "map (\<lambda>i. get32 (put_dinode a di d) (a + 12 + 4 * i)) [0..<NDIRECT + 1] = map (\<lambda>i. di_addrs di ! i) [0..<NDIRECT + 1]"
    unfolding put_dinode_def using assms(2) by (intro map_cong refl get_addrs) (simp_all add: NDIRECT_def)
  moreover have "get16 (put_dinode a di d) a = di_type di" "get16 (put_dinode a di d) (a + 2) = di_major di" "get16 (put_dinode a di d) (a + 4) = di_minor di"
    "get16 (put_dinode a di d) (a + 6) = di_nlink di" "get32 (put_dinode a di d) (a + 8) = di_size di"
    using assms(2) by (simp_all add: put_dinode_def put_addrs(2,3) put_other del: upt_Suc)
  ultimately show ?thesis by (simp add: get_dinode_def)
qed

lemma get_put_dinode_other: "a + 64 \<le> b \<or> b + 64 \<le> a \<Longrightarrow> get_dinode (put_dinode a di d) b = get_dinode d b"
  unfolding get_dinode_def put_dinode_def by (auto simp: put_addrs(2,3) put_other NDIRECT_def)

lemma dip_fits: "dip inum + 64 \<le> BSIZE"
proof -
  have "inum mod 8 < 8" by simp
  then show ?thesis unfolding dip_def IPB_def BSIZE_def by simp
qed

lemma iupdate_ok:
  assumes t: "tx D S Z s {} V W" and d: "i_dev (node s ip) = D" and ib: "IBLOCK (i_inum (node s ip)) (fs_sb s) = ib" "home S Z ib" and W: "card W < Z - 1"
  shows "\<exists>s'. iupdate ip s = Ret s' \<and> txstep D S Z {} s (V(ib := put_dinode (dip (i_inum (node s ip))) (i_d (node s ip)) (V ib))) (insert ib W) s'"
proof -
  obtain i s1 where r: "fbread D ib s = Ret (i, s1)" "tx D S Z s1 {ib} V W" "fholds D s1 i ib" "fdata i s1 = V ib"
    "\<And>j m. fholds D s j m \<Longrightarrow> fholds D s1 j m \<and> j \<noteq> i" "same_nodes s s1"
    using tx_bread_step[OF t, of ib] room[OF t _ W] by auto
  let ?x = "put_dinode (dip (i_inum (node s ip))) (i_d (node s ip)) (V ib)"
  have "length ?x = BSIZE" using tx_logged(6)[OF t] by simp
  then obtain s2 s3 where "flog_write i (fput i ?x s1) = Ret s2" "fbrelse i s2 = Ret s3" "txstep D S Z {} s (V(ib := ?x)) (insert ib W) s3"
    using tx_edit_end[OF r(2,3) _ r(5,6) ib(2) _ W] by blast
  then show ?thesis using r(1,4) same_nodesD(2)[OF r(6)] d ib(1) by (simp add: iupdate_def)
qed

subsection \<open>An open file\<close>

text \<open>
  A regular file or directory in use: its inode in the cache agrees with the one on the disk, every
  byte below its size lies in a block, and the block of its inode is none of its own.
\<close>

definition iblock :: "nat \<Rightarrow> fs \<Rightarrow> nat" where
  "iblock ip s = IBLOCK (i_inum (node s ip)) (fs_sb s)"

definition open_file :: "nat \<Rightarrow> nat \<Rightarrow> nat \<Rightarrow> nat \<Rightarrow> fs \<Rightarrow> (nat \<Rightarrow> block) \<Rightarrow> nat set \<Rightarrow> dinode \<Rightarrow> bool" where
  "open_file D S Z ip s V W di \<longleftrightarrow> fstate D S Z ip s V W di \<and> used_block S Z (fs_sb s) V (iblock ip s) \<and> iblock ip s \<notin> owned V di
     \<and> get_dinode (V (iblock ip s)) (dip (i_inum (node s ip))) = di \<and> di_type di \<noteq> T_DEV \<and> unat (di_size di) \<le> MAXFILE * BSIZE
     \<and> (\<forall>i<unat (di_size di). slot V di (i div BSIZE) \<noteq> 0)"

definition contents :: "(nat \<Rightarrow> block) \<Rightarrow> dinode \<Rightarrow> byte list" where
  "contents V di = map (fbyte V di) [0..<unat (di_size di)]"

text \<open>Everything in use by others is as before: whole blocks, and the other inodes of the inode's block.\<close>

definition others_same :: "superblock \<Rightarrow> nat \<Rightarrow> nat \<Rightarrow> (nat \<Rightarrow> block) \<Rightarrow> dinode \<Rightarrow> (nat \<Rightarrow> block) \<Rightarrow> bool" where
  "others_same sb ib inum V di V' \<longleftrightarrow>
     (\<forall>x. x \<noteq> ib \<longrightarrow> \<not> free_block sb V x \<longrightarrow> \<not> map_block sb x \<longrightarrow> x \<notin> owned V di \<longrightarrow> V' x = V x)
     \<and> (\<forall>k<IPB. k \<noteq> inum mod IPB \<longrightarrow> get_dinode (V' ib) (64 * k) = get_dinode (V ib) (64 * k))"

lemma slot_size [simp]: "slot V (di\<lparr>di_size := n\<rparr>) = slot V di"
  by (rule ext) (simp add: slot_def Let_def)

lemma set_size [simp]: "fbyte V (di\<lparr>di_size := n\<rparr>) = fbyte V di" "owned V (di\<lparr>di_size := n\<rparr>) = owned V di"
  "file_ok S Z sb V (di\<lparr>di_size := n\<rparr>) = file_ok S Z sb V di"
  by (simp_all add: fbyte_def owned_def file_ok_def fun_eq_iff)

lemma foreign_write:
  assumes "used_block S Z sb V ib" and "ib \<notin> owned V di"
  shows "slot (V(ib := x)) di j = slot V di j" and "free_block sb (V(ib := x)) c = free_block sb V c" and "file_ok S Z sb (V(ib := x)) di = file_ok S Z sb V di"
    and "layout S Z sb (V(ib := x)) = layout S Z sb V" and "owned (V(ib := x)) di = owned V di" and "n < MAXFILE * BSIZE \<Longrightarrow> fbyte (V(ib := x)) di n = fbyte V di n"
proof -
  have ind: "slot V di MAXFILE = 0 \<or> slot V di MAXFILE \<noteq> ib" using assms(2) by (auto simp: owned_def)
  then show sl: "slot (V(ib := x)) di j = slot V di j" for j unfolding slot_indirect by (auto simp: slot_def Let_def)
  show fr: "free_block sb (V(ib := x)) c = free_block sb V c" for c using assms(1) by (auto simp: free_block_def used_block_def map_block_def)
  show "file_ok S Z sb (V(ib := x)) di = file_ok S Z sb V di" "layout S Z sb (V(ib := x)) = layout S Z sb V" by (simp_all add: file_ok_def layout_def used_block_def sl fr)
  show "owned (V(ib := x)) di = owned V di" by (simp add: owned_def sl)
  assume "n < MAXFILE * BSIZE"
  then have "n div BSIZE \<le> MAXFILE" by (simp add: fs_sizes)
  then have "slot V di (n div BSIZE) = 0 \<or> slot V di (n div BSIZE) \<noteq> ib" using assms(2) by (auto simp: owned_def)
  then show "fbyte (V(ib := x)) di n = fbyte V di n" by (auto simp: fbyte_def Let_def sl)
qed

lemma slice_contents: "off + n \<le> unat (di_size di) \<Longrightarrow> map (fbyte V di) [off..<off + n] = take n (drop off (contents V di))"
  by (rule nth_equalityI) (simp_all add: contents_def)

lemma new_contents:
  assumes "\<And>i. i < MAXFILE * BSIZE \<Longrightarrow> fbyte V' di' i = (if off \<le> i \<and> i < off + n then src ! (i - off) else fbyte V di i)"
    and "unat (di_size di') = max (unat (di_size di)) (off + n)" and "off \<le> unat (di_size di)" and "n \<le> length src" and "unat (di_size di') \<le> MAXFILE * BSIZE"
  shows "contents V' di' = take off (contents V di) @ take n src @ drop (off + n) (contents V di)"
proof (rule nth_equalityI)
  show l: "length (contents V' di') = length (take off (contents V di) @ take n src @ drop (off + n) (contents V di))"
    using assms(2-4) by (auto simp: contents_def max_def)
  fix i assume "i < length (contents V' di')"
  then have i: "i < unat (di_size di')" "i < MAXFILE * BSIZE" using assms(5) by (simp_all add: contents_def)
  show "contents V' di' ! i = (take off (contents V di) @ take n src @ drop (off + n) (contents V di)) ! i"
    using i assms(1)[OF i(2)] assms(2-4) by (auto simp: contents_def nth_append max_def split: if_splits)
qed

lemma open_fileD:
  assumes "open_file D S Z ip s V W di"
  shows "fstate D S Z ip s V W di" and "used_block S Z (fs_sb s) V (iblock ip s)" and "iblock ip s \<notin> owned V di" and "get_dinode (V (iblock ip s)) (dip (i_inum (node s ip))) = di"
    and "di_type di \<noteq> T_DEV" and "unat (di_size di) \<le> MAXFILE * BSIZE" and "i < unat (di_size di) \<Longrightarrow> slot V di (i div BSIZE) \<noteq> 0"
  using assms unfolding open_file_def by blast+

text \<open>The end of \<open>writei\<close> when the file has become longer: the inode goes to the disk.\<close>

lemma sync_inode:
  assumes f: "fstate D S Z ip s V W di" and ib: "used_block S Z (fs_sb s) V (iblock ip s)" "iblock ip s \<notin> owned V di" and W: "card W < Z - 1"
    and di: "di_type di \<noteq> T_DEV" "unat sz \<le> MAXFILE * BSIZE" "\<And>i. i < unat sz \<Longrightarrow> slot V di (i div BSIZE) \<noteq> 0"
  shows "\<exists>s' V'. iupdate ip (upd_d ip (\<lambda>d. d\<lparr>di_size := sz\<rparr>) s) = Ret s' \<and> open_file D S Z ip s' V' (insert (iblock ip s) W) (di\<lparr>di_size := sz\<rparr>)
    \<and> only_di ip (di\<lparr>di_size := sz\<rparr>) s s' \<and> (\<exists>x. V' = V(iblock ip s := x) \<and> length x = BSIZE \<and> (\<forall>k<IPB. k \<noteq> i_inum (node s ip) mod IPB \<longrightarrow> get_dinode x (64 * k) = get_dinode (V (iblock ip s)) (64 * k)))"
proof -
  note F = fstateD[OF f]
  let ?di = "di\<lparr>di_size := sz\<rparr>" and ?s = "upd_d ip (\<lambda>d. d\<lparr>di_size := sz\<rparr>) s" and ?ib = "iblock ip s"
  let ?x = "put_dinode (dip (i_inum (node s ip))) ?di (V ?ib)"
  have s: "icache ?s = set_di ip ?di s" "fs_sb ?s = fs_sb s" "tx D S Z ?s {} V W" using F(1,5) by (simp_all add: upd_d_def upd_inode_def set_di_def node_def)
  have nd: "node ?s ip = (node s ip)\<lparr>i_d := ?di\<rparr>" using s(1) F(3) by (simp add: node_def set_di_def)
  obtain s' where s': "iupdate ip ?s = Ret s'" "txstep D S Z {} ?s (V(?ib := ?x)) (insert ?ib W) s'"
    using iupdate_ok[OF s(3), of ip ?ib] nd F(4) s(2) ib(1) W by (auto simp: iblock_def used_block_def)
  note T = txstepD[OF s'(2)] and P = foreign_write[OF ib, where x = ?x]
  have la: "length (di_addrs di) = NDIRECT + 1" using file_okD(1)[OF F(6)] .
  have "layout S Z (fs_sb s) (V(?ib := ?x))" "file_ok S Z (fs_sb s) (V(?ib := ?x)) ?di" unfolding set_size P(3,4) by (rule F)+
  then have f': "fstate D S Z ip s' (V(?ib := ?x)) (insert ?ib W) ?di"
    unfolding fstate_def using T s(1,2) nd F(3,4) by (simp add: set_di_def)
  have ib': "iblock ip s' = ?ib" "i_inum (node s' ip) = i_inum (node s ip)" using T(3,4) s(2) nd by (simp_all add: iblock_def)
  have "get_dinode ?x (dip (i_inum (node s ip))) = ?di" using la dip_fits F(7) by (intro get_put_dinode) simp_all
  then have "open_file D S Z ip s' (V(?ib := ?x)) (insert ?ib W) ?di"
    unfolding open_file_def ib' using f' ib di T(3) s(2) P(1,2,5) by (simp add: used_block_def)
  moreover have "get_dinode ?x (64 * k) = get_dinode (V ?ib) (64 * k)" if "k \<noteq> i_inum (node s ip) mod IPB" for k
    using that by (intro get_put_dinode_other) (auto simp: dip_def)
  moreover have "only_di ip ?di s s'" using T(3,5) s(1,2) by (simp add: only_di_def)
  ultimately show ?thesis using s'(1) F(7) by (intro exI[of _ s'] exI[of _ "V(?ib := ?x)"]) auto
qed

lemma sint_small: "unat (n :: u32) < 2 ^ 31 \<Longrightarrow> sint n = int (unat n)"
proof -
  assume "unat n < 2 ^ 31"
  moreover obtain k where k: "unat n = k" "uint n = int k" by (metis of_nat_unat)
  ultimately have "signed_take_bit 31 (uint n) = uint n" by (intro signed_take_bit_int_eq_self) simp_all
  then show ?thesis by (simp add: sint_uint)
qed

lemma writei_ok:
  assumes f: "open_file D S Z ip s V W di" and off: "off \<le> di_size di" "unat off + unat n \<le> MAXFILE * BSIZE" and src: "unat n \<le> length src"
    and fit: "fits Z (fs_sb s) V W di (unat off) (unat n) hi"
  shows "\<exists>s' V' W' di'. writei dv ip src off n s = Ret (int (unat n), s') \<and> open_file D S Z ip s' V' W' di' \<and> only_di ip di' s s'
    \<and> contents V' di' = take (unat off) (contents V di) @ take (unat n) src @ drop (unat off + unat n) (contents V di)
    \<and> others_same (fs_sb s) (iblock ip s) (i_inum (node s ip)) V di V' \<and> di_type di' = di_type di"
proof -
  note O = open_fileD[OF f] and F = fstateD[OF open_fileD(1)[OF f]]
  have lt: "unat off + unat n < 2 ^ 32" "unat n < 2 ^ 31" using off(2) by (simp_all add: fs_sizes)
  then have u: "unat (off + n) = unat off + unat n" "sint n = int (unat n)" by (simp_all add: unat_word_ariths(1) sint_small)
  have c: "\<not> off > di_size di" "\<not> off + n < off" "\<not> off + n > word_of_nat (MAXFILE * BSIZE)" using off u by (auto simp: word_less_nat_alt word_le_nat_alt fs_sizes)
  obtain s1 V1 W1 di1 where w: "writei_loop ip src (unat off) (unat n) s = Ret s1" "wrote D S Z ip s V W di src (unat off) (unat n) s1 V1 W1 di1"
    using writei_loop_ok[OF O(1) off(2) fit src] by blast
  note R = w(2)[unfolded wrote_def]
  have f1: "fstate D S Z ip s1 V1 W1 di1" and sb: "fs_sb s1 = fs_sb s" and od: "only_di ip di1 s s1" and ev: "evolves (fs_sb s) V di V1 di1" using R by (auto simp: only_di_def)
  let ?ib = "iblock ip s"
  have nd: "node s1 ip = (node s ip)\<lparr>i_d := di1\<rparr>" using od F(3) by (simp add: only_di_def set_di_def node_def)
  have ib1: "iblock ip s1 = ?ib" "used_block S Z (fs_sb s1) V1 ?ib" "?ib \<notin> owned V1 di1" "V1 ?ib = V ?ib"
    using nd sb O(2,3) ev unfolding iblock_def used_block_def evolves_def by auto
  have sz: "di_size di1 = di_size di" "di_type di1 = di_type di" using ev by (auto simp: evolves_def)
  have cw: "card W1 < Z - 1" using R fit unfolding fits_def cost_def by linarith
  have nz: "slot V1 di1 (i div BSIZE) \<noteq> 0" if "i < max (unat (di_size di)) (unat off + unat n)" for i
  proof (cases "i < unat (di_size di)")
    case True
    then have "i div BSIZE \<le> MAXFILE" using O(6) by (simp add: fs_sizes)
    then show ?thesis using ev O(7)[OF True] unfolding evolves_def by simp
  next
    case False
    then show ?thesis using R off(1) that by (auto simp: word_le_nat_alt)
  qed
  have ot: "others_same (fs_sb s) ?ib (i_inum (node s ip)) V di V1" using ev ib1(4) unfolding others_same_def evolves_def by auto
  show ?thesis
  proof (cases "n > 0 \<and> off + n > di_size di1")
    case True
    have m: "unat (off + n) = max (unat (di_size di)) (unat off + unat n)" using True u sz by (auto simp: word_less_nat_alt)
    obtain s2 V2 x where r: "iupdate ip (upd_d ip (\<lambda>d. d\<lparr>di_size := off + n\<rparr>) s1) = Ret s2" "open_file D S Z ip s2 V2 (insert ?ib W1) (di1\<lparr>di_size := off + n\<rparr>)"
      "only_di ip (di1\<lparr>di_size := off + n\<rparr>) s1 s2" "V2 = V1(?ib := x)" "\<forall>k<IPB. k \<noteq> i_inum (node s ip) mod IPB \<longrightarrow> get_dinode x (64 * k) = get_dinode (V ?ib) (64 * k)"
      using sync_inode[OF f1 _ _ cw, where sz = "off + n"] ib1 sz O(5) off(2) u nz m nd by auto
    have "writei dv ip src off n s = Ret (int (unat n), s2)" using O(5) F(5) c w(1) True f1 r(1) u(2) by (simp add: writei_def Let_def fstate_def)
    moreover have "contents V2 (di1\<lparr>di_size := off + n\<rparr>) = take (unat off) (contents V di) @ take (unat n) src @ drop (unat off + unat n) (contents V di)"
      using R off src u m foreign_write(6)[OF ib1(2,3)] r(4) by (intro new_contents) (auto simp: word_le_nat_alt)
    moreover have "others_same (fs_sb s) ?ib (i_inum (node s ip)) V di V2" using ot r(4,5) by (simp add: others_same_def)
    moreover have "di_type (di1\<lparr>di_size := off + n\<rparr>) = di_type di" using sz(2) by simp
    ultimately show ?thesis using r(2) only_di_trans[OF F(3) od r(3)] by blast
  next
    case False
    have m: "unat (di_size di) = max (unat (di_size di)) (unat off + unat n)" using False u sz off(1) by (auto simp: word_less_nat_alt word_le_nat_alt unat_gt_0 max_def)
    then have "di1 = di" using R O(7) by auto
    moreover have "open_file D S Z ip s1 V1 W1 di1" unfolding open_file_def ib1(1) using f1 ib1 O sz nz m nd \<open>di1 = di\<close> by simp
    moreover have "writei dv ip src off n s = Ret (int (unat n), s1)" using O(5) F(5) c w(1) False f1 u(2) by (auto simp: writei_def Let_def fstate_def)
    moreover have "contents V1 di1 = take (unat off) (contents V di) @ take (unat n) src @ drop (unat off + unat n) (contents V di)"
      using R off src O(6) m sz by (intro new_contents) (auto simp: word_le_nat_alt)
    ultimately show ?thesis using od ot sz(2) by blast
  qed
qed

lemma readi_ok:
  assumes f: "open_file D S Z ip s V W di" and off: "off \<le> di_size di" "unat off + unat n < 2 ^ 32"
  shows "\<exists>s'. readi dv ip off n s = Ret ((int (length (take (unat n) (drop (unat off) (contents V di)))), take (unat n) (drop (unat off) (contents V di))), s')
    \<and> open_file D S Z ip s' V W di \<and> same_nodes s s'"
proof -
  note O = open_fileD[OF f] and F = fstateD[OF open_fileD(1)[OF f]]
  have u: "unat (off + n) = unat off + unat n" using off(2) by (simp add: unat_word_ariths(1))
  have c: "\<not> off > di_size di" "\<not> off + n < off" using off u by (auto simp: word_less_nat_alt word_le_nat_alt)
  define k where "k = (if off + n > di_size di then di_size di - off else n)"
  have k: "unat k = min (unat n) (unat (di_size di) - unat off)" using off u by (auto simp: k_def word_less_nat_alt word_le_nat_alt unat_sub min_def)
  have b: "unat off + unat k \<le> unat (di_size di)" using k off(1) by (auto simp: word_le_nat_alt)
  then have b': "unat off + unat k \<le> MAXFILE * BSIZE" using O(6) by simp
  then have "unat k < 2 ^ 31" by (simp add: fs_sizes)
  then have sk: "sint k = int (unat k)" by (rule sint_small)
  obtain s' where r: "readi_loop ip (unat off) (unat k) s = Ret (map (fbyte V di) [unat off..<unat off + unat k], s')" "fstate D S Z ip s' V W di" "same_nodes s s'"
    using readi_loop_ok[OF O(1) b'] O(7) b by (metis (no_types, lifting) order_less_le_trans)
  have "map (fbyte V di) [unat off..<unat off + unat k] = take (unat n) (drop (unat off) (contents V di))"
  proof -
    have "length (drop (unat off) (contents V di)) = unat (di_size di) - unat off" by (simp add: contents_def)
    moreover have "take (min a (length xs)) xs = take a xs" for a and xs :: "byte list" by (simp add: min_def)
    ultimately show ?thesis using slice_contents[OF b] k by metis
  qed
  moreover have "length (map (fbyte V di) [unat off..<unat off + unat k]) = unat k" by simp
  moreover have "readi dv ip off n s = Ret ((sint k, map (fbyte V di) [unat off..<unat off + unat k]), s')"
    using O(5) F(5) c r(1) by (simp add: readi_def Let_def k_def[symmetric])
  moreover have "open_file D S Z ip s' V W di" using f r(2) same_nodesD[OF r(3)] by (simp add: open_file_def iblock_def)
  ultimately show ?thesis using r(3) sk by metis
qed

lemma writei_refused:
  assumes "open_file D S Z ip s V W di" and "\<not> (off \<le> di_size di \<and> unat off + unat n \<le> MAXFILE * BSIZE)"
  shows "writei dv ip src off n s = Ret (- 1, s)"
proof -
  note O = open_fileD[OF assms(1)] and F = fstateD[OF open_fileD(1)[OF assms(1)]]
  have "off > di_size di \<or> off + n < off \<or> off + n > word_of_nat (MAXFILE * BSIZE)"
  proof (cases "unat off + unat n < 2 ^ 32")
    case True
    then have "unat (off + n) = unat off + unat n" by (simp add: unat_word_ariths(1))
    then show ?thesis using assms(2) by (auto simp: word_less_nat_alt word_le_nat_alt fs_sizes)
  next
    case False
    have lt: "unat off < 2 ^ 32" "unat n < 2 ^ 32" using unsigned_less[of off, where ?'a = nat] unsigned_less[of n, where ?'a = nat] by simp_all
    then have "unat (off + n) = unat off + unat n - 2 ^ 32" using lt False by (simp add: unat_word_ariths(1) le_mod_geq)
    then have "off + n < off" using False lt by (simp add: word_less_nat_alt)
    then show ?thesis by simp
  qed
  then show ?thesis using O(5) F(5) by (auto simp: writei_def Let_def)
qed

subsection \<open>A small file system\<close>

definition demo_sb :: superblock where
  "demo_sb = \<lparr>sb_size = 100, sb_nblocks = 41, sb_ninodes = 200, sb_nlog = 30, sb_logstart = 2, sb_inodestart = 32, sb_bmapstart = 58\<rparr>"

text \<open>One file of at most one block, block 60 with the bytes \<open>x\<close>, as inode 5; the blocks from 64 on are free.\<close>

definition demo_image :: "dinode \<Rightarrow> block \<Rightarrow> nat \<Rightarrow> block" where
  "demo_image di x b = (if b = 58 then replicate 8 255 @ replicate 504 0
     else if b = 32 then put_dinode (dip 5) di (replicate 512 0)
     else if b = 60 then x else replicate 512 0)"

definition demo_node :: "dinode \<Rightarrow> inode" where
  "demo_node di = \<lparr>i_dev = 1, i_inum = 5, i_ref = 1, i_locked = True, i_valid = True, i_d = di\<rparr>"

definition demo_state :: "dinode \<Rightarrow> block \<Rightarrow> fs" where
  "demo_state di x = \<lparr>fs_log = zero_log\<lparr>l_start := 2, l_size := 30, l_dev := 1, outstanding := 1\<rparr>, fs_cache = binit (\<lambda>(d, b). demo_image di x b) True, fs_sb = demo_sb,
     icache = demo_node di # replicate 49 ((demo_node di)\<lparr>i_ref := 0, i_locked := False\<rparr>)\<rparr>"

definition demo_dev :: devfuns where
  "demo_dev = \<lparr>dev_read = \<lambda>_. None, dev_write = \<lambda>_. None\<rparr>"

definition demo_addrs :: "u32 list" where "demo_addrs = 60 # replicate 12 0"

lemma demo_tx: "length x = 512 \<Longrightarrow> tx 1 2 30 (demo_state di x) {} (demo_image di x) {}"
proof (rule txI)
  show "geometry 1 2 30" by (simp add: geometry_def log_area_def LOGSIZE_def)
  show "sees (fs_cache (demo_state di x)) (Pair 1 ` {}) (keys 1 []) (\<lambda>(d, b). demo_image di x b) (\<lambda>(d, b). demo_image di x b) []"
    using binit_ok[of "\<lambda>(d, b). demo_image di x b"] by (simp add: demo_state_def keys_def)
  show "log_state 1 2 30 (fs_log (demo_state di x)) [] 1" by (simp add: log_state_def demo_state_def zero_log_def lists_def)
qed (auto simp: demo_image_def BSIZE_def)

lemma demo_map: "map_block demo_sb x \<longleftrightarrow> x = 58"
proof -
  have "BBLOCK b demo_sb = 58" if "b < 100" for b using that by (simp add: BBLOCK_def demo_sb_def BPB_def BSIZE_def)
  moreover have "sb_size demo_sb = 100" by (simp add: demo_sb_def)
  ultimately show ?thesis unfolding map_block_def by (auto intro: exI[of _ 0])
qed

lemma demo_free: "free_block demo_sb (demo_image di x) b \<longleftrightarrow> 64 \<le> b \<and> b < 100"
proof (cases "b < 100")
  case True
  have B: "BBLOCK b demo_sb = 58" "b mod BPB = b" using True by (simp_all add: BBLOCK_def demo_sb_def BPB_def BSIZE_def)
  have "bit (255 :: byte) (b mod 8)"
  proof -
    have "(255 :: byte) = mask 8" by (simp add: mask_eq_exp_minus_1)
    then show ?thesis by (simp only: bit_mask_iff) simp
  qed
  then have "bit_clear (demo_image di x 58) b \<longleftrightarrow> 64 \<le> b" using True by (auto simp: bit_clear_bit demo_image_def nth_append)
  then show ?thesis using True B by (simp add: free_block_def demo_sb_def)
qed (simp add: free_block_def demo_sb_def)

lemma demo_slot: "di_addrs di = demo_addrs \<Longrightarrow> i \<le> MAXFILE \<Longrightarrow> slot V di i = (if i = 0 then 60 else 0)"
  by (auto simp: slot_def Let_def demo_addrs_def fs_sizes nth_Cons')

lemma demo_open:
  assumes a: "di_addrs di = demo_addrs" and di: "di_type di \<noteq> T_DEV" "unat (di_size di) \<le> 512" and x: "length x = 512"
  shows "open_file 1 2 30 0 (demo_state di x) (demo_image di x) {} di"
proof -
  let ?s = "demo_state di x" and ?V = "demo_image di x"
  have n: "node ?s 0 = demo_node di" "fs_sb ?s = demo_sb" "length (icache ?s) = NINODE" by (simp_all add: demo_state_def node_def NINODE_def)
  have L: "layout 2 30 demo_sb ?V" by (auto simp: layout_def demo_map demo_free home_def) (simp add: demo_sb_def)
  have la: "length (di_addrs di) = NDIRECT + 1" by (simp add: a demo_addrs_def NDIRECT_def)
  have ok: "file_ok 2 30 demo_sb ?V di" unfolding file_ok_def using la by (simp add: demo_slot[OF a] used_block_def demo_map demo_free home_def)
  have ib: "iblock 0 ?s = 32" using n by (simp add: iblock_def IBLOCK_def IPB_def BSIZE_def demo_sb_def demo_node_def)
  have own: "owned ?V di \<subseteq> {60}" using demo_slot[OF a] by (auto simp: owned_def)
  have "get_dinode (?V 32) (dip 5) = di" using get_put_dinode[OF la, of "dip 5" "replicate 512 0"] dip_fits[of 5] by (simp add: demo_image_def BSIZE_def)
  moreover have "slot ?V di (i div BSIZE) \<noteq> 0" if "i < unat (di_size di)" for i using that di(2) demo_slot[OF a, of 0] by (simp add: BSIZE_def)
  ultimately show ?thesis unfolding open_file_def fstate_def ib n using demo_tx[OF x] L ok own di
    by (auto simp: n used_block_def demo_map demo_free home_def NINODE_def fs_sizes demo_node_def)
qed

lemma demo_contents:
  assumes "di_addrs di = demo_addrs" and "unat (di_size di) \<le> 512" and "length x = 512"
  shows "contents (demo_image di x) di = take (unat (di_size di)) x"
proof (rule nth_equalityI)
  fix i assume "i < length (contents (demo_image di x) di)"
  then have "i < unat (di_size di)" "i < 512" using assms(2) by (simp_all add: contents_def)
  then show "contents (demo_image di x) di ! i = take (unat (di_size di)) x ! i" using demo_slot[OF assms(1), of 0] by (simp add: contents_def fbyte_def BSIZE_def demo_image_def)
qed (use assms in \<open>simp add: contents_def\<close>)

lemma demo_fits:
  assumes "di_addrs di = demo_addrs" and "off + n \<le> 512" and "0 < n"
  shows "fits 30 sb V {} di off n False"
proof -
  have "slot V di (i div BSIZE) \<noteq> 0 \<and> \<not> NDIRECT \<le> i div BSIZE" if "i < off + n" for i using that assms(2) demo_slot[OF assms(1), of 0] by (simp add: fs_sizes)
  moreover have "cost V di {} + 2 * nblocks off n + 1 < 30" using assms(2,3) by (simp add: nblocks_def cost_def BSIZE_def)
  ultimately show ?thesis unfolding fits_def by fastforce
qed

definition demo_di :: dinode where
  "demo_di = \<lparr>di_type = T_FILE, di_major = 0, di_minor = 0, di_nlink = 1, di_size = 3, di_addrs = demo_addrs\<rparr>"

abbreviation demo_V :: "nat \<Rightarrow> block" where "demo_V \<equiv> demo_image demo_di (replicate 512 7)"

abbreviation demo_fs :: fs where "demo_fs \<equiv> demo_state demo_di (replicate 512 7)"

lemma demo_file: "open_file 1 2 30 0 demo_fs demo_V {} demo_di" "contents demo_V demo_di = [7, 7, 7]"
proof -
  show "open_file 1 2 30 0 demo_fs demo_V {} demo_di" by (rule demo_open) (simp_all add: demo_di_def T_FILE_def T_DEV_def)
  have "contents demo_V demo_di = take 3 (replicate 512 7)" using demo_contents[of demo_di "replicate 512 7"] by (simp add: demo_di_def)
  then show "contents demo_V demo_di = [7, 7, 7]" by (simp add: numeral_3_eq_3)
qed

subsection \<open>Properties\<close>

text \<open>
  (C10) Writing a file. For an open file with contents \<open>c\<close>, a log and a disk with room for the blocks
  that \<open>n\<close> bytes from \<open>off\<close> on lie in: \<open>writei\<close> returns \<open>n\<close>, the contents are \<open>c\<close> with the bytes
  from \<open>off\<close> on replaced by those of \<open>src\<close>, and longer if need be, the inode on the disk agrees, and
  no block or inode in use by anything else has changed. It returns -1 and does nothing exactly when
  the offset is past the end or the end past the largest file. This covers direct and indirect
  blocks, blocks that have to be allocated, and writes that begin or end in the middle of a block.
\<close>

theorem writei_replaces_bytes:
  assumes "open_file D S Z ip s V W di" and "unat n \<le> length src" and "fits Z (fs_sb s) V W di (unat off) (unat n) hi"
  shows "if off \<le> di_size di \<and> unat off + unat n \<le> MAXFILE * BSIZE
    then \<exists>s' V' W' di'. writei dv ip src off n s = Ret (int (unat n), s') \<and> open_file D S Z ip s' V' W' di'
      \<and> contents V' di' = take (unat off) (contents V di) @ take (unat n) src @ drop (unat off + unat n) (contents V di)
      \<and> others_same (fs_sb s) (iblock ip s) (i_inum (node s ip)) V di V'
    else writei dv ip src off n s = Ret (- 1, s)"
  using writei_ok[OF assms(1) _ _ assms(2,3)] writei_refused[OF assms(1)] by (simp split: if_splits) blast

theorem writei_replaces_bytes_witness:
  "\<exists>s' V' W' di'. writei demo_dev 0 [1, 2] 3 2 demo_fs = Ret (2, s') \<and> open_file 1 2 30 0 s' V' W' di' \<and> contents V' di' = [7, 7, 7, 1, 2]"
proof -
  have "di_size demo_di = 3" "fits 30 (fs_sb demo_fs) demo_V {} demo_di (unat (3 :: u32)) (unat (2 :: u32)) False" by (simp_all add: demo_fits demo_di_def)
  then show ?thesis using writei_replaces_bytes[OF demo_file(1), of 2 "[1, 2]" 3 False demo_dev] by (auto simp: demo_file(2) fs_sizes)
qed

text \<open>
  (C13) Reading a file. \<open>readi\<close> of an open file returns the bytes of its contents from \<open>off\<close> on, at
  most \<open>n\<close> and at most up to the end, and their number; the file, the other blocks and the log are as
  before. It returns -1 when the offset is past the end or \<open>off + n\<close> wraps around.
\<close>

theorem readi_returns_contents:
  assumes "open_file D S Z ip s V W di"
  shows "if off \<le> di_size di \<and> unat off + unat n < 2 ^ 32
    then \<exists>s'. readi dv ip off n s = Ret ((int (length (take (unat n) (drop (unat off) (contents V di)))), take (unat n) (drop (unat off) (contents V di))), s')
      \<and> open_file D S Z ip s' V W di
    else readi dv ip off n s = Ret ((- 1, []), s)"
proof (cases "off \<le> di_size di \<and> unat off + unat n < 2 ^ 32")
  case True
  then show ?thesis using readi_ok[OF assms, of off n dv] unfolding if_P[OF True] by blast
next
  case False
  note O = open_fileD[OF assms] and F = fstateD[OF open_fileD(1)[OF assms]]
  have lt: "unat off < 2 ^ 32" "unat n < 2 ^ 32" using unsigned_less[of off, where ?'a = nat] unsigned_less[of n, where ?'a = nat] by simp_all
  have "off + n < off" if "\<not> unat off + unat n < 2 ^ 32"
  proof -
    have "unat (off + n) = unat off + unat n - 2 ^ 32" using lt that by (simp add: unat_word_ariths(1) le_mod_geq)
    then show ?thesis using that lt by (simp add: word_less_nat_alt)
  qed
  then have "off > di_size di \<or> off + n < off" using False by auto
  then show ?thesis using False O(5) F(5) by (auto simp: readi_def Let_def)
qed

theorem readi_returns_contents_witness:
  "\<exists>s'. readi demo_dev 0 1 10 demo_fs = Ret ((2, [7, 7]), s') \<and> open_file 1 2 30 0 s' demo_V {} demo_di"
proof -
  have "di_size demo_di = 3" by (simp add: demo_di_def)
  then show ?thesis using readi_returns_contents[OF demo_file(1), of 1 10 demo_dev] by (simp add: demo_file(2))
qed

text \<open>
  (C14) The block allocator. \<open>balloc\<close> takes the lowest free block, panics only when there is none,
  and marks exactly that block in the free map; the block comes back filled with zeros, and no block
  but it and its block of the free map has changed. Freeing the block again makes exactly it free;
  \<open>bfree\<close> panics on a block that is free.
\<close>

theorem balloc_takes_lowest:
  assumes "tx D S Z s {} V W" and "layout S Z (fs_sb s) V" and "card W + 3 < Z"
  shows "if \<forall>b. \<not> free_block (fs_sb s) V b then balloc D s = Panic ''balloc: out of blocks''
    else \<exists>b s' V' W'. balloc D s = Ret (b, s') \<and> tx D S Z s' {} V' W' \<and> free_block (fs_sb s) V b \<and> (\<forall>c<b. \<not> free_block (fs_sb s) V c)
      \<and> (\<forall>c. free_block (fs_sb s) V' c \<longleftrightarrow> c \<noteq> b \<and> free_block (fs_sb s) V c) \<and> V' b = replicate BSIZE 0
      \<and> (\<forall>x. x \<noteq> b \<longrightarrow> x \<noteq> BBLOCK b (fs_sb s) \<longrightarrow> V' x = V x)
      \<and> (\<exists>s'' W''. bfree D b s' = Ret s'' \<and> tx D S Z s'' {} (V(b := replicate BSIZE 0)) W'' \<and> bfree D b s'' = Panic ''freeing free block'')"
proof (cases "lowest_free (fs_sb s) V")
  case None
  then show ?thesis using balloc_ok[OF assms(1) _ _ assms(2)] assms(3) lowest_free_None[of "fs_sb s" V] by simp
next
  case (Some b)
  note lf = lowest_freeD[OF Some] and len = tx_logged(6)[OF assms(1)]
  let ?x = "BBLOCK b (fs_sb s)" and ?V = "after_balloc (fs_sb s) V b" and ?z = "replicate BSIZE 0"
  let ?d = "V ?x"
  obtain s1 where s1: "balloc D s = Ret (b, s1)" "txstep D S Z {} s ?V (insert b (insert ?x W)) s1" using balloc_ok[OF assms(1) _ _ assms(2)] assms(3) Some by auto
  note T = txstepD[OF s1(2)]
  have mx: "map_block (fs_sb s) ?x" "home S Z ?x" "b \<noteq> ?x" using lf(1) assms(2) unfolding free_block_def map_block_def layout_def by blast+
  have bi: "b mod BPB < 8 * length ?d" "bit_clear ?d (b mod BPB)" using lf(1) len by (simp_all add: free_block_def BPB_def BSIZE_def)
  have Vx: "?V ?x = bit_on (b mod BPB) ?d" using mx(3) by (simp add: after_balloc_def)
  have cl: "\<not> bit_clear (?V ?x) (b mod BPB)" unfolding Vx bit_on_clear[OF bi(1)] by simp
  have cW: "card (insert b (insert ?x W)) < Z - 1" using tx_logged(1)[OF assms(1)] assms(3) by (auto simp: card_insert_if)
  obtain s2 where s2: "bfree D b s1 = Ret s2" "txstep D S Z {} s1 (?V(?x := bit_off (b mod BPB) (?V ?x))) (insert ?x (insert b (insert ?x W))) s2"
    using bfree_ok[OF T(1) _ cW, of b] T(3) mx cl by auto
  have e: "?V(?x := bit_off (b mod BPB) (?V ?x)) = V(b := ?z)" using bit_off_on[OF bi] mx(3) unfolding Vx by (auto simp: after_balloc_def)
  note T2 = txstepD[OF s2(2)[unfolded e]]
  have "insert ?x (insert b (insert ?x W)) = insert b (insert ?x W)" by auto
  then have "bfree D b s2 = Panic ''freeing free block''" using bfree_ok[OF T2(1), of b] cW T2(3) T(3) mx bi(2) by (simp add: insert_absorb)
  then have "\<exists>s'' W''. bfree D b s1 = Ret s'' \<and> tx D S Z s'' {} (V(b := ?z)) W'' \<and> bfree D b s'' = Panic ''freeing free block''" using s2(1) T2(1) by blast
  moreover have "\<forall>x. x \<noteq> b \<longrightarrow> x \<noteq> ?x \<longrightarrow> ?V x = V x" "?V b = ?z" by (simp_all add: after_balloc_def)
  ultimately show ?thesis using s1(1) T(1) lf free_after_balloc[OF assms(2) lf(1) len] by auto
qed

theorem balloc_takes_lowest_witness: "\<exists>s'. balloc 1 demo_fs = Ret (64, s')"
proof -
  have L: "layout 2 30 (fs_sb demo_fs) demo_V" using fstateD(2)[OF open_fileD(1)[OF demo_file(1)]] .
  have sb: "fs_sb demo_fs = demo_sb" by (simp add: demo_state_def)
  obtain b s' where b: "balloc 1 demo_fs = Ret (b, s')" "free_block demo_sb demo_V b" "\<forall>c<b. \<not> free_block demo_sb demo_V c"
    using balloc_takes_lowest[OF demo_tx L] demo_free unfolding sb by (auto split: if_splits)
  then have "b = 64" using demo_free by (metis le_neq_implies_less less_or_eq_imp_le not_less numeral_less_iff order_less_le_trans semiring_norm(75,76,77,78,79,80))
  then show ?thesis using b(1) by auto
qed

end
