(* ===== verification/Fs_Dirs.thy ===== *)
theory Fs_Dirs
  imports Fs_Props
begin

text \<open>
  Names: how \<open>skipelem\<close> takes a path apart, and directories as finite maps from names to inode
  numbers, with \<open>dirlookup\<close> as application and \<open>dirlink\<close> as update.
\<close>

subsection \<open>Paths\<close>

text \<open>The elements of a path: what stands between the slashes.\<close>

fun split_at :: "byte list \<Rightarrow> byte list list" where
  "split_at [] = [[]]"
| "split_at (c # cs) = (if c = 47 then [] # split_at cs else (case split_at cs of e # es \<Rightarrow> (c # e) # es | [] \<Rightarrow> [[c]]))"

definition path_elems :: "byte list \<Rightarrow> byte list list" where
  "path_elems p = filter (\<lambda>e. e \<noteq> []) (split_at p)"

lemma split_at_nonempty: "split_at p \<noteq> []"
  by (induction p) (auto split: list.split)

lemma split_at_first: "split_at p = takeWhile (\<lambda>c. c \<noteq> 47) p # (case dropWhile (\<lambda>c. c \<noteq> 47) p of [] \<Rightarrow> [] | _ # q \<Rightarrow> split_at q)"
  by (induction p) auto

lemma elems_slashes: "path_elems (dropWhile (\<lambda>c. c = 47) p) = path_elems p"
  by (induction p) (auto simp: path_elems_def)

lemma elems_rest: "filter (\<lambda>e. e \<noteq> []) (case dropWhile (\<lambda>c. c \<noteq> 47) p of [] \<Rightarrow> [] | _ # q \<Rightarrow> split_at q) = path_elems (dropWhile (\<lambda>c. c \<noteq> 47) p)"
  by (induction p) (auto simp: path_elems_def)

lemma elems_none: "dropWhile (\<lambda>c. c = 47) p = [] \<longleftrightarrow> path_elems p = []"
  by (induction p) (auto simp: path_elems_def split_at_nonempty split: list.split)

text \<open>
  \<open>skipelem\<close> takes the first element off a path and copies it to \<open>name\<close>, cut to 14 bytes; the rest has
  the other elements and does not begin with a slash, so that it is empty exactly when there are none.
\<close>

lemma skipelem_elems:
  "case path_elems path of
     [] \<Rightarrow> skipelem path name = None
   | e # es \<Rightarrow> \<exists>rest name'. skipelem path name = Some (rest, name') \<and> path_elems rest = es \<and> (rest = [] \<longleftrightarrow> es = [])
       \<and> (0 \<notin> set path \<longrightarrow> takeWhile (\<lambda>c. c \<noteq> 0) name' = take DIRSIZ e)"
proof -
  let ?p = "dropWhile (\<lambda>c. c = 47) path"
  let ?s = "takeWhile (\<lambda>c. c \<noteq> 47) ?p" and ?r = "dropWhile (\<lambda>c. c \<noteq> 47) ?p"
  show ?thesis
  proof (cases ?p)
    case Nil
    have "path_elems path = []" using elems_slashes[of path, symmetric] unfolding Nil by (simp add: path_elems_def)
    then show ?thesis using Nil by (simp add: skipelem_def)
  next
    case (Cons c cs)
    then have c: "c \<noteq> 47" using hd_dropWhile[of "\<lambda>c. c = 47" path] by simp
    let ?rest = "dropWhile (\<lambda>c. c = 47) ?r"
    have s: "?s \<noteq> []" using Cons c by simp
    have e: "path_elems path = ?s # path_elems ?rest"
    proof -
      have "path_elems ?p = ?s # filter (\<lambda>e. e \<noteq> []) (case ?r of [] \<Rightarrow> [] | _ # q \<Rightarrow> split_at q)"
        unfolding path_elems_def by (subst split_at_first) (use s in simp)
      also have "filter (\<lambda>e. e \<noteq> []) (case ?r of [] \<Rightarrow> [] | _ # q \<Rightarrow> split_at q) = path_elems ?r" by (rule elems_rest)
      finally show ?thesis using elems_slashes[of path] elems_slashes[of ?r] by simp
    qed
    have r: "?rest = [] \<longleftrightarrow> path_elems ?rest = []" using elems_none[of ?r] elems_slashes[of ?r] by simp
    let ?name = "if length ?s \<ge> DIRSIZ then take DIRSIZ ?s else ?s @ 0 # drop (length ?s + 1) name"
    have sk: "skipelem path name = Some (?rest, ?name)" using Cons by (simp add: skipelem_def Let_def)
    have "takeWhile (\<lambda>c. c \<noteq> 0) ?name = take DIRSIZ ?s" if "0 \<notin> set path"
    proof -
      have "set ?s \<subseteq> set path" by (meson set_dropWhileD set_takeWhileD subsetI)
      then have z: "\<forall>x\<in>set ?s. x \<noteq> 0" using that by blast
      show ?thesis
      proof (cases "length ?s \<ge> DIRSIZ")
        case True
        have "takeWhile (\<lambda>c. c \<noteq> 0) (take DIRSIZ ?s) = take DIRSIZ ?s" unfolding takeWhile_eq_all_conv using z in_set_takeD[of _ DIRSIZ ?s] by blast
        then show ?thesis using True by simp
      next
        case False
        then show ?thesis using z by simp
      qed
    qed
    then show ?thesis using e r sk by auto
  qed
qed

subsection \<open>Names in entries\<close>

text \<open>A name as the string routines see it: up to its zero byte, at most 14 bytes.\<close>

definition upto0 :: "byte list \<Rightarrow> byte list" where
  "upto0 s = takeWhile (\<lambda>c. c \<noteq> 0) s"

definition short_name :: "byte list \<Rightarrow> byte list" where
  "short_name s = take DIRSIZ (upto0 s)"

lemma two_strings_fst: "i < 0x80000000 \<Longrightarrow> two_strings s t (word_of_nat i) = (if i < length s then s ! i else 0)"
  by (simp add: two_strings_def Let_def word_less_nat_alt unat_of_nat)

lemma two_strings_snd: "i < 0x80000000 \<Longrightarrow> two_strings s t (0x80000000 + word_of_nat i) = (if i < length t then t ! i else 0)"
proof -
  assume i: "i < 0x80000000"
  have "unat (0x80000000 + word_of_nat i :: u32) = 0x80000000 + i" using i by (simp add: unat_word_ariths(1) unat_of_nat)
  then show ?thesis using i by (simp add: two_strings_def Let_def word_less_nat_alt unat_of_nat)
qed

lemma cstring_upto0:
  assumes "\<And>i. i \<le> length s \<Longrightarrow> m (a + word_of_nat i) = (if i < length s then s ! i else 0)"
  shows "cstring m a (upto0 s)"
  using assms
proof (induction s arbitrary: a)
  case Nil
  then show ?case using Nil[of 0] by (simp add: upto0_def)
next
  case (Cons c s)
  have "m a = c" using Cons.prems[of 0] by simp
  moreover have "cstring m (a + 1) (upto0 s)"
  proof (rule Cons.IH)
    fix i assume "i \<le> length s"
    then show "m (a + 1 + word_of_nat i) = (if i < length s then s ! i else 0)" using Cons.prems[of "Suc i"] by (simp add: ac_simps)
  qed
  ultimately show ?case by (simp add: upto0_def)
qed

lemma two_cstrings:
  assumes "length s < 0x80000000" and "length t < 0x80000000"
  shows "cstring (two_strings s t) 0 (upto0 s)" and "cstring (two_strings s t) 0x80000000 (upto0 t)"
  using assms two_strings_fst[of _ s t] two_strings_snd[of _ s t] by (auto intro!: cstring_upto0)

lemma namecmp_0:
  assumes "length s < 0x80000000" and "length t < 0x80000000"
  shows "namecmp s t = 0 \<longleftrightarrow> short_name s = short_name t"
  using strncmp_ok[OF two_cstrings[OF assms], of DIRSIZ] by (simp add: namecmp_def strncmp_def short_name_def DIRSIZ_def)

lemma copy_name_ok:
  assumes "length name < 0x80000000"
  shows "copy_name name = take DIRSIZ (upto0 name @ replicate DIRSIZ 0)"
proof -
  let ?m = "two_strings (replicate DIRSIZ 0) name" and ?xs = "upto0 name"
  have l: "length ?xs \<le> length name" by (simp add: upto0_def length_takeWhile_le)
  have "apart 0 DIRSIZ 0x80000000 ?xs" unfolding apart_def
  proof (intro allI impI)
    fix i j assume ij: "i < DIRSIZ" "j \<le> length ?xs"
    have "unat (0 + word_of_nat i :: u32) = i" "unat (0x80000000 + word_of_nat j :: u32) = 0x80000000 + j"
      using ij l assms by (simp_all add: unat_word_ariths(1) unat_of_nat DIRSIZ_def)
    moreover have "i \<noteq> 0x80000000 + j" using ij by (simp add: DIRSIZ_def)
    ultimately show "0 + word_of_nat i \<noteq> (0x80000000 + word_of_nat j :: u32)" by metis
  qed
  moreover have "cstring ?m 0x80000000 ?xs" using two_cstrings(2)[of "replicate DIRSIZ 0" name] assms by (simp add: DIRSIZ_def)
  moreover obtain k s' m' where c: "strncpy_loop DIRSIZ 0 0x80000000 ?m = (k, s', m')" by (metis prod_cases3)
  ultimately have "zero_loop k s' m' = poke_bytes 0 (take DIRSIZ (?xs @ replicate DIRSIZ 0)) ?m" using strncpy_loop_ok by blast
  then have "copy_name name = map (\<lambda>i. poke_bytes 0 (take DIRSIZ (?xs @ replicate DIRSIZ 0)) ?m (word_of_nat i)) [0..<DIRSIZ]"
    using c by (simp add: copy_name_def strncpy_def Let_def)
  also have "\<dots> = take DIRSIZ (?xs @ replicate DIRSIZ 0)"
    using poke_bytes_nth[of _ "take DIRSIZ (?xs @ replicate DIRSIZ 0)" 0] by (intro nth_equalityI) (simp_all add: DIRSIZ_def)
  finally show ?thesis .
qed

lemma copy_name_short:
  assumes "length name < 0x80000000"
  shows "short_name (copy_name name) = short_name name" and "length (copy_name name) = DIRSIZ"
proof -
  have z: "\<forall>x\<in>set (upto0 name). x \<noteq> 0" by (auto simp: upto0_def dest: set_takeWhileD)
  have "upto0 (take DIRSIZ (upto0 name @ replicate DIRSIZ 0)) = take DIRSIZ (upto0 name)"
  proof (cases "DIRSIZ \<le> length (upto0 name)")
    case True
    then show ?thesis using z by (auto simp: upto0_def[of "take _ _"] takeWhile_eq_all_conv dest: in_set_takeD)
  next
    case False
    then have "take DIRSIZ (upto0 name @ replicate DIRSIZ 0) = upto0 name @ replicate (DIRSIZ - length (upto0 name)) 0" by simp
    moreover have "replicate (DIRSIZ - length (upto0 name)) (0 :: byte) = 0 # replicate (DIRSIZ - length (upto0 name) - 1) 0" using False by (cases "DIRSIZ - length (upto0 name)") auto
    ultimately show ?thesis using z False by (simp add: upto0_def[of "_ @ _"])
  qed
  then show "short_name (copy_name name) = short_name name" by (simp add: copy_name_ok[OF assms] short_name_def)
  show "length (copy_name name) = DIRSIZ" by (simp add: copy_name_ok[OF assms])
qed

subsection \<open>Directories as maps\<close>

text \<open>The entries in the contents of a directory, and the map from names to inode numbers they stand for.\<close>

definition ent :: "byte list \<Rightarrow> nat \<Rightarrow> dirent" where
  "ent c k = get_dirent (take 16 (drop (16 * k) c))"

definition ents :: "byte list \<Rightarrow> dirent list" where
  "ents c = map (ent c) [0..<length c div 16]"

definition entry_for :: "byte list \<Rightarrow> dirent \<Rightarrow> bool" where
  "entry_for n de \<longleftrightarrow> de_inum de \<noteq> 0 \<and> short_name (de_name de) = n"

definition dirmap :: "byte list \<Rightarrow> byte list \<Rightarrow> u16 option" where
  "dirmap c n = map_option de_inum (find (entry_for n) (ents c))"

definition free_entry :: "byte list \<Rightarrow> nat" where
  "free_entry c = (case find (\<lambda>k. de_inum (ent c k) = 0) [0..<length c div 16] of Some k \<Rightarrow> k | None \<Rightarrow> length c div 16)"

lemma length_ents [simp]: "length (ents c) = length c div 16"
  by (simp add: ents_def)

lemma ents_update:
  assumes c: "length c = 16 * N" and k: "k \<le> N" and e: "length e = 16"
  shows "ents (take (16 * k) c @ e @ drop (16 * k + 16) c) = take k (ents c) @ get_dirent e # drop (Suc k) (ents c)"
proof (rule nth_equalityI)
  let ?c = "take (16 * k) c @ e @ drop (16 * k + 16) c"
  have l: "length ?c = 16 * max N (k + 1)" using c k e by (auto simp: max_def)
  then show "length (ents ?c) = length (take k (ents c) @ get_dirent e # drop (Suc k) (ents c))" using c k by (auto simp: max_def)
  fix j assume "j < length (ents ?c)"
  then have j: "j < max N (k + 1)" unfolding length_ents l by simp
  consider "j < k" | "j = k" | i where "j = k + 1 + i" by (metis add.commute less_imp_add_positive linorder_neqE_nat plus_1_eq_Suc add_Suc_right Suc_pred add.assoc)
  then show "ents ?c ! j = (take k (ents c) @ get_dirent e # drop (Suc k) (ents c)) ! j"
  proof cases
    case 1
    then have "drop (16 * j) ?c = take (16 * (k - j)) (drop (16 * j) c) @ e @ drop (16 * k + 16) c" using c k by (simp add: drop_take diff_mult_distrib2)
    moreover have "16 \<le> 16 * (k - j)" "16 * (k - j) \<le> length (drop (16 * j) c)" using 1 c k by auto
    ultimately have "take 16 (drop (16 * j) ?c) = take 16 (drop (16 * j) c)" by (simp add: min_def)
    then show ?thesis using 1 j c k l by (simp add: ents_def ent_def nth_append)
  next
    case 2
    then have "take 16 (drop (16 * j) ?c) = e" using c k e by simp
    then show ?thesis using 2 j c k l by (simp add: ents_def ent_def nth_append)
  next
    case (3 i)
    then have i: "k + 1 + i < N" using j k by (auto simp: max_def split: if_splits)
    have "16 * j = length (take (16 * k) c @ e) + 16 * i" using 3 c k e by simp
    then have "drop (16 * j) ?c = drop (16 * i) (drop (16 * k + 16) c)" by (metis append.assoc append_eq_conv_conj drop_drop add.commute)
    then have "take 16 (drop (16 * j) ?c) = take 16 (drop (16 * j) c)" using 3 by (simp add: algebra_simps)
    then show ?thesis using 3 i c k l by (simp add: ents_def ent_def nth_append)
  qed
qed

lemma find_map: "find P (map f xs) = map_option f (find (\<lambda>x. P (f x)) xs)"
  by (induction xs) auto

lemma dirmap_find: "dirmap c n = map_option (\<lambda>k. de_inum (ent c k)) (find (\<lambda>k. entry_for n (ent c k)) [0..<length c div 16])"
  by (simp add: dirmap_def ents_def find_map option.map_comp comp_def)

lemma get_put_dirent: "length (de_name de) = DIRSIZ \<Longrightarrow> get_dirent (put_dirent de) = de"
proof -
  assume l: "length (de_name de) = DIRSIZ"
  have "get16 ([ucast v, ucast (drop_bit 8 v)] @ xs) 0 = v" for v xs
  proof -
    have "[ucast v, ucast (drop_bit 8 v)] @ xs = put16 0 v ([0, 0] @ xs)" by (simp add: put16_def)
    then show ?thesis using get16_put16[of 0 "[0, 0] @ xs" v] by simp
  qed
  then show ?thesis using l by (simp add: get_dirent_def put_dirent_def)
qed

text \<open>Entering a name that is not there into an empty entry, or at the end.\<close>

lemma dirmap_update:
  assumes c: "length c = 16 * N" and k: "k \<le> N" "k < N \<Longrightarrow> de_inum (ent c k) = 0" and e: "length e = 16" "get_dirent e = de" "de_inum de \<noteq> 0" "short_name (de_name de) = n"
    and n: "dirmap c n = None"
  shows "dirmap (take (16 * k) c @ e @ drop (16 * k + 16) c) = (dirmap c)(n \<mapsto> de_inum de)"
proof
  fix m
  let ?l = "take k (ents c)" and ?r = "drop (Suc k) (ents c)"
  have u: "ents (take (16 * k) c @ e @ drop (16 * k + 16) c) = ?l @ de # ?r" using ents_update[OF c k(1) e(1)] e(2) by simp
  have old: "find P (ents c) = (case find P ?l of Some x \<Rightarrow> Some x | None \<Rightarrow> find P ?r)" if "\<And>x. P x \<Longrightarrow> de_inum x \<noteq> 0" for P
  proof (cases "k < N")
    case True
    then have "ents c = ?l @ ent c k # ?r" using id_take_nth_drop[of k "ents c"] c by (simp add: ents_def)
    moreover have "\<not> P (ent c k)" using k(2)[OF True] that by blast
    ultimately show ?thesis by (metis find.simps(2) find_append)
  next
    case False
    then show ?thesis using k(1) c by (simp split: option.split)
  qed
  have nn: "find (entry_for n) (ents c) = None" using n by (simp add: dirmap_def)
  show "dirmap (take (16 * k) c @ e @ drop (16 * k + 16) c) m = ((dirmap c)(n \<mapsto> de_inum de)) m"
  proof (cases "m = n")
    case True
    have "find (entry_for n) ?l = None" using nn old[of "entry_for n"] by (auto simp: entry_for_def split: option.splits)
    then show ?thesis using True e(3,4) by (simp add: dirmap_def u find_append entry_for_def)
  next
    case False
    then have "\<not> entry_for m de" using e(4) by (simp add: entry_for_def)
    moreover have "find (entry_for m) (ents c) = (case find (entry_for m) ?l of Some x \<Rightarrow> Some x | None \<Rightarrow> find (entry_for m) ?r)"
      by (rule old) (simp add: entry_for_def)
    ultimately show ?thesis using False by (simp add: dirmap_def u find_append split: option.split)
  qed
qed

subsection \<open>The code on directories\<close>

definition open_dir :: "nat \<Rightarrow> nat \<Rightarrow> nat \<Rightarrow> nat \<Rightarrow> fs \<Rightarrow> (nat \<Rightarrow> block) \<Rightarrow> nat set \<Rightarrow> dinode \<Rightarrow> bool" where
  "open_dir D S Z dp s V W di \<longleftrightarrow> open_file D S Z dp s V W di \<and> di_type di = T_DIR \<and> 16 dvd unat (di_size di)"

lemma open_dirD:
  assumes "open_dir D S Z dp s V W di"
  shows "open_file D S Z dp s V W di" and "di_type di = T_DIR" and "length (contents V di) = 16 * (unat (di_size di) div 16)" and "unat (di_size di) < 2 ^ 31"
    and "i_d (node s dp) = di" and "i_dev (node s dp) = D"
  using assms open_fileD(1,6)[of D S Z dp s V W di] fstateD(4,5)[of D S Z dp s V W di] by (auto simp: open_dir_def contents_def fs_sizes)

lemma read_entry:
  assumes d: "open_dir D S Z dp s V W di" and k: "k < unat (di_size di) div 16"
  shows "\<exists>s'. readi dv dp (word_of_nat (16 * k)) 16 s = Ret ((16, take 16 (drop (16 * k) (contents V di))), s') \<and> open_dir D S Z dp s' V W di \<and> same_nodes s s'"
proof -
  note O = open_dirD[OF d]
  have b: "16 * k + 16 \<le> unat (di_size di)" using k d unfolding open_dir_def by auto
  then have u: "unat (word_of_nat (16 * k) :: u32) = 16 * k" using O(4) by (simp add: unat_of_nat del: of_nat_mult)
  have "word_of_nat (16 * k) \<le> di_size di" "unat (word_of_nat (16 * k) :: u32) + unat (16 :: u32) < 2 ^ 32" using u b O(4) by (simp_all add: word_le_nat_alt)
  moreover have "length (take 16 (drop (16 * k) (contents V di))) = 16" using b by (simp add: contents_def)
  ultimately show ?thesis using readi_ok[OF O(1), of "word_of_nat (16 * k)" 16 dv] d unfolding u by (auto simp: open_dir_def)
qed

lemma dirlookup_loop_ok:
  assumes "open_dir D S Z dp s V W di" and "\<forall>k\<in>set ks. k < unat (di_size di) div 16" and "length name < 0x80000000"
  shows "\<exists>s'. open_dir D S Z dp s' V W di \<and> same_nodes s s' \<and> dirlookup_loop dv dp name (map (\<lambda>i. word_of_nat (16 * i)) ks) s
    = (case find (\<lambda>k. entry_for (short_name name) (ent (contents V di) k)) ks of
         None \<Rightarrow> Ret (None, s')
       | Some k \<Rightarrow> obind (iget D (unat (de_inum (ent (contents V di) k))) s') (\<lambda>(ip, s). Ret (Some (ip, word_of_nat (16 * k)), s)))"
  using assms
proof (induction ks arbitrary: s)
  case (Cons k ks)
  obtain s1 where r: "readi dv dp (word_of_nat (16 * k)) 16 s = Ret ((16, take 16 (drop (16 * k) (contents V di))), s1)" "open_dir D S Z dp s1 V W di" "same_nodes s s1"
    using read_entry[OF Cons.prems(1), of k] Cons.prems(2) by auto
  let ?de = "ent (contents V di) k"
  have l: "length (de_name ?de) < 0x80000000" by (simp add: ent_def get_dirent_def DIRSIZ_def)
  have m: "entry_for (short_name name) ?de \<longleftrightarrow> de_inum ?de \<noteq> 0 \<and> namecmp name (de_name ?de) = 0" using namecmp_0[OF Cons.prems(3) l] by (auto simp: entry_for_def)
  have dv: "i_dev (node s1 dp) = D" using open_dirD(6)[OF r(2)] .
  show ?case
  proof (cases "entry_for (short_name name) ?de")
    case True
    then show ?thesis using r m dv by (intro exI[of _ s1]) (simp add: ent_def)
  next
    case False
    obtain s2 where "open_dir D S Z dp s2 V W di" "same_nodes s1 s2" "dirlookup_loop dv dp name (map (\<lambda>i. word_of_nat (16 * i)) ks) s1
      = (case find (\<lambda>k. entry_for (short_name name) (ent (contents V di) k)) ks of
         None \<Rightarrow> Ret (None, s2)
       | Some k \<Rightarrow> obind (iget D (unat (de_inum (ent (contents V di) k))) s2) (\<lambda>(ip, s). Ret (Some (ip, word_of_nat (16 * k)), s)))"
      using Cons.IH[OF r(2)] Cons.prems(2,3) by auto
    moreover have "dirlookup_loop dv dp name (map (\<lambda>i. word_of_nat (16 * i)) (k # ks)) s = dirlookup_loop dv dp name (map (\<lambda>i. word_of_nat (16 * i)) ks) s1"
      using r(1) False m by (auto simp: ent_def Let_def)
    ultimately show ?thesis using False same_nodes_trans[OF r(3)] by (intro exI[of _ s2]) simp
  qed
qed auto

lemma dir_offs_all: "16 dvd unat sz \<Longrightarrow> dir_offs sz = map (\<lambda>i. word_of_nat (16 * i)) [0..<unat sz div 16]"
  by (auto simp: dir_offs_def elim!: dvdE)

lemma dirlookup_ok:
  assumes d: "open_dir D S Z dp s V W di" and l: "length name < 0x80000000"
  shows "\<exists>s'. open_dir D S Z dp s' V W di \<and> same_nodes s s' \<and> dirlookup dv dp name s
    = (case find (\<lambda>k. entry_for (short_name name) (ent (contents V di) k)) [0..<length (contents V di) div 16] of
         None \<Rightarrow> Ret (None, s')
       | Some k \<Rightarrow> obind (iget D (unat (de_inum (ent (contents V di) k))) s') (\<lambda>(ip, s). Ret (Some (ip, word_of_nat (16 * k)), s)))"
proof -
  note O = open_dirD[OF d]
  have "dirlookup dv dp name s = dirlookup_loop dv dp name (map (\<lambda>i. word_of_nat (16 * i)) [0..<length (contents V di) div 16]) s"
    using O(2,3,5) d dir_offs_all[of "di_size di"] by (simp add: dirlookup_def open_dir_def)
  then show ?thesis using dirlookup_loop_ok[OF d _ l, of "[0..<length (contents V di) div 16]" dv] O(3) by simp
qed

lemma dirlink_loop_ok:
  assumes "open_dir D S Z dp s V W di" and "\<forall>k\<in>set ks. k < unat (di_size di) div 16"
  shows "\<exists>s'. open_dir D S Z dp s' V W di \<and> same_nodes s s' \<and> dirlink_loop dv dp (map (\<lambda>i. word_of_nat (16 * i)) ks) e s
    = Ret (case find (\<lambda>k. de_inum (ent (contents V di) k) = 0) ks of None \<Rightarrow> e | Some k \<Rightarrow> word_of_nat (16 * k), s')"
  using assms
proof (induction ks arbitrary: s)
  case (Cons k ks)
  obtain s1 where r: "readi dv dp (word_of_nat (16 * k)) 16 s = Ret ((16, take 16 (drop (16 * k) (contents V di))), s1)" "open_dir D S Z dp s1 V W di" "same_nodes s s1"
    using read_entry[OF Cons.prems(1), of k] Cons.prems(2) by auto
  show ?case
  proof (cases "de_inum (ent (contents V di) k) = 0")
    case True
    then show ?thesis using r by (intro exI[of _ s1]) (simp add: ent_def)
  next
    case False
    obtain s2 where "open_dir D S Z dp s2 V W di" "same_nodes s1 s2" "dirlink_loop dv dp (map (\<lambda>i. word_of_nat (16 * i)) ks) e s1
      = Ret (case find (\<lambda>k. de_inum (ent (contents V di) k) = 0) ks of None \<Rightarrow> e | Some k \<Rightarrow> word_of_nat (16 * k), s2)"
      using Cons.IH[OF r(2)] Cons.prems(2) by auto
    then show ?thesis using False r(1) same_nodes_trans[OF r(3)] by (intro exI[of _ s2]) (simp add: ent_def)
  qed
qed auto

lemma dirlink_ok:
  assumes d: "open_dir D S Z dp s V W di" and l: "length name < 0x80000000" and new: "dirmap (contents V di) (short_name name) = None" and i: "(ucast inum :: u16) \<noteq> 0"
    and fit: "fits Z (fs_sb s) V W di (16 * free_entry (contents V di)) 16 hi" and big: "16 * free_entry (contents V di) + 16 \<le> MAXFILE * BSIZE"
  shows "\<exists>s' V' W' di'. dirlink dv dp name inum s = Ret (0, s') \<and> open_dir D S Z dp s' V' W' di'
    \<and> dirmap (contents V' di') = (dirmap (contents V di))(short_name name \<mapsto> ucast inum) \<and> others_same (fs_sb s) (iblock dp s) (i_inum (node s dp)) V di V'"
proof -
  note O = open_dirD[OF d]
  let ?c = "contents V di" and ?k = "free_entry (contents V di)"
  let ?N = "length (contents V di) div 16" and ?de = "\<lparr>de_inum = ucast inum, de_name = copy_name name\<rparr>"
  have none: "find (\<lambda>k. entry_for (short_name name) (ent ?c k)) [0..<?N] = None" using new by (simp add: dirmap_find)
  obtain s1 where s1: "open_dir D S Z dp s1 V W di" "same_nodes s s1" "dirlookup dv dp name s = Ret (None, s1)" using dirlookup_ok[OF d l, of dv] none by auto
  note O1 = open_dirD[OF s1(1)]
  have offs: "dir_offs (di_size di) = map (\<lambda>i. word_of_nat (16 * i)) [0..<?N]" using d dir_offs_all[of "di_size di"] O(3) by (simp add: open_dir_def)
  obtain s2 where s2: "open_dir D S Z dp s2 V W di" "same_nodes s1 s2" "dirlink_loop dv dp (dir_offs (di_size di)) (word_of_nat (16 * ?N)) s1 = Ret (word_of_nat (16 * ?k), s2)"
    using dirlink_loop_ok[OF s1(1), of "[0..<?N]" dv "word_of_nat (16 * ?N)"] O(3) unfolding offs by (auto simp: free_entry_def split: option.splits)
  note O2 = open_dirD[OF s2(1)] and same = same_nodes_trans[OF s1(2) s2(2)]
  have k: "?k \<le> ?N" "?k < ?N \<Longrightarrow> de_inum (ent ?c ?k) = 0" unfolding free_entry_def by (auto split: option.splits dest: find_SomeD)
  have c: "length ?c = 16 * ?N" "16 * ?N = unat (di_size di)" using O(3) by (simp_all add: contents_def)
  have u: "unat (word_of_nat (16 * ?k) :: u32) = 16 * ?k" using big by (simp add: unat_of_nat fs_sizes del: of_nat_mult)
  have le: "word_of_nat (16 * ?k) \<le> di_size di" using u k(1) c(2) by (simp add: word_le_nat_alt)
  let ?e = "put_dirent ?de"
  have e: "length ?e = 16" "get_dirent ?e = ?de" using copy_name_short(2)[OF l] get_put_dirent[of ?de] by (simp_all add: put_dirent_def DIRSIZ_def)
  have sb: "fs_sb s2 = fs_sb s" "node s2 = node s" using same_nodesD[OF same] by auto
  obtain s' V' W' di' where w: "writei dv dp ?e (word_of_nat (16 * ?k)) 16 s2 = Ret (int (unat (16 :: u32)), s')" "open_file D S Z dp s' V' W' di'" "only_di dp di' s2 s'"
    "contents V' di' = take (16 * ?k) ?c @ take 16 ?e @ drop (16 * ?k + 16) ?c" "others_same (fs_sb s) (iblock dp s) (i_inum (node s dp)) V di V'" "di_type di' = di_type di"
    using writei_ok[OF O2(1) le, of 16 ?e hi dv] u big e(1) fit sb by (auto simp: iblock_def)
  have c': "contents V' di' = take (16 * ?k) ?c @ ?e @ drop (16 * ?k + 16) ?c" using w(4) e(1) by simp
  have "dirmap (contents V' di') = (dirmap ?c)(short_name name \<mapsto> ucast inum)"
    using dirmap_update[OF c(1) k e _ _ new] i copy_name_short(1)[OF l] unfolding c' by simp
  moreover have "open_dir D S Z dp s' V' W' di'"
  proof -
    have "length (contents V' di') = 16 * max ?N (?k + 1)" using c(1) k(1) e(1) unfolding c' by (auto simp: max_def)
    then have "unat (di_size di') = 16 * max ?N (?k + 1)" by (simp add: contents_def)
    then show ?thesis using w(2,6) O(2) unfolding open_dir_def by simp
  qed
  moreover have "dirlink dv dp name inum s = Ret (0, s')"
    using s1(3) s2(3) w(1) O1(5) offs by (simp add: dirlink_def del: of_nat_mult)
  ultimately show ?thesis using w(5) by blast
qed

lemma node_upd: "ip < length (icache s) \<Longrightarrow> node (upd_inode ip f s) ip = f (node s ip)"
  by (simp add: node_def upd_inode_def)

text \<open>\<open>iget\<close> of an inode that is in the cache, when it is there once.\<close>

lemma find_the: "P k \<Longrightarrow> k < n \<Longrightarrow> (\<And>j. j < n \<Longrightarrow> P j \<Longrightarrow> j = k) \<Longrightarrow> find P [0..<n] = Some k"
proof -
  assume p: "P k" "k < n" "\<And>j. j < n \<Longrightarrow> P j \<Longrightarrow> j = k"
  have "k \<in> set [0..<n]" using p(2) by simp
  from find_not_None[where Q = P, OF this p(1)] obtain j where j: "find P [0..<n] = Some j" by blast
  have "j < n" "P j" using find_SomeD[OF j] by simp_all
  then show ?thesis using p(3) j by simp
qed

definition cached_once :: "nat \<Rightarrow> fs \<Rightarrow> bool" where
  "cached_once ip s \<longleftrightarrow> ip < NINODE \<and> i_ref (node s ip) > 0
     \<and> (\<forall>j<NINODE. i_ref (node s j) > 0 \<longrightarrow> i_dev (node s j) = i_dev (node s ip) \<longrightarrow> i_inum (node s j) = i_inum (node s ip) \<longrightarrow> j = ip)"

lemma iget_cached: "cached_once ip s \<Longrightarrow> iget (i_dev (node s ip)) (i_inum (node s ip)) s = Ret (ip, upd_inode ip (\<lambda>x. x\<lparr>i_ref := i_ref x + 1\<rparr>) s)"
  unfolding cached_once_def iget_def by (subst find_the[of _ ip]) auto

subsection \<open>Properties of directories\<close>

text \<open>
  (C11) Directories are finite maps. For an open directory in which a name is not present, \<open>dirlink\<close>
  returns 0 and the directory afterwards is the map with the name, cut to 14 bytes, bound to the
  inode number; nothing else in use has changed. In the new directory \<open>dirlookup\<close> finds exactly the
  names of the map: it gives the inode of the number bound to the name, or nothing.
\<close>

theorem dirlink_binds_name:
  assumes "open_dir D S Z dp s V W di" and "length name < 0x80000000" and "dirmap (contents V di) (short_name name) = None" and "(ucast inum :: u16) \<noteq> 0"
    and "fits Z (fs_sb s) V W di (16 * free_entry (contents V di)) 16 hi" and "16 * free_entry (contents V di) + 16 \<le> MAXFILE * BSIZE"
  shows "\<exists>s' V' W' di'. dirlink dv dp name inum s = Ret (0, s') \<and> open_dir D S Z dp s' V' W' di'
    \<and> dirmap (contents V' di') = (dirmap (contents V di))(short_name name \<mapsto> ucast inum)
    \<and> others_same (fs_sb s) (iblock dp s) (i_inum (node s dp)) V di V'
    \<and> (\<forall>nm. length nm < 0x80000000 \<longrightarrow>
         (\<exists>t off. open_dir D S Z dp t V' W' di' \<and> dirlookup dv dp nm s' =
           (case dirmap (contents V' di') (short_name nm) of
              None \<Rightarrow> Ret (None, t)
            | Some i \<Rightarrow> obind (iget D (unat i) t) (\<lambda>(ip, u). Ret (Some (ip, off), u)))))"
proof -
  have look: "\<exists>t off. open_dir D S Z dp t V' W' di' \<and> dirlookup dv dp nm s' =
      (case dirmap (contents V' di') (short_name nm) of None \<Rightarrow> Ret (None, t) | Some i \<Rightarrow> obind (iget D (unat i) t) (\<lambda>(ip, u). Ret (Some (ip, off), u)))"
    if "open_dir D S Z dp s' V' W' di'" "length nm < 0x80000000" for s' V' W' di' nm
    using dirlookup_ok[OF that, of dv] by (cases "find (\<lambda>k. entry_for (short_name nm) (ent (contents V' di') k)) [0..<length (contents V' di') div 16]")
      (auto simp: dirmap_find)
  obtain s' V' W' di' where "dirlink dv dp name inum s = Ret (0, s')" "open_dir D S Z dp s' V' W' di'"
    "dirmap (contents V' di') = (dirmap (contents V di))(short_name name \<mapsto> ucast inum)" "others_same (fs_sb s) (iblock dp s) (i_inum (node s dp)) V di V'"
    using dirlink_ok[OF assms, of dv] by blast
  then show ?thesis using look by blast
qed

text \<open>
  (C12) Linking a name that stands for the directory itself never returns: \<open>dirlink\<close> finds the entry,
  gets a second reference to the directory and puts it back with \<open>iput\<close>, which waits for the sleep
  lock of the directory, held by the caller. \<open>link\<close> with a new name that ends in a dot gets there,
  inside a transaction.
\<close>

theorem dirlink_own_name_hangs:
  assumes "open_dir D S Z dp s V W di" and "length name < 0x80000000" and "dirmap (contents V di) (short_name name) = Some i" and "unat i = i_inum (node s dp)"
    and "cached_once dp s" and "i_locked (node s dp)"
  shows "dirlink dv dp name inum s = Diverge"
proof -
  obtain k where k: "find (\<lambda>k. entry_for (short_name name) (ent (contents V di) k)) [0..<length (contents V di) div 16] = Some k" "de_inum (ent (contents V di) k) = i"
    using assms(3) by (auto simp: dirmap_find)
  obtain s1 where s1: "same_nodes s s1" "dirlookup dv dp name s = obind (iget D (unat i) s1) (\<lambda>(ip, s). Ret (Some (ip, word_of_nat (16 * k)), s))"
    using dirlookup_ok[OF assms(1,2), of dv] k by auto
  have n: "node s1 = node s" "i_dev (node s dp) = D" "dp < length (icache s1)"
    using same_nodesD(2)[OF s1(1)] s1(1) open_dirD(6)[OF assms(1)] fstateD(3)[OF open_fileD(1)[OF open_dirD(1)[OF assms(1)]]] by (simp_all add: same_nodes_def)
  have "cached_once dp s1" using assms(5) n(1) by (simp add: cached_once_def)
  from iget_cached[OF this] have "iget D (unat i) s1 = Ret (dp, upd_inode dp (\<lambda>x. x\<lparr>i_ref := i_ref x + 1\<rparr>) s1)" using n(1,2) assms(4) by simp
  then have "dirlink dv dp name inum s = obind (iput dp (upd_inode dp (\<lambda>x. x\<lparr>i_ref := i_ref x + 1\<rparr>) s1)) (\<lambda>s. Ret (- 1, s))" using s1(2) by (simp add: dirlink_def)
  moreover have "i_locked (node (upd_inode dp (\<lambda>x. x\<lparr>i_ref := i_ref x + 1\<rparr>) s1) dp)" using assms(6) n node_upd[OF n(3)] by simp
  ultimately show ?thesis by (simp add: iput_def iacquire_def)
qed

text \<open>A directory with the entry \<open>.\<close>, as inode 5.\<close>

definition demo_dir_di :: dinode where
  "demo_dir_di = \<lparr>di_type = T_DIR, di_major = 0, di_minor = 0, di_nlink = 1, di_size = 16, di_addrs = demo_addrs\<rparr>"

definition demo_dir_block :: block where
  "demo_dir_block = [5, 0, 46] @ replicate 509 0"

abbreviation demo_dir_V :: "nat \<Rightarrow> block" where "demo_dir_V \<equiv> demo_image demo_dir_di demo_dir_block"

abbreviation demo_dir_fs :: fs where "demo_dir_fs \<equiv> demo_state demo_dir_di demo_dir_block"

lemma demo_dir:
  "open_dir 1 2 30 0 demo_dir_fs demo_dir_V {} demo_dir_di" "contents demo_dir_V demo_dir_di = [5, 0, 46] @ replicate 13 0"
proof -
  have sz: "unat (di_size demo_dir_di) = 16" "di_addrs demo_dir_di = demo_addrs" "di_type demo_dir_di = T_DIR" "length demo_dir_block = 512"
    by (simp_all add: demo_dir_di_def demo_dir_block_def)
  have "open_file 1 2 30 0 demo_dir_fs demo_dir_V {} demo_dir_di" by (rule demo_open) (use sz in \<open>simp_all add: T_DIR_def T_DEV_def\<close>)
  then show "open_dir 1 2 30 0 demo_dir_fs demo_dir_V {} demo_dir_di" using sz by (simp add: open_dir_def)
  show "contents demo_dir_V demo_dir_di = [5, 0, 46] @ replicate 13 0" using demo_contents[of demo_dir_di demo_dir_block] sz by (simp add: demo_dir_block_def)
qed

lemma demo_ents: "ents (contents demo_dir_V demo_dir_di) = [\<lparr>de_inum = 5, de_name = 46 # replicate 13 0\<rparr>]"
  unfolding demo_dir(2) by (simp add: ents_def ent_def get_dirent_def get16_def DIRSIZ_def)

lemma demo_short: "short_name [46] = [46]" "short_name (46 # replicate 13 0) = [46]" "short_name [97] = [97]"
  by (simp_all add: short_name_def upto0_def DIRSIZ_def)

theorem dirlink_binds_name_witness:
  "\<exists>s' V' W' di'. dirlink demo_dev 0 [97] 7 demo_dir_fs = Ret (0, s') \<and> open_dir 1 2 30 0 s' V' W' di' \<and> dirmap (contents V' di') [97] = Some 7"
proof -
  let ?c = "contents demo_dir_V demo_dir_di"
  have "dirmap ?c (short_name [97]) = None" by (simp add: dirmap_def demo_ents entry_for_def demo_short)
  moreover have "free_entry ?c = 1" unfolding free_entry_def demo_dir(2) by (simp add: ent_def get_dirent_def get16_def)
  moreover have "fits 30 (fs_sb demo_dir_fs) demo_dir_V {} demo_dir_di 16 16 False" by (rule demo_fits) (simp_all add: demo_dir_di_def)
  ultimately obtain s' V' W' di' where "dirlink demo_dev 0 [97] 7 demo_dir_fs = Ret (0, s')" "open_dir 1 2 30 0 s' V' W' di'" "dirmap (contents V' di') = (dirmap ?c)([97] \<mapsto> 7)"
    using dirlink_binds_name[OF demo_dir(1), of "[97]" 7 False demo_dev] by (auto simp: fs_sizes demo_short)
  then show ?thesis by (metis fun_upd_same)
qed

theorem dirlink_own_name_hangs_witness: "dirlink demo_dev 0 [46] 7 demo_dir_fs = Diverge"
proof (rule dirlink_own_name_hangs[OF demo_dir(1)])
  show "dirmap (contents demo_dir_V demo_dir_di) (short_name [46]) = Some 5" by (simp add: dirmap_def demo_ents entry_for_def demo_short)
  have n: "node demo_dir_fs j = (if j = 0 then demo_node demo_dir_di else (demo_node demo_dir_di)\<lparr>i_ref := 0, i_locked := False\<rparr>)" if "j < NINODE" for j
    using that by (simp add: node_def demo_state_def NINODE_def nth_Cons')
  then show "cached_once 0 demo_dir_fs" by (auto simp: cached_once_def NINODE_def demo_node_def)
  show "unat (5 :: u16) = i_inum (node demo_dir_fs 0)" "i_locked (node demo_dir_fs 0)" using n[of 0] by (simp_all add: NINODE_def demo_node_def)
qed simp

end
