(* ===== verification/Pipe.thy ===== *)
theory Pipe
  imports Prelude
begin

text \<open>
  The kernel pipe (pipe.c): a ring of 512 bytes indexed by two 32-bit counters that wrap around. The
  code between taking the lock and sleeping or returning is one section; a writer that sleeps
  resumes with the bytes it has left. Whether the calling process is killed, and the answers of
  \<open>filealloc\<close> and \<open>kalloc\<close>, are parameters.
\<close>

subsection \<open>The code\<close>

definition PIPESIZE :: nat where "PIPESIZE = 512"

record pipe =
  pdata :: "byte list"
  nread :: u32
  nwrite :: u32
  readopen :: bool
  writeopen :: bool

text \<open>An open file of the table, as \<open>pipealloc\<close> sets it up: \<open>fpipe\<close> is the address of the pipe.\<close>

record 'a pfile =
  readable :: bool
  writable :: bool
  fpipe :: 'a

text \<open>
  \<open>pipealloc\<close> with the two files \<open>filealloc\<close> gives and the page \<open>kalloc\<close> gives, by its address and
  what is in it: the two ends share the pipe in that page. In the error case, the files it has to
  close again, in the order it closes them; a page it could not get is never freed.
\<close>

definition pipealloc :: "'f option \<Rightarrow> 'f option \<Rightarrow> ('a \<times> byte list) option \<Rightarrow> 'f list + (('f \<times> 'a pfile) \<times> ('f \<times> 'a pfile) \<times> ('a \<times> pipe))" where
  "pipealloc fa fb page =
     (case fa of
        None \<Rightarrow> Inl []
      | Some f0 \<Rightarrow>
          (case fb of
             None \<Rightarrow> Inl [f0]
           | Some f1 \<Rightarrow>
               (case page of
                  None \<Rightarrow> Inl [f0, f1]
                | Some (a, d) \<Rightarrow>
                    Inr ((f0, \<lparr>readable = True, writable = False, fpipe = a\<rparr>),
                         (f1, \<lparr>readable = False, writable = True, fpipe = a\<rparr>),
                         (a, \<lparr>pdata = take PIPESIZE d, nread = 0, nwrite = 0, readopen = True, writeopen = True\<rparr>)))))"

text \<open>\<open>pipeclose\<close>: the pipe, and whether its page is freed.\<close>

definition pipeclose :: "pipe \<Rightarrow> bool \<Rightarrow> pipe \<times> bool" where
  "pipeclose p w =
     (let p = (if w then p\<lparr>writeopen := False\<rparr> else p\<lparr>readopen := False\<rparr>)
      in (p, \<not> readopen p \<and> \<not> writeopen p))"

text \<open>One byte into and out of the ring.\<close>

definition pipe_put :: "byte \<Rightarrow> pipe \<Rightarrow> pipe" where
  "pipe_put c p = p\<lparr>pdata := (pdata p)[unat (nwrite p) mod PIPESIZE := c], nwrite := nwrite p + 1\<rparr>"

definition pipe_get :: "pipe \<Rightarrow> byte \<times> pipe" where
  "pipe_get p = (pdata p ! (unat (nread p) mod PIPESIZE), p\<lparr>nread := nread p + 1\<rparr>)"

text \<open>A section ends with a return value or asleep, a writer with the bytes it still has to write.\<close>

datatype 'a turn = Returned int | Asleep 'a

fun pipewrite_loop :: "bool \<Rightarrow> int \<Rightarrow> byte list \<Rightarrow> pipe \<Rightarrow> byte list turn \<times> pipe" where
  "pipewrite_loop killed n [] p = (Returned n, p)"
| "pipewrite_loop killed n (c # cs) p =
     (if nwrite p = nread p + word_of_nat PIPESIZE
      then (if \<not> readopen p \<or> killed then (Returned (- 1), p) else (Asleep (c # cs), p))
      else pipewrite_loop killed n cs (pipe_put c p))"

definition pipewrite :: "bool \<Rightarrow> byte list \<Rightarrow> pipe \<Rightarrow> byte list turn \<times> pipe" where
  "pipewrite killed addr p = pipewrite_loop killed (int (length addr)) addr p"

fun piperead_loop :: "nat \<Rightarrow> pipe \<Rightarrow> byte list \<times> pipe" where
  "piperead_loop 0 p = ([], p)"
| "piperead_loop (Suc n) p =
     (if nread p = nwrite p then ([], p)
      else let (c, p) = pipe_get p; (cs, p) = piperead_loop n p in (c # cs, p))"

definition piperead :: "bool \<Rightarrow> nat \<Rightarrow> pipe \<Rightarrow> unit turn \<times> byte list \<times> pipe" where
  "piperead killed n p =
     (if nread p = nwrite p \<and> writeopen p
      then (if killed then (Returned (- 1), [], p) else (Asleep (), [], p))
      else let (cs, p) = piperead_loop n p in (Returned (int (length cs)), cs, p))"

subsection \<open>The ring of bytes\<close>

definition pipe_count :: "pipe \<Rightarrow> nat" where
  "pipe_count p = unat (nwrite p - nread p)"

definition pipe_contents :: "pipe \<Rightarrow> byte list" where
  "pipe_contents p = ring (pdata p) (unat (nread p)) (pipe_count p)"

definition pipe_inv :: "pipe \<Rightarrow> bool" where
  "pipe_inv p \<longleftrightarrow> length (pdata p) = PIPESIZE \<and> pipe_count p \<le> PIPESIZE"

lemma PIPESIZE_dvd: "PIPESIZE dvd 2 ^ 32"
  by (simp add: PIPESIZE_def)

lemma write_index: "unat (nwrite p) mod PIPESIZE = (unat (nread p) + pipe_count p) mod PIPESIZE"
proof -
  have "unat (nread p + (nwrite p - nread p)) = (unat (nread p) + pipe_count p) mod 2 ^ 32"
    unfolding pipe_count_def unat_word_ariths(1)[of "nread p"] by simp
  then have "unat (nwrite p) = (unat (nread p) + pipe_count p) mod 2 ^ 32" by simp
  then show ?thesis using mod_mod_cancel[OF PIPESIZE_dvd] by simp
qed

lemma put_count: "pipe_count p < PIPESIZE \<Longrightarrow> pipe_count (pipe_put c p) = Suc (pipe_count p)"
proof -
  assume "pipe_count p < PIPESIZE"
  then have b: "unat (nwrite p - nread p) + 1 < 2 ^ 32" by (simp add: pipe_count_def PIPESIZE_def)
  have e: "nwrite p + 1 - nread p = (nwrite p - nread p) + 1" by simp
  have "unat ((nwrite p - nread p) + 1) = Suc (unat (nwrite p - nread p))" using b unfolding unat_word_ariths(1)[of "nwrite p - nread p"] by simp
  then show ?thesis unfolding pipe_count_def pipe_put_def by (simp add: e)
qed

lemma get_count: "0 < pipe_count p \<Longrightarrow> pipe_count (snd (pipe_get p)) = pipe_count p - 1"
proof -
  assume c: "0 < pipe_count p"
  have e: "nwrite p - (nread p + 1) = (nwrite p - nread p) - 1" by simp
  have "nwrite p - nread p \<noteq> 0" using c by (auto simp: pipe_count_def)
  then have "unat ((nwrite p - nread p) - 1) = unat (nwrite p - nread p) - 1" by (rule unat_minus_one)
  moreover have "nwrite (p\<lparr>nread := nread p + 1\<rparr>) - nread (p\<lparr>nread := nread p + 1\<rparr>) = (nwrite p - nread p) - 1" using e by simp
  ultimately show ?thesis unfolding pipe_count_def pipe_get_def by (simp only: snd_conv)
qed

lemma empty_iff: "nread p = nwrite p \<longleftrightarrow> pipe_count p = 0"
  by (auto simp: pipe_count_def unat_eq_0)

lemma full_iff: "pipe_inv p \<Longrightarrow> nwrite p = nread p + word_of_nat PIPESIZE \<longleftrightarrow> pipe_count p = PIPESIZE"
proof -
  assume "pipe_inv p"
  have u: "unat (word_of_nat PIPESIZE :: u32) = PIPESIZE" by (simp add: PIPESIZE_def)
  have "nwrite p = nread p + word_of_nat PIPESIZE \<longleftrightarrow> nwrite p - nread p = word_of_nat PIPESIZE" by (auto simp: algebra_simps)
  also have "\<dots> \<longleftrightarrow> pipe_count p = PIPESIZE" using u by (metis pipe_count_def word_unat_eq_iff)
  finally show ?thesis .
qed

interpretation pipe: bounded_fifo "\<lambda>_. PIPESIZE" pipe_put pipe_get pipe_contents pipe_inv
proof
  fix p :: pipe and c
  assume inv: "pipe_inv p"
  then have l: "length (pdata p) = PIPESIZE" by (simp add: pipe_inv_def)
  show "length (pipe_contents p) \<le> PIPESIZE" using inv by (simp add: pipe_contents_def pipe_inv_def)
  {
    assume "length (pipe_contents p) < PIPESIZE"
    then have room: "pipe_count p < PIPESIZE" by (simp add: pipe_contents_def)
    have "pdata (pipe_put c p) = (pdata p)[(unat (nread p) + pipe_count p) mod length (pdata p) := c]" using write_index[of p] l by (simp add: pipe_put_def)
    moreover have "nread (pipe_put c p) = nread p" by (simp add: pipe_put_def)
    ultimately show "pipe_contents (pipe_put c p) = pipe_contents p @ [c]"
      using ring_push[of "pipe_count p" "pdata p" "unat (nread p)" c] room l by (simp add: pipe_contents_def put_count)
    show "pipe_inv (pipe_put c p)" using room l put_count[OF room, of c] by (simp add: pipe_inv_def pipe_put_def)
  }
  {
    assume "pipe_contents p \<noteq> []"
    then have some: "0 < pipe_count p" by (metis pipe_contents_def neq0_conv ring_0)
    have "unat (nread p + 1) mod PIPESIZE = Suc (unat (nread p)) mod PIPESIZE"
      using mod_mod_cancel[OF PIPESIZE_dvd, of "Suc (unat (nread p))"] by (simp add: unat_word_ariths(1))
    then have "ring (pdata p) (unat (nread p + 1)) k = ring (pdata p) (Suc (unat (nread p))) k" for k
      using ring_mod[of "pdata p"] l by metis
    then show "pipe_contents p = fst (pipe_get p) # pipe_contents (snd (pipe_get p))"
      using ring_pop[OF some, of "pdata p" "unat (nread p)"] get_count[OF some] l by (simp add: pipe_contents_def pipe_get_def)
    show "pipe_inv (snd (pipe_get p))" using inv get_count[OF some] some le_trans[OF diff_le_self] unfolding pipe_inv_def by (simp add: pipe_get_def)
  }
qed (simp_all add: pipe_put_def pipe_get_def)

subsection \<open>Reading and writing\<close>

lemma count_contents: "length (pipe_contents p) = pipe_count p"
  by (simp add: pipe_contents_def)

text \<open>A write section appends what fits and sleeps only on a full pipe.\<close>

lemma pipewrite_loop_ok:
  assumes "pipe_inv p" and "pipewrite_loop killed n cs p = (r, p')"
  shows "\<exists>ws rest. cs = ws @ rest \<and> pipe_inv p' \<and> pipe_contents p' = pipe_contents p @ ws
    \<and> (if rest = [] then r = Returned n
       else length (pipe_contents p') = PIPESIZE \<and> r = (if readopen p \<and> \<not> killed then Asleep rest else Returned (- 1)))"
  using assms
proof (induction cs arbitrary: p)
  case (Cons c cs)
  show ?case
  proof (cases "pipe_count p = PIPESIZE")
    case True
    then show ?thesis using Cons.prems full_iff[OF Cons.prems(1)] by - (rule exI[of _ "[]"], rule exI[of _ "c # cs"], auto simp: count_contents)
  next
    case False
    then have room: "length (pipe_contents p) < PIPESIZE" using Cons.prems(1) by (simp add: count_contents pipe_inv_def)
    have "pipewrite_loop killed n cs (pipe_put c p) = (r, p')" using Cons.prems False full_iff[OF Cons.prems(1)] by simp
    from Cons.IH[OF pipe.put_inv[OF Cons.prems(1) room] this] obtain ws rest where w: "cs = ws @ rest" "pipe_inv p'"
      "pipe_contents p' = pipe_contents (pipe_put c p) @ ws"
      "if rest = [] then r = Returned n else length (pipe_contents p') = PIPESIZE \<and> r = (if readopen (pipe_put c p) \<and> \<not> killed then Asleep rest else Returned (- 1))" by blast
    have "readopen (pipe_put c p) = readopen p" by (simp add: pipe_put_def)
    then show ?thesis using w pipe.put_contents[OF Cons.prems(1) room, of c] by - (rule exI[of _ "c # ws"], rule exI[of _ rest], cases "rest = []", simp_all)
  qed
qed auto

lemma piperead_loop_ok:
  "pipe_inv p \<Longrightarrow> piperead_loop n p = (cs, p') \<Longrightarrow> pipe_inv p' \<and> cs = take n (pipe_contents p) \<and> pipe_contents p' = drop n (pipe_contents p)"
proof (induction n arbitrary: p cs p')
  case (Suc n)
  show ?case
  proof (cases "pipe_count p = 0")
    case True
    then have "pipe_contents p = []" using count_contents[of p] by simp
    then show ?thesis using Suc.prems True empty_iff[of p] by simp
  next
    case False
    then have ne: "pipe_contents p \<noteq> []" using count_contents[of p] by auto
    obtain c p1 where g: "pipe_get p = (c, p1)" by (cases "pipe_get p")
    obtain ds p2 where r: "piperead_loop n p1 = (ds, p2)" by (cases "piperead_loop n p1")
    have "pipe_inv p1" "pipe_contents p = c # pipe_contents p1" using pipe.get_inv[OF Suc.prems(1) ne] pipe.get_contents[OF Suc.prems(1) ne] g by simp_all
    then show ?thesis using Suc.IH[OF _ r] Suc.prems(2) False empty_iff[of p] g r by auto
  qed
qed simp

text \<open>Any sequence of sections of writers and readers: the bytes they moved and the pipe.\<close>

datatype pipe_ev = Wr bool "byte list" | Rd bool nat

definition written :: "byte list \<Rightarrow> byte list turn \<Rightarrow> pipe \<Rightarrow> pipe \<Rightarrow> byte list" where
  "written cs r p p' = take (unat (nwrite p' - nwrite p)) cs"

fun pipe_run :: "pipe_ev list \<Rightarrow> pipe \<Rightarrow> byte list \<times> byte list \<times> pipe" where
  "pipe_run [] p = ([], [], p)"
| "pipe_run (Wr killed cs # es) p =
     (let (r, p1) = pipewrite killed cs p; (ws, rs, p2) = pipe_run es p1 in (written cs r p p1 @ ws, rs, p2))"
| "pipe_run (Rd killed n # es) p =
     (let (r, cs, p1) = piperead killed n p; (ws, rs, p2) = pipe_run es p1 in (ws, cs @ rs, p2))"

lemma pipewrite_loop_nread: "pipewrite_loop killed n cs p = (r, p') \<Longrightarrow> nread p' = nread p"
  by (induction cs arbitrary: p) (fastforce simp: pipe_put_def split: if_splits)+

lemma written_ok:
  assumes "pipe_inv p" and "pipewrite killed cs p = (r, p')"
  shows "pipe_inv p'" and "pipe_contents p' = pipe_contents p @ written cs r p p'"
proof -
  obtain ws rest where w: "cs = ws @ rest" "pipe_inv p'" "pipe_contents p' = pipe_contents p @ ws"
    using pipewrite_loop_ok[OF assms(1) assms(2)[unfolded pipewrite_def]] by blast
  have nr: "nread p' = nread p" using pipewrite_loop_nread assms(2) unfolding pipewrite_def by blast
  have c: "pipe_count p' = pipe_count p + length ws" using w(3) count_contents by (metis length_append)
  have "nwrite p' - nwrite p = (nwrite p' - nread p') - (nwrite p - nread p)" using nr by simp
  moreover have "nwrite p - nread p \<le> nwrite p' - nread p'" using c by (simp add: pipe_count_def word_le_nat_alt)
  ultimately have "unat (nwrite p' - nwrite p) = pipe_count p' - pipe_count p" by (simp only: pipe_count_def unat_sub)
  then have "written cs r p p' = ws" using c w(1) by (simp add: written_def)
  then show "pipe_inv p'" "pipe_contents p' = pipe_contents p @ written cs r p p'" using w by simp_all
qed

lemma pipe_run_ok:
  "pipe_inv p \<Longrightarrow> pipe_run es p = (ws, rs, p') \<Longrightarrow> pipe_inv p' \<and> pipe_contents p @ ws = rs @ pipe_contents p'"
proof (induction es arbitrary: p ws rs p')
  case (Cons e es)
  show ?case
  proof (cases e)
    case (Wr killed cs)
    obtain r p1 where w: "pipewrite killed cs p = (r, p1)" by (cases "pipewrite killed cs p")
    obtain ws1 rs1 p2 where t: "pipe_run es p1 = (ws1, rs1, p2)" by (cases "pipe_run es p1") auto
    show ?thesis using Cons.IH[OF written_ok(1)[OF Cons.prems(1) w] t] written_ok(2)[OF Cons.prems(1) w] Cons.prems(2) Wr w t by auto
  next
    case (Rd killed n)
    obtain r cs p1 where w: "piperead killed n p = (r, cs, p1)" by (cases "piperead killed n p") auto
    obtain ws1 rs1 p2 where t: "pipe_run es p1 = (ws1, rs1, p2)" by (cases "pipe_run es p1") auto
    have "pipe_inv p1 \<and> pipe_contents p = cs @ pipe_contents p1"
      using w piperead_loop_ok[OF Cons.prems(1), of n cs p1] Cons.prems(1) by (auto simp: piperead_def split: if_splits prod.splits)
    then show ?thesis using Cons.IH[OF _ t] Cons.prems(2) Rd w t by auto
  qed
qed simp

lemma pipealloc_inv:
  assumes "PIPESIZE \<le> length d" and "pipealloc fa fb (Some (a, d)) = Inr (e0, e1, (a', p))"
  shows "pipe_inv p" and "pipe_contents p = []" and "fpipe (snd e0) = a'" and "fpipe (snd e1) = a'"
  using assms by (auto simp: pipealloc_def pipe_inv_def pipe_contents_def pipe_count_def PIPESIZE_def split: option.splits)

lemma pipeclose_frees: "snd (pipeclose p w) \<longleftrightarrow> (if w then \<not> readopen p else \<not> writeopen p)"
  by (simp add: pipeclose_def Let_def)

text \<open>
  (C35) A pipe is a byte stream: from the moment \<open>pipealloc\<close> makes it, however the sections of its
  readers and writers interleave, and although the two counters wrap around at \<open>2 ^ 32\<close>, what has
  been read followed by what is in the pipe is exactly what has been written, and never more than
  512 bytes are in the pipe. A writer goes to sleep only when the pipe is full, a reader only when
  it is empty.
\<close>

theorem pipe_is_stream:
  assumes "pipealloc fa fb (Some (a, d)) = Inr (e0, e1, (a', p))" and "PIPESIZE \<le> length d" and "pipe_run es p = (ws, rs, p')"
  shows "ws = rs @ pipe_contents p' \<and> length (pipe_contents p') \<le> PIPESIZE
    \<and> (fst (pipewrite k cs p') = Asleep us \<longrightarrow> length (pipe_contents (snd (pipewrite k cs p'))) = PIPESIZE)
    \<and> (fst (piperead k n p') = Asleep () \<longrightarrow> pipe_contents p' = [])"
proof -
  have r: "pipe_inv p'" "ws = rs @ pipe_contents p'"
    using pipe_run_ok[OF pipealloc_inv(1)[OF assms(2,1)] assms(3)] pipealloc_inv(2)[OF assms(2,1)] by simp_all
  have "length (pipe_contents (snd (pipewrite k cs p'))) = PIPESIZE" if "fst (pipewrite k cs p') = Asleep us"
    using pipewrite_loop_ok[OF r(1), of k "int (length cs)" cs "Asleep us" "snd (pipewrite k cs p')"] that
    by (auto simp: pipewrite_def prod_eq_iff split: if_splits)
  moreover have "pipe_contents p' = []" if "fst (piperead k n p') = Asleep ()"
  proof -
    have "nread p' = nwrite p'" using that by (auto simp: piperead_def split: if_splits prod.splits)
    then show ?thesis using empty_iff[of p'] by (simp add: pipe_contents_def)
  qed
  ultimately show ?thesis using r pipe.inv_bound[OF r(1)] by blast
qed

text \<open>Two writes and a read on a new pipe.\<close>

definition demo_pipe :: pipe where
  "demo_pipe = \<lparr>pdata = replicate 512 3, nread = 0, nwrite = 0, readopen = True, writeopen = True\<rparr>"

theorem pipe_is_stream_witness:
  "\<exists>e0 e1. pipealloc (Some 1) (Some (2 :: nat)) (Some (0 :: nat, replicate 4096 3)) = Inr (e0, e1, (0, demo_pipe))
    \<and> fst (pipe_run [Wr False [7, 8], Rd False 1, Wr False [9]] demo_pipe)
      = fst (snd (pipe_run [Wr False [7, 8], Rd False 1, Wr False [9]] demo_pipe)) @ pipe_contents (snd (snd (pipe_run [Wr False [7, 8], Rd False 1, Wr False [9]] demo_pipe)))"
proof -
  obtain e0 e1 where a: "pipealloc (Some 1) (Some (2 :: nat)) (Some (0 :: nat, replicate 4096 3)) = Inr (e0, e1, (0, demo_pipe))"
    by (simp add: pipealloc_def demo_pipe_def PIPESIZE_def)
  from pipe_is_stream[OF this, of "[Wr False [7, 8], Rd False 1, Wr False [9]]"]
  show ?thesis using a by (simp add: PIPESIZE_def)
qed

end
