(* ===== verification/Sh.thy ===== *)
theory Sh
  imports Prelude "HOL-Library.Sublist"
begin

text \<open>
  The parser of the shell (sh.c): tokens, the recursive descent over command lists, background
  commands, pipes, redirections and blocks, and the cut of the buffer into zero-terminated strings.
  A pointer into the text is the number of characters from it to the end \<open>es\<close>, so the text at a
  pointer is a suffix; an argument is the pair of the pointers \<open>q\<close> and \<open>eq\<close> to its begin and end. The
  bound of the four recursive functions counts calls; \<open>parsecmd\<close> gives enough of it for every text.
\<close>

subsection \<open>Tokens\<close>

definition NUL :: char where "NUL = CHR 0x00"
definition whitespace :: string where "whitespace = [CHR 0x20, CHR 0x09, CHR 0x0D, CHR 0x0A, CHR 0x0B]"
definition symbols :: string where "symbols = ''<|>&;()''"
definition MAXARGS :: nat where "MAXARGS = 10"

datatype 'a cmd =
    Execcmd "'a list"
  | Redircmd "'a cmd" 'a int int
  | Pipecmd "'a cmd" "'a cmd"
  | Listcmd "'a cmd" "'a cmd"
  | Backcmd "'a cmd"

definition skip :: "string \<Rightarrow> string" where
  "skip s = dropWhile (\<lambda>c. c \<in> set whitespace) s"

definition word_char :: "char \<Rightarrow> bool" where
  "word_char c \<longleftrightarrow> c \<notin> set whitespace \<and> c \<notin> set symbols"

definition gettoken :: "string \<Rightarrow> char \<times> (nat \<times> nat) \<times> string" where
  "gettoken s =
     (case skip s of
        [] \<Rightarrow> (NUL, (0, 0), [])
      | c # r \<Rightarrow>
          let q = length (skip s) in
          if c \<in> set ''|();&<'' then (c, (q, length r), skip r)
          else if c = CHR ''>''
          then (case r of
                  d # r2 \<Rightarrow> (if d = CHR ''>'' then (CHR ''+'', (q, length r2), skip r2) else (c, (q, length r), skip r))
                | [] \<Rightarrow> (c, (q, length r), skip r))
          else let r2 = dropWhile word_char (c # r) in (CHR ''a'', (q, length r2), skip r2))"

definition after_token :: "string \<Rightarrow> string" where
  "after_token s = snd (snd (gettoken s))"

definition peek :: "string \<Rightarrow> string \<Rightarrow> string \<times> bool" where
  "peek s toks = (skip s, skip s \<noteq> [] \<and> hd (skip s) \<in> set toks)"

lemma length_skip: "length (skip s) \<le> length s"
  by (simp add: skip_def length_dropWhile_le)

lemma suffix_skip: "suffix (skip s) s"
  by (simp add: skip_def suffix_dropWhile)

lemma after_token_suffix: "suffix (after_token s) s"
proof (cases "skip s")
  case Nil
  then show ?thesis by (simp add: after_token_def gettoken_def)
next
  case (Cons c r)
  have s: "suffix (c # r) s" using suffix_skip[of s] Cons by simp
  have sk: "suffix (skip u) s" if "suffix u (c # r)" for u by (meson suffix_order.trans suffix_skip s that)
  have "suffix r (c # r)" "suffix (dropWhile word_char (c # r)) (c # r)" by (auto simp: suffix_ConsI suffix_dropWhile)
  moreover have "suffix r2 (c # r)" if "r = d # r2" for d r2 using that by (auto simp: suffix_def)
  ultimately show ?thesis using sk Cons by (auto simp: after_token_def gettoken_def Let_def split: list.split)
qed

text \<open>A token is consumed when there is one.\<close>

lemma after_token_shorter:
  assumes "skip s \<noteq> []"
  shows "length (after_token s) < length s"
proof -
  obtain c r where cr: "skip s = c # r" using assms by (cases "skip s") auto
  have r: "length r < length s" using length_skip[of s] cr by simp
  have w: "length (skip (dropWhile word_char (c # r))) < length s" if "c \<notin> set ''|();&<''" "c \<noteq> CHR ''>''"
  proof -
    have "c \<notin> set whitespace" using cr by (simp add: skip_def dropWhile_eq_Cons_conv)
    then have "word_char c" using that by (auto simp: word_char_def symbols_def)
    then have "length (dropWhile word_char (c # r)) \<le> length r" by (simp add: length_dropWhile_le)
    then show ?thesis using r length_skip[of "dropWhile word_char (c # r)"] by linarith
  qed
  show ?thesis
  proof (cases "c \<in> set ''|();&<'' \<or> c = CHR ''>''")
    case True
    have "length (skip u) < length s" if "length u \<le> length r" for u using length_skip[of u] r that by linarith
    then show ?thesis using True cr by (auto simp: after_token_def gettoken_def Let_def split: list.split)
  next
    case False
    then show ?thesis using w cr by (simp add: after_token_def gettoken_def Let_def)
  qed
qed

subsection \<open>The parser\<close>

definition redirect :: "char \<Rightarrow> 'a cmd \<Rightarrow> 'a \<Rightarrow> 'a cmd" where
  "redirect tok cmd f =
     (if tok = CHR ''<'' then Redircmd cmd f 0 0
      else if tok = CHR ''>'' then Redircmd cmd f 513 1
      else if tok = CHR ''+'' then Redircmd cmd f 513 1
      else cmd)"

function parseredirs :: "(nat \<times> nat) cmd \<Rightarrow> string \<Rightarrow> ((nat \<times> nat) cmd \<times> string) outcome" where
  "parseredirs cmd s =
     (if \<not> snd (peek s ''<>'') then Ret (cmd, skip s)
      else let (tok, _, s1) = gettoken s; (tok2, qe, s2) = gettoken s1
           in if tok2 \<noteq> CHR ''a'' then Panic ''missing file for redirection''
              else parseredirs (redirect tok cmd qe) s2)"
  by pat_completeness auto
termination
proof (relation "measure (\<lambda>(c, s). length s)")
  fix cmd :: "(nat \<times> nat) cmd" and s :: string and x tok y yb s1 z tok2 yc qe s2
  assume a: "\<not> \<not> snd (peek s ''<>'')" "x = gettoken s" "(tok, y) = x" "(yb, s1) = y" "z = gettoken s1" "(tok2, yc) = z" "(qe, s2) = yc"
  have "s1 = after_token s" "s2 = after_token s1" using a by (simp_all add: after_token_def, metis snd_conv, metis snd_conv)
  moreover have "length (after_token s) < length s" using a(1) by (intro after_token_shorter) (simp add: peek_def)
  moreover have "length (after_token s1) \<le> length s1" using after_token_suffix[of s1] by (rule suffix_length_le)
  ultimately show "((redirect tok cmd qe, s2), cmd, s) \<in> measure (\<lambda>(c, s). length s)" by simp
qed simp

declare parseredirs.simps [simp del]

text \<open>The arguments are stored in the \<open>execcmd\<close> below the redirections read so far.\<close>

fun add_arg :: "'a \<Rightarrow> 'a cmd \<Rightarrow> 'a cmd" where
  "add_arg a (Execcmd as) = Execcmd (as @ [a])"
| "add_arg a (Redircmd c f m d) = Redircmd (add_arg a c) f m d"
| "add_arg a c = c"

function exec_loop :: "nat \<Rightarrow> (nat \<times> nat) cmd \<Rightarrow> string \<Rightarrow> ((nat \<times> nat) cmd \<times> string) outcome" where
  "exec_loop argc ret s =
     (if snd (peek s ''|)&;'') then Ret (ret, skip s)
      else let (tok, qe, s1) = gettoken s
           in if tok = NUL then Ret (ret, s1)
              else if tok \<noteq> CHR ''a'' then Panic ''syntax''
              else if argc + 1 \<ge> MAXARGS then Panic ''too many args''
              else obind (parseredirs (add_arg qe ret) s1) (\<lambda>(ret1, s2). exec_loop (argc + 1) ret1 s2))"
  by pat_completeness auto
termination by (relation "measure (\<lambda>(argc, _, _). MAXARGS - argc)") (auto simp: MAXARGS_def)

declare exec_loop.simps [simp del]

function backs :: "'a cmd \<Rightarrow> string \<Rightarrow> 'a cmd \<times> string" where
  "backs cmd s = (if snd (peek s ''&'') then backs (Backcmd cmd) (after_token s) else (cmd, skip s))"
  by pat_completeness auto
termination
  by (relation "measure (\<lambda>(_, s). length s)") (auto simp: peek_def intro!: after_token_shorter)

declare backs.simps [simp del]

fun parseline :: "nat \<Rightarrow> string \<Rightarrow> ((nat \<times> nat) cmd \<times> string) outcome"
  and parsepipe :: "nat \<Rightarrow> string \<Rightarrow> ((nat \<times> nat) cmd \<times> string) outcome"
  and parseexec :: "nat \<Rightarrow> string \<Rightarrow> ((nat \<times> nat) cmd \<times> string) outcome"
  and parseblock :: "nat \<Rightarrow> string \<Rightarrow> ((nat \<times> nat) cmd \<times> string) outcome" where
  "parseline 0 s = Diverge"
| "parseline (Suc n) s =
     obind (parsepipe n s) (\<lambda>(cmd, s1).
       let (cmd1, s2) = backs cmd s1 in
       if snd (peek s2 '';'')
       then obind (parseline n (after_token s2)) (\<lambda>(right, s3). Ret (Listcmd cmd1 right, s3))
       else Ret (cmd1, skip s2))"
| "parsepipe 0 s = Diverge"
| "parsepipe (Suc n) s =
     obind (parseexec n s) (\<lambda>(cmd, s1).
       if snd (peek s1 ''|'')
       then obind (parsepipe n (after_token s1)) (\<lambda>(right, s2). Ret (Pipecmd cmd right, s2))
       else Ret (cmd, skip s1))"
| "parseexec 0 s = Diverge"
| "parseexec (Suc n) s =
     (if snd (peek s ''('') then parseblock n (skip s)
      else obind (parseredirs (Execcmd []) (skip s)) (\<lambda>(ret, s1). exec_loop 0 ret s1))"
| "parseblock 0 s = Diverge"
| "parseblock (Suc n) s =
     (if \<not> snd (peek s ''('') then Panic ''parseblock''
      else obind (parseline n (after_token s)) (\<lambda>(cmd, s1).
        if \<not> snd (peek s1 '')'') then Panic ''syntax - missing )''
        else parseredirs cmd (after_token s1)))"

text \<open>\<open>nulterminate\<close> on the buffer of a text of length \<open>es\<close>.\<close>

definition cut :: "nat \<Rightarrow> nat \<times> nat \<Rightarrow> string \<Rightarrow> string" where
  "cut es qe buf = buf[es - snd qe := NUL]"

fun nulterminate :: "nat \<Rightarrow> (nat \<times> nat) cmd \<Rightarrow> string \<Rightarrow> string" where
  "nulterminate es (Execcmd as) buf = fold (cut es) as buf"
| "nulterminate es (Redircmd c f m d) buf = cut es f (nulterminate es c buf)"
| "nulterminate es (Pipecmd l r) buf = nulterminate es r (nulterminate es l buf)"
| "nulterminate es (Listcmd l r) buf = nulterminate es r (nulterminate es l buf)"
| "nulterminate es (Backcmd c) buf = nulterminate es c buf"

text \<open>\<open>parsecmd\<close> on a buffer that holds a zero-terminated text.\<close>

definition parsecmd :: "string \<Rightarrow> ((nat \<times> nat) cmd \<times> string) outcome" where
  "parsecmd buf =
     (let s = takeWhile (\<lambda>c. c \<noteq> NUL) buf in
      obind (parseline (4 * length s + 4) s) (\<lambda>(cmd, s1).
        if skip s1 \<noteq> [] then Panic ''syntax'' else Ret (cmd, nulterminate (length s) cmd buf)))"

subsection \<open>The parser returns\<close>

text \<open>
  Every parser leaves a suffix of its input and, with four calls for each character, does not run out
  of its bound.
\<close>

lemma suffix_lengthD: "suffix u s \<Longrightarrow> length u \<le> length s"
  by (rule suffix_length_le)

lemma parseredirs_suffix: "parseredirs cmd s \<noteq> Diverge \<and> (parseredirs cmd s = Ret (c, r) \<longrightarrow> suffix r s)"
proof (induction cmd s rule: parseredirs.induct)
  case (1 cmd s)
  obtain tok qe s1 where g: "gettoken s = (tok, qe, s1)" by (metis surj_pair)
  obtain tok2 qe2 s2 where g2: "gettoken s1 = (tok2, qe2, s2)" by (metis surj_pair)
  have "suffix s1 s" "suffix s2 s1" using after_token_suffix[of s] after_token_suffix[of s1] g g2 by (simp_all add: after_token_def)
  then have s2: "suffix s2 s" by (rule suffix_order.trans[rotated])
  show ?case
  proof (cases "snd (peek s ''<>'') \<and> tok2 = CHR ''a''")
    case True
    have "parseredirs cmd s = parseredirs (redirect tok cmd qe2) s2" using True g g2 by (subst parseredirs.simps) simp
    then show ?thesis using "1.IH" True g g2 s2 suffix_order.trans by fastforce
  next
    case False
    then show ?thesis using g g2 suffix_skip by (subst (1 2) parseredirs.simps) auto
  qed
qed

lemma exec_loop_suffix: "exec_loop argc ret s \<noteq> Diverge \<and> (exec_loop argc ret s = Ret (c, r) \<longrightarrow> suffix r s)"
proof (induction argc ret s rule: exec_loop.induct)
  case (1 argc ret s)
  obtain tok qe s1 where g: "gettoken s = (tok, qe, s1)" by (metis surj_pair)
  have s1: "suffix s1 s" using after_token_suffix[of s] g by (simp add: after_token_def)
  show ?case
  proof (cases "snd (peek s ''|)&;'') \<or> tok = NUL \<or> tok \<noteq> CHR ''a'' \<or> argc + 1 \<ge> MAXARGS")
    case True
    then show ?thesis using g s1 suffix_skip by (subst (1 2) exec_loop.simps) auto
  next
    case False
    have e: "exec_loop argc ret s = obind (parseredirs (add_arg qe ret) s1) (\<lambda>(ret1, s2). exec_loop (argc + 1) ret1 s2)"
      using False g by (subst exec_loop.simps) simp
    show ?thesis
    proof (cases "parseredirs (add_arg qe ret) s1")
      case (Ret x)
      obtain ret1 s2 where x: "x = (ret1, s2)" by (cases x)
      have "suffix s2 s1" using parseredirs_suffix[of "add_arg qe ret" s1 ret1 s2] Ret x by blast
      then have s2: "suffix s2 s" using s1 by (rule suffix_order.trans)
      have "exec_loop (argc + 1) ret1 s2 \<noteq> Diverge \<and> (exec_loop (argc + 1) ret1 s2 = Ret (c, r) \<longrightarrow> suffix r s2)"
        by (rule "1.IH"[OF _ g[symmetric] refl refl _ _ _ Ret x[symmetric]]) (use False in blast)+
      then show ?thesis using e Ret x suffix_order.trans[OF _ s2, of r] by auto
    qed (use e parseredirs_suffix in auto)
  qed
qed

lemma backs_suffix: "suffix (snd (backs cmd s)) s"
proof (induction cmd s rule: backs.induct)
  case (1 cmd s)
  show ?case
  proof (cases "snd (peek s ''&'')")
    case True
    then show ?thesis using "1.IH" after_token_suffix[of s] by (subst backs.simps) (auto intro: suffix_order.trans)
  qed (subst backs.simps, simp add: suffix_skip)
qed

lemma peek_true: "snd (peek s ts) \<Longrightarrow> length (after_token s) < length s"
  by (rule after_token_shorter) (simp add: peek_def)

lemma parse_suffix:
  "parseline n s = Ret (c, r) \<Longrightarrow> suffix r s" "parsepipe n s = Ret (c, r) \<Longrightarrow> suffix r s"
  "parseexec n s = Ret (c, r) \<Longrightarrow> suffix r s" "parseblock n s = Ret (c, r) \<Longrightarrow> suffix r s"
proof (induction n arbitrary: s c r)
  case (Suc n)
  {
    case 1
    then obtain cmd s1 cmd1 s2 where p: "parsepipe n s = Ret (cmd, s1)" and b: "backs cmd s1 = (cmd1, s2)"
      and rest: "(if snd (peek s2 '';'') then obind (parseline n (after_token s2)) (\<lambda>(right, s3). Ret (Listcmd cmd1 right, s3)) else Ret (cmd1, skip s2)) = Ret (c, r)"
      by (auto simp: Let_def split: prod.splits)
    have s2: "suffix s2 s" using Suc.IH(2)[OF p] backs_suffix[of cmd s1] b suffix_order.trans by fastforce
    show ?case
    proof (cases "snd (peek s2 '';'')")
      case True
      then obtain right where "parseline n (after_token s2) = Ret (right, r)" using rest by auto
      then have "suffix r (after_token s2)" by (rule Suc.IH(1))
      then show ?thesis using after_token_suffix s2 suffix_order.trans by blast
    qed (use rest s2 suffix_skip suffix_order.trans in auto)
  next
    case 2
    then obtain cmd s1 where p: "parseexec n s = Ret (cmd, s1)"
      and rest: "(if snd (peek s1 ''|'') then obind (parsepipe n (after_token s1)) (\<lambda>(right, s3). Ret (Pipecmd cmd right, s3)) else Ret (cmd, skip s1)) = Ret (c, r)"
      by auto
    have s1: "suffix s1 s" by (rule Suc.IH(3)[OF p])
    show ?case
    proof (cases "snd (peek s1 ''|'')")
      case True
      then obtain right where "parsepipe n (after_token s1) = Ret (right, r)" using rest by auto
      then have "suffix r (after_token s1)" by (rule Suc.IH(2))
      then show ?thesis using after_token_suffix s1 suffix_order.trans by blast
    qed (use rest s1 suffix_skip suffix_order.trans in auto)
  next
    case 3
    show ?case
    proof (cases "snd (peek s ''('')")
      case True
      then have "suffix r (skip s)" using Suc.IH(4) 3 by simp
      then show ?thesis using suffix_skip suffix_order.trans by blast
    next
      case False
      then obtain ret s1 where p: "parseredirs (Execcmd []) (skip s) = Ret (ret, s1)" and e: "exec_loop 0 ret s1 = Ret (c, r)" using 3 by auto
      have "suffix s1 (skip s)" "suffix r s1" using parseredirs_suffix p exec_loop_suffix e by blast+
      then show ?thesis using suffix_skip suffix_order.trans by blast
    qed
  next
    case 4
    then obtain cmd s1 where p: "parseline n (after_token s) = Ret (cmd, s1)" and e: "parseredirs cmd (after_token s1) = Ret (c, r)"
      by (auto split: if_splits)
    have "suffix s1 (after_token s)" "suffix r (after_token s1)" using Suc.IH(1) p parseredirs_suffix e by blast+
    then show ?case using after_token_suffix suffix_order.trans by blast
  }
qed auto

lemmas parse_length = parse_suffix[THEN suffix_length_le]

lemma parse_returns:
  "4 * length s + 4 \<le> n \<Longrightarrow> parseline n s \<noteq> Diverge" "4 * length s + 3 \<le> n \<Longrightarrow> parsepipe n s \<noteq> Diverge"
  "4 * length s + 2 \<le> n \<Longrightarrow> parseexec n s \<noteq> Diverge" "4 * length s + 1 \<le> n \<Longrightarrow> parseblock n s \<noteq> Diverge"
proof (induction n arbitrary: s)
  case (Suc n)
  {
    case 1
    show ?case
    proof (cases "parsepipe n s")
      case (Ret x)
      obtain cmd s1 where x: "x = (cmd, s1)" by (cases x)
      obtain cmd1 s2 where b: "backs cmd s1 = (cmd1, s2)" by (cases "backs cmd s1")
      have l: "length s2 \<le> length s" using parse_length(2)[of n s cmd s1] backs_suffix[of cmd s1, THEN suffix_length_le] Ret x b by simp
      have "parseline n (after_token s2) \<noteq> Diverge" if "snd (peek s2 '';'')"
        using Suc.IH(1)[of "after_token s2"] peek_true[OF that] l 1 by simp
      then show ?thesis using Ret x b by (cases "parseline n (after_token s2)") auto
    qed (use Suc.IH(2)[of s] 1 in auto)
  next
    case 2
    show ?case
    proof (cases "parseexec n s")
      case (Ret x)
      obtain cmd s1 where x: "x = (cmd, s1)" by (cases x)
      have l: "length s1 \<le> length s" using parse_length(3)[of n s cmd s1] Ret x by simp
      have "parsepipe n (after_token s1) \<noteq> Diverge" if "snd (peek s1 ''|'')"
        using Suc.IH(2)[of "after_token s1"] peek_true[OF that] l 2 by simp
      then show ?thesis using Ret x by (cases "parsepipe n (after_token s1)") auto
    qed (use Suc.IH(3)[of s] 2 in auto)
  next
    case 3
    show ?case
    proof (cases "snd (peek s ''('')")
      case True
      then show ?thesis using Suc.IH(4)[of "skip s"] length_skip[of s] 3 by simp
    next
      case False
      then show ?thesis using parseredirs_suffix[of "Execcmd []" "skip s"] exec_loop_suffix
        by (cases "parseredirs (Execcmd []) (skip s)") auto
    qed
  next
    case 4
    show ?case
    proof (cases "snd (peek s ''('')")
      case True
      have "parseline n (after_token s) \<noteq> Diverge" using Suc.IH(1)[of "after_token s"] peek_true[OF True] 4 by simp
      then show ?thesis using True parseredirs_suffix by (cases "parseline n (after_token s)") (auto split: if_splits)
    qed simp
  }
qed auto

end
