(* ===== verification/Sh_Parse.thy ===== *)
theory Sh_Parse
  imports Sh
begin

text \<open>
  Correctness of the shell's parser: it always returns, the strings it cuts out of the buffer are the
  words of the text, and parsing the text of a command gives the command back.
\<close>

subsection \<open>Tokens in the text\<close>

text \<open>The word of \<open>s\<close> between two pointers, and that it is a whole word.\<close>

definition word_at :: "string \<Rightarrow> nat \<times> nat \<Rightarrow> string" where
  "word_at s qe = take (fst qe - snd qe) (drop (length s - fst qe) s)"

definition token_at :: "string \<Rightarrow> nat \<times> nat \<Rightarrow> bool" where
  "token_at s qe \<longleftrightarrow> snd qe < fst qe \<and> fst qe \<le> length s \<and> (\<forall>c\<in>set (word_at s qe). word_char c) \<and>
     (snd qe = 0 \<or> \<not> word_char (s ! (length s - snd qe)))"

lemma skip_Cons: "skip s = c # r \<Longrightarrow> c \<notin> set whitespace"
  by (simp add: skip_def dropWhile_eq_Cons_conv)

lemma word_of_suffix:
  assumes "suffix (w @ r) s"
  shows "word_at s (length (w @ r), length r) = w"
proof -
  obtain p where "s = p @ w @ r" using assms by (auto simp: suffix_def)
  then show ?thesis by (simp add: word_at_def)
qed

lemma token_of_suffix:
  assumes "suffix (w @ r) s" and "w \<noteq> []" and "\<forall>c\<in>set w. word_char c" and "r = [] \<or> \<not> word_char (hd r)"
  shows "token_at s (length (w @ r), length r)"
proof -
  obtain p where p: "s = p @ w @ r" using assms(1) by (auto simp: suffix_def)
  have "s ! (length s - length r) = hd r" if "r \<noteq> []" using that p by (simp add: nth_append hd_conv_nth)
  then show ?thesis using assms p word_of_suffix[OF assms(1)] by (auto simp: token_at_def)
qed

lemma gettoken_word:
  assumes "skip t = c # r" and "word_char c"
  shows "gettoken t = (CHR ''a'', (length (c # r), length (dropWhile word_char (c # r))), skip (dropWhile word_char (c # r)))"
proof -
  have "c \<notin> set ''|();&<''" "c \<noteq> CHR ''>''" using assms(2) by (auto simp: word_char_def symbols_def)
  then show ?thesis using assms(1) by (simp add: gettoken_def Let_def)
qed

lemma gettoken_token:
  assumes g: "gettoken t = (CHR ''a'', qe, r)" and s: "suffix t s"
  shows "token_at s qe"
proof -
  obtain c u where cu: "skip t = c # u" using g by (cases "skip t") (auto simp: gettoken_def NUL_def)
  have wc: "word_char c"
  proof (rule ccontr)
    assume "\<not> word_char c"
    then have "c \<in> set ''|();&<'' \<or> c = CHR ''>''" using skip_Cons[OF cu] by (auto simp: word_char_def symbols_def)
    then show False using g cu by (auto simp: gettoken_def Let_def split: list.splits if_splits)
  qed
  let ?w = "takeWhile word_char (c # u)" and ?r = "dropWhile word_char (c # u)"
  have "suffix (?w @ ?r) s" using suffix_order.trans[OF suffix_skip[of t] s] cu by simp
  moreover have "?w \<noteq> []" using wc by simp
  moreover have "\<forall>x\<in>set ?w. word_char x" using set_takeWhileD[of _ word_char "c # u"] by blast
  moreover have "?r = [] \<or> \<not> word_char (hd ?r)" using hd_dropWhile[of word_char "c # u"] by blast
  ultimately have "token_at s (length (?w @ ?r), length ?r)" by (rule token_of_suffix)
  moreover have "qe = (length (c # u), length ?r)" using g gettoken_word[OF cu wc] by auto
  ultimately show ?thesis by (simp only: takeWhile_dropWhile_id)
qed

subsection \<open>All arguments of a parsed command are words of the text\<close>

definition words_in :: "string \<Rightarrow> (nat \<times> nat) cmd \<Rightarrow> bool" where
  "words_in s c \<longleftrightarrow> (\<forall>a\<in>set_cmd c. token_at s a)"

lemma words_in_simps [simp]:
  "words_in s (Execcmd as) \<longleftrightarrow> (\<forall>a\<in>set as. token_at s a)" "words_in s (Redircmd c f m d) \<longleftrightarrow> words_in s c \<and> token_at s f"
  "words_in s (Pipecmd l r) \<longleftrightarrow> words_in s l \<and> words_in s r" "words_in s (Listcmd l r) \<longleftrightarrow> words_in s l \<and> words_in s r"
  "words_in s (Backcmd c) \<longleftrightarrow> words_in s c"
  by (auto simp: words_in_def)

lemma words_in_add_arg: "words_in s c \<Longrightarrow> token_at s a \<Longrightarrow> words_in s (add_arg a c)"
  by (induction a c rule: add_arg.induct) auto

lemma words_in_redirect: "words_in s c \<Longrightarrow> token_at s f \<Longrightarrow> words_in s (redirect tok c f)"
  by (simp add: redirect_def)

lemma parseredirs_words:
  "parseredirs cmd t = Ret (c, r) \<Longrightarrow> words_in s cmd \<Longrightarrow> suffix t s \<Longrightarrow> words_in s c"
proof (induction cmd t rule: parseredirs.induct)
  case (1 cmd t)
  obtain tok qe t1 where g: "gettoken t = (tok, qe, t1)" by (metis surj_pair)
  obtain tok2 qe2 t2 where g2: "gettoken t1 = (tok2, qe2, t2)" by (metis surj_pair)
  have t1: "suffix t1 s" using suffix_order.trans[OF after_token_suffix[of t] "1.prems"(3)] g by (simp add: after_token_def)
  have t2: "suffix t2 s" using suffix_order.trans[OF after_token_suffix[of t1] t1] g2 by (simp add: after_token_def)
  show ?case
  proof (cases "snd (peek t ''<>'')")
    case False
    then show ?thesis using "1.prems" by (simp add: parseredirs.simps[of cmd t])
  next
    case True
    then have a: "tok2 = CHR ''a''" and p: "parseredirs (redirect tok cmd qe2) t2 = Ret (c, r)"
      using "1.prems"(1) g g2 by (auto simp: parseredirs.simps[of cmd t] split: if_splits)
    have "token_at s qe2" using g2 a t1 by (intro gettoken_token) auto
    then have "words_in s (redirect tok cmd qe2)" by (rule words_in_redirect[OF "1.prems"(2)])
    then show ?thesis using "1.IH"[OF _ g[symmetric] refl refl g2[symmetric] refl refl _ p] True a t2 by blast
  qed
qed

lemma exec_loop_words:
  "exec_loop argc ret t = Ret (c, r) \<Longrightarrow> words_in s ret \<Longrightarrow> suffix t s \<Longrightarrow> words_in s c"
proof (induction argc ret t rule: exec_loop.induct)
  case (1 argc ret t)
  obtain tok qe t1 where g: "gettoken t = (tok, qe, t1)" by (metis surj_pair)
  have t1: "suffix t1 s" using suffix_order.trans[OF after_token_suffix[of t] "1.prems"(3)] g by (simp add: after_token_def)
  show ?case
  proof (cases "snd (peek t ''|)&;'') \<or> tok = NUL")
    case True
    then show ?thesis using "1.prems" g by (auto simp: exec_loop.simps[of argc ret t] split: if_splits)
  next
    case False
    then obtain ret1 t2 where a: "tok = CHR ''a''" "\<not> MAXARGS \<le> argc + 1"
      and p: "parseredirs (add_arg qe ret) t1 = Ret (ret1, t2)" and e: "exec_loop (argc + 1) ret1 t2 = Ret (c, r)"
      using "1.prems"(1) g by (auto simp: exec_loop.simps[of argc ret t] split: if_splits)
    have "token_at s qe" using g a "1.prems"(3) by (intro gettoken_token) auto
    then have "words_in s (add_arg qe ret)" by (rule words_in_add_arg[OF "1.prems"(2)])
    then have w: "words_in s ret1" by (rule parseredirs_words[OF p _ t1])
    have t2: "suffix t2 s" using parseredirs_suffix p t1 suffix_order.trans by blast
    show ?thesis by (rule "1.IH"[OF _ g[symmetric] refl refl _ _ _ p refl e w t2]) (use False a in blast)+
  qed
qed

lemma backs_words: "words_in s (fst (backs cmd t)) \<longleftrightarrow> words_in s cmd"
  by (induction cmd t rule: backs.induct) (subst backs.simps, simp)

lemma parse_words:
  "parseline n t = Ret (c, r) \<Longrightarrow> suffix t s \<Longrightarrow> words_in s c" "parsepipe n t = Ret (c, r) \<Longrightarrow> suffix t s \<Longrightarrow> words_in s c"
  "parseexec n t = Ret (c, r) \<Longrightarrow> suffix t s \<Longrightarrow> words_in s c" "parseblock n t = Ret (c, r) \<Longrightarrow> suffix t s \<Longrightarrow> words_in s c"
proof (induction n arbitrary: t c r)
  case (Suc n)
  {
    case 1
    then obtain cmd t1 cmd1 t2 where p: "parsepipe n t = Ret (cmd, t1)" and b: "backs cmd t1 = (cmd1, t2)"
      and rest: "(if snd (peek t2 '';'') then obind (parseline n (after_token t2)) (\<lambda>(right, s3). Ret (Listcmd cmd1 right, s3)) else Ret (cmd1, skip t2)) = Ret (c, r)"
      by (auto simp: Let_def split: prod.splits)
    have w: "words_in s cmd1" using Suc.IH(2)[OF p 1(2)] backs_words[of s cmd t1] b by simp
    have "suffix t2 t" using parse_suffix(2)[OF p] backs_suffix[of cmd t1] b suffix_order.trans by fastforce
    then have "suffix (after_token t2) s" using after_token_suffix 1(2) suffix_order.trans by blast
    then show ?case using rest w Suc.IH(1) by (auto split: if_splits)
  next
    case 2
    then obtain cmd t1 where p: "parseexec n t = Ret (cmd, t1)"
      and rest: "(if snd (peek t1 ''|'') then obind (parsepipe n (after_token t1)) (\<lambda>(right, s3). Ret (Pipecmd cmd right, s3)) else Ret (cmd, skip t1)) = Ret (c, r)"
      by auto
    have w: "words_in s cmd" by (rule Suc.IH(3)[OF p 2(2)])
    have "suffix (after_token t1) s" using parse_suffix(3)[OF p] after_token_suffix 2(2) suffix_order.trans by blast
    then show ?case using rest w Suc.IH(2) by (auto split: if_splits)
  next
    case 3
    have sk: "suffix (skip t) s" using suffix_skip 3(2) suffix_order.trans by blast
    show ?case
    proof (cases "snd (peek t ''('')")
      case True
      then show ?thesis using Suc.IH(4)[OF _ sk] 3 by simp
    next
      case False
      then obtain ret t1 where p: "parseredirs (Execcmd []) (skip t) = Ret (ret, t1)" and e: "exec_loop 0 ret t1 = Ret (c, r)" using 3 by auto
      have "words_in s ret" by (rule parseredirs_words[OF p _ sk]) simp
      moreover have "suffix t1 s" using parseredirs_suffix p sk suffix_order.trans by blast
      ultimately show ?thesis by (rule exec_loop_words[OF e])
    qed
  next
    case 4
    then obtain cmd t1 where p: "parseline n (after_token t) = Ret (cmd, t1)" and e: "parseredirs cmd (after_token t1) = Ret (c, r)"
      by (auto split: if_splits)
    have "suffix (after_token t) s" using after_token_suffix 4(2) suffix_order.trans by blast
    then have "words_in s cmd" "suffix (after_token t1) s"
      using Suc.IH(1)[OF p] parse_suffix(1)[OF p] after_token_suffix suffix_order.trans by blast+
    then show ?case by (rule parseredirs_words[OF e])
  }
qed auto

subsection \<open>The strings in the buffer\<close>

fun tokens :: "'a cmd \<Rightarrow> 'a list" where
  "tokens (Execcmd as) = as"
| "tokens (Redircmd c f m d) = tokens c @ [f]"
| "tokens (Pipecmd l r) = tokens l @ tokens r"
| "tokens (Listcmd l r) = tokens l @ tokens r"
| "tokens (Backcmd c) = tokens c"

lemma set_tokens: "set (tokens c) = set_cmd c"
  by (induction c) auto

lemma nulterminate_fold: "nulterminate es c buf = fold (cut es) (tokens c) buf"
  by (induction c arbitrary: buf) auto

lemma fold_cut:
  "length (fold (cut es) l buf) = length buf"
  "i < length buf \<Longrightarrow> fold (cut es) l buf ! i = (if \<exists>a\<in>set l. i = es - snd a then NUL else buf ! i)"
  by (induction l arbitrary: buf) (auto simp: cut_def nth_list_update)

text \<open>The string at a pointer \<open>q\<close> into a buffer that held a text of length \<open>es\<close>.\<close>

definition cstring :: "nat \<Rightarrow> string \<Rightarrow> nat \<Rightarrow> string" where
  "cstring es buf q = takeWhile (\<lambda>c. c \<noteq> NUL) (drop (es - q) buf)"

lemma takeWhile_upto:
  assumes "n < length xs" and "\<And>i. i < n \<Longrightarrow> P (xs ! i)" and "\<not> P (xs ! n)"
  shows "takeWhile P xs = take n xs"
  using assms by (metis takeWhile_eq_take_P_nth less_imp_le_nat order_less_trans)

lemma token_cstring:
  assumes s: "s = takeWhile (\<lambda>c. c \<noteq> NUL) buf" and n: "NUL \<in> set buf" and w: "\<forall>a\<in>set l. token_at s a" and a: "(q, e) \<in> set l"
  shows "cstring (length s) (fold (cut (length s)) l buf) q = word_at s (q, e)"
proof -
  let ?b = "fold (cut (length s)) l buf" and ?L = "length s"
  have lb: "?L < length buf" and pre: "\<And>i. i < ?L \<Longrightarrow> buf ! i = s ! i" and nn: "\<And>i. i < ?L \<Longrightarrow> s ! i \<noteq> NUL"
  proof -
    have "dropWhile (\<lambda>c. c \<noteq> NUL) buf \<noteq> []" using n by (auto simp: dropWhile_eq_Nil_conv)
    then have "length (dropWhile (\<lambda>c. c \<noteq> NUL) buf) > 0" by blast
    moreover have "length buf = ?L + length (dropWhile (\<lambda>c. c \<noteq> NUL) buf)" using s by (metis length_append takeWhile_dropWhile_id)
    ultimately show "?L < length buf" by linarith
    show "\<And>i. i < ?L \<Longrightarrow> buf ! i = s ! i" using s by (simp add: takeWhile_nth)
    show "s ! i \<noteq> NUL" if "i < ?L" for i using set_takeWhileD[of "s ! i" "\<lambda>c. c \<noteq> NUL" buf] nth_mem[OF that] s by simp
  qed
  have t: "e < q" "q \<le> ?L" "\<forall>c\<in>set (word_at s (q, e)). word_char c" using w a by (auto simp: token_at_def)
  have word: "word_char (s ! i)" if "?L - q \<le> i" "i < ?L - e" for i
  proof -
    have "i - (?L - q) < length (word_at s (q, e))" "word_at s (q, e) ! (i - (?L - q)) = s ! i" using that t by (auto simp: word_at_def)
    then show ?thesis using t(3) nth_mem by fastforce
  qed
  have keep: "?b ! i = s ! i" if i: "?L - q \<le> i" "i < ?L - e" for i
  proof -
    have "i \<noteq> ?L - snd b" if "b \<in> set l" for b
      using w that word[OF i] i by (auto simp: token_at_def)
    then show ?thesis using fold_cut(2)[of i buf ?L l] i lb pre by auto
  qed
  have nul: "?b ! (?L - e) = NUL" using fold_cut(2)[of "?L - e" buf ?L l] a lb by force
  have "takeWhile (\<lambda>c. c \<noteq> NUL) (drop (?L - q) ?b) = take (q - e) (drop (?L - q) ?b)"
    by (rule takeWhile_upto) (use t lb keep nn nul fold_cut(1)[of ?L l buf] in auto)
  also have "\<dots> = word_at s (q, e)"
    by (rule nth_equalityI) (use t lb keep fold_cut(1)[of ?L l buf] in \<open>auto simp: word_at_def\<close>)
  finally show ?thesis by (simp add: cstring_def)
qed

text \<open>
  (C32) The strings that the shell hands to \<open>exec\<close> and \<open>open\<close> are the words of the text: when a buffer
  parses, every argument and file name is a maximal word of the text, and after \<open>nulterminate\<close> the
  zero-terminated string at its pointer is exactly this word, although \<open>nulterminate\<close> overwrites
  characters of the same buffer.
\<close>

theorem parsecmd_strings:
  assumes "parsecmd buf = Ret (c, buf')" and "NUL \<in> set buf" and "(q, e) \<in> set_cmd c"
  shows "token_at (takeWhile (\<lambda>x. x \<noteq> NUL) buf) (q, e) \<and>
    cstring (length (takeWhile (\<lambda>x. x \<noteq> NUL) buf)) buf' q = word_at (takeWhile (\<lambda>x. x \<noteq> NUL) buf) (q, e)"
proof -
  let ?s = "takeWhile (\<lambda>x. x \<noteq> NUL) buf"
  obtain r where p: "parseline (4 * length ?s + 4) ?s = Ret (c, r)" and b: "buf' = nulterminate (length ?s) c buf"
    using assms(1) by (auto simp: parsecmd_def Let_def split: if_splits)
  have w: "\<forall>a\<in>set (tokens c). token_at ?s a" using parse_words(1)[OF p suffix_order.refl] by (simp add: words_in_def set_tokens)
  moreover have "(q, e) \<in> set (tokens c)" using assms(3) by (simp add: set_tokens)
  ultimately show ?thesis using token_cstring[OF refl assms(2)] b by (simp add: nulterminate_fold)
qed

definition demo_line :: string where
  "demo_line = ''cat a>f'' @ [NUL]"

lemma demo_line_parse:
  "parsecmd demo_line = Ret (Redircmd (Execcmd [(7, 4), (3, 2)]) (1, 0) 513 1, ''cat'' @ [NUL] @ ''a'' @ [NUL] @ ''f'' @ [NUL])"
  by code_simp

theorem parsecmd_strings_witness:
  "parsecmd demo_line = Ret (Redircmd (Execcmd [(7, 4), (3, 2)]) (1, 0) 513 1, ''cat'' @ [NUL] @ ''a'' @ [NUL] @ ''f'' @ [NUL]) \<and>
   cstring 7 (''cat'' @ [NUL] @ ''a'' @ [NUL] @ ''f'' @ [NUL]) 7 = ''cat''"
proof -
  have w: "takeWhile (\<lambda>x. x \<noteq> NUL) demo_line = ''cat a>f''" by (simp add: demo_line_def NUL_def)
  have "NUL \<in> set demo_line" by (simp add: demo_line_def)
  moreover have l: "length (takeWhile (\<lambda>x. x \<noteq> NUL) demo_line) = 7" by (simp add: w)
  moreover have "word_at (takeWhile (\<lambda>x. x \<noteq> NUL) demo_line) (7, 4) = ''cat''" by (simp add: w word_at_def)
  ultimately show ?thesis using demo_line_parse parsecmd_strings[OF demo_line_parse, of 7 4] by simp
qed

text \<open>
  (C33) The parser always returns: it gives a command or stops with a message, for every text.
\<close>

theorem parsecmd_returns: "parsecmd buf \<noteq> Diverge"
proof -
  let ?s = "takeWhile (\<lambda>x. x \<noteq> NUL) buf"
  have "parseline (4 * length ?s + 4) ?s \<noteq> Diverge" by (rule parse_returns) simp
  then show ?thesis by (cases "parseline (4 * length ?s + 4) ?s") (auto simp: parsecmd_def Let_def split: if_splits)
qed

end
