(* ===== verification/Sh_Print.thy ===== *)
theory Sh_Print
  imports Sh_Parse
begin

text \<open>
  A printer for the commands of the shell, and that the parser inverts it. The printer puts in the
  parentheses that the grammar needs at each of its four levels: a command with redirections (0), a
  pipe (1), background commands (2) and a list (3).
\<close>

subsection \<open>Printing\<close>

definition paren :: "bool \<Rightarrow> string \<Rightarrow> string" where
  "paren b t = (if b then ''('' @ t @ '')'' else t)"

definition words_text :: "string list \<Rightarrow> string" where
  "words_text as = concat (map (\<lambda>w. w @ [CHR 0x20]) as)"

definition redir_text :: "string \<times> int \<times> int \<Rightarrow> string" where
  "redir_text r = (if fst (snd r) = 0 then ''<'' else ''>'') @ fst r @ [CHR 0x20]"

fun show_cmd :: "nat \<Rightarrow> string cmd \<Rightarrow> string" where
  "show_cmd lv (Execcmd as) = words_text as"
| "show_cmd lv (Redircmd c f m d) = show_cmd 0 c @ redir_text (f, m, d)"
| "show_cmd lv (Pipecmd l r) = paren (lv < 1) (show_cmd 0 l @ ''|'' @ show_cmd 1 r)"
| "show_cmd lv (Backcmd c) = paren (lv < 2) (show_cmd 2 c @ ''&'')"
| "show_cmd lv (Listcmd l r) = paren (lv < 3) (show_cmd 2 l @ '';'' @ show_cmd 3 r)"

definition is_word :: "string \<Rightarrow> bool" where
  "is_word w \<longleftrightarrow> w \<noteq> [] \<and> (\<forall>c\<in>set w. word_char c \<and> c \<noteq> NUL)"

definition is_redir :: "string \<times> int \<times> int \<Rightarrow> bool" where
  "is_redir r \<longleftrightarrow> is_word (fst r) \<and> (snd r = (0, 0) \<or> snd r = (513, 1))"

fun wf_cmd :: "string cmd \<Rightarrow> bool" where
  "wf_cmd (Execcmd as) \<longleftrightarrow> length as < MAXARGS \<and> (\<forall>w\<in>set as. is_word w)"
| "wf_cmd (Redircmd c f m d) \<longleftrightarrow> wf_cmd c \<and> is_redir (f, m, d)"
| "wf_cmd (Pipecmd l r) \<longleftrightarrow> wf_cmd l \<and> wf_cmd r"
| "wf_cmd (Backcmd c) \<longleftrightarrow> wf_cmd c"
| "wf_cmd (Listcmd l r) \<longleftrightarrow> wf_cmd l \<and> wf_cmd r"

subsection \<open>Blanks\<close>

lemma skip_skip [simp]: "skip (skip s) = skip s"
  by (cases "skip s") (auto simp: skip_def dropWhile_eq_Cons_conv)

lemma skip_blank [simp]: "skip (CHR 0x20 # s) = skip s"
  by (simp add: skip_def whitespace_def)

lemma skip_Nil [simp]: "skip [] = []"
  by (simp add: skip_def)

lemma skip_nonblank: "c \<notin> set whitespace \<Longrightarrow> skip (c # s) = c # s"
  by (simp add: skip_def)

lemma skip_symbol [simp]:
  "skip (CHR ''|'' # s) = CHR ''|'' # s" "skip (CHR ''&'' # s) = CHR ''&'' # s" "skip (CHR '';'' # s) = CHR '';'' # s"
  "skip (CHR ''('' # s) = CHR ''('' # s" "skip (CHR '')'' # s) = CHR '')'' # s" "skip (CHR ''<'' # s) = CHR ''<'' # s" "skip (CHR ''>'' # s) = CHR ''>'' # s"
  by (simp_all add: skip_def whitespace_def)

lemma peek_skip [simp]: "peek (skip s) ts = peek s ts"
  by (simp add: peek_def)

lemma gettoken_skip [simp]: "gettoken (skip s) = gettoken s"
  unfolding gettoken_def by (simp only: skip_skip)

lemma parseredirs_skip [simp]: "parseredirs c (skip s) = parseredirs c s"
  by (simp add: parseredirs.simps[of c s] parseredirs.simps[of c "skip s"])

lemma exec_loop_skip [simp]: "exec_loop a c (skip s) = exec_loop a c s"
  by (simp add: exec_loop.simps[of a c s] exec_loop.simps[of a c "skip s"])

lemma backs_skip [simp]: "backs c (skip s) = backs c s"
  by (simp add: backs.simps[of c s] backs.simps[of c "skip s"] after_token_def)

lemma parse_skip [simp]:
  "parseexec n (skip s) = parseexec n s" "parsepipe n (skip s) = parsepipe n s" "parseline n (skip s) = parseline n s"
proof -
  show e: "parseexec n (skip s) = parseexec n s" for n by (cases n) simp_all
  show p: "parsepipe n (skip s) = parsepipe n s" for n by (cases n) (simp_all add: e)
  show "parseline n (skip s) = parseline n s" by (cases n) (simp_all add: p)
qed

lemma after_symbol [simp]:
  "after_token (CHR ''|'' # s) = skip s" "after_token (CHR ''&'' # s) = skip s" "after_token (CHR '';'' # s) = skip s"
  "after_token (CHR ''('' # s) = skip s" "after_token (CHR '')'' # s) = skip s"
  by (simp_all add: after_token_def gettoken_def)

lemma peek_symbol [simp]:
  "snd (peek (CHR ''|'' # s) ts) \<longleftrightarrow> CHR ''|'' \<in> set ts" "snd (peek (CHR ''&'' # s) ts) \<longleftrightarrow> CHR ''&'' \<in> set ts"
  "snd (peek (CHR '';'' # s) ts) \<longleftrightarrow> CHR '';'' \<in> set ts" "snd (peek (CHR ''('' # s) ts) \<longleftrightarrow> CHR ''('' \<in> set ts"
  "snd (peek (CHR '')'' # s) ts) \<longleftrightarrow> CHR '')'' \<in> set ts" "snd (peek (CHR ''<'' # s) ts) \<longleftrightarrow> CHR ''<'' \<in> set ts"
  "snd (peek (CHR ''>'' # s) ts) \<longleftrightarrow> CHR ''>'' \<in> set ts"
  by (simp_all add: peek_def)

lemma is_wordE:
  assumes "is_word w"
  obtains c v where "w = c # v" "word_char c" "c \<notin> set whitespace"
  using assms by (cases w) (auto simp: is_word_def word_char_def)

lemma skip_word: "is_word w \<Longrightarrow> skip (w @ s) = w @ s"
  by (erule is_wordE) (simp add: skip_nonblank)

lemma peek_word: "is_word w \<Longrightarrow> set ts \<subseteq> set symbols \<Longrightarrow> \<not> snd (peek (w @ s) ts)"
  by (erule is_wordE) (auto simp: peek_def skip_nonblank word_char_def)

lemma gettoken_blank:
  assumes "is_word w"
  shows "gettoken (w @ CHR 0x20 # s) = (CHR ''a'', (length (w @ CHR 0x20 # s), length (CHR 0x20 # s)), skip s)"
proof -
  obtain c v where w: "w = c # v" "word_char c" "c \<notin> set whitespace" using assms by (rule is_wordE)
  have b: "\<not> word_char (CHR 0x20)" by (simp add: word_char_def whitespace_def)
  have "dropWhile word_char (w @ CHR 0x20 # s) = CHR 0x20 # s"
    using assms b by (subst dropWhile_append2) (auto simp: is_word_def)
  then show ?thesis using gettoken_word[of "w @ CHR 0x20 # s" c "v @ CHR 0x20 # s"] w by (simp add: skip_nonblank)
qed

subsection \<open>Redirections and arguments\<close>

definition wrap :: "'a cmd \<Rightarrow> 'a \<times> int \<times> int \<Rightarrow> 'a cmd" where
  "wrap c r = Redircmd c (fst r) (fst (snd r)) (snd (snd r))"

definition redirs_text :: "(string \<times> int \<times> int) list \<Rightarrow> string" where
  "redirs_text rs = concat (map redir_text rs)"

lemma suffix_tail: "suffix (a @ b) c \<Longrightarrow> suffix b c"
  by (auto simp: suffix_def)

lemma parseredirs_one:
  assumes r: "is_redir r" and s: "suffix (redir_text r @ t) full"
  shows "\<exists>f. parseredirs c (redir_text r @ t) = parseredirs (Redircmd c f (fst (snd r)) (snd (snd r))) t \<and> word_at full f = fst r"
proof -
  obtain w m d where rr: "r = (w, m, d)" and w: "is_word w" and md: "(m, d) = (0, 0) \<or> (m, d) = (513, 1)"
    using r by (cases r) (auto simp: is_redir_def)
  let ?op = "if m = 0 then CHR ''<'' else CHR ''>''"
  let ?f = "(length (w @ CHR 0x20 # t), length (CHR 0x20 # t))"
  have tx: "redir_text r @ t = ?op # w @ CHR 0x20 # t" by (simp add: redir_text_def rr)
  obtain x v where x: "w = x # v" "word_char x" using w by (rule is_wordE)
  have nx: "x \<noteq> CHR ''>''" using x(2) by (auto simp: word_char_def symbols_def)
  have g: "\<exists>qe. gettoken (?op # w @ CHR 0x20 # t) = (?op, qe, w @ CHR 0x20 # t)"
    using x nx skip_word[OF w, of "CHR 0x20 # t"] by (simp add: gettoken_def Let_def)
  have "suffix (w @ CHR 0x20 # t) full" using s unfolding tx by (rule suffix_ConsD)
  then have "word_at full ?f = w" by (rule word_of_suffix)
  moreover have "parseredirs c (redir_text r @ t) = parseredirs (Redircmd c ?f m d) t"
    using g md unfolding tx by (subst parseredirs.simps) (auto simp: gettoken_blank[OF w] redirect_def)
  ultimately show ?thesis by (intro exI[of _ ?f]) (simp add: rr)
qed

lemma parseredirs_show:
  assumes "\<forall>r\<in>set rs. is_redir r" and "\<not> snd (peek k ''<>'')" and "suffix (redirs_text rs @ k) full"
  shows "\<exists>c'. parseredirs c (redirs_text rs @ k) = Ret (c', skip k) \<and> map_cmd (word_at full) c' = foldl wrap (map_cmd (word_at full) c) rs"
  using assms
proof (induction rs arbitrary: c)
  case Nil
  then show ?case by (simp add: redirs_text_def parseredirs.simps[of c k])
next
  case (Cons r rs)
  have t: "redirs_text (r # rs) @ k = redir_text r @ redirs_text rs @ k" by (simp add: redirs_text_def)
  obtain f where f: "parseredirs c (redirs_text (r # rs) @ k) = parseredirs (Redircmd c f (fst (snd r)) (snd (snd r))) (redirs_text rs @ k)" "word_at full f = fst r"
    using parseredirs_one[of r "redirs_text rs @ k" full c] Cons.prems(1,3) unfolding t by auto
  have "suffix (redirs_text rs @ k) full" using Cons.prems(3) unfolding t by (rule suffix_tail)
  from Cons.IH[OF _ Cons.prems(2) this, of "Redircmd c f (fst (snd r)) (snd (snd r))"] show ?case
    using Cons.prems(1) f by (simp add: wrap_def)
qed

lemma map_add_arg: "map_cmd F (add_arg a c) = add_arg (F a) (map_cmd F c)"
  by (induction a c rule: add_arg.induct) auto

text \<open>What may follow a command: nothing but blanks, or one of some symbols.\<close>

definition stops :: "string \<Rightarrow> string \<Rightarrow> bool" where
  "stops ts k \<longleftrightarrow> skip k = [] \<or> hd (skip k) \<in> set ts"

lemma stops_peek: "stops ts k \<Longrightarrow> set ts \<inter> set us = {} \<Longrightarrow> \<not> snd (peek k us)"
  by (auto simp: stops_def peek_def)

lemma exec_loop_end:
  assumes "stops ''|)&;'' k"
  shows "exec_loop a c k = Ret (c, skip k)"
proof (cases "skip k")
  case Nil
  then show ?thesis by (simp add: exec_loop.simps[of a c k] peek_def gettoken_def)
next
  case (Cons x r)
  then show ?thesis using assms by (simp add: exec_loop.simps[of a c k] peek_def stops_def)
qed

lemma exec_loop_show:
  assumes "\<forall>w\<in>set as. is_word w" and "\<forall>r\<in>set rs. is_redir r" and "a + length as < MAXARGS" and "stops ''|)&;'' k"
    and "suffix (words_text as @ redirs_text rs @ k) full" and "as \<noteq> []"
  shows "\<exists>c'. exec_loop a c (words_text as @ redirs_text rs @ k) = Ret (c', skip k) \<and>
    map_cmd (word_at full) c' = foldl wrap (fold add_arg as (map_cmd (word_at full) c)) rs"
  using assms
proof (induction as arbitrary: a c)
  case (Cons w as)
  let ?t = "words_text as @ redirs_text rs @ k"
  have tx: "words_text (w # as) @ redirs_text rs @ k = w @ CHR 0x20 # ?t" by (simp add: words_text_def)
  have w: "is_word w" using Cons.prems(1) by simp
  let ?f = "(length (w @ CHR 0x20 # ?t), length (CHR 0x20 # ?t))"
  have sf: "suffix (w @ CHR 0x20 # ?t) full" using Cons.prems(5) unfolding tx .
  then have f: "word_at full ?f = w" by (rule word_of_suffix)
  have st: "suffix ?t full" using sf by (rule suffix_ConsD[OF suffix_tail])
  have e: "exec_loop a c (w @ CHR 0x20 # ?t) = obind (parseredirs (add_arg ?f c) ?t) (\<lambda>(c1, s1). exec_loop (a + 1) c1 s1)"
    using peek_word[OF w, of "''|)&;''" "CHR 0x20 # ?t"] Cons.prems(3)
    by (subst exec_loop.simps) (simp add: gettoken_blank[OF w] symbols_def NUL_def)
  show ?case
  proof (cases as)
    case Nil
    have nr: "\<not> snd (peek k ''<>'')" by (rule stops_peek[OF Cons.prems(4)]) simp
    obtain c' where c': "parseredirs (add_arg ?f c) (redirs_text rs @ k) = Ret (c', skip k)"
      "map_cmd (word_at full) c' = foldl wrap (map_cmd (word_at full) (add_arg ?f c)) rs"
      using parseredirs_show[OF Cons.prems(2) nr, of full "add_arg ?f c"] st Nil by (auto simp: words_text_def)
    have "exec_loop a c (words_text (w # as) @ redirs_text rs @ k) = Ret (c', skip k)"
      unfolding tx e using Nil c'(1) exec_loop_end[OF Cons.prems(4)] by (simp add: words_text_def)
    then show ?thesis using c'(2) Nil f by (simp add: map_add_arg)
  next
    case (Cons v vs)
    have v: "is_word v" using Cons.prems(1) Cons by simp
    have t: "?t = v @ CHR 0x20 # words_text vs @ redirs_text rs @ k" using Cons by (simp add: words_text_def)
    have "parseredirs (add_arg ?f c) ?t = Ret (add_arg ?f c, skip ?t)"
      using peek_word[OF v, of "''<>''"] unfolding t by (subst parseredirs.simps) (simp add: symbols_def)
    then have e2: "exec_loop a c (words_text (w # as) @ redirs_text rs @ k) = exec_loop (a + 1) (add_arg ?f c) ?t"
      unfolding tx e by simp
    have "\<exists>c'. exec_loop (a + 1) (add_arg ?f c) ?t = Ret (c', skip k) \<and>
        map_cmd (word_at full) c' = foldl wrap (fold add_arg as (map_cmd (word_at full) (add_arg ?f c))) rs"
      by (rule Cons.IH) (use Cons.prems Cons st in auto)
    then show ?thesis unfolding e2 using f by (simp add: map_add_arg)
  qed
qed simp

subsection \<open>Parsing what was printed\<close>

text \<open>What each of the four parsers makes of a printed command, followed by a text \<open>k\<close> where it stops.\<close>

definition reads_exec :: "string cmd \<Rightarrow> string \<Rightarrow> bool" where
  "reads_exec c t \<longleftrightarrow> (\<forall>n rs k full. (\<forall>r\<in>set rs. is_redir r) \<longrightarrow> stops ''|)&;'' k \<longrightarrow> 4 * length (t @ redirs_text rs @ k) + 2 \<le> n \<longrightarrow>
     suffix (t @ redirs_text rs @ k) full \<longrightarrow>
     (\<exists>pc. parseexec n (t @ redirs_text rs @ k) = Ret (pc, skip k) \<and> map_cmd (word_at full) pc = foldl wrap c rs))"

definition reads_pipe :: "string cmd \<Rightarrow> string \<Rightarrow> bool" where
  "reads_pipe c t \<longleftrightarrow> (\<forall>n k full. stops '')&;'' k \<longrightarrow> 4 * length (t @ k) + 3 \<le> n \<longrightarrow> suffix (t @ k) full \<longrightarrow>
     (\<exists>pc. parsepipe n (t @ k) = Ret (pc, skip k) \<and> map_cmd (word_at full) pc = c))"

definition reads_back :: "string cmd \<Rightarrow> string \<Rightarrow> bool" where
  "reads_back c t \<longleftrightarrow> (\<forall>n k full. stops '')&;'' k \<longrightarrow> 4 * length (t @ k) + 3 \<le> n \<longrightarrow> suffix (t @ k) full \<longrightarrow>
     (\<exists>pc0 s0 pc. parsepipe n (t @ k) = Ret (pc0, s0) \<and> backs pc0 s0 = backs pc k \<and> map_cmd (word_at full) pc = c))"

definition reads_line :: "string cmd \<Rightarrow> string \<Rightarrow> bool" where
  "reads_line c t \<longleftrightarrow> (\<forall>n k full. stops '')'' k \<longrightarrow> 4 * length (t @ k) + 4 \<le> n \<longrightarrow> suffix (t @ k) full \<longrightarrow>
     (\<exists>pc. parseline n (t @ k) = Ret (pc, skip k) \<and> map_cmd (word_at full) pc = c))"

lemma stops_mono: "stops ts k \<Longrightarrow> set ts \<subseteq> set us \<Longrightarrow> stops us k"
  by (auto simp: stops_def)

lemma stops_symbol [simp]:
  "stops ts (CHR ''|'' # k) \<longleftrightarrow> CHR ''|'' \<in> set ts" "stops ts (CHR ''&'' # k) \<longleftrightarrow> CHR ''&'' \<in> set ts"
  "stops ts (CHR '';'' # k) \<longleftrightarrow> CHR '';'' \<in> set ts" "stops ts (CHR '')'' # k) \<longleftrightarrow> CHR '')'' \<in> set ts"
  by (simp_all add: stops_def)

lemma exec_pipe: "reads_exec c t \<Longrightarrow> reads_pipe c t"
  unfolding reads_pipe_def
proof (intro allI impI)
  fix n k full assume r: "reads_exec c t" and k: "stops '')&;'' k" and n: "4 * length (t @ k) + 3 \<le> n" and s: "suffix (t @ k) full"
  then obtain m where m: "n = Suc m" "4 * length (t @ k) + 2 \<le> m" by (cases n) auto
  have k2: "stops ''|)&;'' k" by (rule stops_mono[OF k]) auto
  obtain pc where pc: "parseexec m (t @ k) = Ret (pc, skip k)" "map_cmd (word_at full) pc = c"
    using r[unfolded reads_exec_def, rule_format, of "[]" k m full] k2 m(2) s by (auto simp: redirs_text_def)
  have "\<not> snd (peek k ''|'')" by (rule stops_peek[OF k]) simp
  then show "\<exists>pc. parsepipe n (t @ k) = Ret (pc, skip k) \<and> map_cmd (word_at full) pc = c" using pc m(1) by simp
qed

lemma pipe_back: "reads_pipe c t \<Longrightarrow> reads_back c t"
  unfolding reads_pipe_def reads_back_def by (metis backs_skip)

lemma back_line: "reads_back c t \<Longrightarrow> reads_line c t"
  unfolding reads_line_def
proof (intro allI impI)
  fix n k full assume r: "reads_back c t" and k: "stops '')'' k" and n: "4 * length (t @ k) + 4 \<le> n" and s: "suffix (t @ k) full"
  then obtain m where m: "n = Suc m" "4 * length (t @ k) + 3 \<le> m" by (cases n) auto
  have k2: "stops '')&;'' k" by (rule stops_mono[OF k]) auto
  obtain pc0 s0 pc where pc: "parsepipe m (t @ k) = Ret (pc0, s0)" "backs pc0 s0 = backs pc k" "map_cmd (word_at full) pc = c"
    using r[unfolded reads_back_def, rule_format, OF k2 m(2) s] by auto
  have "\<not> snd (peek k ''&'')" "\<not> snd (peek k '';'')" by (rule stops_peek[OF k], simp)+
  then show "\<exists>pc. parseline n (t @ k) = Ret (pc, skip k) \<and> map_cmd (word_at full) pc = c"
    using pc m(1) by (simp add: backs.simps[of pc k])
qed

text \<open>A command in parentheses.\<close>

lemma line_exec:
  assumes r: "reads_line c t"
  shows "reads_exec c (''('' @ t @ '')'')"
  unfolding reads_exec_def
proof (intro allI impI)
  fix n rs k full
  let ?u = "redirs_text rs @ k"
  assume rs: "\<forall>r\<in>set rs. is_redir r" and k: "stops ''|)&;'' k" and n: "4 * length ((''('' @ t @ '')'') @ ?u) + 2 \<le> n"
    and s: "suffix ((''('' @ t @ '')'') @ ?u) full"
  define m where "m = n - 2"
  have m: "n = Suc (Suc m)" "4 * length (t @ '')'' @ ?u) + 4 \<le> m" using n by (auto simp: m_def)
  have s1: "suffix (t @ '')'' @ ?u) full" using s by (metis append_assoc suffix_tail)
  then have s2: "suffix ?u full" by (metis suffix_tail)
  obtain pc where pc: "parseline m (t @ '')'' @ ?u) = Ret (pc, CHR '')'' # ?u)" "map_cmd (word_at full) pc = c"
    using r[unfolded reads_line_def, rule_format, OF _ m(2) s1] by auto
  obtain c' where c': "parseredirs pc ?u = Ret (c', skip k)" "map_cmd (word_at full) c' = foldl wrap c rs"
    using parseredirs_show[OF rs stops_peek[OF k, of "''<>''"] s2, of pc] pc(2) by auto
  have "parseexec n ((''('' @ t @ '')'') @ ?u) = Ret (c', skip k)" using pc(1) c'(1) by (simp add: m(1))
  then show "\<exists>pc. parseexec n ((''('' @ t @ '')'') @ ?u) = Ret (pc, skip k) \<and> map_cmd (word_at full) pc = foldl wrap c rs"
    using c'(2) by blast
qed

lemma reads_simple:
  assumes "length as < MAXARGS" and "\<forall>w\<in>set as. is_word w"
  shows "reads_exec (Execcmd as) (words_text as)"
  unfolding reads_exec_def
proof (intro allI impI)
  fix n rs k full
  let ?t = "words_text as @ redirs_text rs @ k"
  assume rs: "\<forall>r\<in>set rs. is_redir r" and k: "stops ''|)&;'' k" and n: "4 * length ?t + 2 \<le> n" and s: "suffix ?t full"
  obtain m where m: "n = Suc m" using n by (cases n) auto
  have fa: "fold add_arg l (Execcmd pre) = Execcmd (pre @ l)" for l pre :: "string list" by (induction l arbitrary: pre) auto
  show "\<exists>pc. parseexec n ?t = Ret (pc, skip k) \<and> map_cmd (word_at full) pc = foldl wrap (Execcmd as) rs"
  proof (cases as)
    case Nil
    then have t: "?t = redirs_text rs @ k" by (simp add: words_text_def)
    have np: "\<not> snd (peek ?t ''('')"
    proof (cases rs)
      case Nil
      then show ?thesis unfolding t using stops_peek[OF k, of "''(''"] by (simp add: redirs_text_def)
    qed (unfold t, simp add: redirs_text_def redir_text_def)
    obtain c' where c': "parseredirs (Execcmd []) (redirs_text rs @ k) = Ret (c', skip k)"
      "map_cmd (word_at full) c' = foldl wrap (map_cmd (word_at full) (Execcmd [])) rs"
      using parseredirs_show[OF rs stops_peek[OF k, of "''<>''"], of full "Execcmd []"] s t by auto
    then show ?thesis using np m Nil exec_loop_end[OF k] unfolding t by simp
  next
    case (Cons w ws)
    then have w: "is_word w" and t: "?t = w @ CHR 0x20 # words_text ws @ redirs_text rs @ k" using assms(2) by (simp_all add: words_text_def)
    have np: "\<not> snd (peek ?t ''('')" "\<not> snd (peek ?t ''<>'')" unfolding t by (rule peek_word[OF w], simp add: symbols_def)+
    obtain c' where c': "exec_loop 0 (Execcmd []) ?t = Ret (c', skip k)"
      "map_cmd (word_at full) c' = foldl wrap (fold add_arg as (map_cmd (word_at full) (Execcmd []))) rs"
      using exec_loop_show[OF assms(2) rs _ k s, of 0 "Execcmd []"] assms(1) Cons by auto
    have "parseredirs (Execcmd []) ?t = Ret (Execcmd [], skip ?t)" using np(2) by (subst parseredirs.simps) simp
    then have "parseexec n ?t = Ret (c', skip k)" using np(1) m c'(1) by simp
    then show ?thesis using c'(2) fa[of as "[]"] by simp
  qed
qed

lemma reads_redir:
  assumes "reads_exec c t" and "is_redir (f, m, d)"
  shows "reads_exec (Redircmd c f m d) (t @ redir_text (f, m, d))"
  unfolding reads_exec_def
proof (intro allI impI)
  fix n rs k full
  assume a: "\<forall>r\<in>set rs. is_redir r" "stops ''|)&;'' k" "4 * length ((t @ redir_text (f, m, d)) @ redirs_text rs @ k) + 2 \<le> n"
    "suffix ((t @ redir_text (f, m, d)) @ redirs_text rs @ k) full"
  have t: "(t @ redir_text (f, m, d)) @ redirs_text rs @ k = t @ redirs_text ((f, m, d) # rs) @ k" by (simp add: redirs_text_def)
  have "\<forall>r\<in>set ((f, m, d) # rs). is_redir r" using assms(2) a(1) by simp
  from assms(1)[unfolded reads_exec_def, rule_format, OF bspec[OF this] a(2) a(3)[unfolded t] a(4)[unfolded t]]
  show "\<exists>pc. parseexec n ((t @ redir_text (f, m, d)) @ redirs_text rs @ k) = Ret (pc, skip k) \<and>
      map_cmd (word_at full) pc = foldl wrap (Redircmd c f m d) rs"
    unfolding t by (simp add: wrap_def)
qed

lemma reads_Pipecmd:
  assumes l: "reads_exec l t" and r: "reads_pipe r u"
  shows "reads_pipe (Pipecmd l r) (t @ ''|'' @ u)"
  unfolding reads_pipe_def
proof (intro allI impI)
  fix n k full assume k: "stops '')&;'' k" and n: "4 * length ((t @ ''|'' @ u) @ k) + 3 \<le> n" and s: "suffix ((t @ ''|'' @ u) @ k) full"
  obtain m where m: "n = Suc m" using n by (cases n) auto
  have s': "suffix (t @ CHR ''|'' # u @ k) full" using s by simp
  have su: "suffix (u @ k) full" using suffix_ConsD[OF suffix_tail[OF s']] .
  obtain pl where pl: "parseexec m (t @ CHR ''|'' # u @ k) = Ret (pl, CHR ''|'' # u @ k)" "map_cmd (word_at full) pl = l"
    using l[unfolded reads_exec_def, rule_format, of "[]" "CHR ''|'' # u @ k" m full] n m s' by (auto simp: redirs_text_def)
  obtain pr where pr: "parsepipe m (u @ k) = Ret (pr, skip k)" "map_cmd (word_at full) pr = r"
    using r[unfolded reads_pipe_def, rule_format, OF k _ su, of m] n m by auto
  show "\<exists>pc. parsepipe n ((t @ ''|'' @ u) @ k) = Ret (pc, skip k) \<and> map_cmd (word_at full) pc = Pipecmd l r"
    using pl pr m by (intro exI[of _ "Pipecmd pl pr"]) simp
qed

lemma reads_Backcmd:
  assumes c: "reads_back c t"
  shows "reads_back (Backcmd c) (t @ ''&'')"
  unfolding reads_back_def
proof (intro allI impI)
  fix n k full assume k: "stops '')&;'' k" and n: "4 * length ((t @ ''&'') @ k) + 3 \<le> n" and s: "suffix ((t @ ''&'') @ k) full"
  obtain pc0 s0 pc where p: "parsepipe n (t @ CHR ''&'' # k) = Ret (pc0, s0)" "backs pc0 s0 = backs pc (CHR ''&'' # k)" "map_cmd (word_at full) pc = c"
    using c[unfolded reads_back_def, rule_format, of "CHR ''&'' # k" n full] n s by auto
  have "backs pc (CHR ''&'' # k) = backs (Backcmd pc) k" by (simp add: backs.simps[of pc "CHR ''&'' # k"])
  then show "\<exists>pc0 s0 pc. parsepipe n ((t @ ''&'') @ k) = Ret (pc0, s0) \<and> backs pc0 s0 = backs pc k \<and> map_cmd (word_at full) pc = Backcmd c"
    using p by (intro exI[of _ pc0] exI[of _ s0] exI[of _ "Backcmd pc"]) simp
qed

lemma reads_Listcmd:
  assumes l: "reads_back l t" and r: "reads_line r u"
  shows "reads_line (Listcmd l r) (t @ '';'' @ u)"
  unfolding reads_line_def
proof (intro allI impI)
  fix n k full assume k: "stops '')'' k" and n: "4 * length ((t @ '';'' @ u) @ k) + 4 \<le> n" and s: "suffix ((t @ '';'' @ u) @ k) full"
  obtain m where m: "n = Suc m" using n by (cases n) auto
  have s': "suffix (t @ CHR '';'' # u @ k) full" using s by simp
  have su: "suffix (u @ k) full" using suffix_ConsD[OF suffix_tail[OF s']] .
  obtain pc0 s0 pl where pl: "parsepipe m (t @ CHR '';'' # u @ k) = Ret (pc0, s0)" "backs pc0 s0 = backs pl (CHR '';'' # u @ k)" "map_cmd (word_at full) pl = l"
    using l[unfolded reads_back_def, rule_format, of "CHR '';'' # u @ k" m full] n m s' by auto
  have b: "backs pl (CHR '';'' # u @ k) = (pl, CHR '';'' # u @ k)" by (simp add: backs.simps[of pl "CHR '';'' # u @ k"])
  obtain pr where pr: "parseline m (u @ k) = Ret (pr, skip k)" "map_cmd (word_at full) pr = r"
    using r[unfolded reads_line_def, rule_format, OF k _ su, of m] n m by auto
  show "\<exists>pc. parseline n ((t @ '';'' @ u) @ k) = Ret (pc, skip k) \<and> map_cmd (word_at full) pc = Listcmd l r"
    using pl pr b m by (intro exI[of _ "Listcmd pl pr"]) simp
qed

lemmas reads_up = exec_pipe pipe_back back_line

lemma show_reads:
  "wf_cmd c \<Longrightarrow> reads_exec c (show_cmd 0 c) \<and> reads_pipe c (show_cmd 1 c) \<and> reads_back c (show_cmd 2 c) \<and> reads_line c (show_cmd 3 c)"
proof (induction c)
  case (Execcmd as)
  then have "reads_exec (Execcmd as) (words_text as)" by (intro reads_simple) auto
  then show ?case by (auto intro: reads_up)
next
  case (Redircmd c f m d)
  then have "reads_exec (Redircmd c f m d) (show_cmd 0 c @ redir_text (f, m, d))" by (intro reads_redir) auto
  then show ?case by (auto intro: reads_up)
next
  case (Pipecmd l r)
  then have p: "reads_pipe (Pipecmd l r) (show_cmd 1 (Pipecmd l r))" using reads_Pipecmd[of l "show_cmd 0 l" r "show_cmd 1 r"] by (simp add: paren_def)
  then have "reads_exec (Pipecmd l r) (show_cmd 0 (Pipecmd l r))"
    using line_exec[OF back_line[OF pipe_back[OF p]]] by (simp add: paren_def)
  then show ?case using p pipe_back[OF p] back_line[OF pipe_back[OF p]] by (simp add: paren_def)
next
  case (Listcmd l r)
  then have p: "reads_line (Listcmd l r) (show_cmd 3 (Listcmd l r))" using reads_Listcmd[of l "show_cmd 2 l" r "show_cmd 3 r"] by (simp add: paren_def)
  then have e: "reads_exec (Listcmd l r) (show_cmd 0 (Listcmd l r))" using line_exec[OF p] by (simp add: paren_def)
  then show ?case using p exec_pipe[OF e] pipe_back[OF exec_pipe[OF e]] by (simp add: paren_def)
next
  case (Backcmd c)
  then have p: "reads_back (Backcmd c) (show_cmd 2 (Backcmd c))" using reads_Backcmd[of c "show_cmd 2 c"] by (simp add: paren_def)
  then have e: "reads_exec (Backcmd c) (show_cmd 0 (Backcmd c))" using line_exec[OF back_line[OF p]] by (simp add: paren_def)
  then show ?case using p exec_pipe[OF e] back_line[OF p] by (simp add: paren_def)
qed

lemma show_no_NUL: "wf_cmd c \<Longrightarrow> NUL \<notin> set (show_cmd lv c)"
  by (induction lv c rule: show_cmd.induct)
    (auto simp: paren_def words_text_def redir_text_def is_redir_def is_word_def NUL_def)

text \<open>
  (C31) The parser inverts the printer: for every command whose words are not empty and hold no
  blank, symbol or zero character, with fewer than \<open>MAXARGS\<close> arguments and the redirections that the
  shell knows, parsing its text succeeds, and the tree that it builds, with each pointer read as the
  zero-terminated string that \<open>nulterminate\<close> left there, is the command.
\<close>

theorem parse_print_roundtrip:
  assumes "wf_cmd c"
  shows "\<exists>pc buf. parsecmd (show_cmd 3 c @ [NUL]) = Ret (pc, buf) \<and>
    map_cmd (\<lambda>qe. cstring (length (show_cmd 3 c)) buf (fst qe)) pc = c"
proof -
  let ?s = "show_cmd 3 c" and ?b = "show_cmd 3 c @ [NUL]"
  have tw: "takeWhile (\<lambda>x. x \<noteq> NUL) ?b = ?s" using show_no_NUL[OF assms, of 3] by (subst takeWhile_append2) auto
  have "reads_line c ?s" using show_reads[OF assms] by blast
  from this[unfolded reads_line_def, rule_format, of "[]" "4 * length ?s + 4" ?s]
  obtain pc where pc: "parseline (4 * length ?s + 4) ?s = Ret (pc, [])" "map_cmd (word_at ?s) pc = c" by (auto simp: stops_def)
  have p: "parsecmd ?b = Ret (pc, nulterminate (length ?s) pc ?b)" using pc(1) by (simp add: parsecmd_def tw Let_def)
  have "cstring (length ?s) (nulterminate (length ?s) pc ?b) (fst a) = word_at ?s a" if a: "a \<in> set_cmd pc" for a
  proof -
    have w: "\<forall>a\<in>set (tokens pc). token_at ?s a" using parse_words(1)[OF pc(1) suffix_order.refl] by (simp add: words_in_def set_tokens)
    show ?thesis using token_cstring[OF tw[symmetric] _ w, of "fst a" "snd a"] a by (simp add: nulterminate_fold set_tokens)
  qed
  then have "map_cmd (\<lambda>qe. cstring (length ?s) (nulterminate (length ?s) pc ?b) (fst qe)) pc = map_cmd (word_at ?s) pc"
    by (intro cmd.map_cong0) auto
  then show ?thesis using p pc(2) by auto
qed

theorem parse_print_roundtrip_witness:
  "let c = Listcmd (Backcmd (Pipecmd (Execcmd [''ls'']) (Listcmd (Execcmd [''wc'', ''-l'']) (Execcmd [])))) (Redircmd (Execcmd [''cat'']) ''f'' 0 0)
   in \<exists>pc buf. parsecmd (show_cmd 3 c @ [NUL]) = Ret (pc, buf) \<and> map_cmd (\<lambda>qe. cstring (length (show_cmd 3 c)) buf (fst qe)) pc = c"
  unfolding Let_def
  by (rule parse_print_roundtrip)
    (simp add: MAXARGS_def is_redir_def is_word_def word_char_def whitespace_def symbols_def NUL_def)

end
