(* ===== verification/Magic_Square.thy ===== *)
theory Magic_Square
  imports Prelude
begin

text \<open>
  The magic square generator (my_magic_square.c): the size prompt, the allocation of the square with
  its failure paths, the Siamese method, and the text of the output file. What the library calls
  answer (\<open>scanf\<close>, \<open>malloc\<close>, \<open>fopen\<close>, \<open>fclose\<close>) is a parameter. Integers are unbounded here; with
  \<open>n \<le> 46340\<close>, where \<open>n * n\<close> fits in an \<open>int\<close>, nothing the code computes leaves the 32-bit range.
\<close>

subsection \<open>The program\<close>

record MagicSquare =
  msize :: int
  magic_square :: "int list list"

text \<open>A program exits with what it printed, and the heap blocks it still holds, or goes on.\<close>

datatype ('b, 'a) run = Exit string "'b set" | Go 'a

definition getSize :: "int option \<Rightarrow> (nat, int) run" where
  "getSize inp =
     (case inp of
        None \<Rightarrow> Exit ''Error reading input. '' {}
      | Some n \<Rightarrow>
          (if n < 3 then Exit ''Magic suqure size must be >= 3. '' {}
           else if n smod 2 = 0 then Exit ''Magic squre size must be odd.'' {}
           else Go n))"

definition cell :: "int list list \<Rightarrow> int \<Rightarrow> int \<Rightarrow> int" where
  "cell m i j = m ! nat i ! nat j"

definition set_cell :: "int \<Rightarrow> int \<Rightarrow> int \<Rightarrow> int list list \<Rightarrow> int list list" where
  "set_cell i j v m = m[nat i := (m ! nat i)[nat j := v]]"

text \<open>The loop that places the numbers from \<open>num\<close> on.\<close>

function siamese :: "int \<Rightarrow> int \<Rightarrow> int \<Rightarrow> int \<Rightarrow> int list list \<Rightarrow> int list list" where
  "siamese n num row col m =
     (if num \<le> n * n
      then let m = set_cell row col num m;
               next_row = (row - 1 + n) smod n;
               next_col = (col + 1) smod n;
               (next_row, next_col) = (if cell m next_row next_col \<noteq> 0 then ((row + 1) smod n, col) else (next_row, next_col))
           in siamese n (num + 1) next_row next_col m
      else m)"
  by pat_completeness auto
termination by (relation "measure (\<lambda>(n, num, _). nat (n * n + 1 - num))") auto

declare siamese.simps [simp del]

text \<open>
  The heap blocks: 0 is the structure, 1 the array of rows, \<open>i + 2\<close> row \<open>i\<close>; \<open>ok b\<close> says whether
  \<open>malloc\<close> has memory for block \<open>b\<close>.
\<close>

fun alloc_rows :: "(nat \<Rightarrow> bool) \<Rightarrow> nat \<Rightarrow> nat \<Rightarrow> int list list \<Rightarrow> nat set \<Rightarrow> (nat, int list list \<times> nat set) run" where
  "alloc_rows ok n 0 rows live = Go (rows, live)"
| "alloc_rows ok n (Suc k) rows live =
     (let i = length rows in
      if \<not> ok (i + 2)
      then Exit ''Error allocating memory for magic square columns.'' (((live - (\<lambda>j. j + 2) ` {..<i}) - {1}) - {0})
      else alloc_rows ok n k (rows @ [replicate n 0]) (insert (i + 2) live))"

definition generateMagicSquare :: "(nat \<Rightarrow> bool) \<Rightarrow> int \<Rightarrow> (nat, MagicSquare \<times> nat set) run" where
  "generateMagicSquare ok n =
     (if \<not> ok 0 then Exit ''Error allocating memory for MagicSquare.'' {}
      else if \<not> ok 1 then Exit ''Error allocating memory for magic square rows.'' ({0} - {0})
      else case alloc_rows ok (nat n) (nat n) [] {0, 1} of
             Exit msg live \<Rightarrow> Exit msg live
           | Go (rows, live) \<Rightarrow> Go (\<lparr>msize = n, magic_square = siamese n 1 0 (n sdiv 2) rows\<rparr>, live))"

text \<open>The output file: decimal numbers, commas and newlines.\<close>

fun digits :: "nat \<Rightarrow> string" where
  "digits k = (if k < 10 then [char_of (48 + k)] else digits (k div 10) @ [char_of (48 + k mod 10)])"

declare digits.simps [simp del]

definition print_int :: "int \<Rightarrow> string" where
  "print_int v = (if v < 0 then CHR ''-'' # digits (nat (- v)) else digits (nat v))"

fun print_row :: "int list \<Rightarrow> string" where
  "print_row [] = [CHR 0x0A]"
| "print_row [v] = print_int v @ [CHR 0x0A]"
| "print_row (v # vs) = print_int v @ '','' @ print_row vs"

definition file_lines :: "MagicSquare \<Rightarrow> string list" where
  "file_lines ms = (print_int (msize ms) @ [CHR 0x0A]) # map print_row (magic_square ms)"

definition fileOutputMagicSquare :: "bool \<Rightarrow> bool \<Rightarrow> MagicSquare \<Rightarrow> (nat, string) run" where
  "fileOutputMagicSquare open_ok close_ok ms =
     (if \<not> open_ok then Exit ''Error opening file for writing.'' {}
      else if \<not> close_ok then Exit ''Error closing file.'' {}
      else Go (concat (file_lines ms)))"

text \<open>The main program: what it printed with its status, or the file it wrote; the heap at the end.\<close>

definition magic_main :: "int \<Rightarrow> int option \<Rightarrow> (nat \<Rightarrow> bool) \<Rightarrow> bool \<Rightarrow> bool \<Rightarrow> (nat, string \<times> nat set) run" where
  "magic_main argc inp ok open_ok close_ok =
     (if argc \<noteq> 2 then Exit ''Usage: ./my_magic_square <output_filename>'' {}
      else case getSize inp of
             Exit msg live \<Rightarrow> Exit msg live
           | Go n \<Rightarrow>
               (case generateMagicSquare ok n of
                  Exit msg live \<Rightarrow> Exit msg live
                | Go (ms, live) \<Rightarrow>
                    (case fileOutputMagicSquare open_ok close_ok ms of
                       Exit msg _ \<Rightarrow> Exit msg live
                     | Go text \<Rightarrow> Go (text, ((live - (\<lambda>i. i + 2) ` {..<nat (msize ms)}) - {1}) - {0}))))"

subsection \<open>Where the numbers go\<close>

text \<open>The cell of the number \<open>k + 1\<close>, and the number in a cell.\<close>

definition prow :: "int \<Rightarrow> int \<Rightarrow> int" where "prow n k = (2 * (k div n) - k mod n) mod n"
definition pcol :: "int \<Rightarrow> int \<Rightarrow> int" where "pcol n k = (n div 2 - k div n + k mod n) mod n"
definition idx :: "int \<Rightarrow> int \<Rightarrow> int \<Rightarrow> int" where "idx n i j = (i + j - n div 2) mod n * n + (i + 2 * j + 1) mod n"

lemma odd_half: "odd n \<Longrightarrow> 2 * (n div 2) = n - (1 :: int)"
  by (metis odd_two_times_div_two_succ add_diff_cancel_right')

lemma mod_eqI: "a - b = n * c \<Longrightarrow> a mod n = b mod (n :: int)"
  by (metis add.commute diff_add_cancel mod_mult_self2)

lemma mod_combine:
  fixes a b c n :: int
  shows "(2 * (a mod n) - b mod n) mod n = (2 * a - b) mod n" "(c - a mod n + b mod n) mod n = (c - a + b) mod n"
    "(a mod n + b mod n - c) mod n = (a + b - c) mod n" "(a mod n + 2 * (b mod n) + c) mod n = (a + 2 * b + c) mod n"
proof -
  have d: "a mod n = a - n * (a div n)" "b mod n = b - n * (b div n)" by (simp_all add: minus_mult_div_eq_mod)
  show "(2 * (a mod n) - b mod n) mod n = (2 * a - b) mod n" by (rule mod_eqI[of _ _ _ "b div n - 2 * (a div n)"]) (simp add: d algebra_simps)
  show "(c - a mod n + b mod n) mod n = (c - a + b) mod n" by (rule mod_eqI[of _ _ _ "a div n - b div n"]) (simp add: d algebra_simps)
  show "(a mod n + b mod n - c) mod n = (a + b - c) mod n" by (rule mod_eqI[of _ _ _ "- (a div n) - b div n"]) (simp add: d algebra_simps)
  show "(a mod n + 2 * (b mod n) + c) mod n = (a + 2 * b + c) mod n" by (rule mod_eqI[of _ _ _ "- (a div n) - 2 * (b div n)"]) (simp add: d algebra_simps)
qed

lemma mod_step: "(a mod n - 1 + n) mod n = (a - 1) mod n" "(a mod n + 1) mod n = (a + 1) mod (n :: int)"
proof -
  have d: "a mod n = a - n * (a div n)" by (simp add: minus_mult_div_eq_mod)
  show "(a mod n - 1 + n) mod n = (a - 1) mod n" by (rule mod_eqI[of _ _ _ "1 - a div n"]) (simp add: d algebra_simps)
  show "(a mod n + 1) mod n = (a + 1) mod n" by (rule mod_eqI[of _ _ _ "- (a div n)"]) (simp add: d algebra_simps)
qed

lemma zdiv_less:
  assumes "0 < n" and "k < n * n" shows "k div n < (n :: int)"
proof (rule ccontr)
  assume "\<not> ?thesis"
  then have "n * n \<le> n * (k div n)" using assms(1) by simp
  also have "\<dots> \<le> k" using assms(1) mult_div_mod_eq[of n k] pos_mod_sign[of n k] by linarith
  finally show False using assms(2) by simp
qed

lemma idx_range:
  assumes "0 < n" shows "0 \<le> idx n i j" and "idx n i j < n * n"
proof -
  let ?q = "(i + j - n div 2) mod n" and ?r = "(i + 2 * j + 1) mod n"
  have b: "0 \<le> ?q" "?q \<le> n - 1" "0 \<le> ?r" "?r < n" using assms pos_mod_bound[of n "i + j - n div 2"] by simp_all
  show "0 \<le> idx n i j" using b assms by (simp add: idx_def)
  have "?q * n \<le> (n - 1) * n" using b assms by (intro mult_right_mono) simp_all
  then show "idx n i j < n * n" using b(4) unfolding idx_def by (simp add: algebra_simps)
qed

lemma idx_split:
  assumes "0 < n" shows "idx n i j div n = (i + j - n div 2) mod n" and "idx n i j mod n = (i + 2 * j + 1) mod n"
proof -
  have "(i + 2 * j + 1) mod n div n = 0" using assms by simp
  then show "idx n i j div n = (i + j - n div 2) mod n" using assms by (simp add: idx_def div_mult_self3)
  show "idx n i j mod n = (i + 2 * j + 1) mod n" by (simp add: idx_def)
qed

lemma place_idx:
  assumes "0 < n" and "odd n" and "0 \<le> i" "i < n" "0 \<le> j" "j < n"
  shows "prow n (idx n i j) = i" and "pcol n (idx n i j) = j"
proof -
  note h = odd_half[OF assms(2)]
  have "prow n (idx n i j) = (2 * (i + j - n div 2) - (i + 2 * j + 1)) mod n" unfolding prow_def idx_split[OF assms(1)] by (rule mod_combine(1))
  also have "2 * (i + j - n div 2) - (i + 2 * j + 1) = i - n" using h by simp
  also have "(i - n) mod n = i" using assms by simp
  finally show "prow n (idx n i j) = i" .
  have "pcol n (idx n i j) = (n div 2 - (i + j - n div 2) + (i + 2 * j + 1)) mod n" unfolding pcol_def idx_split[OF assms(1)] by (rule mod_combine(2))
  also have "n div 2 - (i + j - n div 2) + (i + 2 * j + 1) = j + n" using h by simp
  also have "(j + n) mod n = j" using assms by simp
  finally show "pcol n (idx n i j) = j" .
qed

lemma idx_place:
  assumes "0 < n" and "odd n" and "0 \<le> k" and "k < n * n"
  shows "idx n (prow n k) (pcol n k) = k"
proof -
  note h = odd_half[OF assms(2)]
  let ?q = "k div n" and ?r = "k mod n"
  have q: "0 \<le> ?q" "?q < n" using assms by (simp_all add: pos_imp_zdiv_nonneg_iff zdiv_less)
  have "(prow n k + pcol n k - n div 2) mod n = (2 * ?q - ?r + (n div 2 - ?q + ?r) - n div 2) mod n" unfolding prow_def pcol_def by (rule mod_combine(3))
  then have a: "(prow n k + pcol n k - n div 2) mod n = ?q" using q by simp
  have "(prow n k + 2 * pcol n k + 1) mod n = (2 * ?q - ?r + 2 * (n div 2 - ?q + ?r) + 1) mod n" unfolding prow_def pcol_def by (rule mod_combine(4))
  also have "2 * ?q - ?r + 2 * (n div 2 - ?q + ?r) + 1 = ?r + n" using h by simp
  finally have b: "(prow n k + 2 * pcol n k + 1) mod n = ?r" by simp
  show ?thesis unfolding idx_def a b using div_mult_mod_eq[of k n] by simp
qed

lemma place_range: "0 < n \<Longrightarrow> 0 \<le> prow n k \<and> prow n k < n \<and> 0 \<le> pcol n k \<and> pcol n k < n"
  by (simp add: prow_def pcol_def)

text \<open>The moves of the method.\<close>

lemma place_next:
  assumes "0 < n" and "k mod n \<noteq> n - 1"
  shows "prow n (k + 1) = (prow n k - 1 + n) mod n" and "pcol n (k + 1) = (pcol n k + 1) mod n"
proof -
  have m: "0 \<le> k mod n" "k mod n + 1 < n" using assms pos_mod_bound[OF assms(1), of k] by (simp_all add: order_less_le)
  have "k + 1 = k div n * n + (k mod n + 1)" using div_mult_mod_eq[of k n] by simp
  moreover have "(k mod n + 1) div n = 0" "(k mod n + 1) mod n = k mod n + 1" using m by simp_all
  ultimately have s: "(k + 1) div n = k div n" "(k + 1) mod n = k mod n + 1"
    using assms(1) by (metis add.commute add_0_right div_mult_self3 less_numeral_extra(3), metis mod_mult_self3)
  show "prow n (k + 1) = (prow n k - 1 + n) mod n" "pcol n (k + 1) = (pcol n k + 1) mod n"
    unfolding prow_def pcol_def s mod_step by (simp_all add: algebra_simps)
qed

lemma place_down:
  assumes "0 < n" and "k mod n = n - 1"
  shows "prow n (k + 1) = (prow n k + 1) mod n" and "pcol n (k + 1) = pcol n k"
    and "(prow n k - 1 + n) mod n = prow n (k div n * n)" and "(pcol n k + 1) mod n = pcol n (k div n * n)"
proof -
  have "k + 1 = (k div n + 1) * n" using div_mult_mod_eq[of k n] assms(2) by (simp add: algebra_simps)
  then have s: "(k + 1) div n = k div n + 1" "(k + 1) mod n = 0" using assms(1) by (metis nonzero_mult_div_cancel_right less_irrefl, metis mod_mult_self2_is_0)
  have "(2 * (k div n + 1) - 0) mod n = (2 * (k div n) - (n - 1) + 1) mod n" "(n div 2 - (k div n + 1) + 0) mod n = (n div 2 - k div n + (n - 1)) mod n"
    by (rule mod_eqI[of _ _ _ 1], simp, rule mod_eqI[of _ _ _ "- 1"], simp)
  then show "prow n (k + 1) = (prow n k + 1) mod n" "pcol n (k + 1) = pcol n k" unfolding prow_def pcol_def s assms(2) mod_step by simp_all
  have "(2 * (k div n) - (n - 1) - 1) mod n = (2 * (k div n)) mod n" by (rule mod_eqI[of _ _ _ "- 1"]) simp
  moreover have "(n div 2 - k div n + (n - 1) + 1) mod n = (n div 2 - k div n) mod n" by (rule mod_eqI[of _ _ _ 1]) simp
  ultimately show "(prow n k - 1 + n) mod n = prow n (k div n * n)" "(pcol n k + 1) mod n = pcol n (k div n * n)"
    unfolding prow_def pcol_def assms(2) mod_step using assms(1) by simp_all
qed

subsection \<open>The loop\<close>

definition shape :: "int \<Rightarrow> int list list \<Rightarrow> bool" where
  "shape n m \<longleftrightarrow> length m = nat n \<and> (\<forall>r\<in>set m. length r = nat n)"

definition filled :: "int \<Rightarrow> int \<Rightarrow> int list list \<Rightarrow> bool" where
  "filled n k m \<longleftrightarrow> shape n m \<and> (\<forall>i\<in>{0..<n}. \<forall>j\<in>{0..<n}. cell m i j = (if idx n i j < k then idx n i j + 1 else 0))"

lemma set_cell_shape:
  assumes "shape n m" and "i \<in> {0..<n}" and "j \<in> {0..<n}"
  shows "shape n (set_cell i j v m)"
    and "a \<in> {0..<n} \<Longrightarrow> b \<in> {0..<n} \<Longrightarrow> cell (set_cell i j v m) a b = (if a = i \<and> b = j then v else cell m a b)"
proof -
  have l: "length m = nat n" "\<forall>r\<in>set m. length r = nat n" using assms(1) by (auto simp: shape_def)
  have "length (m ! nat a) = nat n" if "a \<in> {0..<n}" for a using l that by (simp add: nat_less_iff)
  then show "shape n (set_cell i j v m)" "a \<in> {0..<n} \<Longrightarrow> b \<in> {0..<n} \<Longrightarrow> cell (set_cell i j v m) a b = (if a = i \<and> b = j then v else cell m a b)"
    using l assms(2,3) by (auto simp: shape_def set_cell_def cell_def nth_list_update nat_less_iff nat_eq_iff dest!: set_update_subset_insert[THEN subsetD])
qed

lemma filled_step:
  assumes n: "0 < n" "odd n" and f: "filled n k m" and k: "0 \<le> k" "k < n * n"
  shows "filled n (k + 1) (set_cell (prow n k) (pcol n k) (k + 1) m)"
proof -
  have pr: "prow n k \<in> {0..<n}" "pcol n k \<in> {0..<n}" using place_range[OF n(1), of k] by simp_all
  have f': "shape n m" "\<And>i j. i \<in> {0..<n} \<Longrightarrow> j \<in> {0..<n} \<Longrightarrow> cell m i j = (if idx n i j < k then idx n i j + 1 else 0)" using f by (auto simp: filled_def)
  note sc = set_cell_shape[OF f'(1) pr]
  have "cell (set_cell (prow n k) (pcol n k) (k + 1) m) i j = (if idx n i j < k + 1 then idx n i j + 1 else 0)" if i: "i \<in> {0..<n}" and j: "j \<in> {0..<n}" for i j
  proof (cases "i = prow n k \<and> j = pcol n k")
    case True
    then show ?thesis using sc(2)[OF i j] idx_place[OF n k] by simp
  next
    case False
    then have "idx n i j \<noteq> k" using place_idx[OF n, of i j] i j by auto
    then show ?thesis using sc(2)[OF i j] f'(2)[OF i j] False by auto
  qed
  then show ?thesis using sc(1) by (simp add: filled_def)
qed

lemma siamese_step:
  assumes n: "0 < n" "odd n" and f: "filled n k m" and k: "0 \<le> k" "k < n * n"
  shows "siamese n (k + 1) (prow n k) (pcol n k) m = siamese n (k + 1 + 1) (prow n (k + 1)) (pcol n (k + 1)) (set_cell (prow n k) (pcol n k) (k + 1) m)"
proof -
  let ?m = "set_cell (prow n k) (pcol n k) (k + 1) m" and ?r = "(prow n k - 1 + n) mod n" and ?c = "(pcol n k + 1) mod n"
  have pr: "0 \<le> prow n k" "prow n k < n" "0 \<le> pcol n k" "pcol n k < n" using place_range[OF n(1), of k] by simp_all
  have sm: "(prow n k - 1 + n) smod n = ?r" "(pcol n k + 1) smod n = ?c" "(prow n k + 1) smod n = (prow n k + 1) mod n" using pr n by (simp_all add: smod_pos)
  have c: "cell ?m ?r ?c = (if idx n ?r ?c < k + 1 then idx n ?r ?c + 1 else 0)" using filled_step[OF n f k] n(1) by (simp add: filled_def)
  have "(if cell ?m ?r ?c \<noteq> 0 then ((prow n k + 1) mod n, pcol n k) else (?r, ?c)) = (prow n (k + 1), pcol n (k + 1))"
  proof (cases "k mod n = n - 1")
    case True
    note pd = place_down[OF n(1) True]
    have "k div n * n = k - (n - 1)" using div_mult_mod_eq[of k n] True by simp
    moreover have "0 \<le> k div n * n" using k(1) n(1) by (simp add: pos_imp_zdiv_nonneg_iff)
    ultimately have "idx n ?r ?c = k - (n - 1)" "0 \<le> k - (n - 1)" unfolding pd(3,4) using idx_place[OF n, of "k div n * n"] k(2) n(1) by simp_all
    then show ?thesis using c pd(1,2) n(1) by simp
  next
    case False
    note pn = place_next[OF n(1) False]
    have "k + 1 < n * n"
    proof -
      have "k div n < n" using zdiv_less[OF n(1) k(2)] .
      then have "k div n * n \<le> (n - 1) * n" using n(1) by (intro mult_right_mono) simp_all
      moreover have "k mod n < n - 1" using False pos_mod_bound[OF n(1), of k] by (simp add: order_less_le)
      moreover have "(n - 1) * n = n * n - n" by (simp add: algebra_simps)
      ultimately show ?thesis using div_mult_mod_eq[of k n] by linarith
    qed
    then have "idx n ?r ?c = k + 1" unfolding pn[symmetric] using idx_place[OF n, of "k + 1"] k(1) by simp
    then show ?thesis using c pn by simp
  qed
  then show ?thesis using k(2) sm by (subst siamese.simps) (simp add: Let_def split: if_splits prod.splits)
qed

lemma siamese_fills:
  assumes n: "0 < n" "odd n"
  shows "filled n k m \<Longrightarrow> 0 \<le> k \<Longrightarrow> k \<le> n * n \<Longrightarrow> filled n (n * n) (siamese n (k + 1) (prow n k) (pcol n k) m)"
proof (induction "nat (n * n - k)" arbitrary: k m)
  case 0
  then show ?case by (subst siamese.simps) simp
next
  case (Suc d)
  then have k: "k < n * n" by simp
  have "filled n (n * n) (siamese n (k + 1 + 1) (prow n (k + 1)) (pcol n (k + 1)) (set_cell (prow n k) (pcol n k) (k + 1) m))"
    using Suc.hyps(2) Suc.prems k by (intro Suc.hyps(1)[OF _ filled_step[OF n Suc.prems(1,2) k]]) simp_all
  then show ?case using siamese_step[OF n Suc.prems(1,2) k] by simp
qed

subsection \<open>The sums\<close>

lemma pair_sum:
  fixes f :: "int \<Rightarrow> int"
  assumes "\<And>i. i \<in> {0..<n} \<Longrightarrow> f i + f (n - 1 - i) = c"
  shows "0 \<le> n \<Longrightarrow> 2 * sum f {0..<n} = n * c"
proof -
  assume n: "0 \<le> n"
  have "sum (\<lambda>i. f (n - 1 - i)) {0..<n} = sum f {0..<n}"
    by (rule sum.reindex_bij_witness[of _ "\<lambda>i. n - 1 - i" "\<lambda>i. n - 1 - i"]) auto
  then have "2 * sum f {0..<n} = sum (\<lambda>i. f i + f (n - 1 - i)) {0..<n}" by (simp add: sum.distrib)
  also have "\<dots> = n * c" using assms n by simp
  finally show ?thesis .
qed

lemma mod_perm_sum:
  fixes n a c :: int
  assumes "0 < n" and "coprime a n"
  shows "2 * (\<Sum>j\<in>{0..<n}. (a * j + c) mod n) = n * (n - 1)"
proof -
  let ?g = "\<lambda>j. (a * j + c) mod n"
  have inj: "inj_on ?g {0..<n}"
  proof (rule inj_onI)
    fix x y assume xy: "x \<in> {0..<n}" "y \<in> {0..<n}" "?g x = ?g y"
    then have "n dvd a * (x - y)" using mod_eq_dvd_iff[of "a * x + c" n "a * y + c"] by (simp add: algebra_simps)
    then have "n dvd x - y" using assms(2) by (simp add: coprime_commute coprime_dvd_mult_right_iff)
    then have "x mod n = y mod n" by (simp add: mod_eq_dvd_iff)
    then show "x = y" using xy by simp
  qed
  have "?g ` {0..<n} = {0..<n}" using assms(1) by (intro endo_inj_surj inj) auto
  then have "(\<Sum>j\<in>{0..<n}. ?g j) = \<Sum>{0..<n}" using sum.reindex[OF inj, of "\<lambda>x. x"] by simp
  moreover have "2 * \<Sum>{0..<n} = n * (n - 1)" using assms(1) by (intro pair_sum) auto
  ultimately show ?thesis by simp
qed

lemma mod_complement:
  assumes "0 < n" and "(a + b + 1) mod n = (0 :: int)"
  shows "a mod n + b mod n = n - 1"
proof -
  have "(a mod n + b mod n + 1) mod n = (a + b + 1) mod n"
    by (rule mod_eqI[of _ _ _ "- (a div n) - b div n"]) (simp add: minus_mult_div_eq_mod[symmetric] algebra_simps)
  then have "n dvd a mod n + b mod n + 1" using assms(2) by (simp add: dvd_eq_mod_eq_0)
  then obtain t where t: "a mod n + b mod n + 1 = n * t" by blast
  have r: "0 \<le> a mod n" "a mod n < n" "0 \<le> b mod n" "b mod n < n" using assms(1) by simp_all
  have "0 < n * t" "n * t < n * 2" using t r by linarith+
  then have "t = 1" using assms(1) by (simp add: zero_less_mult_iff)
  then show ?thesis using t by simp
qed

lemma idx_complement:
  assumes "0 < n" and "odd n"
  shows "idx n i j + idx n (n - 1 - i) (n - 1 - j) = n * n - 1"
proof -
  note h = odd_half[OF assms(2)]
  have e: "i + j - n div 2 + (n - 1 - i + (n - 1 - j) - n div 2) + 1 = n" "i + 2 * j + 1 + (n - 1 - i + 2 * (n - 1 - j) + 1) + 1 = n * 3" using h by simp_all
  have "(i + j - n div 2) mod n + (n - 1 - i + (n - 1 - j) - n div 2) mod n = n - 1" by (rule mod_complement[OF assms(1)], unfold e) simp
  moreover have "(i + 2 * j + 1) mod n + (n - 1 - i + 2 * (n - 1 - j) + 1) mod n = n - 1" by (rule mod_complement[OF assms(1)], unfold e) simp
  ultimately have "((i + j - n div 2) mod n + (n - 1 - i + (n - 1 - j) - n div 2) mod n) * n + ((i + 2 * j + 1) mod n + (n - 1 - i + 2 * (n - 1 - j) + 1) mod n) = (n - 1) * n + (n - 1)"
    by simp
  then show ?thesis unfolding idx_def by (simp add: algebra_simps)
qed

lemma idx_line_sum:
  fixes a b c d n :: int
  assumes "0 < n" and "coprime a n" and "coprime b n" and "\<And>t. t \<in> {0..<n} \<Longrightarrow> f t = (a * t + c) mod n * n + (b * t + d) mod n + 1"
  shows "2 * sum f {0..<n} = n * (n * n + 1)"
proof -
  have "sum f {0..<n} = (\<Sum>t\<in>{0..<n}. (a * t + c) mod n) * n + (\<Sum>t\<in>{0..<n}. (b * t + d) mod n) + n"
    using assms(1,4) by (simp add: sum.distrib sum_distrib_right)
  then have "2 * sum f {0..<n} = 2 * (\<Sum>t\<in>{0..<n}. (a * t + c) mod n) * n + 2 * (\<Sum>t\<in>{0..<n}. (b * t + d) mod n) + 2 * n" by simp
  then show ?thesis unfolding mod_perm_sum[OF assms(1,2)] mod_perm_sum[OF assms(1,3)] by (simp add: algebra_simps)
qed

subsection \<open>The generated square\<close>

text \<open>Every number from 1 to \<open>n * n\<close> once, and the same sum in each row, column and diagonal.\<close>

definition magic :: "int \<Rightarrow> int list list \<Rightarrow> bool" where
  "magic n m \<longleftrightarrow> shape n m
     \<and> bij_betw (\<lambda>(i, j). cell m i j) ({0..<n} \<times> {0..<n}) {1..n * n}
     \<and> (\<forall>i\<in>{0..<n}. 2 * (\<Sum>j\<in>{0..<n}. cell m i j) = n * (n * n + 1))
     \<and> (\<forall>j\<in>{0..<n}. 2 * (\<Sum>i\<in>{0..<n}. cell m i j) = n * (n * n + 1))
     \<and> 2 * (\<Sum>i\<in>{0..<n}. cell m i i) = n * (n * n + 1)
     \<and> 2 * (\<Sum>i\<in>{0..<n}. cell m i (n - 1 - i)) = n * (n * n + 1)"

lemma idx_bij:
  assumes "0 < n" and "odd n"
  shows "bij_betw (\<lambda>(i, j). idx n i j + 1) ({0..<n} \<times> {0..<n}) {1..n * n}"
proof (rule bij_betw_byWitness[where f' = "\<lambda>v. (prow n (v - 1), pcol n (v - 1))"])
  show "(\<lambda>(i, j). idx n i j + 1) ` ({0..<n} \<times> {0..<n}) \<subseteq> {1..n * n}"
  proof
    fix v assume "v \<in> (\<lambda>(i, j). idx n i j + 1) ` ({0..<n} \<times> {0..<n})"
    then obtain i j where "v = idx n i j + 1" by auto
    then show "v \<in> {1..n * n}" using idx_range[OF assms(1), of i j] by simp
  qed
  show "(\<lambda>v. (prow n (v - 1), pcol n (v - 1))) ` {1..n * n} \<subseteq> {0..<n} \<times> {0..<n}" using place_range[OF assms(1)] by auto
qed (use place_idx[OF assms] idx_place[OF assms] in auto)

lemma filled_magic:
  assumes n: "0 < n" "odd n" and "filled n (n * n) m"
  shows "magic n m"
proof -
  have c: "cell m i j = idx n i j + 1" if "i \<in> {0..<n}" "j \<in> {0..<n}" for i j
    using assms(3) that idx_range(2)[OF n(1), of i j] by (simp add: filled_def)
  have two: "coprime 2 n" using n(2) by simp
  have rows: "2 * (\<Sum>j\<in>{0..<n}. cell m i j) = n * (n * n + 1)" if "i \<in> {0..<n}" for i
    using that c by (intro idx_line_sum[OF n(1), of 1 2 _ "i - n div 2" "i + 1"] two) (simp_all add: idx_def algebra_simps)
  have cols: "2 * (\<Sum>i\<in>{0..<n}. cell m i j) = n * (n * n + 1)" if "j \<in> {0..<n}" for j
    using that c by (intro idx_line_sum[OF n(1), of 1 1 _ "j - n div 2" "2 * j + 1"]) (simp_all add: idx_def algebra_simps)
  have sym: "cell m i j + cell m (n - 1 - i) (n - 1 - j) = n * n + 1" if "i \<in> {0..<n}" "j \<in> {0..<n}" for i j
    using that c[OF that] c[of "n - 1 - i" "n - 1 - j"] idx_complement[OF n, of i j] by simp
  have diag: "2 * (\<Sum>i\<in>{0..<n}. cell m i i) = n * (n * n + 1)" using sym n(1) by (intro pair_sum) simp_all
  have anti: "2 * (\<Sum>i\<in>{0..<n}. cell m i (n - 1 - i)) = n * (n * n + 1)"
  proof (rule pair_sum)
    show "cell m i (n - 1 - i) + cell m (n - 1 - i) (n - 1 - (n - 1 - i)) = n * n + 1" if "i \<in> {0..<n}" for i using sym[of i "n - 1 - i"] that by simp
  qed (use n in simp)
  have "bij_betw (\<lambda>(i, j). cell m i j) ({0..<n} \<times> {0..<n}) {1..n * n}"
    using idx_bij[OF n] by (rule bij_betw_cong[THEN iffD1, rotated]) (auto simp: c)
  then show ?thesis using assms(3) rows cols diag anti by (simp add: magic_def filled_def)
qed

lemma alloc_rows_ok:
  "(\<forall>b<length rows + k + 2. ok b) \<Longrightarrow> alloc_rows ok n k rows live = Go (rows @ replicate k (replicate n 0), live \<union> (\<lambda>j. j + 2) ` {length rows..<length rows + k})"
proof (induction k arbitrary: rows live)
  case (Suc k)
  have "{length rows..<length rows + Suc k} = insert (length rows) {Suc (length rows)..<Suc (length rows) + k}" by auto
  then show ?case using Suc.IH[of "rows @ [replicate n 0]"] Suc.prems by (simp add: Let_def replicate_append_same[symmetric])
qed simp

lemma alloc_rows_fail:
  "\<exists>i. length rows \<le> i \<and> i < length rows + k \<and> \<not> ok (i + 2) \<Longrightarrow> live = {0, 1} \<union> (\<lambda>j. j + 2) ` {..<length rows} \<Longrightarrow> \<exists>msg. alloc_rows ok n k rows live = Exit msg {}"
proof (induction k arbitrary: rows live)
  case (Suc k)
  show ?case
  proof (cases "ok (length rows + 2)")
    case True
    have "insert (length rows + 2) live = {0, 1} \<union> (\<lambda>j. j + 2) ` {..<length (rows @ [replicate n 0])}" using Suc.prems(2) by (auto simp: less_Suc_eq)
    moreover have "\<exists>i. length (rows @ [replicate n 0]) \<le> i \<and> i < length (rows @ [replicate n 0]) + k \<and> \<not> ok (i + 2)"
      using Suc.prems(1) True by (metis Suc_leI add_Suc_shift le_neq_implies_less length_append_singleton)
    ultimately show ?thesis using Suc.IH[of "rows @ [replicate n 0]"] True by (simp add: Let_def)
  next
    case False
    then show ?thesis using Suc.prems(2) by (auto simp: Let_def)
  qed
qed auto

text \<open>
  (C36) For every odd size of at least 3 (for which \<open>n * n\<close> fits in an \<open>int\<close>) the generator ends with a
  magic square, each number from 1 to \<open>n * n\<close> once and equal sums in every row, column and diagonal,
  or, when an allocation fails, exits having freed everything it had allocated.
\<close>

theorem generated_square_magic:
  assumes "odd n" and "3 \<le> n" and "n \<le> 46340"
  shows "if \<forall>b<nat n + 2. ok b
         then \<exists>ms live. generateMagicSquare ok n = Go (ms, live) \<and> msize ms = n \<and> magic n (magic_square ms)
         else \<exists>msg. generateMagicSquare ok n = Exit msg {}"
proof (cases "\<forall>b<nat n + 2. ok b")
  case True
  let ?m = "replicate (nat n) (replicate (nat n) 0)"
  have n: "0 < n" using assms(2) by simp
  have "\<not> idx n i j < 0" for i j using idx_range(1)[OF n, of i j] by simp
  then have "filled n 0 ?m" using n by (auto simp: filled_def shape_def cell_def)
  then have "filled n (n * n) (siamese n (0 + 1) (prow n 0) (pcol n 0) ?m)" by (rule siamese_fills[OF n assms(1)]) simp_all
  moreover have "prow n 0 = 0" "pcol n 0 = n sdiv 2" using n by (simp_all add: prow_def pcol_def sdiv_pos)
  ultimately have "magic n (siamese n 1 0 (n sdiv 2) ?m)" using filled_magic[OF n assms(1)] by simp
  then show ?thesis using True alloc_rows_ok[of "[]" "nat n" ok "nat n" "{0, 1}"] by (simp add: generateMagicSquare_def)
next
  case False
  then obtain b where b: "b < nat n + 2" "\<not> ok b" by blast
  have "\<exists>msg. generateMagicSquare ok n = Exit msg {}"
  proof (cases "ok 0 \<and> ok 1")
    case True
    then have "2 \<le> b" using b(2) by (metis One_nat_def less_2_cases not_less)
    then have "\<exists>i. length [] \<le> i \<and> i < length [] + nat n \<and> \<not> ok (i + 2)" using b le_add_diff_inverse2[of 2 b] by (intro exI[of _ "b - 2"]) (simp add: less_diff_conv2)
    then show ?thesis using True alloc_rows_fail[of "[]" "nat n" ok "{0, 1}" "nat n"] by (auto simp: generateMagicSquare_def)
  qed (auto simp: generateMagicSquare_def)
  then show ?thesis using False by (simp only: if_False)
qed

theorem generated_square_magic_witness:
  "\<exists>ms live. generateMagicSquare (\<lambda>_. True) 5 = Go (ms, live) \<and> msize ms = 5 \<and> magic 5 (magic_square ms)"
  using generated_square_magic[of 5 "\<lambda>_. True"] by simp

end
