(* ===== verification/Sudoku.thy ===== *)
theory Sudoku
  imports Magic_Square
begin

text \<open>
  The Sudoku checker (check_sudoku_board.c): reading the board with \<open>getline\<close>, \<open>strtok\<close> and
  \<open>atoi\<close>, and the check of rows and columns. The file is the list of its lines, each with its
  newline. Passing a null pointer to \<open>atoi\<close> and indexing \<open>seen\<close> outside its ten cells are the result
  \<open>Undefined\<close>.
\<close>

subsection \<open>The program\<close>

text \<open>What the program printed and its exit status.\<close>

datatype checked = Printed string int | Undefined

definition strtok :: "string \<Rightarrow> (string \<times> string) option" where
  "strtok s =
     (let s1 = dropWhile (\<lambda>c. c = CHR '','') s in
      if s1 = [] then None
      else Some (takeWhile (\<lambda>c. c \<noteq> CHR '','') s1, drop 1 (dropWhile (\<lambda>c. c \<noteq> CHR '','') s1)))"

definition is_space :: "char \<Rightarrow> bool" where
  "is_space c \<longleftrightarrow> c \<in> {CHR '' '', CHR 0x09, CHR 0x0A, CHR 0x0B, CHR 0x0C, CHR 0x0D}"

definition digit :: "char \<Rightarrow> int" where
  "digit c = int (of_char c) - 48"

definition is_digit :: "char \<Rightarrow> bool" where
  "is_digit c \<longleftrightarrow> 0 \<le> digit c \<and> digit c \<le> 9"

definition atoi_digits :: "string \<Rightarrow> int" where
  "atoi_digits s = foldl (\<lambda>a c. 10 * a + digit c) 0 (takeWhile is_digit s)"

definition atoi :: "string \<Rightarrow> int" where
  "atoi s =
     (case dropWhile is_space s of
        [] \<Rightarrow> 0
      | c # cs \<Rightarrow> (if c = CHR ''-'' then - atoi_digits cs else if c = CHR ''+'' then atoi_digits cs else atoi_digits (c # cs)))"

text \<open>One row or one column: \<open>None\<close> when \<open>seen\<close> is indexed out of bounds.\<close>

fun scan_line :: "int list \<Rightarrow> bool list \<Rightarrow> bool option" where
  "scan_line [] seen = Some True"
| "scan_line (v # vs) seen =
     (if v \<noteq> 0
      then if v < 0 \<or> 10 \<le> v then None
           else if seen ! nat v then Some False
           else scan_line vs (seen[nat v := True])
      else scan_line vs seen)"

fun scan_lines :: "int list list \<Rightarrow> bool option" where
  "scan_lines [] = Some True"
| "scan_lines (l # ls) =
     (case scan_line l (replicate 10 False) of
        None \<Rightarrow> None
      | Some False \<Rightarrow> Some False
      | Some True \<Rightarrow> scan_lines ls)"

definition valid_sudoku_board :: "int list list \<Rightarrow> nat \<Rightarrow> bool option" where
  "valid_sudoku_board board n =
     (case scan_lines (map (\<lambda>i. map (\<lambda>j. board ! i ! j) [0..<n]) [0..<n]) of
        Some True \<Rightarrow> scan_lines (map (\<lambda>j. map (\<lambda>i. board ! i ! j) [0..<n]) [0..<n])
      | r \<Rightarrow> r)"

datatype 'a got = Line_error | Null | Got 'a

definition get_board_size :: "string list \<Rightarrow> (int \<times> string list) got" where
  "get_board_size ls =
     (case ls of
        [] \<Rightarrow> Line_error
      | line # ls \<Rightarrow> (case strtok line of None \<Rightarrow> Null | Some (size_chars, _) \<Rightarrow> Got (atoi size_chars, ls)))"

text \<open>The cells of one line from the token in hand on, and the rows of the board.\<close>

fun read_cells :: "nat \<Rightarrow> (string \<times> string) option \<Rightarrow> int list option" where
  "read_cells 0 token = Some []"
| "read_cells (Suc k) None = None"
| "read_cells (Suc k) (Some (token, rest)) = map_option (Cons (atoi token)) (read_cells k (strtok rest))"

fun read_rows :: "nat \<Rightarrow> nat \<Rightarrow> string list \<Rightarrow> int list list got" where
  "read_rows n 0 ls = Got []"
| "read_rows n (Suc k) [] = Line_error"
| "read_rows n (Suc k) (line # ls) =
     (case read_cells n (strtok line) of
        None \<Rightarrow> Null
      | Some row \<Rightarrow> (case read_rows n k ls of Got rows \<Rightarrow> Got (row # rows) | e \<Rightarrow> e))"

text \<open>
  The main program; \<open>fp\<close> is the file, or \<open>None\<close> when it cannot be opened, and \<open>ok i\<close> whether the
  allocation of the array (0) and of row \<open>i\<close> (\<open>i + 1\<close>) succeeds.
\<close>

definition sudoku_main :: "int \<Rightarrow> string list option \<Rightarrow> (nat \<Rightarrow> bool) \<Rightarrow> bool \<Rightarrow> checked" where
  "sudoku_main argc fp ok close_ok =
     (if argc \<noteq> 2 then Printed ''Usage: ./check_sudoku_board <input_filename>'' 1
      else case fp of
        None \<Rightarrow> Printed ''Can't open file for reading.'' 1
      | Some ls \<Rightarrow>
          (case get_board_size ls of
             Line_error \<Rightarrow> Printed ''Error reading the input file.'' 1
           | Null \<Rightarrow> Undefined
           | Got (sz, ls) \<Rightarrow>
               (if sz < 1 \<or> sz > 9 then Printed ''invalid'' 0
                else if \<exists>i\<in>{..nat sz}. \<not> ok i then Printed ''malloc failed'' 1
                else case read_rows (nat sz) (nat sz) ls of
                  Line_error \<Rightarrow> Printed ''Error while reading line'' 1
                | Null \<Rightarrow> Undefined
                | Got board \<Rightarrow>
                    (case valid_sudoku_board board (nat sz) of
                       None \<Rightarrow> Undefined
                     | Some b \<Rightarrow>
                         let out = (if b then ''valid'' else ''invalid'')
                         in if close_ok then Printed out 0 else Printed (out @ ''Error while closing the file.'') 1))))"

subsection \<open>Reading back what was printed\<close>

lemma of_char_digit: "k < 10 \<Longrightarrow> of_char (char_of (48 + k) :: char) = (48 + k :: nat)"
  by simp

lemma digits_ok: "(\<forall>c\<in>set (digits k). is_digit c) \<and> foldl (\<lambda>a c. 10 * a + digit c) 0 (digits k) = int k \<and> digits k \<noteq> []"
proof (induction k rule: digits.induct)
  case (1 k)
  have last: "is_digit (char_of (48 + k mod 10))" "digit (char_of (48 + k mod 10)) = int (k mod 10)" using of_char_digit[of "k mod 10"] by (simp_all add: is_digit_def digit_def)
  show ?case
  proof (cases "k < 10")
    case True
    then show ?thesis using last by (simp add: digits.simps[of k])
  next
    case False
    have "10 * int (k div 10) + int (k mod 10) = int k" by presburger
    then show ?thesis using 1[OF False] last False by (simp add: digits.simps[of k])
  qed
qed

lemma digit_not: "is_digit c \<Longrightarrow> c \<noteq> CHR '','' \<and> c \<noteq> CHR ''-'' \<and> c \<noteq> CHR ''+'' \<and> \<not> is_space c"
  by (auto simp: is_digit_def digit_def is_space_def)

lemma atoi_digits_print: "r = [] \<or> \<not> is_digit (hd r) \<Longrightarrow> atoi_digits (digits k @ r) = int k"
proof -
  assume "r = [] \<or> \<not> is_digit (hd r)"
  then have "takeWhile is_digit r = []" by (cases r) auto
  then have "takeWhile is_digit (digits k @ r) = digits k" using digits_ok[of k] by (simp add: takeWhile_append2)
  then show ?thesis using digits_ok[of k] by (simp add: atoi_digits_def)
qed

lemma atoi_print: "r = [] \<or> \<not> is_digit (hd r) \<Longrightarrow> atoi (print_int v @ r) = v"
proof -
  assume r: "r = [] \<or> \<not> is_digit (hd r)"
  show ?thesis
  proof (cases "v < 0")
    case True
    then show ?thesis using atoi_digits_print[OF r, of "nat (- v)"] by (simp add: atoi_def print_int_def is_space_def)
  next
    case False
    obtain c cs where d: "digits (nat v) = c # cs" using digits_ok[of "nat v"] by (cases "digits (nat v)") auto
    then have "is_digit c" using digits_ok[of "nat v"] by auto
    then show ?thesis using d False atoi_digits_print[OF r, of "nat v"] digit_not[of c] by (simp add: atoi_def print_int_def)
  qed
qed

lemma print_int_chars: "c \<in> set (print_int v) \<Longrightarrow> c \<noteq> CHR '',''" "print_int v \<noteq> []"
  using digits_ok[of "nat v"] digits_ok[of "nat (- v)"] digit_not by (auto simp: print_int_def split: if_splits)

lemma strtok_print: "(\<And>c. c \<in> set r \<Longrightarrow> c \<noteq> CHR '','') \<Longrightarrow> strtok (print_int v @ r) = Some (print_int v @ r, [])"
  and strtok_print_comma: "strtok (print_int v @ '','' @ s) = Some (print_int v, s)"
proof -
  obtain c cs where p: "print_int v = c # cs" using print_int_chars(2) by (cases "print_int v") auto
  have nc: "\<forall>c\<in>set (print_int v). c \<noteq> CHR '',''" using print_int_chars(1) by blast
  then have d: "dropWhile (\<lambda>c. c = CHR '','') (print_int v @ t) = print_int v @ t" for t using p by simp
  have "takeWhile (\<lambda>c. c \<noteq> CHR '','') (print_int v @ '','' @ s) = print_int v" "dropWhile (\<lambda>c. c \<noteq> CHR '','') (print_int v @ '','' @ s) = '','' @ s"
    using nc by (simp_all add: takeWhile_append2 dropWhile_append2)
  then show "strtok (print_int v @ '','' @ s) = Some (print_int v, s)" using d[of "'','' @ s"] p by (simp only: strtok_def Let_def) simp
  assume "\<And>c. c \<in> set r \<Longrightarrow> c \<noteq> CHR '',''"
  then have nr: "\<forall>c\<in>set (print_int v @ r). c \<noteq> CHR '',''" using nc by auto
  then have "takeWhile (\<lambda>c. c \<noteq> CHR '','') (print_int v @ r) = print_int v @ r" "dropWhile (\<lambda>c. c \<noteq> CHR '','') (print_int v @ r) = []"
    unfolding takeWhile_eq_all_conv dropWhile_eq_Nil_conv by blast+
  then show "strtok (print_int v @ r) = Some (print_int v @ r, [])" using d[of r] p by (simp add: strtok_def)
qed

lemma read_print_row: "vs \<noteq> [] \<Longrightarrow> read_cells (length vs) (strtok (print_row vs)) = Some vs"
proof (induction vs rule: print_row.induct)
  case (2 v)
  have "\<not> is_digit (CHR 0x0A)" by (simp add: is_digit_def digit_def)
  then show ?case using strtok_print[of "[CHR 0x0A]" v] atoi_print[of "[CHR 0x0A]" v] by simp
next
  case (3 v w vs)
  then show ?case using strtok_print_comma[of v] atoi_print[of "[]" v] by simp
qed simp

lemma read_print_rows:
  "(\<forall>r\<in>set rows. length r = n) \<Longrightarrow> 0 < n \<Longrightarrow> read_rows n (length rows) (map print_row rows) = Got rows"
proof (induction rows)
  case (Cons r rows)
  then have "r \<noteq> []" by auto
  then show ?case using Cons read_print_row[of r] by simp
qed simp

subsection \<open>The check\<close>

text \<open>No digit twice; blanks are zero.\<close>

definition no_repeat :: "int list \<Rightarrow> bool" where
  "no_repeat vs \<longleftrightarrow> distinct (filter (\<lambda>v. v \<noteq> 0) vs)"

definition board_ok :: "int list list \<Rightarrow> nat \<Rightarrow> bool" where
  "board_ok b n \<longleftrightarrow> (\<forall>i<n. no_repeat (map (\<lambda>j. b ! i ! j) [0..<n])) \<and> (\<forall>j<n. no_repeat (map (\<lambda>i. b ! i ! j) [0..<n]))"

lemma scan_line_ok:
  "length seen = 10 \<Longrightarrow> \<forall>v\<in>set vs. 0 \<le> v \<and> v \<le> 9 \<Longrightarrow>
   scan_line vs seen = Some (no_repeat vs \<and> (\<forall>v\<in>set vs. v \<noteq> 0 \<longrightarrow> \<not> seen ! nat v))"
proof (induction vs arbitrary: seen)
  case (Cons v vs)
  show ?case
  proof (cases "v = 0 \<or> seen ! nat v")
    case True
    then show ?thesis using Cons by (auto simp: no_repeat_def)
  next
    case False
    have "(seen[nat v := True]) ! nat w \<longleftrightarrow> w = v \<or> seen ! nat w" if "w \<in> set vs" for w
      using that Cons.prems by (auto simp: nth_list_update nat_eq_iff split: if_splits)
    then show ?thesis using False Cons by (auto simp: no_repeat_def)
  qed
qed (simp add: no_repeat_def)

lemma scan_lines_ok:
  "\<forall>l\<in>set ls. \<forall>v\<in>set l. 0 \<le> v \<and> v \<le> 9 \<Longrightarrow> scan_lines ls = Some (\<forall>l\<in>set ls. no_repeat l)"
proof (induction ls)
  case (Cons l ls)
  have "\<not> (replicate 10 False) ! nat v" if "v \<in> set l" for v
  proof -
    have "v \<le> 9" using Cons.prems that by simp
    then have "nat v < 10" by linarith
    then show ?thesis by (simp only: nth_replicate) simp
  qed
  then have "scan_line l (replicate 10 False) = Some (no_repeat l)" using scan_line_ok[of "replicate 10 False" l] Cons.prems by auto
  then show ?case using Cons by (auto split: bool.splits)
qed simp

lemma valid_board_ok:
  assumes "length b = n" and "\<forall>r\<in>set b. length r = n" and "\<forall>r\<in>set b. \<forall>v\<in>set r. 0 \<le> v \<and> v \<le> 9"
  shows "valid_sudoku_board b n = Some (board_ok b n)"
proof -
  have v: "0 \<le> b ! i ! j \<and> b ! i ! j \<le> 9" if "i < n" "j < n" for i j
    using assms that by (metis nth_mem)
  have "scan_lines (map (\<lambda>i. map (\<lambda>j. b ! i ! j) [0..<n]) [0..<n]) = Some (\<forall>i<n. no_repeat (map (\<lambda>j. b ! i ! j) [0..<n]))"
    "scan_lines (map (\<lambda>j. map (\<lambda>i. b ! i ! j) [0..<n]) [0..<n]) = Some (\<forall>j<n. no_repeat (map (\<lambda>i. b ! i ! j) [0..<n]))"
    using v by (subst scan_lines_ok; auto)+
  then show ?thesis by (auto simp: valid_sudoku_board_def board_ok_def split: bool.splits)
qed



end
