(* ===== verification/Decode.thy ===== *)
theory Decode
  imports Prelude
begin

text \<open>
  The Caesar decoder (decode.c): the number of shifts from the login, the right shift of the lower
  case letters, and the reading of the two inputs with \<open>fgets\<close>. A \<open>char\<close> is signed, so a byte from
  128 on is negative; strings hold no null character.
\<close>

subsection \<open>The program\<close>

definition char_val :: "char \<Rightarrow> int" where
  "char_val c = (let k = int (of_char c) in if k < 128 then k else k - 256)"

definition calculate_shifts :: "string \<Rightarrow> int" where
  "calculate_shifts k =
     (let shifts = \<bar>foldl (\<lambda>shifts c. shifts XOR char_val c) 0 k smod 26\<bar>
      in if shifts = 0 then 1 else shifts)"

definition shift_char :: "int \<Rightarrow> char \<Rightarrow> char" where
  "shift_char shifts c =
     (if char_val c < 97 \<or> char_val c > 122 then c
      else char_of (nat ((char_val c - 97 + shifts) smod 26 + 97)))"

definition decode :: "string \<Rightarrow> string \<Rightarrow> string" where
  "decode cipher k = map (shift_char (calculate_shifts k)) cipher"

text \<open>\<open>fgets(str, n, fp)\<close> on what is left of the file.\<close>

definition fgets :: "nat \<Rightarrow> string \<Rightarrow> string option" where
  "fgets n s =
     (let l = take (n - 1) (takeWhile (\<lambda>c. c \<noteq> CHR 0x0A) s @ (if CHR 0x0A \<in> set s then [CHR 0x0A] else []))
      in if l = [] then None else Some l)"

definition chop_newline :: "string \<Rightarrow> string" where
  "chop_newline s = (if last s = CHR 0x0A then butlast s else s)"

definition read_cipher_file :: "string option \<Rightarrow> string + string" where
  "read_cipher_file fp =
     (case fp of
        None \<Rightarrow> Inl ''Cannot open file for reading.''
      | Some s \<Rightarrow> (case fgets 1000 s of None \<Rightarrow> Inl ''Error reading cipher text file.'' | Some l \<Rightarrow> Inr (chop_newline l)))"

definition get_login_key :: "string \<Rightarrow> string + string" where
  "get_login_key stdin = (case fgets 50 stdin of None \<Rightarrow> Inl ''Error reading user input.'' | Some l \<Rightarrow> Inr (chop_newline l))"

text \<open>The main program: the error it exits with, or the cipher text and the plain text it prints.\<close>

definition decode_main :: "string option \<Rightarrow> string \<Rightarrow> string + string \<times> string" where
  "decode_main fp stdin =
     (case read_cipher_file fp of
        Inl e \<Rightarrow> Inl e
      | Inr cipher \<Rightarrow> (case get_login_key stdin of Inl e \<Rightarrow> Inl e | Inr k \<Rightarrow> Inr (cipher, decode cipher k)))"

subsection \<open>Decoding\<close>

text \<open>The encoder the program is meant to invert: a left shift by the same amount.\<close>

definition encode :: "string \<Rightarrow> string \<Rightarrow> string" where
  "encode plain k = map (shift_char (26 - calculate_shifts k)) plain"

lemma shifts_range: "1 \<le> calculate_shifts k \<and> calculate_shifts k \<le> 25"
proof -
  let ?x = "foldl (\<lambda>shifts c. shifts XOR char_val c) 0 k"
  have "- 26 < ?x smod 26" "?x smod 26 < 26" using smod_int_range[of 26 ?x] by auto
  then show ?thesis unfolding calculate_shifts_def Let_def by (smt (verit))
qed

lemma char_val_of: "0 \<le> v \<Longrightarrow> v < 128 \<Longrightarrow> char_val (char_of (nat v)) = v"
  by (simp add: char_val_def Let_def)

lemma char_of_val: "97 \<le> char_val c \<Longrightarrow> char_of (nat (char_val c)) = c"
proof -
  assume c: "97 \<le> char_val c"
  have "of_char c < (256 :: nat)" by (rule nat_of_char_less_256)
  then have "int (of_char c) - 256 < 0" by linarith
  moreover have "char_val c = (if int (of_char c) < 128 then int (of_char c) else int (of_char c) - 256)" by (simp only: char_val_def Let_def)
  ultimately have "char_val c = int (of_char c)" using c by presburger
  then show ?thesis by simp
qed

lemma shift_letter:
  assumes "97 \<le> char_val c" and "char_val c \<le> 122" and "0 \<le> s"
  shows "char_val (shift_char s c) = (char_val c - 97 + s) mod 26 + 97"
proof -
  have "(char_val c - 97 + s) smod 26 = (char_val c - 97 + s) mod 26" using assms by (simp add: smod_pos)
  moreover have "0 \<le> (char_val c - 97 + s) mod 26" "(char_val c - 97 + s) mod 26 < 26" by simp_all
  ultimately show ?thesis using assms(1,2) by (simp add: shift_char_def char_val_of)
qed

lemma shift_back:
  assumes "1 \<le> s" and "s \<le> 25"
  shows "shift_char s (shift_char (26 - s) c) = c"
proof (cases "char_val c < 97 \<or> char_val c > 122")
  case False
  let ?v = "char_val c - 97" and ?d = "shift_char (26 - s) c"
  have v: "0 \<le> ?v" "?v < 26" using False by simp_all
  have d: "char_val ?d = (?v + (26 - s)) mod 26 + 97" using shift_letter[of c "26 - s"] False assms by simp
  have r: "0 \<le> (?v + (26 - s)) mod 26" "(?v + (26 - s)) mod 26 < 26" by simp_all
  have "char_val (shift_char s ?d) = ((?v + (26 - s)) mod 26 + s) mod 26 + 97" using shift_letter[of ?d s] d r assms by simp
  also have "((?v + (26 - s)) mod 26 + s) mod 26 = (?v + 26) mod 26" by (simp add: mod_add_left_eq)
  also have "(?v + 26) mod 26 = ?v mod 26" by (rule mod_add_self2)
  also have "\<dots> = ?v" using v by (rule mod_pos_pos_trivial)
  finally have "char_val (shift_char s ?d) = char_val c" by simp
  then show ?thesis using char_of_val False by (metis not_less)
qed (simp add: shift_char_def)



end
