(* ===== verification/Spec2Isabelle.thy ===== *)
theory Spec2Isabelle
  imports Thread_Pool Bst_Threads Heap_Alloc Cache_Sim Proc_Steps Fs_Dirs Pipe Sh_Print Sudoku Decode
begin

text \<open>
  Verification of the systems programs of this repository: the xv6 kernel with memory mappings
  (directory \<^verbatim>\<open>xv6 wmap/solution\<close>), the thread pool and the concurrent search tree (threadpool.c,
  bst.c), and the stand-alone programs on memory, caches and text (p3Heap.c, csim.c,
  my_magic_square.c, check_sudoku_board.c, decode.c).

  \<^bold>\<open>The parts and how they interact.\<close> The kernel is a stack of components. The page allocator
  (kalloc.c) hands out physical pages; virtual memory (vm.c) builds page tables and address spaces
  from them; memory mappings (wmap.c) place regions in an address space, fill their pages when they
  are first touched, and write file pages back; processes (proc.c) own an address space, mappings and
  open files each, and the scheduler of every processor runs them. The disk is used through the buffer cache (bio.c);
  the log (log.c) makes the block updates of a system call atomic across crashes; the file system
  (fs.c) keeps its free map, inodes, files and directories in blocks that it reads through the cache
  and writes through the log. Pipes (pipe.c) are byte streams in one page. The byte routines
  (string.c, ulib.c) serve all of them. The shell (sh.c) is the program through which a user starts
  processes; it parses command lines. The other programs stand alone.

  \<^bold>\<open>Theories.\<close>
  \<^item> \<open>Prelude\<close>: machine types, the type \<open>outcome\<close> of code that returns, panics or never ends, lists
    linked through a memory, and the contract \<open>bounded_fifo\<close> of a bounded queue in a ring of slots.
    The contract is a locale; the thread pool's queue and the pipe's ring are its interpretations.
  \<^item> \<open>Kalloc\<close> (kalloc.c): the free list threaded through the pages, \<open>kalloc\<close>, \<open>kfree\<close>,
    \<open>kinit1\<close>, \<open>kinit2\<close>; the contract \<open>page_allocator\<close> that the clients rely on, interpreted on these
    operations; both phases of initialisation free every whole page exactly once.
  \<^item> \<open>Vm\<close> (vm.c): page tables in kernel memory, \<open>walkpgdir\<close>, \<open>mappages\<close>, \<open>setupkvm\<close>, \<open>allocuvm\<close>,
    \<open>deallocuvm\<close>, \<open>copyuvm\<close>, \<open>freevm\<close>, \<open>copyout\<close> and the others; \<open>allocuvm\<close> maps the whole new
    range to fresh zeroed pages or nothing.
  \<^item> \<open>Wmap\<close> (wmap.c and the struct proc of proc.h): every function of the file on the state \<open>world\<close>
    (processes, kernel memory, reference counts of open files, file system). \<open>Wmap_Regions\<close>: the
    invariant of the region list. \<open>Wmap_Calls\<close>: \<open>sys_wmap\<close>. \<open>Wmap_Pages\<close>: page faults and
    \<open>sys_wunmap\<close>. \<open>Wmap_Parts\<close>: \<open>sys_wpunmap\<close> and \<open>copy_maps\<close>. The lemmas say where a region is
    placed, which page a fault loads, which pages an unmapping frees, and that the regions stay in
    order and disjoint; and they show the wrap-around of \<open>sys_wpunmap\<close>.
  \<^item> \<open>Proc\<close> (proc.c, and the struct proc and enum procstate of proc.h): the process table on top of
    \<open>world\<close>, \<open>allocproc\<close>, \<open>fork\<close>, \<open>exit\<close>, \<open>wait\<close>, \<open>sleep\<close>, \<open>wakeup\<close>, \<open>kill\<close> and \<open>scheduler\<close>, cut at the sections
    under \<open>ptable.lock\<close>. \<open>Proc_Table\<close>: the invariant \<open>table_ok\<close> of processors, process numbers, the tree
    of processes and sleepers. \<open>Proc_Family\<close>: fork and exit keep it. \<open>Proc_Steps\<close>: the step relation
    \<open>pstep\<close> of all processors, that \<open>userinit\<close> starts it in a sound state, that it stays sound and
    loses no exit, what \<open>wait\<close> does on every branch, and the effect of \<open>kill(0)\<close>.
  \<^item> \<open>Bio\<close> (bio.c, the contract of \<open>iderw\<close>): buffers, their order of use, dirty buffers pinned in
    memory, and the disk with the list of the writes that reached it.
  \<^item> \<open>Log\<close> (log.c): \<open>begin_op\<close>, \<open>log_write\<close>, \<open>end_op\<close>, \<open>commit\<close>, \<open>initlog\<close>. \<open>Log_Crash\<close>,
    \<open>Log_Commit\<close>, \<open>Log_Atomic\<close>, \<open>Log_Props\<close>: a crash after any disk write followed by a boot leaves
    the updates of whole groups of calls; finished calls are durable; recovery is idempotent; one
    call alone returns; three full calls overrun the log.
  \<^item> \<open>Fs\<close> (fs.c): every function of the file. \<open>Fs_Blocks\<close>: what a reader sees inside a transaction
    and the block allocator. \<open>Fs_Map\<close>: the blocks of an inode and \<open>bmap\<close>. \<open>Fs_Files\<close>: the loops of
    \<open>readi\<close> and \<open>writei\<close>. \<open>Fs_Props\<close>: the inode on the disk, reading and writing a file as operations
    on a byte sequence. \<open>Fs_Dirs\<close>: path elements, directories as finite maps.
  \<^item> \<open>Pipe\<close> (pipe.c): the ring with 32-bit counters; any interleaving of readers and writers moves a
    byte stream.
  \<^item> \<open>Kstring\<close> (string.c, ulib.c, \<open>stosb\<close> and \<open>stosl\<close> of x86.h): memory and string routines over
    one byte memory with wrap-around pointers.
  \<^item> \<open>Sh\<close> (the parser of sh.c): tokens, \<open>parseline\<close>, \<open>parsepipe\<close>, \<open>parseredirs\<close>, \<open>parseblock\<close>,
    \<open>parseexec\<close>, \<open>nulterminate\<close> and \<open>parsecmd\<close>, and that every call returns. \<open>Sh_Parse\<close>: the strings that
    \<open>nulterminate\<close> cuts out of the buffer are the words of the text. \<open>Sh_Print\<close>: a printer that the
    parser inverts.
  \<^item> \<open>Thread_Pool\<close> (threadpool.c): the queue, creation with all failure paths, and the critical
    sections of workers, submitters and destroy as steps; exactly-once execution in order, absence
    of lost wake-ups, and the use of a freed pool by a blocked submitter.
  \<^item> \<open>Bst\<close> (bst.c): the operations cut at their lock requests, as steps of any number of threads.
    \<open>Bst_Tree\<close>: the heap as a tree. \<open>Bst_Locks\<close>: the invariant. \<open>Bst_Correct\<close>, \<open>Bst_Steps\<close>: every step
    keeps it and returns with the effect of the abstract set operation. \<open>Bst_Threads\<close>:
    linearizability, deadlock freedom, memory safety, destruction.
  \<^item> \<open>Heap_Alloc\<close> (p3Heap.c): headers and footers in memory refine best fit and coalescing on a list
    of blocks. \<open>Cache_Sim\<close> (csim.c): the simulator counts what a reference cache counts.
    \<open>Magic_Square\<close>, \<open>Sudoku\<close>, \<open>Decode\<close>: the programs of the same names, from their input text to
    their output.

  \<^bold>\<open>Conventions.\<close> A panic, an error exit and a call that never returns are values of the result
  (\<open>Panic\<close>, an error code, \<open>Diverge\<close>), so a statement that a call returns \<open>Ret\<close> excludes them.
  Integers are words of their width wherever the code can wrap them, and unbounded numbers with the
  reason in the theory where it cannot. What a program calls outside of this repository (malloc,
  pthreads, the C library's files) or from hardware is a parameter of the definitions.

  \<^bold>\<open>Bounds and fuel.\<close> Loops are structural or terminate by a measure, except these. The walk over
  the heap of p3Heap.c has as many rounds as the heap has bytes, more than it can have blocks; the
  walk over a list of regions has 17 rounds for at most 16 regions; the scheduler's scan visits each of
  the 64 slots at most once before it releases the lock, also when processes it resumes go back to
  sleep, and ends by that measure; the loops of vm.c over pages
  have one round for each page of the address space; \<open>bst_destroy\<close> has as many as there are nodes; the shell's recursive descent has four calls for each
  character and four more, because between two calls that do not consume a character there are at
  most three others. In each
  case running out is \<open>Diverge\<close> and the theorems show that it does not happen on a well-formed
  state. The string loops that look for a zero byte are partial functions whose theorems have the
  zero byte as a hypothesis.

  \<^bold>\<open>Not modelled.\<close> Loads of segment and page-table registers (\<open>seginit\<close>, \<open>switchkvm\<close>); the drivers
  and the boot code, which talk to hardware; the spinlocks below the critical sections and the interrupt
  flags that \<open>sched\<close> checks; \<open>procdump\<close>; trap and system call dispatch, and the argument fetching of sysfile.c and
  exec.c; formatted output; what the shell does with a parsed command, and the user programs; mkfs.c; the test programs; the
  exercise programs that only print, and the C++ programs that time matrix products.
\<close>

end
